(* ===== verification/Prelude.thy ===== *)
theory Prelude
  imports Main "HOL-Library.Word"
begin

text \<open>
  Shared vocabulary of the development: Go's fixed-width integers with their wrap-around
  written out, Go's time values, panics as values, and the generic list lemmas the component
  theories share.

  A Go integer is an \<open>int\<close>; every arithmetic expression of the source is
  wrapped to the width of its type. \<open>u64\<close> wraps to \<open>uint\<close>/\<open>uint64\<close>,
  \<open>i64\<close> to \<open>int\<close>/\<open>int64\<close>/\<open>time.Duration\<close> (the program is modelled on a 64-bit
  platform). Wrapping is a ring homomorphism, so one wrap around a whole expression of
  additions and subtractions stands for the wraps of its steps. The byte layer uses words.
\<close>

section \<open>Integers with wrap-around\<close>

named_theorems go_wrap \<open>wrapping an integer that is already in range\<close>

definition u64 :: "int \<Rightarrow> int" where
  "u64 x = x mod 2 ^ 64"

definition i64 :: "int \<Rightarrow> int" where
  "i64 x = (x + 2 ^ 63) mod 2 ^ 64 - 2 ^ 63"

text \<open>Sequence numbers below this limit convert between \<open>uint\<close> and \<open>int\<close> unchanged.\<close>

abbreviation int_lim :: int where
  "int_lim \<equiv> 9223372036854775808"

lemma u64_id [go_wrap]: "0 \<le> x \<Longrightarrow> x < 18446744073709551616 \<Longrightarrow> u64 x = x"
  by (simp add: u64_def)

lemma i64_id [go_wrap]: "- int_lim \<le> x \<Longrightarrow> x < int_lim \<Longrightarrow> i64 x = x"
  by (simp add: i64_def)

lemma u64_range: "0 \<le> u64 x \<and> u64 x < 18446744073709551616"
  by (simp add: u64_def)

lemma i64_range: "- int_lim \<le> i64 x \<and> i64 x < int_lim"
  by (simp add: i64_def)

lemma i64_i64_add: "i64 (i64 x + y) = i64 (x + y)"
proof -
  have "i64 x + y + 2 ^ 63 = (x + 2 ^ 63) mod 2 ^ 64 + y"
    by (simp add: i64_def)
  then have "(i64 x + y + 2 ^ 63) mod 2 ^ 64 = (x + 2 ^ 63 + y) mod 2 ^ 64"
    by (simp only: mod_add_left_eq)
  then show ?thesis
    by (simp add: i64_def ac_simps)
qed

lemma i64_0 [simp]: "i64 0 = 0"
  by (simp add: i64_def)

section \<open>Panics, errors and time\<close>

text \<open>
  A Go function that can panic returns \<open>Inl\<close> of the panic's message, otherwise
  \<open>Inr\<close> of its results.
\<close>

type_synonym 'a go = "string + 'a"

type_synonym byte = "8 word"

text \<open>
  \<open>time.Duration\<close> is a signed 64-bit number of nanoseconds. \<open>time.Time\<close> is the number of
  nanoseconds since Go's zero time (1 January of year 1, UTC), so \<open>IsZero\<close> is equality
  with 0; \<open>Sub\<close> saturates at the limits of \<open>time.Duration\<close>.
\<close>

type_synonym duration = int
type_synonym time = int

definition time_IsZero :: "time \<Rightarrow> bool" where
  "time_IsZero t \<longleftrightarrow> t = 0"

definition time_Sub :: "time \<Rightarrow> time \<Rightarrow> duration" where
  "time_Sub t u = max (- (2 ^ 63)) (min (2 ^ 63 - 1) (t - u))"

definition ns_Millisecond :: duration where
  "ns_Millisecond = 1000000"

definition ns_Second :: duration where
  "ns_Second = 1000000000"

text \<open>Go's integer division truncates towards zero.\<close>

definition go_div :: "int \<Rightarrow> int \<Rightarrow> int" where
  "go_div a b = sgn a * sgn b * (\<bar>a\<bar> div \<bar>b\<bar>)"

section \<open>Generic lemmas\<close>

lemma sorted_wrt_upt_lt: "sorted_wrt (<) [a..<b]"
  by (simp add: sorted_wrt_upt)

lemma filter_False_conv_all: "(\<And>x. x \<in> set xs \<Longrightarrow> \<not> P x) \<Longrightarrow> filter P xs = []"
  by (induction xs) auto

lemma foldl_invariant:
  assumes "I s" and "\<And>s x. I s \<Longrightarrow> x \<in> set xs \<Longrightarrow> I (f s x)"
  shows "I (foldl f s xs)"
  using assms by (induction xs arbitrary: s) auto

end
