(* ===== verification/Ranges.thy ===== *)
theory Ranges
  imports Prelude
begin

text \<open>
  \<open>sequence/sequence.go\<close> and \<open>sequence/range.go\<close>: sequence numbers, ranges of them, and
  \<open>RangeSet\<close>, a linked list of ranges kept in increasing order with a gap of at least one
  number between neighbours.

  A \<open>*RangeSet\<close> is the list of the \<open>Range\<close> values of its nodes from \<open>first\<close> on. The nodes
  of a set are reachable through that set only (every method copies the \<open>Range\<close> it stores),
  so an in-place update of a node is an update of the list. The loops over
  \<open>prev\<close>/\<open>curr\<close> are recursions over the list; what a loop body hands to
  \<open>result.union(_, nil)\<close> is returned as a list of ranges in the order of the calls.
\<close>

section \<open>Ranges\<close>

definition SequenceNone :: int where
  "SequenceNone = 0"

definition SequenceFirst :: int where
  "SequenceFirst = 1"

record Range =
  rng_seq :: int
  rng_len :: int

definition RangeLenUnsafe :: "int \<Rightarrow> int \<Rightarrow> Range" where
  "RangeLenUnsafe s n = \<lparr>rng_seq = s, rng_len = n\<rparr>"

definition RangeLen :: "int \<Rightarrow> int \<Rightarrow> Range go" where
  "RangeLen s n =
     (if s \<le> 0 then Inl ''range: seq zero is disallowed''
      else if n \<le> 0 then Inl ''range: must have length greater than zero''
      else Inr (RangeLenUnsafe s n))"

definition RangeInclusiveUnsafe :: "int \<Rightarrow> int \<Rightarrow> Range" where
  "RangeInclusiveUnsafe a b = RangeLenUnsafe a (i64 (i64 b - i64 a + 1))"

definition RangeInclusive :: "int \<Rightarrow> int \<Rightarrow> Range go" where
  "RangeInclusive a b =
     (if a \<le> 0 then Inl ''range: seqFrom zero is disallowed''
      else let n = i64 (i64 b - i64 a + 1)
      in if n \<le> 0 then Inl ''range: seqFrom must be less than seqTo''
      else Inr (RangeLenUnsafe a n))"

definition From :: "Range \<Rightarrow> int" where
  "From r = rng_seq r"

definition To :: "Range \<Rightarrow> int" where
  "To r = u64 (rng_seq r + u64 (rng_len r) - 1)"

definition Range_Len :: "Range \<Rightarrow> int" where
  "Range_Len r = rng_len r"

definition Range_In :: "Range \<Rightarrow> int \<Rightarrow> bool" where
  "Range_In r s \<longleftrightarrow> s \<ge> rng_seq r \<and> s < u64 (rng_seq r + u64 (rng_len r))"

section \<open>Range sets\<close>

type_synonym RangeSet = "Range list"

text \<open>
  The inner loop of \<open>union\<close>, entered with the upper overlap already positive: while the added
  range reaches the next node, that node is merged into \<open>curr\<close>. It returns \<open>curr\<close>, the
  remaining overlap, the nodes after \<open>curr\<close>, and the ranges reported as added.
\<close>

fun union_absorb ::
  "int \<Rightarrow> Range \<Rightarrow> int \<Rightarrow> RangeSet \<Rightarrow> Range \<times> int \<times> RangeSet \<times> Range list" where
  "union_absorb qTo c ou [] = (c, ou, [], [])"
| "union_absorb qTo c ou (n # rest) =
     (if i64 qTo \<ge> i64 (i64 (From n) - 1) then
        let mid = i64 (i64 (From n) - i64 (To c) - 1);
            ou' = i64 (ou - (mid + rng_len n));
            c' = c\<lparr>rng_len := i64 (rng_len c + (mid + rng_len n))\<rparr>;
            (c'', ou'', rest', a) = union_absorb qTo c' ou' rest
        in (c'', ou'', rest', \<lparr>rng_seq = u64 (To c + 1), rng_len = mid\<rparr> # a)
      else (c, ou, n # rest, []))"

text \<open>The two overlap blocks of the loop body of \<open>union\<close>: the lower and the upper boundary.\<close>

definition extend_lower :: "Range \<Rightarrow> Range \<Rightarrow> Range \<times> Range list" where
  "extend_lower q c =
     (let lo = i64 (i64 (From c) - i64 (From q))
      in if lo > 0 then
           (c\<lparr>rng_seq := u64 (rng_seq c - u64 lo), rng_len := i64 (rng_len c + lo)\<rparr>,
            [\<lparr>rng_seq = rng_seq q, rng_len = lo\<rparr>])
         else (c, []))"

definition extend_upper :: "int \<Rightarrow> Range \<Rightarrow> RangeSet \<Rightarrow> RangeSet \<times> Range list" where
  "extend_upper qTo c rest =
     (let up = i64 (i64 qTo - i64 (To c))
      in if up > 0 then
           (let (c2, up2, rest2, a) = union_absorb qTo c up rest
            in if up2 > 0 then
                 (c2\<lparr>rng_len := i64 (rng_len c2 + up2)\<rparr> # rest2,
                  a @ [\<lparr>rng_seq = u64 (To c2 + 1), rng_len = up2\<rparr>])
               else (c2 # rest2, a))
         else (c # rest, []))"

fun union_go :: "Range \<Rightarrow> RangeSet \<Rightarrow> RangeSet \<times> Range list" where
  "union_go q [] = ([q], [q])"
| "union_go q (c # rest) =
     (if To q < u64 (From c - 1) then (q # c # rest, [q])
      else if From q > u64 (To c + 1) then
        (let (rest', a) = union_go q rest in (c # rest', a))
      else
        let (c1, a1) = extend_lower q c;
            (r', a2) = extend_upper (To q) c1 rest
        in (r', a1 @ a2))"

text \<open>
  \<open>union\<close> with its optional result set: \<open>None\<close> is the nil receiver, on which
  \<open>result.union\<close> returns at once.
\<close>

definition union_nil :: "Range \<Rightarrow> RangeSet \<Rightarrow> RangeSet" where
  "union_nil q r = fst (union_go q r)"

definition report :: "Range list \<Rightarrow> RangeSet option \<Rightarrow> RangeSet option" where
  "report ps = map_option (\<lambda>res. foldl (\<lambda>s p. union_nil p s) res ps)"

definition rs_union :: "RangeSet \<Rightarrow> Range \<Rightarrow> RangeSet option \<Rightarrow> RangeSet \<times> RangeSet option" where
  "rs_union r q res = (let (r', ps) = union_go q r in (r', report ps res))"

definition Union_Range :: "RangeSet \<Rightarrow> Range \<Rightarrow> RangeSet \<times> RangeSet" where
  "Union_Range r q = (let (r', res) = rs_union r q (Some []) in (r', the res))"

definition UnionAll :: "RangeSet \<Rightarrow> Range list \<Rightarrow> RangeSet" where
  "UnionAll r qs = foldl (\<lambda>s q. fst (rs_union s q None)) r qs"

definition UnionRangeSet :: "RangeSet \<Rightarrow> RangeSet \<Rightarrow> RangeSet" where
  "UnionRangeSet r rs = foldl (\<lambda>s q. fst (rs_union s q None)) r rs"

definition rs_Add :: "RangeSet \<Rightarrow> int \<Rightarrow> RangeSet \<times> bool" where
  "rs_Add r s =
     (let (r', res) = rs_union r \<lparr>rng_seq = s, rng_len = 1\<rparr> (Some [])
      in (r', res \<noteq> Some []))"

definition rs_AddAll :: "RangeSet \<Rightarrow> int list \<Rightarrow> RangeSet" where
  "rs_AddAll r ss = foldl (\<lambda>t s. fst (rs_Add t s)) r ss"

fun rs_Remove :: "RangeSet \<Rightarrow> int \<Rightarrow> RangeSet \<times> bool" where
  "rs_Remove [] s = ([], False)"
| "rs_Remove (c # rest) s =
     (if s < From c then (c # rest, False)
      else if s > To c then (let (rest', b) = rs_Remove rest s in (c # rest', b))
      else if s = From c then
        (if rng_len c = 1 then (rest, True)
         else (c\<lparr>rng_seq := u64 (rng_seq c + 1), rng_len := i64 (rng_len c - 1)\<rparr> # rest, True))
      else if s = To c then (c\<lparr>rng_len := i64 (rng_len c - 1)\<rparr> # rest, True)
      else
        let n = i64 (i64 s - i64 (rng_seq c))
        in (c\<lparr>rng_len := n\<rparr>
              # \<lparr>rng_seq = u64 (s + 1), rng_len = i64 (rng_len c - n - 1)\<rparr> # rest, True))"

definition rs_RemoveAll :: "RangeSet \<Rightarrow> int list \<Rightarrow> RangeSet" where
  "rs_RemoveAll r ss = foldl (\<lambda>t s. fst (rs_Remove t s)) r ss"

fun subtract_go :: "Range \<Rightarrow> RangeSet \<Rightarrow> RangeSet \<times> Range list" where
  "subtract_go q [] = ([], [])"
| "subtract_go q (c # rest) =
     (if To q < From c then (c # rest, [])
      else if From q > To c then (let (rest', a) = subtract_go q rest in (c # rest', a))
      else
        let rl = i64 (i64 (From q) - i64 (From c));
            ru = i64 (i64 (To c) - i64 (To q));
            (rest', a) = subtract_go q rest
        in if rl \<le> 0 \<and> ru \<le> 0 then (rest', c # a)
           else if rl \<le> 0 then
             (c\<lparr>rng_seq := u64 (rng_seq c + u64 (rng_len c - ru)), rng_len := ru\<rparr> # rest',
              \<lparr>rng_seq = From c, rng_len = i64 (rng_len c - ru)\<rparr> # a)
           else if ru \<le> 0 then
             (c\<lparr>rng_len := rl\<rparr> # rest',
              \<lparr>rng_seq = u64 (From c + u64 rl), rng_len = i64 (rng_len c - rl)\<rparr> # a)
           else
             (c\<lparr>rng_len := rl\<rparr>
                # \<lparr>rng_seq = u64 (From c + u64 (rng_len c - ru)), rng_len = ru\<rparr> # rest',
              \<lparr>rng_seq = u64 (From c + u64 rl), rng_len = i64 (rng_len c - rl - ru)\<rparr> # a))"

definition rs_subtract ::
  "RangeSet \<Rightarrow> Range \<Rightarrow> RangeSet option \<Rightarrow> RangeSet \<times> RangeSet option" where
  "rs_subtract r q res = (let (r', ps) = subtract_go q r in (r', report ps res))"

definition Subtract :: "RangeSet \<Rightarrow> Range \<Rightarrow> RangeSet \<times> RangeSet" where
  "Subtract r q = (let (r', res) = rs_subtract r q (Some []) in (r', the res))"

definition SubtractAll :: "RangeSet \<Rightarrow> Range list \<Rightarrow> RangeSet" where
  "SubtractAll r qs = foldl (\<lambda>s q. fst (rs_subtract s q None)) r qs"

definition rs_Clear :: "RangeSet \<Rightarrow> RangeSet" where
  "rs_Clear r = []"

fun rs_Contains :: "RangeSet \<Rightarrow> Range \<Rightarrow> bool" where
  "rs_Contains [] q = False"
| "rs_Contains (c # rest) q =
     (if From q \<ge> From c \<and> To q \<le> To c then True else rs_Contains rest q)"

definition AsSlice :: "RangeSet \<Rightarrow> Range list" where
  "AsSlice r = r"

text \<open>
  \<open>Iterate\<close> and \<open>IterateSeq\<close> call a function that may change state and says whether to go
  on: \<open>fn x st\<close> is that answer and the new state. \<open>IterateSeq\<close> counts \<open>i\<close> up to the
  length; \<open>seq_calls\<close> has \<open>n\<close> numbers left to visit. The methods of \<open>RangeSlice\<close> have
  the same loops over a slice.
\<close>

fun Iterate :: "'a list \<Rightarrow> ('a \<Rightarrow> 's \<Rightarrow> bool \<times> 's) \<Rightarrow> 's \<Rightarrow> 's" where
  "Iterate [] fn st = st"
| "Iterate (c # rest) fn st =
     (let (go_on, st') = fn c st in if \<not> go_on then st' else Iterate rest fn st')"

fun seq_calls :: "nat \<Rightarrow> int \<Rightarrow> (int \<Rightarrow> 's \<Rightarrow> bool \<times> 's) \<Rightarrow> 's \<Rightarrow> bool \<times> 's" where
  "seq_calls 0 s fn st = (True, st)"
| "seq_calls (Suc n) s fn st =
     (let (go_on, st') = fn s st
      in if \<not> go_on then (False, st') else seq_calls n (u64 (s + 1)) fn st')"

fun IterateSeq :: "RangeSet \<Rightarrow> (int \<Rightarrow> 's \<Rightarrow> bool \<times> 's) \<Rightarrow> 's \<Rightarrow> 's" where
  "IterateSeq [] fn st = st"
| "IterateSeq (c # rest) fn st =
     (let (go_on, st') = seq_calls (nat (rng_len c)) (rng_seq c) fn st
      in if \<not> go_on then st' else IterateSeq rest fn st')"

section \<open>Semantics and invariant\<close>

text \<open>The numbers of a range, and of a list of ranges.\<close>

definition seqs_of :: "Range \<Rightarrow> int set" where
  "seqs_of r = {rng_seq r ..< rng_seq r + rng_len r}"

definition seqs :: "RangeSet \<Rightarrow> int set" where
  "seqs rs = (\<Union>r\<in>set rs. seqs_of r)"

definition range_ok :: "Range \<Rightarrow> bool" where
  "range_ok r \<longleftrightarrow> 1 \<le> rng_seq r \<and> 1 \<le> rng_len r \<and> rng_seq r + rng_len r \<le> int_lim"

definition apart :: "Range \<Rightarrow> Range \<Rightarrow> bool" where
  "apart a b \<longleftrightarrow> rng_seq a + rng_len a < rng_seq b"

definition rs_ok :: "RangeSet \<Rightarrow> bool" where
  "rs_ok rs \<longleftrightarrow> sorted_wrt apart rs \<and> list_all range_ok rs"

section \<open>Lemmas\<close>

subsection \<open>Basics\<close>

lemma From_simp [simp]: "From r = rng_seq r"
  by (simp add: From_def)

lemma range_okD: "range_ok r \<Longrightarrow> 1 \<le> rng_seq r \<and> 1 \<le> rng_len r \<and> rng_seq r + rng_len r \<le> int_lim"
  by (simp add: range_ok_def)

lemma To_ok [simp]: "range_ok r \<Longrightarrow> To r = rng_seq r + rng_len r - 1"
  by (simp add: To_def range_ok_def u64_id)

lemma seqs_of_range_ok_nonempty: "range_ok r \<Longrightarrow> seqs_of r \<noteq> {}"
  by (auto simp: seqs_of_def range_ok_def)

lemma seqs_Nil [simp]: "seqs [] = {}"
  by (simp add: seqs_def)

lemma seqs_Cons [simp]: "seqs (r # rs) = seqs_of r \<union> seqs rs"
  by (simp add: seqs_def)

lemma seqs_append [simp]: "seqs (rs @ ts) = seqs rs \<union> seqs ts"
  by (simp add: seqs_def)

lemma rs_ok_Nil [simp]: "rs_ok []"
  by (simp add: rs_ok_def)

lemma rs_ok_Cons: "rs_ok (c # rest) \<longleftrightarrow> range_ok c \<and> rs_ok rest \<and> (\<forall>d\<in>set rest. apart c d)"
  by (auto simp: rs_ok_def)

text \<open>Only the next neighbour matters: the nodes after it start even later.\<close>

lemma rs_ok_Cons2:
  "rs_ok (c # d # rest) \<longleftrightarrow> range_ok c \<and> apart c d \<and> rs_ok (d # rest)"
  by (fastforce simp: rs_ok_Cons apart_def range_ok_def)

lemma rs_ok_seqs_gt:
  "rs_ok (c # rest) \<Longrightarrow> x \<in> seqs rest \<Longrightarrow> rng_seq c + rng_len c < x"
  by (force simp: rs_ok_Cons seqs_def seqs_of_def apart_def)

lemma rs_ok_seqs_range: "rs_ok rs \<Longrightarrow> x \<in> seqs rs \<Longrightarrow> 1 \<le> x \<and> x < int_lim"
  by (auto simp: rs_ok_def list_all_iff seqs_def seqs_of_def range_ok_def)

lemma rs_ok_shrink:
  "rs_ok (c # rest) \<Longrightarrow> range_ok c' \<Longrightarrow> rng_seq c' + rng_len c' \<le> rng_seq c + rng_len c
   \<Longrightarrow> rs_ok (c' # rest)"
  by (auto simp: rs_ok_Cons apart_def)


lemma union_absorb_step:
  assumes "rs_ok (c # n # rest)" and "1 \<le> t" and "t < int_lim"
    and "ou = t + 1 - (rng_seq c + rng_len c)" and "rng_seq n - 1 \<le> t"
  defines "c' \<equiv> c\<lparr>rng_len := rng_seq n + rng_len n - rng_seq c\<rparr>"
  shows "union_absorb t c ou (n # rest) =
    (let (c2, ou2, rest2, a) = union_absorb t c' (t + 1 - (rng_seq n + rng_len n)) rest
     in (c2, ou2, rest2,
         \<lparr>rng_seq = rng_seq c + rng_len c, rng_len = rng_seq n - (rng_seq c + rng_len c)\<rparr> # a))"
    and "rs_ok (c' # rest)"
proof -
  have okc: "range_ok c" and okn: "range_ok n" and ap: "rng_seq c + rng_len c < rng_seq n"
    using assms(1) by (auto simp: rs_ok_Cons apart_def)
  note b = range_okD [OF okc] range_okD [OF okn]
  show "rs_ok (c' # rest)"
    using assms(1) b ap by (auto simp: rs_ok_Cons apart_def c'_def range_ok_def)
  show "union_absorb t c ou (n # rest) =
    (let (c2, ou2, rest2, a) = union_absorb t c' (t + 1 - (rng_seq n + rng_len n)) rest
     in (c2, ou2, rest2,
         \<lparr>rng_seq = rng_seq c + rng_len c, rng_len = rng_seq n - (rng_seq c + rng_len c)\<rparr> # a))"
    using assms(2-5) b ap okc okn by (simp add: go_wrap c'_def algebra_simps)
qed

lemma union_absorb_stop:
  assumes "rs_ok (c # n # rest)" and "1 \<le> t" and "t < int_lim" and "\<not> rng_seq n - 1 \<le> t"
  shows "union_absorb t c ou (n # rest) = (c, ou, n # rest, [])"
    and "\<forall>d\<in>set (n # rest). t + 1 < rng_seq d"
proof -
  have "range_ok n" using assms(1) by (simp add: rs_ok_Cons)
  then show "union_absorb t c ou (n # rest) = (c, ou, n # rest, [])"
    using assms(2-4) by (simp add: go_wrap range_ok_def)
  show "\<forall>d\<in>set (n # rest). t + 1 < rng_seq d"
    using assms(1,4) by (force simp: rs_ok_Cons apart_def range_ok_def)
qed

lemma union_absorb_spec:
  assumes "rs_ok (c # rest)" and "1 \<le> t" and "t < int_lim"
    and "union_absorb t c (t + 1 - (rng_seq c + rng_len c)) rest = (c2, ou2, rest2, a)"
  shows "rng_seq c2 = rng_seq c \<and> rng_seq c + rng_len c \<le> rng_seq c2 + rng_len c2
    \<and> rs_ok (c2 # rest2) \<and> ou2 = t + 1 - (rng_seq c2 + rng_len c2)
    \<and> (\<forall>d\<in>set rest2. t + 1 < rng_seq d)
    \<and> list_all range_ok a
    \<and> seqs a = {x. rng_seq c + rng_len c \<le> x \<and> x \<le> t \<and> x < rng_seq c2 + rng_len c2} - seqs rest
    \<and> seqs (c2 # rest2) = seqs (c # rest) \<union> seqs a"
  using assms
proof (induction rest arbitrary: c a)
  case Nil
  then show ?case by (auto simp: seqs_of_def)
next
  case (Cons n rest)
  have okc: "range_ok c" and okn: "range_ok n" and ap: "rng_seq c + rng_len c < rng_seq n"
    and gt: "\<And>x. x \<in> seqs rest \<Longrightarrow> rng_seq n + rng_len n < x"
    using Cons.prems(1) rs_ok_seqs_gt by (auto simp: rs_ok_Cons apart_def)
  show ?case
  proof (cases "rng_seq n - 1 \<le> t")
    case False
    note stop = union_absorb_stop [OF Cons.prems(1-3) False]
    then have "a = []" "c2 = c" "rest2 = n # rest" "ou2 = t + 1 - (rng_seq c + rng_len c)"
      using Cons.prems(4) by auto
    then show ?thesis
      using Cons.prems(1) stop(2) by (auto simp: seqs_of_def)
  next
    case True
    note step = union_absorb_step [OF Cons.prems(1-3) refl True]
    let ?c = "c\<lparr>rng_len := rng_seq n + rng_len n - rng_seq c\<rparr>"
    obtain a' where rec: "union_absorb t ?c (t + 1 - (rng_seq ?c + rng_len ?c)) rest = (c2, ou2, rest2, a')"
      and a: "a = \<lparr>rng_seq = rng_seq c + rng_len c, rng_len = rng_seq n - (rng_seq c + rng_len c)\<rparr> # a'"
      using Cons.prems(4) step(1) by (auto split: prod.splits)
    note IH = Cons.IH [OF step(2) Cons.prems(2,3) rec]
    have "seqs a = {x. rng_seq c + rng_len c \<le> x \<and> x \<le> t \<and> x < rng_seq c2 + rng_len c2} - seqs (n # rest)"
      using IH True ap range_okD [OF okn] unfolding a by (auto simp: seqs_of_def dest: gt)
    moreover have "seqs_of ?c = seqs_of c \<union> seqs_of n \<union>
        seqs_of \<lparr>rng_seq = rng_seq c + rng_len c, rng_len = rng_seq n - (rng_seq c + rng_len c)\<rparr>"
      using range_okD [OF okc] range_okD [OF okn] ap by (auto simp: seqs_of_def)
    moreover have "seqs (c2 # rest2) = seqs (?c # rest) \<union> seqs a'"
      using IH by blast
    moreover have "list_all range_ok a"
    proof -
      have "range_ok \<lparr>rng_seq = rng_seq c + rng_len c, rng_len = rng_seq n - (rng_seq c + rng_len c)\<rparr>"
        using range_okD [OF okc] range_okD [OF okn] ap by (simp add: range_ok_def)
      then show ?thesis using IH by (simp add: a)
    qed
    moreover have "seqs (c2 # rest2) = seqs (c # n # rest) \<union> seqs a"
    proof -
      have "seqs_of ?c = seqs_of c \<union> seqs_of n \<union>
        seqs_of \<lparr>rng_seq = rng_seq c + rng_len c, rng_len = rng_seq n - (rng_seq c + rng_len c)\<rparr>"
        using range_okD [OF okc] range_okD [OF okn] ap by (auto simp: seqs_of_def)
      moreover have "seqs (c2 # rest2) = seqs (?c # rest) \<union> seqs a'"
        using IH by blast
      ultimately show ?thesis unfolding a seqs_Cons by blast
    qed
    moreover have "rng_seq c + rng_len c \<le> rng_seq c2 + rng_len c2" "rng_seq c2 = rng_seq c"
      using IH ap range_okD [OF okn] by auto
    ultimately show ?thesis
      using IH by blast
  qed
qed


lemma rs_ok_ConsI:
  "range_ok c \<Longrightarrow> rs_ok r \<Longrightarrow> (\<And>x. x \<in> seqs r \<Longrightarrow> rng_seq c + rng_len c < x) \<Longrightarrow> rs_ok (c # r)"
proof -
  assume c: "range_ok c" and r: "rs_ok r"
    and gt: "\<And>x. x \<in> seqs r \<Longrightarrow> rng_seq c + rng_len c < x"
  have "apart c d" if "d \<in> set r" for d
  proof -
    have "rng_seq d \<in> seqs r"
      using r that by (force simp: seqs_def seqs_of_def rs_ok_def list_all_iff range_ok_def)
    then show ?thesis using gt by (simp add: apart_def)
  qed
  with c r show "rs_ok (c # r)" by (simp add: rs_ok_Cons)
qed

text \<open>The three branches of the loop body, with the arithmetic wraps discharged.\<close>

lemma union_go_below:
  assumes "range_ok c" and "range_ok q" and "rng_seq q + rng_len q < rng_seq c"
  shows "union_go q (c # rest) = (q # c # rest, [q])"
  using assms by (simp add: go_wrap range_ok_def)

lemma union_go_above:
  assumes "range_ok c" and "range_ok q" and "rng_seq c + rng_len c < rng_seq q"
  shows "union_go q (c # rest) = (let (rest', a) = union_go q rest in (c # rest', a))"
  using assms range_okD [OF assms(1)] range_okD [OF assms(2)] by (simp add: go_wrap)


lemma extend_lower_spec:
  assumes "range_ok c" and "range_ok q"
    and "rng_seq c \<le> rng_seq q + rng_len q" and "extend_lower q c = (c1, a)"
  shows "range_ok c1" and "rng_seq c1 + rng_len c1 = rng_seq c + rng_len c"
    and "list_all range_ok a"
    and "rng_seq c1 = min (rng_seq q) (rng_seq c)"
    and "seqs a = {rng_seq q ..< rng_seq c}"
    and "seqs_of c1 = seqs_of c \<union> seqs a"
  using assms(3,4) range_okD [OF assms(1)] range_okD [OF assms(2)]
  by (auto simp: extend_lower_def go_wrap range_ok_def Let_def seqs_of_def split: if_splits)

lemma extend_upper_spec:
  assumes "rs_ok (c # rest)" and "1 \<le> t" and "t < int_lim"
    and "rng_seq c \<le> t + 1" and "extend_upper t c rest = (r', a)"
  shows "rs_ok r'" and "list_all range_ok a"
    and "seqs a = {rng_seq c + rng_len c .. t} - seqs rest"
    and "seqs r' = seqs (c # rest) \<union> seqs a"
proof -
  have ok: "range_ok c" using assms(1) by (simp add: rs_ok_Cons)
  note b = range_okD [OF ok]
  define up where "up = t + 1 - (rng_seq c + rng_len c)"
  have eq: "extend_upper t c rest = (if up > 0 then
     (let (c2, up2, rest2, a) = union_absorb t c up rest
      in if up2 > 0 then
           (c2\<lparr>rng_len := i64 (rng_len c2 + up2)\<rparr> # rest2,
            a @ [\<lparr>rng_seq = u64 (To c2 + 1), rng_len = up2\<rparr>])
         else (c2 # rest2, a))
     else (c # rest, []))"
    using ok b assms(2,3) by (simp add: extend_upper_def up_def go_wrap algebra_simps)
  have all: "rs_ok r' \<and> list_all range_ok a
    \<and> seqs a = {rng_seq c + rng_len c .. t} - seqs rest \<and> seqs r' = seqs (c # rest) \<union> seqs a"
  proof (cases "up > 0")
    case False
    then have "{rng_seq c + rng_len c .. t} = {}" by (simp add: up_def)
    moreover have "r' = c # rest" "a = []" using False eq assms(5) by auto
    ultimately show ?thesis using assms(1) by simp
  next
    case True
    obtain c2 up2 rest2 a2 where ab: "union_absorb t c up rest = (c2, up2, rest2, a2)"
      by (metis prod_cases4)
    note sp = union_absorb_spec [OF assms(1-3) ab [unfolded up_def]]
    have ok2: "range_ok c2" using sp by (simp add: rs_ok_Cons)
    show ?thesis
    proof (cases "up2 > 0")
      case False
      then have "r' = c2 # rest2" "a = a2" using True eq ab assms(5) by auto
      moreover have "{x. rng_seq c + rng_len c \<le> x \<and> x \<le> t \<and> x < rng_seq c2 + rng_len c2}
          = {rng_seq c + rng_len c .. t}"
        using False sp by auto
      ultimately show ?thesis using sp by auto
    next
      case up2: True
      let ?c3 = "c2\<lparr>rng_len := t + 1 - rng_seq c2\<rparr>"
      let ?p = "\<lparr>rng_seq = rng_seq c2 + rng_len c2, rng_len = up2\<rparr>"
      have r': "r' = ?c3 # rest2" and a: "a = a2 @ [?p]"
        using True up2 eq ab assms(3,5) sp range_okD [OF ok2] ok2 by (auto simp: go_wrap)
      have "rs_ok r'"
        using sp up2 range_okD [OF ok2] assms(3)
        by (auto simp: r' rs_ok_Cons apart_def range_ok_def)
      moreover have "range_ok ?p"
        using sp up2 range_okD [OF ok2] assms(3) by (simp add: range_ok_def)
      moreover have "seqs_of ?c3 = seqs_of c2 \<union> seqs_of ?p"
        using sp up2 range_okD [OF ok2] by (auto simp: seqs_of_def)
      moreover have "seqs_of ?p \<inter> seqs rest = {}"
      proof -
        have "x < rng_seq c2 + rng_len c2 \<or> t + 1 < x" if "x \<in> seqs rest" for x
        proof -
          have "x \<in> seqs (c2 # rest2)" using that sp by simp
          then show ?thesis using sp by (force simp: seqs_of_def seqs_def)
        qed
        then show ?thesis using sp by (force simp: seqs_of_def)
      qed
      moreover have "{rng_seq c + rng_len c .. t} =
        {x. rng_seq c + rng_len c \<le> x \<and> x \<le> t \<and> x < rng_seq c2 + rng_len c2} \<union> seqs_of ?p"
        using sp up2 by (auto simp: seqs_of_def)
      ultimately show ?thesis using sp unfolding r' a by auto
    qed
  qed
  then show "rs_ok r'" and "list_all range_ok a"
    and "seqs a = {rng_seq c + rng_len c .. t} - seqs rest"
    and "seqs r' = seqs (c # rest) \<union> seqs a"
    by auto
qed


lemma union_go_spec:
  assumes "rs_ok r" and "range_ok q" and "union_go q r = (r', a)"
  shows "rs_ok r' \<and> list_all range_ok a
    \<and> seqs r' = seqs r \<union> seqs_of q \<and> seqs a = seqs_of q - seqs r"
  using assms(1,3)
proof (induction r arbitrary: r' a)
  case Nil
  then show ?case using assms(2) by (auto simp: rs_ok_Cons)
next
  case (Cons c rest)
  have okc: "range_ok c" and rest: "rs_ok rest"
    and gt: "\<And>x. x \<in> seqs rest \<Longrightarrow> rng_seq c + rng_len c < x"
    using Cons.prems(1) rs_ok_seqs_gt by (auto simp: rs_ok_Cons)
  note b = range_okD [OF okc] range_okD [OF assms(2)]
  consider (below) "rng_seq q + rng_len q < rng_seq c"
    | (above) "rng_seq c + rng_len c < rng_seq q"
    | (overlap) "rng_seq c \<le> rng_seq q + rng_len q" "rng_seq q \<le> rng_seq c + rng_len c"
    by linarith
  then show ?case
  proof cases
    case below
    then have r': "r' = q # c # rest" and a: "a = [q]"
      using Cons.prems(2) union_go_below [OF okc assms(2)] by auto
    have "seqs_of q \<inter> seqs (c # rest) = {}"
      using below b gt by (force simp: seqs_of_def)
    then show ?thesis
      using Cons.prems(1) below assms(2) by (auto simp: r' a rs_ok_Cons2 apart_def)
  next
    case above
    then obtain rest' where rec: "union_go q rest = (rest', a)" and r': "r' = c # rest'"
      using Cons.prems(2) union_go_above [OF okc assms(2)] by (auto split: prod.splits)
    note IH = Cons.IH [OF rest rec]
    have "rs_ok r'"
      using IH okc gt above unfolding r' by (intro rs_ok_ConsI) (auto simp: seqs_of_def)
    moreover have "seqs_of q \<inter> seqs_of c = {}"
      using above by (auto simp: seqs_of_def)
    ultimately show ?thesis using IH by (auto simp: r')
  next
    case overlap
    obtain c1 a1 where lo: "extend_lower q c = (c1, a1)" by fastforce
    obtain r2 a2 where up: "extend_upper (rng_seq q + rng_len q - 1) c1 rest = (r2, a2)" by fastforce
    have res: "r' = r2" "a = a1 @ a2"
      using Cons.prems(2) overlap b okc assms(2) lo up by (auto simp: go_wrap)
    note L = extend_lower_spec [OF okc assms(2) overlap(1) lo]
    have "rs_ok (c1 # rest)"
      using rs_ok_shrink [OF Cons.prems(1) L(1)] L(2) by simp
    note U = extend_upper_spec [OF this _ _ _ up]
    have "rs_ok r2" "list_all range_ok a2"
      "seqs a2 = {rng_seq c + rng_len c .. rng_seq q + rng_len q - 1} - seqs rest"
      "seqs r2 = seqs (c1 # rest) \<union> seqs a2"
      using U b L(2,4) overlap by auto
    moreover have "seqs a1 \<inter> seqs rest = {}"
      using L(5) gt b by force
    moreover have "seqs_of q - seqs_of c =
        {rng_seq q ..< rng_seq c} \<union> {rng_seq c + rng_len c .. rng_seq q + rng_len q - 1}"
      using overlap b by (auto simp: seqs_of_def)
    ultimately show ?thesis using L(3,5,6) unfolding res by auto
  qed
qed

subsection \<open>Remove and subtract\<close>

lemma rs_Remove_spec:
  assumes "rs_ok r" and "rs_Remove r s = (r', b)"
  shows "rs_ok r' \<and> seqs r' = seqs r - {s} \<and> (b \<longleftrightarrow> s \<in> seqs r)"
  using assms
proof (induction r arbitrary: r' b)
  case Nil
  then show ?case by simp
next
  case (Cons c rest)
  have okc: "range_ok c" and rest: "rs_ok rest"
    and gt: "\<And>x. x \<in> seqs rest \<Longrightarrow> rng_seq c + rng_len c < x"
    using Cons.prems(1) rs_ok_seqs_gt by (auto simp: rs_ok_Cons)
  note b = range_okD [OF okc]
  consider (below) "s < rng_seq c" | (above) "rng_seq c + rng_len c - 1 < s"
    | (only) "s = rng_seq c" "rng_len c = 1"
    | (first) "s = rng_seq c" "1 < rng_len c"
    | (last) "rng_seq c < s" "s = rng_seq c + rng_len c - 1"
    | (mid) "rng_seq c < s" "s < rng_seq c + rng_len c - 1"
    using b by linarith
  then show ?case
  proof cases
    case below
    then have "s \<notin> seqs (c # rest)" using gt b by (force simp: seqs_of_def)
    then show ?thesis using below Cons.prems by auto
  next
    case above
    then obtain rest' where rec: "rs_Remove rest s = (rest', b)" and r': "r' = c # rest'"
      using Cons.prems(2) okc b by (auto split: prod.splits)
    note IH = Cons.IH [OF rest rec]
    have "rs_ok r'" using IH okc gt unfolding r' by (intro rs_ok_ConsI) auto
    moreover have "s \<notin> seqs_of c" using above by (auto simp: seqs_of_def)
    ultimately show ?thesis using IH by (auto simp: r')
  next
    case only
    then have "r' = rest" "b" using Cons.prems(2) okc by auto
    moreover have "seqs_of c = {s}" "s \<notin> seqs rest"
      using only gt by (force simp: seqs_of_def)+
    ultimately show ?thesis using rest by auto
  next
    case first
    let ?c = "c\<lparr>rng_seq := rng_seq c + 1, rng_len := rng_len c - 1\<rparr>"
    have r': "r' = ?c # rest" "b" using first Cons.prems(2) okc b by (auto simp: go_wrap)
    have "rs_ok r'"
      unfolding r' using Cons.prems(1) by (rule rs_ok_shrink) (use b first in \<open>auto simp: range_ok_def\<close>)
    moreover have "seqs_of ?c = seqs_of c - {s}" "s \<in> seqs_of c" "s \<notin> seqs rest"
      using first gt by (force simp: seqs_of_def)+
    ultimately show ?thesis using r' by auto
  next
    case last
    let ?c = "c\<lparr>rng_len := rng_len c - 1\<rparr>"
    have r': "r' = ?c # rest" "b" using last Cons.prems(2) okc b by (auto simp: go_wrap)
    have "rs_ok r'"
      unfolding r' using Cons.prems(1) by (rule rs_ok_shrink) (use b last in \<open>auto simp: range_ok_def\<close>)
    moreover have "seqs_of ?c = seqs_of c - {s}" "s \<in> seqs_of c" "s \<notin> seqs rest"
      using last gt by (force simp: seqs_of_def)+
    ultimately show ?thesis using r' by auto
  next
    case mid
    let ?c = "c\<lparr>rng_len := s - rng_seq c\<rparr>"
      and ?d = "\<lparr>rng_seq = s + 1, rng_len = rng_seq c + rng_len c - 1 - s\<rparr>"
    have r': "r' = ?c # ?d # rest" "b"
      using mid Cons.prems(2) okc b by (auto simp: go_wrap Let_def)
    have "rs_ok (?d # rest)"
      using Cons.prems(1) by (rule rs_ok_shrink) (use b mid in \<open>auto simp: range_ok_def\<close>)
    then have "rs_ok r'"
      using mid b unfolding r' by (auto simp: rs_ok_Cons2 range_ok_def apart_def)
    moreover have "seqs_of ?c \<union> seqs_of ?d = seqs_of c - {s}" "s \<in> seqs_of c" "s \<notin> seqs rest"
      using mid gt by (force simp: seqs_of_def)+
    ultimately show ?thesis using r' by auto
  qed
qed

text \<open>One node of \<open>subtract\<close>: the parts that remain and the part that is reported.\<close>

lemma subtract_go_spec:
  assumes "rs_ok r" and "range_ok q" and "subtract_go q r = (r', a)"
  shows "rs_ok r' \<and> list_all range_ok a
    \<and> seqs r' = seqs r - seqs_of q \<and> seqs a = seqs r \<inter> seqs_of q"
  using assms(1,3)
proof (induction r arbitrary: r' a)
  case Nil
  then show ?case by simp
next
  case (Cons c rest)
  have okc: "range_ok c" and rest: "rs_ok rest"
    and gt: "\<And>x. x \<in> seqs rest \<Longrightarrow> rng_seq c + rng_len c < x"
    using Cons.prems(1) rs_ok_seqs_gt by (auto simp: rs_ok_Cons)
  note b = range_okD [OF okc] range_okD [OF assms(2)]
  let ?rl = "rng_seq q - rng_seq c"
    and ?ru = "rng_seq c + rng_len c - (rng_seq q + rng_len q)"
  obtain rest' a' where rec: "subtract_go q rest = (rest', a')" by fastforce
  note IH = Cons.IH [OF rest rec]
  have gt': "rng_seq c + rng_len c < x" if "x \<in> seqs rest'" for x
    using that IH gt by blast
  consider (below) "rng_seq q + rng_len q \<le> rng_seq c"
    | (above) "rng_seq c + rng_len c \<le> rng_seq q"
    | (overlap) "rng_seq c < rng_seq q + rng_len q" "rng_seq q < rng_seq c + rng_len c"
    by linarith
  then show ?case
  proof cases
    case below
    then have "r' = c # rest" "a = []" using Cons.prems(2) okc assms(2) by auto
    moreover have "seqs (c # rest) \<inter> seqs_of q = {}"
      using below b gt by (force simp: seqs_of_def)
    ultimately show ?thesis using Cons.prems(1) by auto
  next
    case above
    then have r': "r' = c # rest'" "a = a'"
      using Cons.prems(2) okc assms(2) rec b by (auto split: if_splits)
    have "rs_ok r'" using IH okc gt' unfolding r' by (intro rs_ok_ConsI) auto
    moreover have "seqs_of c \<inter> seqs_of q = {}" using above by (auto simp: seqs_of_def)
    ultimately show ?thesis using IH by (auto simp: r')
  next
    case overlap
    have step: "(r', a) =
      (if ?rl \<le> 0 \<and> ?ru \<le> 0 then (rest', c # a')
       else if ?rl \<le> 0 then
         (c\<lparr>rng_seq := rng_seq q + rng_len q, rng_len := ?ru\<rparr> # rest',
          \<lparr>rng_seq = rng_seq c, rng_len = rng_len c - ?ru\<rparr> # a')
       else if ?ru \<le> 0 then
         (c\<lparr>rng_len := ?rl\<rparr> # rest', \<lparr>rng_seq = rng_seq q, rng_len = rng_len c - ?rl\<rparr> # a')
       else
         (c\<lparr>rng_len := ?rl\<rparr> # \<lparr>rng_seq = rng_seq q + rng_len q, rng_len = ?ru\<rparr> # rest',
          \<lparr>rng_seq = rng_seq q, rng_len = rng_len c - ?rl - ?ru\<rparr> # a'))"
      using Cons.prems(2) overlap okc assms(2) rec b
      by (simp add: go_wrap Let_def algebra_simps split: if_splits)
    consider (all) "?rl \<le> 0" "?ru \<le> 0" | (tail) "?rl \<le> 0" "0 < ?ru"
      | (front) "0 < ?rl" "?ru \<le> 0" | (split) "0 < ?rl" "0 < ?ru"
      by linarith
    then show ?thesis
    proof cases
      case all
      then have r': "r' = rest'" and a: "a = c # a'" using step by auto
      have "seqs_of c \<subseteq> seqs_of q" using all by (auto simp: seqs_of_def)
      then show ?thesis using IH okc by (auto simp: r' a)
    next
      case tail
      let ?c = "c\<lparr>rng_seq := rng_seq q + rng_len q, rng_len := ?ru\<rparr>"
        and ?p = "\<lparr>rng_seq = rng_seq c, rng_len = rng_len c - ?ru\<rparr>"
      have r': "r' = ?c # rest'" and a: "a = ?p # a'" using tail step by auto
      have "range_ok ?c" "range_ok ?p" using tail b overlap by (auto simp: range_ok_def)
      moreover have "rs_ok r'"
        unfolding r' using calculation(1) IH gt' by (intro rs_ok_ConsI) auto
      moreover have "seqs_of ?c = seqs_of c - seqs_of q" "seqs_of ?p = seqs_of c \<inter> seqs_of q"
        using tail overlap b by (auto simp: seqs_of_def)
      ultimately show ?thesis using IH by (auto simp: r' a)
    next
      case front
      let ?c = "c\<lparr>rng_len := ?rl\<rparr>"
        and ?p = "\<lparr>rng_seq = rng_seq q, rng_len = rng_len c - ?rl\<rparr>"
      have r': "r' = ?c # rest'" and a: "a = ?p # a'" using front step by auto
      have "range_ok ?c" "range_ok ?p" using front b overlap by (auto simp: range_ok_def)
      moreover have "rs_ok r'"
        unfolding r' using calculation(1) IH gt' overlap front by (intro rs_ok_ConsI) fastforce+
      moreover have "seqs_of ?c = seqs_of c - seqs_of q" "seqs_of ?p = seqs_of c \<inter> seqs_of q"
        using front overlap b by (auto simp: seqs_of_def)
      ultimately show ?thesis using IH by (auto simp: r' a)
    next
      case split
      let ?c = "c\<lparr>rng_len := ?rl\<rparr>" and ?d = "\<lparr>rng_seq = rng_seq q + rng_len q, rng_len = ?ru\<rparr>"
        and ?p = "\<lparr>rng_seq = rng_seq q, rng_len = rng_len c - ?rl - ?ru\<rparr>"
      have r': "r' = ?c # ?d # rest'" and a: "a = ?p # a'" using split step by auto
      have "range_ok ?c" "range_ok ?d" "range_ok ?p"
        using split b overlap by (auto simp: range_ok_def)
      moreover have "rs_ok (?d # rest')"
        using calculation(2) IH gt' by (intro rs_ok_ConsI) auto
      moreover have "apart ?c ?d" using b by (simp add: apart_def)
      moreover have "seqs_of ?c \<union> seqs_of ?d = seqs_of c - seqs_of q"
          "seqs_of ?p = seqs_of c \<inter> seqs_of q"
        using split overlap b by (auto simp: seqs_of_def)
      ultimately show ?thesis using IH by (auto simp: r' a rs_ok_Cons2)
    qed
  qed
qed

subsection \<open>The methods\<close>

lemma union_nil_spec:
  "rs_ok r \<Longrightarrow> range_ok q \<Longrightarrow> rs_ok (union_nil q r) \<and> seqs (union_nil q r) = seqs r \<union> seqs_of q"
  using union_go_spec by (metis prod.collapse union_nil_def)

lemma foldl_union_spec:
  "rs_ok r \<Longrightarrow> list_all range_ok qs \<Longrightarrow>
   rs_ok (foldl (\<lambda>s q. union_nil q s) r qs) \<and> seqs (foldl (\<lambda>s q. union_nil q s) r qs) = seqs r \<union> seqs qs"
  by (induction qs arbitrary: r) (auto simp: union_nil_spec)

lemma rs_ok_imp_ranges: "rs_ok r \<Longrightarrow> list_all range_ok r"
  by (simp add: rs_ok_def)

lemma Union_Range_spec:
  assumes "rs_ok r" and "range_ok q"
  shows "rs_ok (fst (Union_Range r q)) \<and> seqs (fst (Union_Range r q)) = seqs r \<union> seqs_of q
    \<and> rs_ok (snd (Union_Range r q)) \<and> seqs (snd (Union_Range r q)) = seqs_of q - seqs r"
proof -
  obtain r' a where u: "union_go q r = (r', a)" by fastforce
  show ?thesis
    using union_go_spec [OF assms u] foldl_union_spec [of "[]" a]
    by (simp add: Union_Range_def rs_union_def report_def u)
qed

lemma fst_rs_union: "fst (rs_union r q res) = union_nil q r"
  by (simp add: rs_union_def union_nil_def split: prod.splits)

lemma UnionAll_spec:
  "rs_ok r \<Longrightarrow> list_all range_ok qs \<Longrightarrow>
   rs_ok (UnionAll r qs) \<and> seqs (UnionAll r qs) = seqs r \<union> seqs qs"
  by (simp add: UnionAll_def fst_rs_union foldl_union_spec)

lemma UnionRangeSet_spec:
  "rs_ok r \<Longrightarrow> rs_ok qs \<Longrightarrow>
   rs_ok (UnionRangeSet r qs) \<and> seqs (UnionRangeSet r qs) = seqs r \<union> seqs qs"
  by (simp add: UnionRangeSet_def fst_rs_union foldl_union_spec rs_ok_imp_ranges)

lemma Subtract_spec:
  assumes "rs_ok r" and "range_ok q"
  shows "rs_ok (fst (Subtract r q)) \<and> seqs (fst (Subtract r q)) = seqs r - seqs_of q
    \<and> rs_ok (snd (Subtract r q)) \<and> seqs (snd (Subtract r q)) = seqs r \<inter> seqs_of q"
proof -
  obtain r' a where u: "subtract_go q r = (r', a)" by fastforce
  show ?thesis
    using subtract_go_spec [OF assms u] foldl_union_spec [of "[]" a]
    by (simp add: Subtract_def rs_subtract_def report_def u)
qed

lemma SubtractAll_spec:
  "rs_ok r \<Longrightarrow> list_all range_ok qs \<Longrightarrow>
   rs_ok (SubtractAll r qs) \<and> seqs (SubtractAll r qs) = seqs r - seqs qs"
proof (induction qs arbitrary: r)
  case Nil
  then show ?case by (simp add: SubtractAll_def)
next
  case (Cons q qs)
  obtain r' a where u: "subtract_go q r = (r', a)" by fastforce
  note S = subtract_go_spec [OF Cons.prems(1) _ u]
  have "SubtractAll r (q # qs) = SubtractAll r' qs"
    by (simp add: SubtractAll_def rs_subtract_def u)
  with S Cons show ?case by auto
qed

lemma range_ok_single: "1 \<le> s \<Longrightarrow> s < int_lim \<Longrightarrow> range_ok \<lparr>rng_seq = s, rng_len = 1\<rparr>"
  by (simp add: range_ok_def)

lemma seqs_of_single [simp]: "seqs_of \<lparr>rng_seq = s, rng_len = 1\<rparr> = {s}"
  by (auto simp: seqs_of_def)

lemma rs_ok_seqs_empty: "rs_ok r \<Longrightarrow> seqs r = {} \<longleftrightarrow> r = []"
  by (cases r) (auto simp: rs_ok_Cons seqs_of_range_ok_nonempty)

lemma rs_Add_spec:
  assumes "rs_ok r" and "1 \<le> s" and "s < int_lim"
  shows "rs_ok (fst (rs_Add r s)) \<and> seqs (fst (rs_Add r s)) = insert s (seqs r)
    \<and> (snd (rs_Add r s) \<longleftrightarrow> s \<notin> seqs r)"
proof -
  have "range_ok \<lparr>rng_seq = s, rng_len = 1\<rparr>" using assms(2,3) by (rule range_ok_single)
  note U = Union_Range_spec [OF assms(1) this]
  obtain r' added where ru: "rs_union r \<lparr>rng_seq = s, rng_len = 1\<rparr> (Some []) = (r', Some added)"
    by (cases "union_go \<lparr>rng_seq = s, rng_len = 1\<rparr> r") (auto simp: rs_union_def report_def)
  have "fst (rs_Add r s) = fst (Union_Range r \<lparr>rng_seq = s, rng_len = 1\<rparr>)"
    and "snd (rs_Add r s) \<longleftrightarrow> snd (Union_Range r \<lparr>rng_seq = s, rng_len = 1\<rparr>) \<noteq> []"
    by (simp_all add: rs_Add_def Union_Range_def ru)
  then show ?thesis using U rs_ok_seqs_empty by auto
qed


text \<open>An interval covered by a set of separated ranges lies inside one of them.\<close>

lemma rs_ok_interval_in_node:
  assumes "rs_ok r" and "range_ok q"
  shows "seqs_of q \<subseteq> seqs r \<longleftrightarrow> (\<exists>c\<in>set r. seqs_of q \<subseteq> seqs_of c)"
  using assms(1)
proof (induction r)
  case Nil
  then show ?case using seqs_of_range_ok_nonempty [OF assms(2)] by simp
next
  case (Cons c rest)
  have okc: "range_ok c" and rest: "rs_ok rest"
    and gt: "\<And>x. x \<in> seqs rest \<Longrightarrow> rng_seq c + rng_len c < x"
    using Cons.prems rs_ok_seqs_gt by (auto simp: rs_ok_Cons)
  note b = range_okD [OF okc] range_okD [OF assms(2)]
  have "seqs_of q \<subseteq> seqs_of c \<or> seqs_of q \<subseteq> seqs rest" if sub: "seqs_of q \<subseteq> seqs (c # rest)"
  proof (cases "rng_seq q \<in> seqs_of c")
    case True
    have "rng_seq c + rng_len c \<notin> seqs (c # rest)" using gt by (force simp: seqs_of_def)
    then have "rng_seq c + rng_len c \<notin> seqs_of q" using sub by blast
    then show ?thesis using True by (auto simp: seqs_of_def)
  next
    case False
    have "rng_seq q \<in> seqs_of q" using b by (simp add: seqs_of_def)
    then have "rng_seq q \<in> seqs (c # rest)" using sub by blast
    then have "rng_seq c + rng_len c < rng_seq q" using False gt by auto
    then have "seqs_of q \<inter> seqs_of c = {}" by (auto simp: seqs_of_def)
    then show ?thesis using sub by auto
  qed
  then show ?case using Cons.IH [OF rest] by auto
qed

lemma rs_Contains_spec:
  assumes "rs_ok r" and "range_ok q"
  shows "rs_Contains r q \<longleftrightarrow> seqs_of q \<subseteq> seqs r"
proof -
  have "rs_Contains r q \<longleftrightarrow> (\<exists>c\<in>set r. seqs_of q \<subseteq> seqs_of c)"
    using assms(1)
  proof (induction r)
    case (Cons c rest)
    have "seqs_of q \<subseteq> seqs_of c \<longleftrightarrow> rng_seq q \<ge> rng_seq c \<and> rng_seq q + rng_len q \<le> rng_seq c + rng_len c"
      using assms(2) by (auto simp: seqs_of_def range_ok_def)
    with Cons assms(2) show ?case by (auto simp: rs_ok_Cons)
  qed simp
  then show ?thesis using rs_ok_interval_in_node [OF assms] by simp
qed

text \<open>Two well-formed range sets with the same numbers are the same list of ranges.\<close>

lemma rs_ok_head_Min:
  assumes "rs_ok (c # rest)"
  shows "rng_seq c \<in> seqs (c # rest)" and "x \<in> seqs (c # rest) \<Longrightarrow> rng_seq c \<le> x"
    and "rng_seq c \<le> x \<Longrightarrow> x < rng_seq c + rng_len c \<Longrightarrow> x \<in> seqs (c # rest)"
    and "rng_seq c + rng_len c \<notin> seqs (c # rest)"
proof -
  have b: "1 \<le> rng_len c" and gt: "\<And>x. x \<in> seqs rest \<Longrightarrow> rng_seq c + rng_len c < x"
    using assms rs_ok_seqs_gt by (auto simp: rs_ok_Cons range_ok_def)
  then show "rng_seq c \<in> seqs (c # rest)" and "x \<in> seqs (c # rest) \<Longrightarrow> rng_seq c \<le> x"
    and "rng_seq c \<le> x \<Longrightarrow> x < rng_seq c + rng_len c \<Longrightarrow> x \<in> seqs (c # rest)"
    and "rng_seq c + rng_len c \<notin> seqs (c # rest)"
    by (force simp: seqs_of_def)+
qed

lemma rs_ok_canonical: "rs_ok r \<Longrightarrow> rs_ok t \<Longrightarrow> seqs r = seqs t \<Longrightarrow> r = t"
proof (induction r arbitrary: t)
  case Nil
  then show ?case using rs_ok_seqs_empty [of t] by simp
next
  case (Cons c rest)
  then obtain d t' where t: "t = d # t'"
    using rs_ok_seqs_empty [of "c # rest"] rs_ok_seqs_empty [of t] by (cases t) auto
  note C = rs_ok_head_Min [OF Cons.prems(1)]
    and D = rs_ok_head_Min [OF Cons.prems(2) [unfolded t]]
  have eq: "seqs (c # rest) = seqs (d # t')" using Cons.prems(3) t by simp
  have s: "rng_seq c = rng_seq d" using C(1,2) D(1,2) eq by (metis order_antisym)
  have "1 \<le> rng_len c" "1 \<le> rng_len d" using Cons.prems t by (auto simp: rs_ok_Cons range_ok_def)
  then have "rng_len c = rng_len d"
    using C(3,4) D(3,4) eq s by (metis add_le_cancel_left linorder_neqE_linordered_idom
        add_strict_left_mono le_add_same_cancel1 order_trans zero_le_one)
  with s have cd: "c = d" by simp
  have "seqs rest = seqs (c # rest) - seqs_of c" "seqs t' = seqs (d # t') - seqs_of d"
    using rs_ok_seqs_gt [OF Cons.prems(1)] rs_ok_seqs_gt [OF Cons.prems(2) [unfolded t]]
    by (force simp: seqs_of_def)+
  then have "seqs rest = seqs t'" using eq cd by simp
  then have "rest = t'" using Cons.IH Cons.prems(1,2) t by (simp add: rs_ok_Cons)
  then show ?case using cd t by simp
qed

text \<open>Visiting the numbers: the callback collects everything it is given.\<close>

lemma seq_calls_collect:
  assumes "0 \<le> s" and "s + int n \<le> int_lim"
  shows "seq_calls n s (\<lambda>x acc. (True, acc @ [x])) acc = (True, acc @ [s..s + int n - 1])"
  using assms
proof (induction n arbitrary: s acc)
  case (Suc n)
  have "[s..s + int (Suc n) - 1] = s # [s + 1..s + 1 + int n - 1]"
    by (subst upto.simps) (simp add: algebra_simps)
  with Suc show ?case by (simp add: go_wrap)
qed simp

lemma IterateSeq_collect:
  assumes "rs_ok r"
  shows "IterateSeq r (\<lambda>x acc. (True, acc @ [x])) acc =
    acc @ concat (map (\<lambda>c. [rng_seq c..rng_seq c + rng_len c - 1]) r)"
  using assms
proof (induction r arbitrary: acc)
  case (Cons c rest)
  have b: "1 \<le> rng_seq c" "1 \<le> rng_len c" "rng_seq c + rng_len c \<le> int_lim"
    using Cons.prems by (auto simp: rs_ok_Cons range_ok_def)
  then show ?case
    using seq_calls_collect [of "rng_seq c" "nat (rng_len c)" acc] Cons
    by (simp add: rs_ok_Cons)
qed simp


section \<open>The interface of a range store\<close>

text \<open>
  What \<open>sequence/engine.go\<close> relies on when it keeps the missing numbers of a stream in a
  \<open>*RangeSet\<close>: the numbers an operation leaves, and that \<open>union\<close> also reports what it added.
  \<open>merge\<close> is \<open>UnionRangeSet\<close>.
\<close>

locale range_store =
  fixes ok :: "'r \<Rightarrow> bool"
    and elems :: "'r \<Rightarrow> int set"
    and none :: "'r"
    and union :: "'r \<Rightarrow> Range \<Rightarrow> 'r \<times> 'r"
    and merge :: "'r \<Rightarrow> 'r \<Rightarrow> 'r"
    and subtract :: "'r \<Rightarrow> Range \<Rightarrow> 'r \<times> 'r"
    and remove :: "'r \<Rightarrow> int \<Rightarrow> 'r \<times> bool"
  assumes none: "ok none \<and> elems none = {}"
    and union: "ok m \<Longrightarrow> range_ok q \<Longrightarrow> union m q = (m', added) \<Longrightarrow>
      ok m' \<and> elems m' = elems m \<union> seqs_of q \<and> ok added \<and> elems added = seqs_of q - elems m"
    and merge: "ok m \<Longrightarrow> ok n \<Longrightarrow> ok (merge m n) \<and> elems (merge m n) = elems m \<union> elems n"
    and subtract: "ok m \<Longrightarrow> range_ok q \<Longrightarrow>
      ok (fst (subtract m q)) \<and> elems (fst (subtract m q)) = elems m - seqs_of q"
    and remove: "ok m \<Longrightarrow> ok (fst (remove m s)) \<and> elems (fst (remove m s)) = elems m - {s}"
begin

lemma remove_many:
  "ok m \<Longrightarrow> ok (foldl (\<lambda>t x. fst (remove t (key x))) m xs)
     \<and> elems (foldl (\<lambda>t x. fst (remove t (key x))) m xs) = elems m - key ` set xs"
  by (induction xs arbitrary: m) (use remove in auto)

lemma union_many:
  assumes "ok m" and "ok n" and "list_all range_ok qs"
    and "foldl (\<lambda>(t, u) q. let (t', added) = union t q in (t', merge u added)) (m, n) qs = (m', n')"
  shows "ok m' \<and> ok n' \<and> elems m' = elems m \<union> seqs qs \<and> elems n' = elems n \<union> (seqs qs - elems m)"
  using assms
proof (induction qs arbitrary: m n)
  case (Cons q qs)
  obtain t added where u: "union m q = (t, added)" by fastforce
  have U: "ok t" "elems t = elems m \<union> seqs_of q" "ok added" "elems added = seqs_of q - elems m"
    using union [OF Cons.prems(1) _ u] Cons.prems(3) by auto
  have M: "ok (merge n added)" "elems (merge n added) = elems n \<union> (seqs_of q - elems m)"
    using merge [OF Cons.prems(2) U(3)] U(4) by auto
  show ?case using Cons.IH [OF U(1) M(1)] Cons.prems(3,4) U(2) M(2) u by auto
qed simp

end

interpretation range_set: range_store rs_ok seqs "[]" Union_Range UnionRangeSet Subtract rs_Remove
proof (unfold_locales, goal_cases)
  case 1
  then show ?case by simp
next
  case (2 m q m' added)
  then show ?case using Union_Range_spec [of m q] by simp
next
  case (3 m n)
  then show ?case by (rule UnionRangeSet_spec)
next
  case (4 m q)
  then show ?case using Subtract_spec by blast
next
  case (5 m s)
  then show ?case using rs_Remove_spec by (metis prod.collapse)
qed


section \<open>Properties\<close>

text \<open>
  C25. \<open>Union\<close> of a well-formed range set with a range leaves a well-formed set (ordered
  ranges, separated by a gap) that holds exactly the numbers of both, and the set it returns is
  well-formed and holds exactly the numbers that were new.
\<close>

theorem Union_adds_exactly:
  assumes "rs_ok r" and "range_ok q" and "Union_Range r q = (r', added)"
  shows "rs_ok r' \<and> seqs r' = seqs r \<union> seqs_of q
    \<and> rs_ok added \<and> seqs added = seqs_of q - seqs r"
  using Union_Range_spec [OF assms(1,2)] assms(3) by simp

theorem Union_adds_exactly_witness:
  "let r = [\<lparr>rng_seq = 1, rng_len = 2\<rparr>, \<lparr>rng_seq = 5, rng_len = 2\<rparr>, \<lparr>rng_seq = 20, rng_len = 1\<rparr>];
       q = \<lparr>rng_seq = 2, rng_len = 6\<rparr>;
       r' = [\<lparr>rng_seq = 1, rng_len = 7\<rparr>, \<lparr>rng_seq = 20, rng_len = 1\<rparr>];
       added = [\<lparr>rng_seq = 3, rng_len = 2\<rparr>, \<lparr>rng_seq = 7, rng_len = 1\<rparr>]
   in Union_Range r q = (r', added) \<and> rs_ok r' \<and> seqs r' = seqs r \<union> seqs_of q
    \<and> rs_ok added \<and> seqs added = seqs_of q - seqs r"
proof -
  let ?r = "[\<lparr>rng_seq = 1, rng_len = 2\<rparr>, \<lparr>rng_seq = 5, rng_len = 2\<rparr>, \<lparr>rng_seq = 20, rng_len = 1\<rparr>]"
    and ?q = "\<lparr>rng_seq = 2, rng_len = 6\<rparr>"
    and ?r' = "[\<lparr>rng_seq = 1, rng_len = 7\<rparr>, \<lparr>rng_seq = 20, rng_len = 1\<rparr>]"
    and ?a = "[\<lparr>rng_seq = 3, rng_len = 2\<rparr>, \<lparr>rng_seq = 7, rng_len = 1\<rparr>]"
  have r: "rs_ok ?r" and q: "range_ok ?q" by (simp_all add: rs_ok_def apart_def range_ok_def)
  have u: "Union_Range ?r ?q = (?r', ?a)"
    by (simp add: Union_Range_def rs_union_def report_def union_nil_def extend_lower_def
        extend_upper_def To_def u64_def i64_def)
  show ?thesis unfolding Let_def by (intro conjI u) (use Union_adds_exactly [OF r q u] in blast)+
qed

text \<open>
  C26. \<open>Subtract\<close> removes exactly the numbers of the given range from a well-formed set, splitting
  a node where the range lies inside it, and returns exactly the numbers that were removed.
\<close>

theorem Subtract_removes_exactly:
  assumes "rs_ok r" and "range_ok q" and "Subtract r q = (r', removed)"
  shows "rs_ok r' \<and> seqs r' = seqs r - seqs_of q
    \<and> rs_ok removed \<and> seqs removed = seqs r \<inter> seqs_of q"
  using Subtract_spec [OF assms(1,2)] assms(3) by simp

theorem Subtract_removes_exactly_witness:
  "let r = [\<lparr>rng_seq = 1, rng_len = 9\<rparr>, \<lparr>rng_seq = 12, rng_len = 3\<rparr>];
       q = \<lparr>rng_seq = 4, rng_len = 2\<rparr>;
       r' = [\<lparr>rng_seq = 1, rng_len = 3\<rparr>, \<lparr>rng_seq = 6, rng_len = 4\<rparr>, \<lparr>rng_seq = 12, rng_len = 3\<rparr>];
       removed = [\<lparr>rng_seq = 4, rng_len = 2\<rparr>]
   in Subtract r q = (r', removed) \<and> rs_ok r' \<and> seqs r' = seqs r - seqs_of q
    \<and> rs_ok removed \<and> seqs removed = seqs r \<inter> seqs_of q"
proof -
  let ?r = "[\<lparr>rng_seq = 1, rng_len = 9\<rparr>, \<lparr>rng_seq = 12, rng_len = 3\<rparr>]"
    and ?q = "\<lparr>rng_seq = 4, rng_len = 2\<rparr>"
    and ?r' = "[\<lparr>rng_seq = 1, rng_len = 3\<rparr>, \<lparr>rng_seq = 6, rng_len = 4\<rparr>, \<lparr>rng_seq = 12, rng_len = 3\<rparr>]"
    and ?a = "[\<lparr>rng_seq = 4, rng_len = 2\<rparr>]"
  have r: "rs_ok ?r" and q: "range_ok ?q" by (simp_all add: rs_ok_def apart_def range_ok_def)
  have u: "Subtract ?r ?q = (?r', ?a)"
    by (simp add: Subtract_def rs_subtract_def report_def union_nil_def To_def u64_def i64_def)
  show ?thesis unfolding Let_def by (intro conjI u) (use Subtract_removes_exactly [OF r q u] in blast)+
qed

text \<open>
  \<open>Add\<close> and \<open>Remove\<close> of one sequence number change a well-formed set by exactly that
  number, keep it well-formed, and their boolean result says whether the set changed.
\<close>

theorem Add_Remove_single:
  assumes "rs_ok r" and "1 \<le> s" and "s < int_lim"
  shows "rs_ok (fst (rs_Add r s)) \<and> seqs (fst (rs_Add r s)) = insert s (seqs r)
    \<and> (snd (rs_Add r s) \<longleftrightarrow> s \<notin> seqs r)
    \<and> rs_ok (fst (rs_Remove r s)) \<and> seqs (fst (rs_Remove r s)) = seqs r - {s}
    \<and> (snd (rs_Remove r s) \<longleftrightarrow> s \<in> seqs r)"
  using rs_Add_spec [OF assms] rs_Remove_spec [OF assms(1), of s] by (metis prod.collapse)

theorem Add_Remove_single_witness:
  "let r = [\<lparr>rng_seq = 3, rng_len = 4\<rparr>]
   in rs_Remove r 5 = ([\<lparr>rng_seq = 3, rng_len = 2\<rparr>, \<lparr>rng_seq = 6, rng_len = 1\<rparr>], True)
    \<and> seqs (fst (rs_Add r 5)) = insert 5 (seqs r) \<and> \<not> snd (rs_Add r 5)
    \<and> seqs (fst (rs_Remove r 5)) = seqs r - {5} \<and> snd (rs_Remove r 5)"
proof -
  let ?r = "[\<lparr>rng_seq = 3, rng_len = 4\<rparr>]"
  have r: "rs_ok ?r" by (simp add: rs_ok_def range_ok_def)
  have "rs_Remove ?r 5 = ([\<lparr>rng_seq = 3, rng_len = 2\<rparr>, \<lparr>rng_seq = 6, rng_len = 1\<rparr>], True)"
    by (simp add: To_def u64_def i64_def)
  moreover have "5 \<in> seqs ?r" by (simp add: seqs_of_def)
  ultimately show ?thesis using Add_Remove_single [OF r, of 5] unfolding Let_def by simp
qed

text \<open>
  \<open>Contains\<close>, which looks for one node that covers the range, decides whether every number of
  the range is in the set: separated nodes never cover a range together.
\<close>

theorem Contains_iff_subset:
  assumes "rs_ok r" and "range_ok q"
  shows "rs_Contains r q \<longleftrightarrow> seqs_of q \<subseteq> seqs r"
  by (rule rs_Contains_spec [OF assms])

theorem Contains_iff_subset_witness:
  "rs_Contains [\<lparr>rng_seq = 1, rng_len = 2\<rparr>, \<lparr>rng_seq = 5, rng_len = 4\<rparr>] \<lparr>rng_seq = 6, rng_len = 2\<rparr>
   \<and> seqs_of \<lparr>rng_seq = 6, rng_len = 2\<rparr>
     \<subseteq> seqs [\<lparr>rng_seq = 1, rng_len = 2\<rparr>, \<lparr>rng_seq = 5, rng_len = 4\<rparr>]"
proof -
  let ?r = "[\<lparr>rng_seq = 1, rng_len = 2\<rparr>, \<lparr>rng_seq = 5, rng_len = 4\<rparr>]"
    and ?q = "\<lparr>rng_seq = 6, rng_len = 2\<rparr>"
  have "rs_ok ?r" and "range_ok ?q" by (simp_all add: rs_ok_def apart_def range_ok_def)
  from Contains_iff_subset [OF this] show ?thesis by (simp add: To_def u64_def)
qed

text \<open>
  \<open>IterateSeq\<close> visits every number of a well-formed set once, in increasing order: a
  callback that records what it is given has recorded the sorted list of the set's numbers.
\<close>

theorem IterateSeq_visits_sorted:
  assumes "rs_ok r"
  shows "IterateSeq r (\<lambda>x acc. (True, acc @ [x])) [] = sorted_list_of_set (seqs r)"
proof -
  let ?f = "\<lambda>c. [rng_seq c..rng_seq c + rng_len c - 1]"
  let ?l = "concat (map ?f r)"
  have elems: "set (concat (map ?f t)) = seqs t" for t
    by (auto simp: seqs_def seqs_of_def)
  have "set ?l = seqs r" by (rule elems)
  moreover have "sorted_wrt (<) ?l"
    using assms
  proof (induction r)
    case (Cons c rest)
    have "x < y" if "x \<in> set (?f c)" "y \<in> set (concat (map ?f rest))" for x y
    proof -
      have "y \<in> seqs rest" using that(2) by (simp only: elems)
      from rs_ok_seqs_gt [OF Cons.prems this] that(1) show ?thesis by simp
    qed
    moreover have "sorted_wrt (<) (concat (map ?f rest))"
      using Cons by (simp add: rs_ok_Cons)
    ultimately show ?case
      by (simp only: list.map concat.simps sorted_wrt_append sorted_wrt_upto) blast
  qed simp
  ultimately have "sorted_list_of_set (seqs r) = ?l"
    by (metis sorted_list_of_set.idem_if_sorted_distinct strict_sorted_iff)
  then show ?thesis
    using IterateSeq_collect [OF assms, of "[]"] by simp
qed

theorem IterateSeq_visits_sorted_witness:
  "IterateSeq [\<lparr>rng_seq = 2, rng_len = 2\<rparr>, \<lparr>rng_seq = 7, rng_len = 1\<rparr>] (\<lambda>x acc. (True, acc @ [x])) []
   = sorted_list_of_set (seqs [\<lparr>rng_seq = 2, rng_len = 2\<rparr>, \<lparr>rng_seq = 7, rng_len = 1\<rparr>])"
  by (rule IterateSeq_visits_sorted) (simp add: rs_ok_def apart_def range_ok_def)

end
