(* ===== verification/Streams.thy ===== *)
theory Streams
  imports Ranges
begin

text \<open>
  \<open>sequence/stream.go\<close> and \<open>sequence/stream_create.go\<close>: the receiving end of a stream whose
  entries may arrive late, twice, or out of order. \<open>Push\<close> delivers entries in increasing
  sequence order; entries that arrive ahead of a gap wait in the sorted list \<open>ahead\<close>;
  \<open>GetMissing\<close> reports the gaps.

  The linked list \<open>ahead\<close> of the stream is the list of its nodes. \<open>pushDelay\<close> writes
  \<open>delayHistory[delayHistoryIdx]\<close>; the index is in range by \<open>stream_ok\<close>, which every
  operation keeps, so the write cannot panic.
\<close>

section \<open>Entries and the stream\<close>

record Entry =
  Seq :: int
  Delay :: duration
  Payload :: "byte list"

record node =
  node_entry :: Entry
  node_time :: time

record EntryDelay =
  Actual :: duration
  Desired :: duration

record Stream =
  lastSeq :: int
  lastTime :: time
  ahead :: "node list"
  aheadSize :: int
  maxWaitTime :: duration
  delayHistory :: "EntryDelay list"
  delayHistoryIdx :: int

definition zero_Stream :: Stream where
  "zero_Stream = \<lparr>lastSeq = 0, lastTime = 0, ahead = [], aheadSize = 0, maxWaitTime = 0,
     delayHistory = [], delayHistoryIdx = 0\<rparr>"

type_synonym stream_option = "Stream \<Rightarrow> Stream go"

fun Stream_Option :: "stream_option list \<Rightarrow> Stream \<Rightarrow> Stream go" where
  "Stream_Option [] s = Inr s"
| "Stream_Option (opt # opts) s = (case opt s of Inl e \<Rightarrow> Inl e | Inr s' \<Rightarrow> Stream_Option opts s')"

definition NewStream :: "stream_option list \<Rightarrow> Stream go" where
  "NewStream options = Stream_Option options zero_Stream"

definition WithMaxWait :: "duration \<Rightarrow> stream_option" where
  "WithMaxWait dur = (\<lambda>s. Inr (s\<lparr>maxWaitTime := dur\<rparr>))"

definition WithInitialSeq :: "int \<Rightarrow> stream_option go" where
  "WithInitialSeq sq =
     (if sq < SequenceFirst then Inl ''invalid seq''
      else Inr (\<lambda>s. if ahead s \<noteq> [] then Inl ''stream must be empty''
                    else Inr (s\<lparr>lastSeq := u64 (sq - 1)\<rparr>)))"

definition WithDelayHistorySize :: "int \<Rightarrow> stream_option" where
  "WithDelayHistorySize n =
     (\<lambda>s. if n < 0 then Inl ''makeslice: len out of range''
          else Inr (s\<lparr>delayHistoryIdx := 0,
            delayHistory := replicate (nat n) \<lparr>Actual = 0, Desired = 0\<rparr>\<rparr>))"

definition Stream_Sequence :: "Stream \<Rightarrow> int" where
  "Stream_Sequence s = lastSeq s"

section \<open>Pushing\<close>

definition pushDelay :: "duration \<Rightarrow> duration \<Rightarrow> Stream \<Rightarrow> Stream" where
  "pushDelay actual desired s =
     (let size = int (length (delayHistory s))
      in if size = 0 then s
         else let s' = s\<lparr>delayHistory := (delayHistory s)
                 [nat (delayHistoryIdx s) := \<lparr>Actual = actual, Desired = desired\<rparr>]\<rparr>
         in if delayHistoryIdx s = size - 1 then s'\<lparr>delayHistoryIdx := 0\<rparr>
            else s'\<lparr>delayHistoryIdx := delayHistoryIdx s + 1\<rparr>)"

abbreviation nseq :: "node \<Rightarrow> int" where
  "nseq n \<equiv> Seq (node_entry n)"

text \<open>\<open>None\<close> when the list already holds the entry's sequence number.\<close>

fun insert_ahead :: "node \<Rightarrow> node list \<Rightarrow> node list option" where
  "insert_ahead n [] = Some [n]"
| "insert_ahead n (c # rest) =
     (if nseq n = nseq c then None
      else if nseq c > nseq n then Some (n # c # rest)
      else map_option ((#) c) (insert_ahead n rest))"

definition pushAhead :: "Entry \<Rightarrow> time \<Rightarrow> Stream \<Rightarrow> Stream" where
  "pushAhead e now s =
     (case insert_ahead \<lparr>node_entry = e, node_time = now\<rparr> (ahead s) of
        None \<Rightarrow> s
      | Some ns \<Rightarrow> s\<lparr>aheadSize := aheadSize s + 1, ahead := ns\<rparr>)"

text \<open>
  The first loop of \<open>push\<close>; its variables \<open>delay\<close>, \<open>expired\<close>, \<open>seqPrev\<close> are arguments,
  the slice \<open>r\<close> it builds is its second result.
\<close>

fun push_loop ::
  "time \<Rightarrow> Entry list \<Rightarrow> duration \<Rightarrow> bool \<Rightarrow> int \<Rightarrow> Stream \<Rightarrow> Stream \<times> Entry list" where
  "push_loop now [] delay expired seqPrev s = (s, [])"
| "push_loop now (e # es) delay expired seqPrev s =
     (if Seq e < seqPrev then push_loop now es delay expired seqPrev s
      else if Seq e \<le> lastSeq s then push_loop now es delay expired (Seq e) s
      else if Seq e = u64 (lastSeq s + 1) \<or> expired then
        let s' = (pushDelay delay (Delay e) s)\<lparr>lastSeq := Seq e\<rparr>;
            (s'', r) = push_loop now es 0 False (Seq e) s'
        in (s'', \<lparr>Seq = Seq e, Delay = delay, Payload = Payload e\<rparr> # r)
      else push_loop now es delay expired (Seq e) (pushAhead e now s))"

text \<open>The second loop of \<open>push\<close>, over \<open>s.ahead\<close> (\<open>curr\<close> is always its first node).\<close>

fun drain_ahead :: "node list \<Rightarrow> Stream \<Rightarrow> Stream \<times> Entry list" where
  "drain_ahead [] s = (s\<lparr>ahead := []\<rparr>, [])"
| "drain_ahead (c # rest) s =
     (if nseq c = u64 (lastSeq s + 1) then
        let s' = (pushDelay 0 (Delay (node_entry c)) s)\<lparr>lastSeq := nseq c\<rparr>;
            (s'', r) = drain_ahead rest (s'\<lparr>ahead := rest, aheadSize := aheadSize s' - 1\<rparr>)
        in (s'', \<lparr>Seq = nseq c, Delay = 0, Payload = Payload (node_entry c)\<rparr> # r)
      else if nseq c > u64 (lastSeq s + 1) then (s\<lparr>ahead := c # rest\<rparr>, [])
      else drain_ahead rest (s\<lparr>ahead := rest, aheadSize := aheadSize s - 1\<rparr>))"

definition push :: "time \<Rightarrow> Entry list \<Rightarrow> Stream \<Rightarrow> Stream \<times> Entry list" where
  "push now entries s0 =
     (let s = (if time_IsZero (lastTime s0) then s0\<lparr>lastTime := now\<rparr> else s0);
          delay = time_Sub now (lastTime s);
          expired = (maxWaitTime s \<noteq> 0 \<and> delay > maxWaitTime s);
          (s1, r1) = push_loop now entries delay expired 0 s;
          s2 = (if r1 \<noteq> [] then s1\<lparr>lastTime := now\<rparr> else s1);
          (s3, r2) = drain_ahead (ahead s2) s2
      in (s3, r1 @ r2))"

section \<open>Missing ranges and quality\<close>

fun missing_loop :: "int \<Rightarrow> int \<Rightarrow> node list \<Rightarrow> Range list" where
  "missing_loop limit sq [] = []"
| "missing_loop limit sq (c # rest) =
     (if limit > 0 then
        let lenSeq = u64 (nseq c - sq - 1)
        in if lenSeq > 0 then
             \<lparr>rng_seq = u64 (sq + 1), rng_len = i64 lenSeq\<rparr> # missing_loop (limit - 1) (nseq c) rest
           else missing_loop limit (nseq c) rest
      else [])"

definition GetMissing :: "int \<Rightarrow> Stream \<Rightarrow> Range list" where
  "GetMissing limit s =
     (if ahead s = [] then []
      else let lim = (if limit \<le> 0 \<or> limit > aheadSize s then aheadSize s else limit)
      in missing_loop lim (lastSeq s) (ahead s))"

fun missing_set_loop :: "int \<Rightarrow> node list \<Rightarrow> RangeSet" where
  "missing_set_loop sq [] = []"
| "missing_set_loop sq (c # rest) =
     (let lenSeq = u64 (nseq c - sq - 1)
      in if lenSeq > 0 then
           \<lparr>rng_seq = u64 (sq + 1), rng_len = i64 lenSeq\<rparr> # missing_set_loop (nseq c) rest
         else missing_set_loop (nseq c) rest)"

definition GetMissingRangeSet :: "Stream \<Rightarrow> RangeSet" where
  "GetMissingRangeSet s = missing_set_loop (lastSeq s) (ahead s)"

definition duration_abs :: "duration \<Rightarrow> duration" where
  "duration_abs d = (if d < 0 then i64 (- d) else d)"

definition Diff :: "EntryDelay \<Rightarrow> duration" where
  "Diff d = duration_abs (i64 (duration_abs (Actual d) - duration_abs (Desired d)))"

definition Stream_Quality :: "Stream \<Rightarrow> duration" where
  "Stream_Quality s =
     (let n = int (length (delayHistory s))
      in if n = 0 then 0
         else i64 (go_div (foldl (\<lambda>total d. i64 (total + Diff d)) 0 (delayHistory s)) n))"

section \<open>Lemmas\<close>

subsection \<open>Invariant\<close>

definition ahead_seqs :: "Stream \<Rightarrow> int set" where
  "ahead_seqs s = nseq ` set (ahead s)"

definition hist_ok :: "Stream \<Rightarrow> bool" where
  "hist_ok s \<longleftrightarrow> delayHistory s = [] \<or>
     0 \<le> delayHistoryIdx s \<and> delayHistoryIdx s < int (length (delayHistory s))"

text \<open>What holds inside \<open>push\<close>: the waiting entries are sorted, but may be overtaken.\<close>

definition loop_ok :: "Stream \<Rightarrow> bool" where
  "loop_ok s \<longleftrightarrow> 0 \<le> lastSeq s \<and> lastSeq s < int_lim \<and> sorted_wrt (<) (map nseq (ahead s))
     \<and> (\<forall>n\<in>set (ahead s). 0 < nseq n \<and> nseq n < int_lim)
     \<and> aheadSize s = int (length (ahead s)) \<and> hist_ok s"

text \<open>Between calls the waiting entries are all beyond the next expected one.\<close>

definition stream_ok :: "Stream \<Rightarrow> bool" where
  "stream_ok s \<longleftrightarrow> loop_ok s \<and> (\<forall>n\<in>set (ahead s). lastSeq s + 1 < nseq n)"

definition feed_ok :: "Entry list \<Rightarrow> bool" where
  "feed_ok es \<longleftrightarrow> (\<forall>e\<in>set es. 0 \<le> Seq e \<and> Seq e < int_lim)"

lemma feed_ok_simps [simp]:
  "feed_ok []" "feed_ok (e # es) \<longleftrightarrow> 0 \<le> Seq e \<and> Seq e < int_lim \<and> feed_ok es"
  by (auto simp: feed_ok_def)

lemma pushDelay_frame [simp]:
  "lastSeq (pushDelay a d s) = lastSeq s" "ahead (pushDelay a d s) = ahead s"
  "aheadSize (pushDelay a d s) = aheadSize s" "maxWaitTime (pushDelay a d s) = maxWaitTime s"
  "lastTime (pushDelay a d s) = lastTime s"
  by (simp_all add: pushDelay_def Let_def)

lemma pushDelay_hist_ok [simp]: "hist_ok s \<Longrightarrow> hist_ok (pushDelay a d s)"
  by (auto simp: pushDelay_def hist_ok_def Let_def)

lemma hist_ok_cong [simp]:
  "hist_ok (s\<lparr>lastSeq := x\<rparr>) = hist_ok s" "hist_ok (s\<lparr>ahead := y\<rparr>) = hist_ok s"
  "hist_ok (s\<lparr>aheadSize := z\<rparr>) = hist_ok s" "hist_ok (s\<lparr>lastTime := t\<rparr>) = hist_ok s"
  by (simp_all add: hist_ok_def)

lemma loop_ok_lastSeq:
  "loop_ok s \<Longrightarrow> 0 \<le> x \<Longrightarrow> x < int_lim \<Longrightarrow> loop_ok ((pushDelay a d s)\<lparr>lastSeq := x\<rparr>)"
  by (simp add: loop_ok_def)

subsection \<open>Inserting ahead\<close>

lemma insert_ahead_None: "insert_ahead n ns = None \<Longrightarrow> nseq n \<in> nseq ` set ns"
  by (induction ns) (auto split: if_splits)

lemma insert_ahead_Some:
  "insert_ahead n ns = Some ns' \<Longrightarrow> sorted_wrt (<) (map nseq ns) \<Longrightarrow>
   set ns' = insert n (set ns) \<and> sorted_wrt (<) (map nseq ns') \<and> length ns' = Suc (length ns)"
  by (induction ns arbitrary: ns') (fastforce split: if_splits)+

lemma pushAhead_spec:
  assumes "loop_ok s" and "0 < Seq e" and "Seq e < int_lim"
  shows "loop_ok (pushAhead e now s) \<and> lastSeq (pushAhead e now s) = lastSeq s
    \<and> maxWaitTime (pushAhead e now s) = maxWaitTime s
    \<and> ahead_seqs (pushAhead e now s) = insert (Seq e) (ahead_seqs s)
    \<and> node_entry ` set (ahead (pushAhead e now s)) \<subseteq> insert e (node_entry ` set (ahead s))"
proof (cases "insert_ahead \<lparr>node_entry = e, node_time = now\<rparr> (ahead s)")
  case None
  then show ?thesis
    using assms insert_ahead_None [OF None] by (auto simp: pushAhead_def ahead_seqs_def)
next
  case (Some ns)
  have "sorted_wrt (<) (map nseq (ahead s))" using assms(1) by (simp add: loop_ok_def)
  from insert_ahead_Some [OF Some this] show ?thesis
    using assms Some by (auto simp: pushAhead_def ahead_seqs_def loop_ok_def)
qed

subsection \<open>The two loops\<close>

text \<open>
  The relation between the state before and after a loop of \<open>push\<close> that delivers \<open>r\<close>:
  the delivered numbers increase from \<open>lastSeq\<close> on, the last one is the new \<open>lastSeq\<close>, and
  every delivered or waiting entry has the number and payload of one of \<open>E\<close>.
\<close>

definition in_order :: "int \<Rightarrow> Entry list \<Rightarrow> int \<Rightarrow> bool" where
  "in_order l r l' \<longleftrightarrow> sorted_wrt (<) (l # map Seq r) \<and> l' = last (l # map Seq r)"

definition known :: "Entry set \<Rightarrow> Entry \<Rightarrow> bool" where
  "known A x \<longleftrightarrow> (\<exists>e\<in>A. Seq e = Seq x \<and> Payload e = Payload x)"

abbreviation waiting :: "Stream \<Rightarrow> Entry set" where
  "waiting s \<equiv> node_entry ` set (ahead s)"

text \<open>Everything at or below \<open>lastSeq\<close> is settled; with the waiting entries it never shrinks.\<close>

definition received :: "Stream \<Rightarrow> int set" where
  "received s = {1..lastSeq s} \<union> ahead_seqs s"

definition delivers :: "Entry set \<Rightarrow> Stream \<Rightarrow> Stream \<Rightarrow> Entry list \<Rightarrow> bool" where
  "delivers E s s' r \<longleftrightarrow> loop_ok s' \<and> maxWaitTime s' = maxWaitTime s
    \<and> in_order (lastSeq s) r (lastSeq s')
    \<and> waiting s' \<subseteq> E \<union> waiting s \<and> list_all (known (E \<union> waiting s)) r
    \<and> received s \<subseteq> received s'"

lemma in_order_Nil [simp]: "in_order l [] l' \<longleftrightarrow> l' = l"
  by (simp add: in_order_def)

lemma in_order_Cons [simp]: "in_order l (x # r) l' \<longleftrightarrow> l < Seq x \<and> in_order (Seq x) r l'"
  by (auto simp: in_order_def)

lemma in_order_append: "in_order l (r @ q) l' \<longleftrightarrow> (\<exists>m. in_order l r m \<and> in_order m q l')"
  by (induction r arbitrary: l) auto

lemma in_order_le: "in_order l r l' \<Longrightarrow> l \<le> l'"
  by (induction r arbitrary: l) force+

lemma known_mono: "list_all (known A) r \<Longrightarrow> A \<subseteq> B \<Longrightarrow> list_all (known B) r"
  by (auto simp: list_all_iff known_def)

lemma delivers_refl: "loop_ok s \<Longrightarrow> delivers E s s []"
  by (simp add: delivers_def)

lemma delivers_skip:
  assumes "delivers E t s' r" and "lastSeq t = lastSeq s" and "maxWaitTime t = maxWaitTime s"
    and "waiting t \<subseteq> F \<union> waiting s" and "E \<subseteq> F" and "received s \<subseteq> received t"
  shows "delivers F s s' r"
proof -
  have sub: "E \<union> waiting t \<subseteq> F \<union> waiting s" using assms(4,5) by blast
  note d = assms(1) [unfolded delivers_def]
  have "list_all (known (F \<union> waiting s)) r" using d sub known_mono by blast
  moreover have "waiting s' \<subseteq> F \<union> waiting s" using d sub by blast
  moreover have "received s \<subseteq> received s'" using d assms(6) by blast
  ultimately show ?thesis using d assms(2,3) by (simp add: delivers_def)
qed

lemma delivers_mono: "delivers E s s' r \<Longrightarrow> E \<subseteq> F \<Longrightarrow> delivers F s s' r"
  by (rule delivers_skip) auto

lemma delivers_Cons:
  assumes "delivers E t s' r" and "lastSeq s < Seq x" and "Seq x = lastSeq t"
    and "maxWaitTime t = maxWaitTime s" and "waiting t \<subseteq> F \<union> waiting s" and "E \<subseteq> F"
    and "received s \<subseteq> received t" and "known (F \<union> waiting s) x"
  shows "delivers F s s' (x # r)"
proof -
  have sub: "E \<union> waiting t \<subseteq> F \<union> waiting s" using assms(5,6) by blast
  note d = assms(1) [unfolded delivers_def]
  have "list_all (known (F \<union> waiting s)) r" using d sub known_mono by blast
  moreover have "waiting s' \<subseteq> F \<union> waiting s" using d sub by blast
  moreover have "received s \<subseteq> received s'" using d assms(7) by blast
  ultimately show ?thesis using d assms(2-4,8) by (simp add: delivers_def)
qed

lemma delivers_append:
  assumes "delivers E s t r" and "delivers F t u q" and "F \<subseteq> E"
  shows "delivers E s u (r @ q)"
proof -
  note d = assms(1) [unfolded delivers_def] and d' = assms(2) [unfolded delivers_def]
  have sub: "F \<union> waiting t \<subseteq> E \<union> waiting s" using d assms(3) by blast
  have "list_all (known (E \<union> waiting s)) q" using d' sub known_mono by blast
  moreover have "waiting u \<subseteq> E \<union> waiting s" using d' sub by blast
  moreover have "in_order (lastSeq s) (r @ q) (lastSeq u)"
    using d d' unfolding in_order_append by blast
  moreover have "received s \<subseteq> received u" using d d' by blast
  ultimately show ?thesis using d d' by (simp add: delivers_def)
qed

lemma known_self: "e \<in> A \<Longrightarrow> Seq x = Seq e \<Longrightarrow> Payload x = Payload e \<Longrightarrow> known A x"
  by (auto simp: known_def)

lemma push_loop_delivers:
  assumes "loop_ok s" and "feed_ok es" and "push_loop now es delay expired prev s = (s', r)"
  shows "delivers (set es) s s' r"
  using assms
proof (induction now es delay expired prev s arbitrary: s' r rule: push_loop.induct)
  case (1 now delay expired prev s)
  then show ?case by (simp add: delivers_refl)
next
  case (2 now e es delay expired prev s)
  have e: "0 \<le> Seq e" "Seq e < int_lim" "feed_ok es" using "2.prems"(2) by auto
  have mono: "delivers (set es) t u q \<Longrightarrow> delivers (set (e # es)) t u q" for t u q
    by (erule delivers_mono) auto
  consider "Seq e < prev" | "\<not> Seq e < prev" "Seq e \<le> lastSeq s"
    | "\<not> Seq e < prev" "\<not> Seq e \<le> lastSeq s" "Seq e = u64 (lastSeq s + 1) \<or> expired"
    | "\<not> Seq e < prev" "\<not> Seq e \<le> lastSeq s" "\<not> (Seq e = u64 (lastSeq s + 1) \<or> expired)"
    by blast
  then show ?case
  proof cases
    case 1
    then have "push_loop now es delay expired prev s = (s', r)" using "2.prems"(3) by simp
    from mono [OF "2.IH"(1) [OF 1 "2.prems"(1) e(3) this]] show ?thesis .
  next
    case 2
    then have "push_loop now es delay expired (Seq e) s = (s', r)" using "2.prems"(3) by simp
    from mono [OF "2.IH"(2) [OF 2 "2.prems"(1) e(3) this]] show ?thesis .
  next
    case 3
    let ?s = "(pushDelay delay (Delay e) s)\<lparr>lastSeq := Seq e\<rparr>"
    obtain r0 where rec: "push_loop now es 0 False (Seq e) ?s = (s', r0)"
      and r: "r = \<lparr>Seq = Seq e, Delay = delay, Payload = Payload e\<rparr> # r0"
      using 3 "2.prems"(3) by (auto split: prod.splits)
    have "loop_ok ?s" using loop_ok_lastSeq "2.prems"(1) e by blast
    from "2.IH"(3) [OF 3 refl this e(3) rec] show ?thesis
      unfolding r by (rule delivers_Cons)
        (use 3 in \<open>auto simp: received_def ahead_seqs_def intro: known_self [of e]\<close>)
  next
    case 4
    have "0 < Seq e" using 4(2) "2.prems"(1) by (simp add: loop_ok_def)
    note P = pushAhead_spec [OF "2.prems"(1) this e(2), of now]
    have "push_loop now es delay expired (Seq e) (pushAhead e now s) = (s', r)"
      using 4 "2.prems"(3) by simp
    then have "delivers (set es) (pushAhead e now s) s' r"
      using "2.IH"(4) [OF 4 _ e(3)] P by blast
    then show ?thesis
      by (rule delivers_skip) (use P in \<open>auto simp: received_def\<close>)
  qed
qed


text \<open>
  Without expiry nothing is skipped: the delivered numbers are consecutive, and what has been
  received (delivered or waiting) grows by exactly the numbers of the feed.
\<close>

definition consecutive :: "int \<Rightarrow> Entry list \<Rightarrow> int \<Rightarrow> bool" where
  "consecutive l r l' \<longleftrightarrow> l \<le> l' \<and> map Seq r = [l + 1..l']"

definition feed_seqs :: "Entry list \<Rightarrow> int set" where
  "feed_seqs es = {x \<in> Seq ` set es. 1 \<le> x}"

lemma consecutive_Nil [simp]: "consecutive l [] l' \<longleftrightarrow> l' = l"
  by (auto simp: consecutive_def)

lemma consecutive_Cons:
  "Seq x = l + 1 \<Longrightarrow> consecutive (l + 1) r l' \<Longrightarrow> consecutive l (x # r) l'"
  by (simp add: consecutive_def upto_rec1)

lemma consecutive_append:
  "consecutive l r m \<Longrightarrow> consecutive m q l' \<Longrightarrow> consecutive l (r @ q) l'"
  by (cases "l = m") (auto simp: consecutive_def upto_split2 [of "l + 1" m l'])

lemma feed_seqs_Nil [simp]: "feed_seqs [] = {}"
  by (simp add: feed_seqs_def)

lemma feed_seqs_Cons: "feed_seqs (e # es) = (if 1 \<le> Seq e then {Seq e} else {}) \<union> feed_seqs es"
  by (auto simp: feed_seqs_def)

lemma drain_spec:
  assumes "loop_ok s" and "drain_ahead (ahead s) s = (s', r)"
  shows "delivers {} s s' r \<and> stream_ok s' \<and> consecutive (lastSeq s) r (lastSeq s')
    \<and> received s' = received s"
proof -
  have "delivers {} s s' r \<and> stream_ok s' \<and> consecutive (lastSeq s) r (lastSeq s')
    \<and> received s' = received s"
    if "ahead s = ns" "drain_ahead ns s = (s', r)" "loop_ok s" for ns s s' r
    using that
  proof (induction ns s arbitrary: s' r rule: drain_ahead.induct)
    case (1 s)
    have "s\<lparr>ahead := []\<rparr> = s" using 1(1) by (cases s) simp
    then have "s' = s" "r = []" using 1(2) by (auto simp only: drain_ahead.simps prod.inject)
    then show ?case using 1 by (auto simp: delivers_refl stream_ok_def)
  next
    case (2 c rest s)
    have c: "0 < nseq c" "nseq c < int_lim" and l: "0 \<le> lastSeq s" "lastSeq s < int_lim"
      and up: "u64 (lastSeq s + 1) = lastSeq s + 1"
      using "2.prems" by (auto simp: loop_ok_def go_wrap)
    have gt: "\<And>n. n \<in> set rest \<Longrightarrow> nseq c < nseq n"
      using "2.prems" by (auto simp: loop_ok_def)
    consider (expected) "nseq c = lastSeq s + 1" | (gap) "nseq c > lastSeq s + 1"
      | (old) "nseq c \<le> lastSeq s" by linarith
    then show ?case
    proof cases
      case expected
      let ?t = "(pushDelay 0 (Delay (node_entry c)) s)\<lparr>lastSeq := nseq c\<rparr>"
      let ?s = "?t\<lparr>ahead := rest, aheadSize := aheadSize ?t - 1\<rparr>"
      obtain r0 where rec: "drain_ahead rest ?s = (s', r0)"
        and r: "r = \<lparr>Seq = nseq c, Delay = 0, Payload = Payload (node_entry c)\<rparr> # r0"
        using expected up "2.prems"(2) by (auto simp: Let_def split: prod.splits)
      have ok: "loop_ok ?s" using "2.prems"(1,3) c by (auto simp: loop_ok_def)
      have IH: "delivers {} ?s s' r0" "stream_ok s'" "consecutive (lastSeq ?s) r0 (lastSeq s')"
        "received s' = received ?s"
        using "2.IH"(1) [OF _ refl _ rec ok] expected up by auto
      have same: "received ?s = received s"
        using expected l "2.prems"(1) by (auto simp: received_def ahead_seqs_def)
      moreover have "delivers {} s s' r"
        unfolding r using IH(1) by (rule delivers_Cons)
          (use expected "2.prems"(1) same in \<open>auto intro: known_self [of "node_entry c"]\<close>)
      ultimately show ?thesis using IH expected by (auto simp: r intro: consecutive_Cons)
    next
      case gap
      then have "s' = s" "r = []" using "2.prems" up by auto
      then show ?thesis
        using "2.prems" gap gt by (force simp: delivers_refl stream_ok_def)
    next
      case old
      let ?s = "s\<lparr>ahead := rest, aheadSize := aheadSize s - 1\<rparr>"
      have rec: "drain_ahead rest ?s = (s', r)" using old up "2.prems"(2) by simp
      have ok: "loop_ok ?s" using "2.prems"(1,3) by (auto simp: loop_ok_def)
      have IH: "delivers {} ?s s' r" "stream_ok s'" "consecutive (lastSeq ?s) r (lastSeq s')"
        "received s' = received ?s"
        using "2.IH"(2) [OF _ _ _ rec ok] old up by auto
      have same: "received ?s = received s"
        using old c "2.prems"(1) by (auto simp: received_def ahead_seqs_def)
      moreover have "delivers {} s s' r"
        using IH(1) by (rule delivers_skip) (use "2.prems"(1) same in auto)
      ultimately show ?thesis using IH by simp
    qed
  qed
  from this [OF refl assms(2,1)] show ?thesis .
qed

lemma push_loop_consecutive:
  assumes "loop_ok s" and "feed_ok es" and "push_loop now es delay False prev s = (s', r)"
  shows "consecutive (lastSeq s) r (lastSeq s')
    \<and> received s' \<subseteq> received s \<union> feed_seqs es
    \<and> received s \<subseteq> received s'
    \<and> (sorted_wrt (\<le>) (prev # map Seq es) \<longrightarrow> feed_seqs es \<subseteq> received s')"
  using assms
proof (induction es arbitrary: s s' r delay prev)
  case Nil
  then show ?case by simp
next
  case (Cons e es)
  have e: "0 \<le> Seq e" "Seq e < int_lim" "feed_ok es" using Cons.prems(2) by auto
  have up: "u64 (lastSeq s + 1) = lastSeq s + 1" and l: "0 \<le> lastSeq s"
    using Cons.prems(1) by (auto simp: loop_ok_def go_wrap)
  consider (dropped) "Seq e < prev" | (old) "\<not> Seq e < prev" "Seq e \<le> lastSeq s"
    | (expected) "\<not> Seq e < prev" "Seq e = lastSeq s + 1"
    | (early) "\<not> Seq e < prev" "lastSeq s + 1 < Seq e"
    by linarith
  then show ?case
  proof cases
    case dropped
    then have "push_loop now es delay False prev s = (s', r)" using Cons.prems(3) by simp
    then show ?thesis using Cons.IH [OF Cons.prems(1) e(3)] dropped by (fastforce simp: feed_seqs_Cons)
  next
    case old
    then have "push_loop now es delay False (Seq e) s = (s', r)" using Cons.prems(3) by simp
    note IH = Cons.IH [OF Cons.prems(1) e(3) this]
    have "1 \<le> Seq e \<Longrightarrow> Seq e \<in> received s" using old by (simp add: received_def)
    then show ?thesis using IH old by (auto simp: feed_seqs_Cons)
  next
    case expected
    let ?s = "(pushDelay delay (Delay e) s)\<lparr>lastSeq := Seq e\<rparr>"
    obtain r0 where rec: "push_loop now es 0 False (Seq e) ?s = (s', r0)"
      and r: "r = \<lparr>Seq = Seq e, Delay = delay, Payload = Payload e\<rparr> # r0"
      using expected up Cons.prems(3) by (auto split: prod.splits)
    have "loop_ok ?s" using loop_ok_lastSeq Cons.prems(1) e by blast
    note IH = Cons.IH [OF this e(3) rec]
    have "received ?s = insert (Seq e) (received s)"
      using expected l by (auto simp: received_def ahead_seqs_def)
    then show ?thesis using IH expected l by (auto simp: r feed_seqs_Cons intro: consecutive_Cons)
  next
    case early
    note P = pushAhead_spec [OF Cons.prems(1) _ e(2), of now]
    have rec: "push_loop now es delay False (Seq e) (pushAhead e now s) = (s', r)"
      using early up Cons.prems(3) by simp
    have "received (pushAhead e now s) = insert (Seq e) (received s)"
      using P early l by (auto simp: received_def)
    then show ?thesis
      using Cons.IH [OF _ e(3) rec] P early l by (auto simp: feed_seqs_Cons)
  qed
qed

subsection \<open>The whole of \<open>push\<close>\<close>

lemma stream_okD: "stream_ok s \<Longrightarrow> loop_ok s"
  by (simp add: stream_ok_def)

lemma loop_ok_lastTime [simp]: "loop_ok (s\<lparr>lastTime := t\<rparr>) = loop_ok s"
  by (simp add: loop_ok_def)

lemma received_lastTime [simp]: "received (s\<lparr>lastTime := t\<rparr>) = received s"
  by (simp add: received_def ahead_seqs_def)

lemma delivers_lastTime [simp]:
  "delivers E (s\<lparr>lastTime := t\<rparr>) s' r = delivers E s s' r"
  "delivers E s (s'\<lparr>lastTime := t\<rparr>) r = delivers E s s' r"
  by (simp_all add: delivers_def)

lemma push_unfold:
  assumes "push now es s = (s', r)" and "loop_ok s" and "feed_ok es"
  obtains s0 s1 s2 r1 r2 delay expired where
    "s0 = s \<or> s0 = s\<lparr>lastTime := now\<rparr>" "maxWaitTime s = 0 \<longrightarrow> \<not> expired"
    "push_loop now es delay expired 0 s0 = (s1, r1)"
    "s2 = s1 \<or> s2 = s1\<lparr>lastTime := now\<rparr>"
    "drain_ahead (ahead s2) s2 = (s', r2)" "r = r1 @ r2" "loop_ok s0" "loop_ok s2"
proof -
  define s0 where "s0 = (if time_IsZero (lastTime s) then s\<lparr>lastTime := now\<rparr> else s)"
  define delay where "delay = time_Sub now (lastTime s0)"
  define expired where "expired = (maxWaitTime s0 \<noteq> 0 \<and> delay > maxWaitTime s0)"
  obtain s1 r1 where l: "push_loop now es delay expired 0 s0 = (s1, r1)" by fastforce
  define s2 where "s2 = (if r1 \<noteq> [] then s1\<lparr>lastTime := now\<rparr> else s1)"
  obtain s3 r2 where d: "drain_ahead (ahead s2) s2 = (s3, r2)" by fastforce
  have "push now es s = (s3, r1 @ r2)"
    using l d unfolding push_def s0_def [symmetric] Let_def delay_def [symmetric]
      expired_def [symmetric] by (simp add: s2_def [symmetric])
  with assms(1) have "s3 = s'" "r = r1 @ r2" by auto
  moreover have "loop_ok s0" using assms(2) by (simp add: s0_def)
  moreover have "loop_ok s2"
    using push_loop_delivers [OF \<open>loop_ok s0\<close> assms(3) l] by (simp add: s2_def delivers_def)
  ultimately show ?thesis
    using that [of s0 expired delay s1 r1 s2 r2] l d
    by (auto simp: s0_def s2_def expired_def)
qed

lemma push_delivers:
  assumes "stream_ok s" and "feed_ok es" and "push now es s = (s', r)"
  shows "stream_ok s' \<and> delivers (set es) s s' r"
proof -
  obtain s0 s1 s2 r1 r2 delay expired where
    u: "s0 = s \<or> s0 = s\<lparr>lastTime := now\<rparr>" "maxWaitTime s = 0 \<longrightarrow> \<not> expired"
    "push_loop now es delay expired 0 s0 = (s1, r1)"
    "s2 = s1 \<or> s2 = s1\<lparr>lastTime := now\<rparr>"
    "drain_ahead (ahead s2) s2 = (s', r2)" "r = r1 @ r2" "loop_ok s0" "loop_ok s2"
    by (rule push_unfold [OF assms(3) stream_okD [OF assms(1)] assms(2)]) blast
  have "delivers (set es) s s2 r1"
    using push_loop_delivers [OF u(7) assms(2) u(3)] u(1,4) by auto
  moreover have "delivers {} s2 s' r2" "stream_ok s'" using drain_spec [OF u(8,5)] by auto
  ultimately show ?thesis using delivers_append u(6) by blast
qed

lemma push_nowait:
  assumes "stream_ok s" and "feed_ok es" and "maxWaitTime s = 0" and "push now es s = (s', r)"
  shows "consecutive (lastSeq s) r (lastSeq s')
    \<and> received s \<subseteq> received s' \<and> received s' \<subseteq> received s \<union> feed_seqs es
    \<and> (sorted_wrt (\<le>) (map Seq es) \<longrightarrow> received s' = received s \<union> feed_seqs es)"
proof -
  obtain s0 s1 s2 r1 r2 delay expired where
    u: "s0 = s \<or> s0 = s\<lparr>lastTime := now\<rparr>" "maxWaitTime s = 0 \<longrightarrow> \<not> expired"
    "push_loop now es delay expired 0 s0 = (s1, r1)"
    "s2 = s1 \<or> s2 = s1\<lparr>lastTime := now\<rparr>"
    "drain_ahead (ahead s2) s2 = (s', r2)" "r = r1 @ r2" "loop_ok s0" "loop_ok s2"
    by (rule push_unfold [OF assms(4) stream_okD [OF assms(1)] assms(2)]) blast
  have loop: "push_loop now es delay False 0 s0 = (s1, r1)" using u(2,3) assms(3) by simp
  have srt: "sorted_wrt (\<le>) (0 # map Seq es) \<longleftrightarrow> sorted_wrt (\<le>) (map Seq es)"
    using assms(2) by (auto simp: feed_ok_def)
  note L = push_loop_consecutive [OF u(7) assms(2) loop, unfolded srt]
  have fr: "received s0 = received s" "received s2 = received s1" "lastSeq s0 = lastSeq s"
    "lastSeq s2 = lastSeq s1"
    using u(1,4) by auto
  note D = drain_spec [OF u(8,5)]
  have "consecutive (lastSeq s) r (lastSeq s')"
    using L D fr unfolding u(6) by (metis consecutive_append)
  then show ?thesis using L D fr by auto
qed

subsection \<open>Missing ranges\<close>

text \<open>The gaps of a stream: numbers not received below one that waits.\<close>

definition gaps :: "Stream \<Rightarrow> int set" where
  "gaps s = {x. lastSeq s < x \<and> (\<exists>y\<in>ahead_seqs s. x < y)} - ahead_seqs s"

lemma missing_loop_take:
  "missing_loop lim sq ns = take (nat lim) (missing_set_loop sq ns)"
proof (induction ns arbitrary: lim sq)
  case (Cons c rest)
  show ?case
  proof (cases "lim > 0")
    case True
    then have "nat lim = Suc (nat (lim - 1))" by simp
    with True Cons show ?thesis by (simp add: Let_def del: nat_eq_iff2)
  qed simp
qed simp

lemma length_missing_set_loop: "length (missing_set_loop sq ns) \<le> length ns"
proof (induction ns arbitrary: sq)
  case (Cons c rest)
  have "length (missing_set_loop (nseq c) rest) \<le> length rest" by (rule Cons)
  then show ?case by (simp add: Let_def)
qed simp

lemma missing_set_loop_spec:
  assumes "0 \<le> sq" and "sorted_wrt (<) (sq # map nseq ns)" and "\<forall>n\<in>set ns. nseq n < int_lim"
  shows "rs_ok (missing_set_loop sq ns)
    \<and> seqs (missing_set_loop sq ns) = {x. sq < x \<and> (\<exists>n\<in>set ns. x < nseq n)} - nseq ` set ns"
  using assms
proof (induction ns arbitrary: sq)
  case Nil
  then show ?case by simp
next
  case (Cons c rest)
  have c: "sq < nseq c" "nseq c < int_lim" and gt: "\<And>n. n \<in> set rest \<Longrightarrow> nseq c < nseq n"
    using Cons.prems by auto
  have IH: "rs_ok (missing_set_loop (nseq c) rest)"
    "seqs (missing_set_loop (nseq c) rest) = {x. nseq c < x \<and> (\<exists>n\<in>set rest. x < nseq n)} - nseq ` set rest"
    using Cons.IH [of "nseq c"] Cons.prems by auto
  have split: "{x. sq < x \<and> (\<exists>n\<in>set (c # rest). x < nseq n)} - nseq ` set (c # rest)
      = {sq + 1 ..< nseq c} \<union> ({x. nseq c < x \<and> (\<exists>n\<in>set rest. x < nseq n)} - nseq ` set rest)"
    using c(1) by (auto dest: gt intro: order_less_trans)
  have w: "u64 (nseq c - sq - 1) = nseq c - sq - 1" "u64 (sq + 1) = sq + 1"
    "i64 (nseq c - sq - 1) = nseq c - sq - 1"
    using c Cons.prems(1) by (simp_all add: go_wrap)
  show ?case
  proof (cases "nseq c - sq - 1 > 0")
    case False
    then have "missing_set_loop sq (c # rest) = missing_set_loop (nseq c) rest" using w by simp
    moreover have "{sq + 1 ..< nseq c} = {}" using False by auto
    ultimately show ?thesis using IH unfolding split by simp
  next
    case True
    let ?q = "\<lparr>rng_seq = sq + 1, rng_len = nseq c - sq - 1\<rparr>"
    have eq: "missing_set_loop sq (c # rest) = ?q # missing_set_loop (nseq c) rest"
      using True w by simp
    have "rs_ok (?q # missing_set_loop (nseq c) rest)"
      using IH True c Cons.prems(1) by (intro rs_ok_ConsI) (auto simp: range_ok_def)
    moreover have "seqs_of ?q = {sq + 1 ..< nseq c}" by (simp add: seqs_of_def)
    ultimately show ?thesis using IH unfolding split eq by simp
  qed
qed

lemma GetMissing_take:
  assumes "stream_ok s"
  shows "GetMissing limit s =
    (if limit \<le> 0 then GetMissingRangeSet s else take (nat limit) (GetMissingRangeSet s))"
proof -
  have sz: "aheadSize s = int (length (ahead s))" using assms by (simp add: stream_ok_def loop_ok_def)
  have le: "length (GetMissingRangeSet s) \<le> length (ahead s)"
    by (simp add: GetMissingRangeSet_def length_missing_set_loop)
  show ?thesis
    using sz le by (auto simp: GetMissing_def missing_loop_take GetMissingRangeSet_def)
qed

lemma GetMissingRangeSet_spec:
  assumes "stream_ok s"
  shows "rs_ok (GetMissingRangeSet s) \<and> seqs (GetMissingRangeSet s) = gaps s"
proof -
  have "sorted_wrt (<) (lastSeq s # map nseq (ahead s))" "0 \<le> lastSeq s"
    "\<forall>n\<in>set (ahead s). nseq n < int_lim"
    using assms by (fastforce simp: stream_ok_def loop_ok_def)+
  from missing_set_loop_spec [OF this(2,1,3)] show ?thesis
    by (auto simp: GetMissingRangeSet_def gaps_def ahead_seqs_def)
qed

lemma GetMissing_all_spec:
  "stream_ok s \<Longrightarrow> rs_ok (GetMissing 0 s) \<and> seqs (GetMissing 0 s) = gaps s"
  by (simp add: GetMissing_take GetMissingRangeSet_spec)

subsection \<open>A run of pushes\<close>

fun run_push :: "(time \<times> Entry list) list \<Rightarrow> Stream \<Rightarrow> Stream \<times> Entry list" where
  "run_push [] s = (s, [])"
| "run_push ((now, es) # fs) s =
     (let (s', r) = push now es s; (s'', q) = run_push fs s' in (s'', r @ q))"

lemma run_push_delivers:
  assumes "stream_ok s" and "\<forall>(now, es)\<in>set fs. feed_ok es" and "run_push fs s = (s', out)"
  shows "stream_ok s' \<and> delivers (\<Union>(now, es)\<in>set fs. set es) s s' out"
  using assms
proof (induction fs arbitrary: s out)
  case Nil
  then show ?case by (auto simp: delivers_refl stream_okD)
next
  case (Cons f fs)
  obtain now es where f: "f = (now, es)" by fastforce
  obtain t r where p: "push now es s = (t, r)" by fastforce
  obtain q where rest: "run_push fs t = (s', q)" and out: "out = r @ q"
    using Cons.prems p f by (auto split: prod.splits)
  have "stream_ok t" "delivers (set es) s t r"
    using push_delivers [OF Cons.prems(1) _ p] Cons.prems(2) f by auto
  moreover have "stream_ok s'" "delivers (\<Union>(now, es)\<in>set fs. set es) t s' q"
    using Cons.IH [OF \<open>stream_ok t\<close> _ rest] Cons.prems(2) by auto
  ultimately have "delivers (\<Union>(now, es)\<in>set (f # fs). set es) s s' (r @ q)"
    by (intro delivers_append) (auto simp: f elim: delivers_mono)
  then show ?case using \<open>stream_ok s'\<close> out by simp
qed

lemma run_push_nowait:
  assumes "stream_ok s" and "\<forall>(now, es)\<in>set fs. feed_ok es" and "maxWaitTime s = 0"
    and "run_push fs s = (s', out)"
  shows "consecutive (lastSeq s) out (lastSeq s')
    \<and> received s' \<subseteq> received s \<union> (\<Union>(now, es)\<in>set fs. feed_seqs es)
    \<and> ((\<forall>(now, es)\<in>set fs. sorted_wrt (\<le>) (map Seq es)) \<longrightarrow>
         received s' = received s \<union> (\<Union>(now, es)\<in>set fs. feed_seqs es))"
  using assms
proof (induction fs arbitrary: s out)
  case Nil
  then show ?case by auto
next
  case (Cons f fs)
  obtain now es where f: "f = (now, es)" by fastforce
  obtain t r where p: "push now es s = (t, r)" by fastforce
  obtain q where rest: "run_push fs t = (s', q)" and out: "out = r @ q"
    using Cons.prems p f by (auto split: prod.splits)
  have es: "feed_ok es" and fs: "\<forall>(now, es)\<in>set fs. feed_ok es" using Cons.prems(2) f by auto
  have t: "stream_ok t" "maxWaitTime t = 0"
    using push_delivers [OF Cons.prems(1) es p] Cons.prems(3) by (auto simp: delivers_def)
  note P = push_nowait [OF Cons.prems(1) es Cons.prems(3) p]
    and I = Cons.IH [OF t(1) fs t(2) rest]
  have "consecutive (lastSeq s) out (lastSeq s')"
    using P I unfolding out by (blast intro: consecutive_append)
  then show ?case using P I unfolding f by auto
qed

lemma consecutive_known_source:
  assumes "consecutive l r l'" and "list_all (known A) r" and "\<forall>e\<in>A. Payload e = f (Seq e)"
  shows "map (\<lambda>e. (Seq e, Payload e)) r = map (\<lambda>i. (i, f i)) [l + 1..l']"
proof -
  have "Payload x = f (Seq x)" if "x \<in> set r" for x
    using assms(2,3) that by (auto simp: list_all_iff known_def)
  then have "map (\<lambda>e. (Seq e, Payload e)) r = map (\<lambda>i. (i, f i)) (map Seq r)" by simp
  also have "map Seq r = [l + 1..l']" using assms(1) by (simp add: consecutive_def)
  finally show ?thesis .
qed

lemma stream_ok_zero [simp]: "stream_ok zero_Stream"
  by (simp add: stream_ok_def loop_ok_def zero_Stream_def hist_ok_def)

lemma received_prefix_iff:
  assumes "stream_ok s" and "0 \<le> n"
  shows "{1..n} \<subseteq> received s \<longleftrightarrow> n \<le> lastSeq s"
proof
  assume sub: "{1..n} \<subseteq> received s"
  show "n \<le> lastSeq s"
  proof (rule ccontr)
    assume "\<not> n \<le> lastSeq s"
    moreover have "0 \<le> lastSeq s" using assms(1) by (simp add: stream_ok_def loop_ok_def)
    ultimately have "lastSeq s + 1 \<in> received s" using sub by auto
    then show False using assms(1) by (auto simp: received_def ahead_seqs_def stream_ok_def)
  qed
next
  assume "n \<le> lastSeq s"
  then show "{1..n} \<subseteq> received s" by (auto simp: received_def)
qed


lemma reassembled:
  assumes "\<forall>(now, es)\<in>set fs. feed_ok es"
    and "\<forall>(now, es)\<in>set fs. \<forall>e\<in>set es. Payload e = f (Seq e)"
    and "run_push fs zero_Stream = (s', out)"
  shows "map (\<lambda>e. (Seq e, Payload e)) out = map (\<lambda>i. (i, f i)) [1..lastSeq s']
    \<and> ((\<forall>(now, es)\<in>set fs. sorted_wrt (\<le>) (map Seq es)) \<longrightarrow>
         (\<forall>n\<ge>0. n \<le> lastSeq s' \<longleftrightarrow> {1..n} \<subseteq> (\<Union>(now, es)\<in>set fs. feed_seqs es)))"
proof -
  have z: "maxWaitTime zero_Stream = 0" "lastSeq zero_Stream = 0" "received zero_Stream = {}"
    "waiting zero_Stream = {}"
    by (simp_all add: zero_Stream_def received_def ahead_seqs_def)
  note D = run_push_delivers [OF stream_ok_zero assms(1,3)]
    and N = run_push_nowait [OF stream_ok_zero assms(1) z(1) assms(3)]
  have "list_all (known (\<Union>(now, es)\<in>set fs. set es)) out"
    using D z(4) by (simp add: delivers_def)
  then have "map (\<lambda>e. (Seq e, Payload e)) out = map (\<lambda>i. (i, f i)) [0 + 1..lastSeq s']"
    using N z(2) assms(2) by (intro consecutive_known_source) auto
  moreover have "n \<le> lastSeq s' \<longleftrightarrow> {1..n} \<subseteq> (\<Union>(now, es)\<in>set fs. feed_seqs es)"
    if "\<forall>(now, es)\<in>set fs. sorted_wrt (\<le>) (map Seq es)" "n \<ge> 0" for n
    using received_prefix_iff [of s' n] D N that z(3) by auto
  ultimately show ?thesis by auto
qed

section \<open>Properties\<close>

text \<open>
  One \<open>push\<close> on any stream, with or without a maximum wait: the invariant is kept, the
  delivered sequence numbers strictly increase from the old \<open>lastSeq\<close> on and the last of them is
  the new \<open>lastSeq\<close>, and every entry delivered or left waiting carries the number and payload of
  an entry that was fed or was already waiting: nothing is delivered twice, reordered or made up.
\<close>

theorem push_in_order:
  assumes "stream_ok s" and "feed_ok es" and "push now es s = (s', r)"
  shows "stream_ok s' \<and> sorted_wrt (<) (lastSeq s # map Seq r)
    \<and> lastSeq s' = last (lastSeq s # map Seq r)
    \<and> (\<forall>x\<in>set r. \<exists>e \<in> set es \<union> waiting s. Seq e = Seq x \<and> Payload e = Payload x)
    \<and> waiting s' \<subseteq> set es \<union> waiting s"
  using push_delivers [OF assms]
  by (simp add: delivers_def in_order_def known_def list_all_iff)

definition sample_entry :: "int \<Rightarrow> Entry" where
  "sample_entry n = \<lparr>Seq = n, Delay = 10, Payload = [word_of_int n]\<rparr>"

theorem push_in_order_witness:
  "let (s, r) = push 5 [sample_entry 1, sample_entry 3] zero_Stream
   in map Seq r = [1] \<and> lastSeq s = 1 \<and> map nseq (ahead s) = [3] \<and> stream_ok s
     \<and> waiting s \<subseteq> {sample_entry 1, sample_entry 3}"
proof -
  let ?r = "[\<lparr>Seq = 1, Delay = 0, Payload = [1]\<rparr>]"
  let ?s = "zero_Stream\<lparr>lastSeq := 1, lastTime := 5,
    ahead := [\<lparr>node_entry = sample_entry 3, node_time = 5\<rparr>], aheadSize := 1\<rparr>"
  have p: "push 5 [sample_entry 1, sample_entry 3] zero_Stream = (?s, ?r)"
    by (simp add: push_def zero_Stream_def sample_entry_def time_IsZero_def time_Sub_def
        pushDelay_def pushAhead_def u64_def)
  have "feed_ok [sample_entry 1, sample_entry 3]" by (simp add: sample_entry_def)
  from push_in_order [OF stream_ok_zero this p] p show ?thesis
    by (simp add: sample_entry_def zero_Stream_def)
qed

text \<open>
  C1. Reassembly. A fresh stream without a maximum wait is fed any number of packs, in any order,
  with repetitions and losses, whose entries carry for each sequence number \<open>i\<close> the payload \<open>f i\<close>.
  What the calls of \<open>push\<close> deliver in total is exactly entry 1, entry 2, up to \<open>lastSeq\<close>, each
  once and in order. If every pack is in increasing order, \<open>lastSeq\<close> is as large as it can be:
  it reaches \<open>n\<close> exactly when all of \<open>1..n\<close> have arrived.
\<close>

theorem stream_reassembles:
  assumes "\<forall>(now, es)\<in>set fs. feed_ok es"
    and "\<forall>(now, es)\<in>set fs. \<forall>e\<in>set es. Payload e = f (Seq e)"
    and "run_push fs zero_Stream = (s', out)"
  shows "map (\<lambda>e. (Seq e, Payload e)) out = map (\<lambda>i. (i, f i)) [1..lastSeq s']
    \<and> ((\<forall>(now, es)\<in>set fs. sorted_wrt (\<le>) (map Seq es)) \<longrightarrow>
         (\<forall>n\<ge>0. n \<le> lastSeq s' \<longleftrightarrow> {1..n} \<subseteq> (\<Union>(now, es)\<in>set fs. feed_seqs es)))"
  by (rule reassembled [OF assms])

definition sample_feeds :: "(time \<times> Entry list) list" where
  "sample_feeds =
     [(5, [sample_entry 2, sample_entry 3]), (6, [sample_entry 3]), (7, [sample_entry 1])]"

theorem stream_reassembles_witness:
  "map (\<lambda>e. (Seq e, Payload e)) (snd (run_push sample_feeds zero_Stream))
      = map (\<lambda>i. (i, [word_of_int i])) [1..3]
    \<and> {1..3} \<subseteq> (\<Union>(now, es)\<in>set sample_feeds. feed_seqs es)"
proof -
  obtain s' out where r: "run_push sample_feeds zero_Stream = (s', out)" by fastforce
  have ev: "lastSeq s' = 3"
    using r by (auto simp: sample_feeds_def push_def zero_Stream_def sample_entry_def
        time_IsZero_def time_Sub_def pushDelay_def pushAhead_def u64_def)
  have T: "map (\<lambda>e. (Seq e, Payload e)) out = map (\<lambda>i. (i, [word_of_int i])) [1..lastSeq s']
    \<and> ((\<forall>(now, es)\<in>set sample_feeds. sorted_wrt (\<le>) (map Seq es)) \<longrightarrow>
         (\<forall>n\<ge>0. n \<le> lastSeq s' \<longleftrightarrow> {1..n} \<subseteq> (\<Union>(now, es)\<in>set sample_feeds. feed_seqs es)))"
    by (rule stream_reassembles [OF _ _ r]) (simp_all add: sample_feeds_def sample_entry_def)
  have "\<forall>(now, es)\<in>set sample_feeds. sorted_wrt (\<le>) (map Seq es)"
    by (simp add: sample_feeds_def sample_entry_def)
  then have "3 \<le> lastSeq s' \<longleftrightarrow> {1..3} \<subseteq> (\<Union>(now, es)\<in>set sample_feeds. feed_seqs es)"
    using T [THEN conjunct2, THEN mp, THEN spec, of 3] by simp
  then have "{1..3} \<subseteq> (\<Union>(now, es)\<in>set sample_feeds. feed_seqs es)" using ev by simp
  with T ev r show ?thesis by simp
qed

text \<open>
  \<open>GetMissing\<close> reports exactly the gaps: with no limit its ranges form a well-formed range set
  that holds every number above \<open>lastSeq\<close> and below a waiting entry that has not arrived, and
  \<open>GetMissingRangeSet\<close> is the same set; with a positive limit it returns the first \<open>limit\<close> ranges.
\<close>

theorem GetMissing_reports_gaps:
  assumes "stream_ok s"
  shows "GetMissing limit s =
      (if limit \<le> 0 then GetMissingRangeSet s else take (nat limit) (GetMissingRangeSet s))
    \<and> rs_ok (GetMissingRangeSet s) \<and> seqs (GetMissingRangeSet s) = gaps s"
  using GetMissing_take [OF assms] GetMissingRangeSet_spec [OF assms] by simp

theorem GetMissing_reports_gaps_witness:
  "let s = zero_Stream\<lparr>lastSeq := 2, aheadSize := 2,
         ahead := [\<lparr>node_entry = sample_entry 5, node_time = 1\<rparr>, \<lparr>node_entry = sample_entry 9, node_time = 1\<rparr>]\<rparr>
   in GetMissing 0 s = [\<lparr>rng_seq = 3, rng_len = 2\<rparr>, \<lparr>rng_seq = 6, rng_len = 3\<rparr>]
    \<and> GetMissing 1 s = [\<lparr>rng_seq = 3, rng_len = 2\<rparr>] \<and> seqs (GetMissing 0 s) = gaps s"
proof -
  let ?s = "zero_Stream\<lparr>lastSeq := 2, aheadSize := 2,
    ahead := [\<lparr>node_entry = sample_entry 5, node_time = 1\<rparr>, \<lparr>node_entry = sample_entry 9, node_time = 1\<rparr>]\<rparr>"
  have ok: "stream_ok ?s"
    by (simp add: stream_ok_def loop_ok_def zero_Stream_def hist_ok_def sample_entry_def)
  have e: "GetMissingRangeSet ?s = [\<lparr>rng_seq = 3, rng_len = 2\<rparr>, \<lparr>rng_seq = 6, rng_len = 3\<rparr>]"
    by (simp add: GetMissingRangeSet_def sample_entry_def u64_def i64_def)
  show ?thesis
    using GetMissing_reports_gaps [OF ok, of 0] GetMissing_reports_gaps [OF ok, of 1] e
    unfolding Let_def by (simp add: eval_nat_numeral)
qed

end
