(* ===== verification/Wire.thy ===== *)
theory Wire
  imports Ranges Streams
begin

text \<open>
  \<open>udpstar/message/serializer.go\<close>, \<open>prefix.go\<close>, \<open>token.go\<close>, \<open>category.go\<close>: the byte layer. A
  serializer is the bytes written so far; the methods that can panic return \<open>Inl\<close> of the panic's
  message. A deserializer is the bytes left and the sticky error: after the first error every getter
  leaves its target alone, so a getter takes the target's old value and returns the new one.
  Go strings are byte lists. Machine integers are words here.
\<close>

unbundle bit_operations_syntax

type_synonym token = "32 word"
type_synonym gostring = "byte list"
type_synonym category = byte

definition SizeOfToken :: int where
  "SizeOfToken = 4"

definition SizeOfPrefix :: int where
  "SizeOfPrefix = 4"

definition MaxMessageSize :: int where
  "MaxMessageSize = 508"

section \<open>Panics in sequence\<close>

fun go_bind :: "'a go \<Rightarrow> ('a \<Rightarrow> 'b go) \<Rightarrow> 'b go" where
  "go_bind (Inl p) f = Inl p"
| "go_bind (Inr x) f = f x"

section \<open>Little-endian words\<close>

text \<open>\<open>binary.LittleEndian\<close>, which spells the shifts out.\<close>

definition AppendUint16 :: "byte list \<Rightarrow> 16 word \<Rightarrow> byte list" where
  "AppendUint16 b v = b @ [ucast v, ucast (drop_bit 8 v)]"

definition AppendUint32 :: "byte list \<Rightarrow> 32 word \<Rightarrow> byte list" where
  "AppendUint32 b v =
     b @ [ucast v, ucast (drop_bit 8 v), ucast (drop_bit 16 v), ucast (drop_bit 24 v)]"

definition AppendUint64 :: "byte list \<Rightarrow> 64 word \<Rightarrow> byte list" where
  "AppendUint64 b v =
     b @ [ucast v, ucast (drop_bit 8 v), ucast (drop_bit 16 v), ucast (drop_bit 24 v),
          ucast (drop_bit 32 v), ucast (drop_bit 40 v), ucast (drop_bit 48 v), ucast (drop_bit 56 v)]"

definition Uint16 :: "byte list \<Rightarrow> 16 word" where
  "Uint16 b = ucast (b ! 0) OR push_bit 8 (ucast (b ! 1))"

definition Uint32 :: "byte list \<Rightarrow> 32 word" where
  "Uint32 b = ucast (b ! 0) OR push_bit 8 (ucast (b ! 1)) OR
     push_bit 16 (ucast (b ! 2)) OR push_bit 24 (ucast (b ! 3))"

definition Uint64 :: "byte list \<Rightarrow> 64 word" where
  "Uint64 b = ucast (b ! 0) OR push_bit 8 (ucast (b ! 1)) OR
     push_bit 16 (ucast (b ! 2)) OR push_bit 24 (ucast (b ! 3)) OR
     push_bit 32 (ucast (b ! 4)) OR push_bit 40 (ucast (b ! 5)) OR
     push_bit 48 (ucast (b ! 6)) OR push_bit 56 (ucast (b ! 7))"

definition Prefix :: "32 word" where
  "Prefix = Uint32 [0x3C, 0x75, 0x2A, 0x3E]"

section \<open>Serializer\<close>

definition PutPrefix :: "byte list \<Rightarrow> byte list" where
  "PutPrefix s = AppendUint32 s Prefix"

definition PutCategory :: "category \<Rightarrow> byte list \<Rightarrow> byte list" where
  "PutCategory v s = s @ [v]"

definition PutToken :: "token \<Rightarrow> byte list \<Rightarrow> byte list" where
  "PutToken v s = AppendUint32 s v"

definition Put8 :: "byte \<Rightarrow> byte list \<Rightarrow> byte list" where
  "Put8 v s = s @ [v]"

definition Put16 :: "16 word \<Rightarrow> byte list \<Rightarrow> byte list" where
  "Put16 v s = AppendUint16 s v"

definition Put32 :: "32 word \<Rightarrow> byte list \<Rightarrow> byte list" where
  "Put32 v s = AppendUint32 s v"

definition Put64 :: "64 word \<Rightarrow> byte list \<Rightarrow> byte list" where
  "Put64 v s = AppendUint64 s v"

definition PutBytes :: "byte list \<Rightarrow> byte list \<Rightarrow> byte list go" where
  "PutBytes v s =
     (if length v > 255 then Inl ''max len of array is 255''
      else Inr (s @ [word_of_nat (length v)] @ v))"

fun put_each :: "('a \<Rightarrow> byte list \<Rightarrow> byte list go) \<Rightarrow> 'a list \<Rightarrow> byte list \<Rightarrow> byte list go" where
  "put_each p [] s = Inr s"
| "put_each p (v # vs) s = go_bind (p v s) (put_each p vs)"

definition Put32Array :: "32 word list \<Rightarrow> byte list \<Rightarrow> byte list go" where
  "Put32Array v s =
     (if length v > 255 then Inl ''max len of array is 255''
      else put_each (\<lambda>i s. Inr (Put32 i s)) v (s @ [word_of_nat (length v)]))"

definition PutStr :: "gostring \<Rightarrow> byte list \<Rightarrow> byte list go" where
  "PutStr v s =
     (if length v > 255 then Inl ''max len of string is 255''
      else Inr (s @ [word_of_nat (length v)] @ v))"

text \<open>\<open>time.UnixNano\<close>: nanoseconds since 1970, as an \<open>int64\<close>.\<close>

definition unix_epoch :: time where
  "unix_epoch = 62135596800 * 1000000000"

definition PutTime :: "time \<Rightarrow> byte list \<Rightarrow> byte list" where
  "PutTime v s = AppendUint64 s (word_of_int (v - unix_epoch))"

definition PutDuration :: "duration \<Rightarrow> byte list \<Rightarrow> byte list" where
  "PutDuration v s = AppendUint64 s (word_of_int v)"

definition PutSequence :: "int \<Rightarrow> byte list \<Rightarrow> byte list" where
  "PutSequence v s = AppendUint32 s (word_of_int v)"

definition PutEntry :: "Entry \<Rightarrow> byte list \<Rightarrow> byte list go" where
  "PutEntry v s = PutBytes (Payload v) (PutDuration (Delay v) (PutSequence (Seq v) s))"

definition PutEntries :: "Entry list \<Rightarrow> byte list \<Rightarrow> byte list go" where
  "PutEntries v s =
     (if length v > 255 then Inl ''max len of sequence entry array is 255''
      else put_each PutEntry v (Put8 (word_of_nat (length v)) s))"

definition PutRange :: "Range \<Rightarrow> byte list \<Rightarrow> byte list" where
  "PutRange v s = PutSequence (To v) (PutSequence (From v) s)"

definition PutRanges :: "Range list \<Rightarrow> byte list \<Rightarrow> byte list go" where
  "PutRanges v s =
     (if length v > 255 then Inl ''max len of sequence range array is 255''
      else put_each (\<lambda>r s. Inr (PutRange r s)) v (Put8 (word_of_nat (length v)) s))"

section \<open>Deserializer\<close>

record Deserializer =
  d_buf :: "byte list"
  d_err :: "string option"

definition NewDeserializer :: "byte list \<Rightarrow> Deserializer" where
  "NewDeserializer buf = \<lparr>d_buf = buf, d_err = None\<rparr>"

definition ErrUnexpectedEOF :: string where
  "ErrUnexpectedEOF = ''unexpected EOF''"

definition eof :: "Deserializer \<Rightarrow> Deserializer" where
  "eof s = s\<lparr>d_err := Some ErrUnexpectedEOF\<rparr>"

definition CheckPrefix :: "Deserializer \<Rightarrow> bool \<times> Deserializer" where
  "CheckPrefix s =
     (if length (d_buf s) \<ge> 4 \<and> Prefix = Uint32 (take 4 (d_buf s))
      then (True, s\<lparr>d_buf := drop 4 (d_buf s)\<rparr>) else (False, s))"

definition CheckCategory :: "category \<Rightarrow> Deserializer \<Rightarrow> bool \<times> Deserializer" where
  "CheckCategory category s =
     (if length (d_buf s) \<ge> 1 \<and> d_buf s ! 0 = category
      then (True, s\<lparr>d_buf := drop 1 (d_buf s)\<rparr>) else (False, s))"

definition GetToken :: "Deserializer \<Rightarrow> token \<Rightarrow> Deserializer \<times> token" where
  "GetToken s v =
     (if d_err s \<noteq> None then (s, v)
      else if length (d_buf s) < 4 then (eof s, v)
      else (s\<lparr>d_buf := drop 4 (d_buf s)\<rparr>, Uint32 (take 4 (d_buf s))))"

definition Get8 :: "Deserializer \<Rightarrow> byte \<Rightarrow> Deserializer \<times> byte" where
  "Get8 s v =
     (if d_err s \<noteq> None then (s, v)
      else if length (d_buf s) = 0 then (eof s, v)
      else (s\<lparr>d_buf := drop 1 (d_buf s)\<rparr>, d_buf s ! 0))"

definition Get16 :: "Deserializer \<Rightarrow> 16 word \<Rightarrow> Deserializer \<times> 16 word" where
  "Get16 s v =
     (if d_err s \<noteq> None then (s, v)
      else if length (d_buf s) < 2 then (eof s, v)
      else (s\<lparr>d_buf := drop 2 (d_buf s)\<rparr>, Uint16 (take 2 (d_buf s))))"

definition Get32 :: "Deserializer \<Rightarrow> 32 word \<Rightarrow> Deserializer \<times> 32 word" where
  "Get32 s v =
     (if d_err s \<noteq> None then (s, v)
      else if length (d_buf s) < 4 then (eof s, v)
      else (s\<lparr>d_buf := drop 4 (d_buf s)\<rparr>, Uint32 (take 4 (d_buf s))))"

definition Get64 :: "Deserializer \<Rightarrow> 64 word \<Rightarrow> Deserializer \<times> 64 word" where
  "Get64 s v =
     (if d_err s \<noteq> None then (s, v)
      else if length (d_buf s) < 8 then (eof s, v)
      else (s\<lparr>d_buf := drop 8 (d_buf s)\<rparr>, Uint64 (take 8 (d_buf s))))"

text \<open>
  \<open>GetBytes\<close> and \<open>GetStr\<close> advance by \<open>n+1\<close> computed in a byte, as \<open>n\<close> is one.
\<close>

definition GetBytes :: "Deserializer \<Rightarrow> byte list \<Rightarrow> Deserializer \<times> byte list" where
  "GetBytes s v =
     (if d_err s \<noteq> None then (s, v)
      else if length (d_buf s) = 0 \<or> length (d_buf s) < unat (d_buf s ! 0) + 1 then (eof s, v)
      else
        let n = d_buf s ! 0
        in (s\<lparr>d_buf := drop (unat (n + 1)) (d_buf s)\<rparr>, take (unat n) (drop 1 (d_buf s))))"

definition GetStr :: "Deserializer \<Rightarrow> gostring \<Rightarrow> Deserializer \<times> gostring" where
  "GetStr s v =
     (if d_err s \<noteq> None then (s, v)
      else if length (d_buf s) = 0 \<or> length (d_buf s) < unat (d_buf s ! 0) + 1 then (eof s, v)
      else
        let n = d_buf s ! 0
        in (s\<lparr>d_buf := drop (unat (n + 1)) (d_buf s)\<rparr>, take (unat n) (drop 1 (d_buf s))))"

fun read_words :: "nat \<Rightarrow> byte list \<Rightarrow> byte list \<times> 32 word list" where
  "read_words 0 buf = (buf, [])"
| "read_words (Suc n) buf =
     (let (buf', ws) = read_words n (drop 4 buf) in (buf', Uint32 (take 4 buf) # ws))"

definition Get32Array :: "Deserializer \<Rightarrow> 32 word list \<Rightarrow> Deserializer \<times> 32 word list" where
  "Get32Array s v =
     (if d_err s \<noteq> None then (s, v)
      else if length (d_buf s) = 0 \<or> length (d_buf s) < 4 * unat (d_buf s ! 0) + 1 then (eof s, v)
      else
        let (buf', a) = read_words (unat (d_buf s ! 0)) (drop 1 (d_buf s))
        in (s\<lparr>d_buf := buf'\<rparr>, a))"

text \<open>\<open>Get\<close> runs the \<open>Get\<close> method of a part of the message: the rest or an error, and the part.\<close>

definition Get :: "(byte list \<Rightarrow> 'a \<Rightarrow> (string + byte list) \<times> 'a) \<Rightarrow> Deserializer \<Rightarrow> 'a \<Rightarrow> Deserializer \<times> 'a" where
  "Get getter s v =
     (if d_err s \<noteq> None then (s, v)
      else case getter (d_buf s) v of
          (Inl e, v') \<Rightarrow> (s\<lparr>d_err := Some e\<rparr>, v')
        | (Inr buf, v') \<Rightarrow> (s\<lparr>d_buf := buf\<rparr>, v'))"

definition GetTime :: "Deserializer \<Rightarrow> time \<Rightarrow> Deserializer \<times> time" where
  "GetTime s v =
     (let (s', t) = Get64 s 0
      in if d_err s' \<noteq> None then (s', v) else (s', unix_epoch + sint t))"

definition GetDuration :: "Deserializer \<Rightarrow> duration \<Rightarrow> Deserializer \<times> duration" where
  "GetDuration s v =
     (let (s', t) = Get64 s 0
      in if d_err s' \<noteq> None then (s', v) else (s', sint t))"

definition GetSequence :: "Deserializer \<Rightarrow> int \<Rightarrow> Deserializer \<times> int" where
  "GetSequence s v =
     (let (s', t) = Get32 s 0
      in if d_err s' \<noteq> None then (s', v) else (s', uint t))"

definition GetEntry :: "Deserializer \<Rightarrow> Entry \<Rightarrow> Deserializer \<times> Entry" where
  "GetEntry s v =
     (let (s1, sq) = GetSequence s (Seq v);
          (s2, dl) = GetDuration s1 (Delay v);
          (s3, pl) = GetBytes s2 (Payload v)
      in if d_err s3 \<noteq> None then (s3, \<lparr>Seq = 0, Delay = 0, Payload = []\<rparr>)
         else (s3, v\<lparr>Seq := sq, Delay := dl, Payload := pl\<rparr>))"

fun get_each :: "(Deserializer \<Rightarrow> 'a \<Rightarrow> (Deserializer \<times> 'a) go) \<Rightarrow> 'a list \<Rightarrow> Deserializer
    \<Rightarrow> (Deserializer \<times> 'a list) go" where
  "get_each g [] s = Inr (s, [])"
| "get_each g (v # vs) s =
     go_bind (g s v) (\<lambda>(s1, v1). go_bind (get_each g vs s1) (\<lambda>(s2, vs1). Inr (s2, v1 # vs1)))"

definition GetEntries :: "Deserializer \<Rightarrow> Entry list \<Rightarrow> (Deserializer \<times> Entry list) go" where
  "GetEntries s v =
     (let (s', l) = Get8 s 0
      in if d_err s' \<noteq> None then Inr (s', v)
         else go_bind
           (get_each (\<lambda>s v. Inr (GetEntry s v))
              (replicate (unat l) \<lparr>Seq = 0, Delay = 0, Payload = []\<rparr>) s')
           (\<lambda>(s'', a). if d_err s'' \<noteq> None then Inr (s'', v) else Inr (s'', a)))"

definition D_GetRange :: "Deserializer \<Rightarrow> Range \<Rightarrow> (Deserializer \<times> Range) go" where
  "D_GetRange s v =
     (let (s1, from) = GetSequence s 0;
          (s2, to) = GetSequence s1 0
      in if d_err s2 \<noteq> None then Inr (s2, v)
         else go_bind (RangeInclusive from to) (\<lambda>r. Inr (s2, r)))"

definition GetRanges :: "Deserializer \<Rightarrow> Range list \<Rightarrow> (Deserializer \<times> Range list) go" where
  "GetRanges s v =
     (let (s', l) = Get8 s 0
      in if d_err s' \<noteq> None then Inr (s', v)
         else go_bind (get_each D_GetRange (replicate (unat l) \<lparr>rng_seq = 0, rng_len = 0\<rparr>) s')
           (\<lambda>(s'', a). if d_err s'' \<noteq> None then Inr (s'', v) else Inr (s'', a)))"

text \<open>What the \<open>Get\<close> method of a message returns: the rest of the buffer and the error, and the message.\<close>

type_synonym 'm got = "(byte list \<times> string option) \<times> 'm"

definition got :: "Deserializer \<Rightarrow> 'm \<Rightarrow> 'm got" where
  "got s m = ((d_buf s, d_err s), m)"

definition invalid :: "string \<Rightarrow> 'm \<Rightarrow> 'm got" where
  "invalid e m = (([], Some e), m)"

section \<open>Codecs\<close>

named_theorems wire_simps \<open>what a writer appends and a reader gets back\<close>

abbreviation D :: "byte list \<Rightarrow> Deserializer" where
  "D \<equiv> NewDeserializer"

lemma D_simps [simp]: "d_buf (D b) = b" "d_err (D b) = None" "(D b)\<lparr>d_buf := c\<rparr> = D c"
  by (simp_all add: NewDeserializer_def)


lemma ucast_byte: "ucast (ucast w :: byte) = (take_bit 8 w :: 'a :: len word)"
  by (rule bit_word_eqI) (auto simp: bit_simps)

lemma next_byte:
  "take_bit k w OR push_bit k (take_bit 8 (drop_bit k w)) = take_bit (k + 8) (w :: 'a :: len word)"
  by (rule bit_word_eqI) (auto simp: bit_simps)

lemma le16: "ucast (ucast v :: byte) OR push_bit 8 (ucast (ucast (drop_bit 8 v) :: byte)) = (v :: 16 word)"
  using next_byte [of 8 v] by (simp add: ucast_byte take_bit_word_eq_self)

lemma le32: "ucast (ucast v :: byte) OR push_bit 8 (ucast (ucast (drop_bit 8 v) :: byte)) OR
    push_bit 16 (ucast (ucast (drop_bit 16 v) :: byte)) OR
    push_bit 24 (ucast (ucast (drop_bit 24 v) :: byte)) = (v :: 32 word)"
  unfolding ucast_byte or.assoc [symmetric] using next_byte [of 8 v] next_byte [of 16 v] next_byte [of 24 v]
  by (simp add: take_bit_word_eq_self)

lemma le64: "ucast (ucast v :: byte) OR push_bit 8 (ucast (ucast (drop_bit 8 v) :: byte)) OR
    push_bit 16 (ucast (ucast (drop_bit 16 v) :: byte)) OR
    push_bit 24 (ucast (ucast (drop_bit 24 v) :: byte)) OR
    push_bit 32 (ucast (ucast (drop_bit 32 v) :: byte)) OR
    push_bit 40 (ucast (ucast (drop_bit 40 v) :: byte)) OR
    push_bit 48 (ucast (ucast (drop_bit 48 v) :: byte)) OR
    push_bit 56 (ucast (ucast (drop_bit 56 v) :: byte)) = (v :: 64 word)"
  unfolding ucast_byte or.assoc [symmetric]
  using next_byte [of 8 v] next_byte [of 16 v] next_byte [of 24 v] next_byte [of 32 v]
    next_byte [of 40 v] next_byte [of 48 v] next_byte [of 56 v]
  by (simp add: take_bit_word_eq_self)

lemma nths: "(x0 # r) ! 0 = x0" "(x0 # x1 # r) ! 1 = x1" "(x0 # x1 # x2 # r) ! 2 = x2"
  "(x0 # x1 # x2 # x3 # r) ! 3 = x3" "(x0 # x1 # x2 # x3 # x4 # r) ! 4 = x4"
  "(x0 # x1 # x2 # x3 # x4 # x5 # r) ! 5 = x5" "(x0 # x1 # x2 # x3 # x4 # x5 # x6 # r) ! 6 = x6"
  "(x0 # x1 # x2 # x3 # x4 # x5 # x6 # x7 # r) ! 7 = x7"
  by (simp_all add: numeral_nat)

lemma Uint16_Append: "Uint16 (AppendUint16 [] v @ r) = v"
  by (simp only: Uint16_def AppendUint16_def append.simps nths le16)

lemma Uint32_Append: "Uint32 (AppendUint32 [] v @ r) = v"
  by (simp only: Uint32_def AppendUint32_def append.simps nths le32)

lemma Uint64_Append: "Uint64 (AppendUint64 [] v @ r) = v"
  by (simp only: Uint64_def AppendUint64_def append.simps nths le64)


text \<open>
  A field's codec: on valid values writing appends the encoding, and reading the encoding gives the
  value back and leaves what follows.
\<close>

locale codec =
  fixes put :: "'a \<Rightarrow> byte list \<Rightarrow> byte list go"
    and get :: "Deserializer \<Rightarrow> 'a \<Rightarrow> (Deserializer \<times> 'a) go"
    and valid :: "'a \<Rightarrow> bool"
    and enc :: "'a \<Rightarrow> byte list"
  assumes put_enc: "valid x \<Longrightarrow> put x s = Inr (s @ enc x)"
    and get_enc: "valid x \<Longrightarrow> get (D (enc x @ rest)) y = Inr (D rest, x)"
begin

lemma put_all: "\<forall>x \<in> set xs. valid x \<Longrightarrow> put_each put xs s = Inr (s @ concat (map enc xs))"
  by (induction xs arbitrary: s) (auto simp: put_enc)

lemma get_all:
  "\<forall>x \<in> set xs. valid x \<Longrightarrow> length ys = length xs \<Longrightarrow>
   get_each get ys (D (concat (map enc xs) @ rest)) = Inr (D rest, xs)"
proof (induction xs arbitrary: ys)
  case (Cons x xs)
  then obtain z zs where "ys = z # zs" "length zs = length xs" by (cases ys) auto
  then show ?case using Cons by (simp add: get_enc)
qed simp

end

definition enc32 :: "32 word \<Rightarrow> byte list" where
  "enc32 v = AppendUint32 [] v"

definition enc64 :: "64 word \<Rightarrow> byte list" where
  "enc64 v = AppendUint64 [] v"

definition enc_seq :: "int \<Rightarrow> byte list" where
  "enc_seq q = enc32 (word_of_int q)"

definition enc_dur :: "duration \<Rightarrow> byte list" where
  "enc_dur d = enc64 (word_of_int d)"

lemma Append_append:
  "AppendUint32 s v = s @ enc32 v" "AppendUint64 s w = s @ enc64 w"
  "s @ enc32 (word_of_int q) = s @ enc_seq q" "s @ enc64 (word_of_int d) = s @ enc_dur d"
  by (simp_all add: AppendUint32_def AppendUint64_def enc32_def enc64_def enc_seq_def enc_dur_def)

lemma enc_length [simp]: "length (enc32 v) = 4" "length (enc64 w) = 8"
  "length (enc_seq q) = 4" "length (enc_dur d) = 8"
  by (simp_all add: AppendUint32_def AppendUint64_def enc32_def enc64_def enc_seq_def enc_dur_def)

lemma put_simps:
  "PutPrefix s = s @ enc32 Prefix" "PutCategory c s = s @ [c]" "PutToken t s = s @ enc32 t"
  "Put8 b s = s @ [b]" "Put32 w s = s @ enc32 w" "Put64 x s = s @ enc64 x"
  "PutTime m s = s @ enc_dur (m - unix_epoch)" "PutDuration d s = s @ enc_dur d"
  "PutSequence q s = s @ enc_seq q"
  by (simp_all only: PutPrefix_def PutCategory_def PutToken_def Put8_def Put32_def Put64_def
      PutTime_def PutDuration_def PutSequence_def Append_append)

lemma Get32_enc [wire_simps]: "Get32 (D (enc32 v @ r)) y = (D r, v)"
proof -
  have "take 4 (enc32 v @ r) = enc32 v @ []" by simp
  then have "Uint32 (take 4 (enc32 v @ r)) = v" by (simp only: enc32_def Uint32_Append)
  then show ?thesis by (simp add: Get32_def)
qed

lemma GetToken_enc [wire_simps]: "GetToken (D (enc32 v @ r)) y = (D r, v)"
  using Get32_enc [of v r y] by (simp add: GetToken_def Get32_def)

lemma Get64_enc [wire_simps]: "Get64 (D (enc64 v @ r)) y = (D r, v)"
proof -
  have "take 8 (enc64 v @ r) = enc64 v @ []" by simp
  then have "Uint64 (take 8 (enc64 v @ r)) = v" by (simp only: enc64_def Uint64_Append)
  then show ?thesis by (simp add: Get64_def)
qed

lemma Get8_enc [wire_simps]: "Get8 (D (v # r)) y = (D r, v)"
  by (simp add: Get8_def)

lemma CheckPrefix_enc [wire_simps]: "CheckPrefix (D (enc32 Prefix @ r)) = (True, D r)"
proof -
  have "take 4 (enc32 Prefix @ r) = enc32 Prefix @ []" by simp
  then have "Uint32 (take 4 (enc32 Prefix @ r)) = Prefix" by (simp only: enc32_def Uint32_Append)
  then show ?thesis by (simp add: CheckPrefix_def)
qed

lemma CheckCategory_enc [wire_simps]: "CheckCategory c (D (c # r)) = (True, D r)"
  by (simp add: CheckCategory_def)

definition enc_bytes :: "byte list \<Rightarrow> byte list" where
  "enc_bytes v = word_of_nat (length v) # v"

lemma byte_len:
  assumes "n \<le> 254"
  shows "unat (word_of_nat n :: byte) = n" and "unat (word_of_nat n + 1 :: byte) = Suc n"
proof -
  show n: "unat (word_of_nat n :: byte) = n" using assms by (simp add: unat_of_nat)
  have "unat (word_of_nat (Suc n) :: byte) = Suc n"
    using assms by (simp only: unat_of_nat) simp
  then show "unat (word_of_nat n + 1 :: byte) = Suc n" by (simp add: add.commute)
qed

lemma GetBytes_enc [wire_simps]: "length v \<le> 254 \<Longrightarrow> GetBytes (D (enc_bytes v @ r)) y = (D r, v)"
  using byte_len [of "length v"] by (simp add: GetBytes_def enc_bytes_def Let_def)

lemma GetStr_enc [wire_simps]: "length v \<le> 254 \<Longrightarrow> GetStr (D (enc_bytes v @ r)) y = (D r, v)"
  using byte_len [of "length v"] by (simp add: GetStr_def enc_bytes_def Let_def)

lemma PutBytes_enc [wire_simps]: "length v \<le> 254 \<Longrightarrow> PutBytes v s = Inr (s @ enc_bytes v)"
  by (simp add: PutBytes_def enc_bytes_def)

lemma PutStr_enc [wire_simps]: "length v \<le> 254 \<Longrightarrow> PutStr v s = Inr (s @ enc_bytes v)"
  by (simp add: PutStr_def enc_bytes_def)

lemma enc_bytes_length [simp]: "length (enc_bytes v) = Suc (length v)"
  by (simp add: enc_bytes_def)

definition seq_valid :: "int \<Rightarrow> bool" where
  "seq_valid q \<longleftrightarrow> 0 \<le> q \<and> q < 2 ^ 32"

definition duration_valid :: "duration \<Rightarrow> bool" where
  "duration_valid d \<longleftrightarrow> - (2 ^ 63) \<le> d \<and> d < 2 ^ 63"

definition time_valid :: "time \<Rightarrow> bool" where
  "time_valid t \<longleftrightarrow> duration_valid (t - unix_epoch)"

definition entry_valid :: "Entry \<Rightarrow> bool" where
  "entry_valid e \<longleftrightarrow> seq_valid (Seq e) \<and> duration_valid (Delay e) \<and> length (Payload e) \<le> 254"

definition wire_range :: "Range \<Rightarrow> bool" where
  "wire_range r \<longleftrightarrow> range_ok r \<and> rng_seq r + rng_len r \<le> 2 ^ 32"

lemma uint_seq: "seq_valid q \<Longrightarrow> uint (word_of_int q :: 32 word) = q"
  by (simp add: seq_valid_def uint_word_of_int)

lemma sint_duration: "duration_valid d \<Longrightarrow> sint (word_of_int d :: 64 word) = d"
  by (simp add: duration_valid_def sint_sbintrunc' signed_take_bit_int_eq_self)

lemma GetSequence_enc [wire_simps]:
  "seq_valid q \<Longrightarrow> GetSequence (D (enc_seq q @ r)) y = (D r, q)"
  by (simp add: GetSequence_def enc_seq_def wire_simps uint_seq)

lemma GetDuration_enc [wire_simps]:
  "duration_valid d \<Longrightarrow> GetDuration (D (enc_dur d @ r)) y = (D r, d)"
  by (simp add: GetDuration_def enc_dur_def wire_simps sint_duration)

lemma GetTime_enc [wire_simps]:
  "time_valid t \<Longrightarrow> GetTime (D (enc_dur (t - unix_epoch) @ r)) y = (D r, t)"
  using sint_duration [of "t - unix_epoch"]
  by (simp add: GetTime_def enc_dur_def wire_simps time_valid_def del: of_int_diff)

definition enc_entry :: "Entry \<Rightarrow> byte list" where
  "enc_entry e = enc_seq (Seq e) @ enc_dur (Delay e) @ enc_bytes (Payload e)"

definition enc_range :: "Range \<Rightarrow> byte list" where
  "enc_range r = enc_seq (From r) @ enc_seq (To r)"

definition enc_list :: "('a \<Rightarrow> byte list) \<Rightarrow> 'a list \<Rightarrow> byte list" where
  "enc_list enc xs = word_of_nat (length xs) # concat (map enc xs)"

interpretation entry_codec: codec PutEntry "\<lambda>s v. Inr (GetEntry s v)" entry_valid enc_entry
proof
  fix x s rest and y :: Entry assume "entry_valid x"
  then show "PutEntry x s = Inr (s @ enc_entry x)"
    by (simp add: PutEntry_def entry_valid_def enc_entry_def put_simps wire_simps)
  show "Inr (GetEntry (D (enc_entry x @ rest)) y) = Inr (D rest, x)"
    using \<open>entry_valid x\<close> by (simp add: GetEntry_def entry_valid_def enc_entry_def wire_simps)
qed

lemma wire_range_reads:
  assumes "wire_range r"
  shows "seq_valid (From r) \<and> seq_valid (To r) \<and> RangeInclusive (From r) (To r) = Inr r"
  using assms
  by (cases r) (auto simp: wire_range_def range_ok_def seq_valid_def From_def To_def RangeInclusive_def
      RangeLenUnsafe_def Let_def u64_id i64_id)

interpretation range_codec: codec "\<lambda>r s. Inr (PutRange r s)" D_GetRange wire_range enc_range
proof
  fix x s rest and y :: Range assume "wire_range x"
  note x = wire_range_reads [OF this]
  show "Inr (PutRange x s) = Inr (s @ enc_range x)"
    by (simp add: PutRange_def enc_range_def put_simps)
  show "D_GetRange (D (enc_range x @ rest)) y = Inr (D rest, x)"
    using x by (simp add: D_GetRange_def enc_range_def wire_simps)
qed

interpretation word_codec: codec "\<lambda>i s. Inr (Put32 i s)" "\<lambda>s v. Inr (Get32 s v)" "\<lambda>_. True" enc32
  by unfold_locales (simp_all add: put_simps wire_simps)

definition lists_valid :: "('a \<Rightarrow> bool) \<Rightarrow> 'a list \<Rightarrow> bool" where
  "lists_valid v xs \<longleftrightarrow> length xs \<le> 255 \<and> (\<forall>x \<in> set xs. v x)"

lemma list_len: "n \<le> 255 \<Longrightarrow> unat (word_of_nat n :: byte) = n"
  by (simp add: unat_of_nat)

lemma PutEntries_enc [wire_simps]:
  "lists_valid entry_valid es \<Longrightarrow> PutEntries es s = Inr (s @ enc_list enc_entry es)"
  by (simp add: PutEntries_def lists_valid_def enc_list_def put_simps entry_codec.put_all)

lemma GetEntries_enc [wire_simps]:
  "lists_valid entry_valid es \<Longrightarrow> GetEntries (D (enc_list enc_entry es @ r)) y = Inr (D r, es)"
  by (simp add: GetEntries_def lists_valid_def enc_list_def wire_simps list_len entry_codec.get_all)

lemma PutRanges_enc [wire_simps]:
  "lists_valid wire_range rs \<Longrightarrow> PutRanges rs s = Inr (s @ enc_list enc_range rs)"
  by (simp add: PutRanges_def lists_valid_def enc_list_def put_simps range_codec.put_all)

lemma GetRanges_enc [wire_simps]:
  "lists_valid wire_range rs \<Longrightarrow> GetRanges (D (enc_list enc_range rs @ r)) y = Inr (D r, rs)"
  by (simp add: GetRanges_def lists_valid_def enc_list_def wire_simps list_len range_codec.get_all)

section \<open>Properties\<close>

lemma enc_list_length:
  "length (enc_list enc xs) = Suc (sum_list (map (\<lambda>x. length (enc x)) xs))"
  by (simp add: enc_list_def length_concat comp_def)

lemma enc_entry_length: "length (enc_entry e) = 13 + length (Payload e)"
  by (simp add: enc_entry_def)

lemma enc_range_length: "length (enc_range r) = 8"
  by (simp add: enc_range_def)

text \<open>
  Lists of at most 255 entries with 32-bit numbers and payloads of at most 254 bytes, and lists
  of at most 255 ranges of 32-bit numbers, survive the wire: writing appends one byte and 13 bytes
  and the payload per entry (8 bytes per range), and reading gives the list back and leaves exactly
  what follows.
\<close>

theorem lists_roundtrip:
  assumes "lists_valid entry_valid es" and "lists_valid wire_range rs"
  shows "\<exists>a b. PutEntries es s = Inr (s @ a) \<and>
      length a = 1 + sum_list (map (\<lambda>e. 13 + length (Payload e)) es) \<and>
      GetEntries (NewDeserializer (a @ t)) es0 = Inr (NewDeserializer t, es) \<and>
      PutRanges rs s = Inr (s @ b) \<and> length b = 1 + 8 * length rs \<and>
      GetRanges (NewDeserializer (b @ t)) rs0 = Inr (NewDeserializer t, rs)"
proof -
  have "length (enc_list enc_entry es) = 1 + sum_list (map (\<lambda>e. 13 + length (Payload e)) es)"
    by (simp add: enc_list_length enc_entry_length)
  moreover have "length (enc_list enc_range rs) = 1 + 8 * length rs"
    by (simp add: enc_list_length enc_range_length sum_list_triv)
  ultimately show ?thesis using assms
    by (intro exI [of _ "enc_list enc_entry es"] exI [of _ "enc_list enc_range rs"])
      (simp add: wire_simps)
qed

theorem lists_roundtrip_witness:
  "\<exists>a. PutEntries [\<lparr>Seq = 7, Delay = 3, Payload = [1, 2]\<rparr>] [] = Inr a \<and> length a = 16 \<and>
     GetEntries (NewDeserializer (a @ [9])) [] =
       Inr (NewDeserializer [9], [\<lparr>Seq = 7, Delay = 3, Payload = [1, 2]\<rparr>])"
proof -
  have "lists_valid entry_valid [\<lparr>Seq = 7, Delay = 3, Payload = [1, 2]\<rparr>]"
    by (simp add: lists_valid_def entry_valid_def seq_valid_def duration_valid_def)
  moreover have "lists_valid wire_range [\<lparr>rng_seq = 1, rng_len = 2\<rparr>]"
    by (simp add: lists_valid_def wire_range_def range_ok_def)
  ultimately show ?thesis
    using lists_roundtrip [of "[\<lparr>Seq = 7, Delay = 3, Payload = [1, 2]\<rparr>]"
        "[\<lparr>rng_seq = 1, rng_len = 2\<rparr>]" "[]" "[9]" "[]" "[]"]
    by auto
qed

text \<open>
  A payload of exactly 255 bytes is written but not read back whole: the getter returns the
  payload and leaves the buffer where it was, because its \<open>n+1\<close> wraps to 0 in a byte, so the
  next field is read from the payload's length byte.
\<close>

theorem bytes_255_not_consumed:
  assumes "length v = 255"
  shows "PutBytes v s = Inr (s @ 255 # v) \<and> PutStr v s = Inr (s @ 255 # v) \<and>
    GetBytes (NewDeserializer (255 # v @ t)) y = (NewDeserializer (255 # v @ t), v) \<and>
    GetStr (NewDeserializer (255 # v @ t)) y = (NewDeserializer (255 # v @ t), v)"
  using assms
  by (simp add: PutBytes_def PutStr_def GetBytes_def GetStr_def NewDeserializer_def Let_def)

theorem bytes_255_not_consumed_witness:
  "PutBytes (replicate 255 1) [] = Inr (255 # replicate 255 1) \<and>
   GetBytes (NewDeserializer (255 # replicate 255 1 @ [5])) [] =
     (NewDeserializer (255 # replicate 255 1 @ [5]), replicate 255 1)"
  using bytes_255_not_consumed [of "replicate 255 1" "[]" "[5]" "[]"] by simp

end
