(* ===== verification/LobbyMsg.thy ===== *)
theory LobbyMsg
  imports Wire
begin

text \<open>
  \<open>udpstar/message/ping\<close> and \<open>udpstar/message/lobby\<close>: the ping and lobby messages, their sizes, writers
  and readers, and the parsers a receiver runs on a packet. A \<open>Get\<close> method updates the message it is
  called on, so it takes the old message; parsers start from the zero message.
\<close>

section \<open>Ping\<close>

definition CategoryPing :: category where
  "CategoryPing = 1"

definition SizeOfPing :: int where
  "SizeOfPing = SizeOfPrefix + 1 + 4 + 8"

definition SizeOfPong :: int where
  "SizeOfPong = SizeOfPrefix + 1 + 4 + 8"

record Ping =
  pi_MessageID :: "32 word"
  pi_ClientTime :: time

record Pong =
  po_MessageID :: "32 word"
  po_ClientTime :: time

definition Ping_Put :: "Ping \<Rightarrow> byte list \<Rightarrow> byte list" where
  "Ping_Put m buf =
     PutTime (pi_ClientTime m) (Put32 (pi_MessageID m) (PutCategory CategoryPing (PutPrefix buf)))"

definition Pong_Put :: "Pong \<Rightarrow> byte list \<Rightarrow> byte list" where
  "Pong_Put m buf =
     PutTime (po_ClientTime m) (Put32 (po_MessageID m) (PutCategory CategoryPing (PutPrefix buf)))"

definition Ping_Get :: "byte list \<Rightarrow> Ping \<Rightarrow> Ping got" where
  "Ping_Get buf m =
     (let (ok1, s) = CheckPrefix (NewDeserializer buf);
          (ok2, s) = (if ok1 then CheckCategory CategoryPing s else (False, s))
      in if \<not> ok2 then invalid ''invalid ping message'' m
         else
           let (s, i) = Get32 s (pi_MessageID m);
               (s, t) = GetTime s (pi_ClientTime m)
           in got s \<lparr>pi_MessageID = i, pi_ClientTime = t\<rparr>)"

definition Pong_Get :: "byte list \<Rightarrow> Pong \<Rightarrow> Pong got" where
  "Pong_Get buf m =
     (let (ok1, s) = CheckPrefix (NewDeserializer buf);
          (ok2, s) = (if ok1 then CheckCategory CategoryPing s else (False, s))
      in if \<not> ok2 then invalid ''invalid ping message'' m
         else
           let (s, i) = Get32 s (po_MessageID m);
               (s, t) = GetTime s (po_ClientTime m)
           in got s \<lparr>po_MessageID = i, po_ClientTime = t\<rparr>)"

definition ParsePing :: "byte list \<Rightarrow> Ping \<times> bool" where
  "ParsePing buf =
     (let ((_, err), msg) = Ping_Get buf \<lparr>pi_MessageID = 0, pi_ClientTime = 0\<rparr> in (msg, err = None))"

definition ParsePong :: "byte list \<Rightarrow> Pong \<times> bool" where
  "ParsePong buf =
     (let ((_, err), msg) = Pong_Get buf \<lparr>po_MessageID = 0, po_ClientTime = 0\<rparr> in (msg, err = None))"

section \<open>Lobby values\<close>

definition CategoryLobby :: category where
  "CategoryLobby = 2"

definition CommandJoin :: byte where
  "CommandJoin = 1"

definition CommandLeave :: byte where
  "CommandLeave = 2"

definition CommandRequest :: byte where
  "CommandRequest = 3"

type_synonym SlotAvailability = byte

definition SlotAvailable :: SlotAvailability where
  "SlotAvailable = 0"

definition SlotLocal0 :: SlotAvailability where
  "SlotLocal0 = 16"

definition SlotLocal1 :: SlotAvailability where
  "SlotLocal1 = 17"

definition SlotLocal2 :: SlotAvailability where
  "SlotLocal2 = 18"

definition SlotLocal3 :: SlotAvailability where
  "SlotLocal3 = 19"

definition SlotRemote :: SlotAvailability where
  "SlotRemote = 128"

type_synonym LobbyState = byte

definition StateActive :: LobbyState where
  "StateActive = 0"

definition StateReady :: LobbyState where
  "StateReady = 1"

definition StateStarting :: LobbyState where
  "StateStarting = 0x80"

definition StateStarting1 :: LobbyState where
  "StateStarting1 = 0x81"

definition StateStarting2 :: LobbyState where
  "StateStarting2 = 0x82"

definition StateStarting3 :: LobbyState where
  "StateStarting3 = 0x83"

section \<open>Lobby headers\<close>

record LobbyHeaderClient =
  lhc_LobbyToken :: token
  lhc_ClientToken :: token
  lhc_Latency :: "32 word"

record LobbyHeaderServer =
  lhs_LobbyToken :: token

text \<open>\<open>Duration.Microseconds\<close> divides by 1000, truncating; \<open>int32\<close> reads the 32 bits as signed.\<close>

definition LobbyGetLatency :: "LobbyHeaderClient \<Rightarrow> duration" where
  "LobbyGetLatency m = i64 (sint (lhc_Latency m) * 1000)"

definition LobbySetLatency :: "duration \<Rightarrow> LobbyHeaderClient \<Rightarrow> LobbyHeaderClient" where
  "LobbySetLatency latency m = m\<lparr>lhc_Latency := word_of_int (go_div latency 1000)\<rparr>"

definition sizeOfLobbyHeaderClient :: int where
  "sizeOfLobbyHeaderClient = 2 * SizeOfToken + 4"

definition sizeOfLobbyHeaderServer :: int where
  "sizeOfLobbyHeaderServer = SizeOfToken"

definition LobbyHeaderClient_Put :: "LobbyHeaderClient \<Rightarrow> byte list \<Rightarrow> byte list" where
  "LobbyHeaderClient_Put m buf =
     AppendUint32 (AppendUint32 (AppendUint32 buf (lhc_LobbyToken m)) (lhc_ClientToken m)) (lhc_Latency m)"

definition LobbyHeaderClient_Get ::
  "byte list \<Rightarrow> LobbyHeaderClient \<Rightarrow> (string + byte list) \<times> LobbyHeaderClient" where
  "LobbyHeaderClient_Get buf m =
     (if length buf < 12 then (Inl ErrUnexpectedEOF, m)
      else (Inr (drop 12 buf),
        \<lparr>lhc_LobbyToken = Uint32 (take 4 buf), lhc_ClientToken = Uint32 (take 4 (drop 4 buf)),
         lhc_Latency = Uint32 (take 4 (drop 8 buf))\<rparr>))"

definition LobbyHeaderServer_Put :: "LobbyHeaderServer \<Rightarrow> byte list \<Rightarrow> byte list" where
  "LobbyHeaderServer_Put m buf = AppendUint32 buf (lhs_LobbyToken m)"

definition LobbyHeaderServer_Get ::
  "byte list \<Rightarrow> LobbyHeaderServer \<Rightarrow> (string + byte list) \<times> LobbyHeaderServer" where
  "LobbyHeaderServer_Get buf m =
     (if length buf < 4 then (Inl ErrUnexpectedEOF, m)
      else (Inr (drop 4 buf), \<lparr>lhs_LobbyToken = Uint32 (take 4 buf)\<rparr>))"

section \<open>Client messages\<close>

definition lobbySizeClientBase :: int where
  "lobbySizeClientBase = SizeOfPrefix + 1 + 1 + sizeOfLobbyHeaderClient"

definition checkCommand :: "Deserializer \<Rightarrow> byte \<Rightarrow> bool \<times> Deserializer" where
  "checkCommand s t = (let (s', b) = Get8 s 0 in (d_err s' = None \<and> b = t, s'))"

record Join =
  jo_Header :: LobbyHeaderClient
  jo_ActorToken :: token
  jo_Slot :: byte
  jo_Name :: gostring
  jo_Config :: "byte list"

record Leave =
  le_Header :: LobbyHeaderClient
  le_ActorToken :: token

record Request =
  re_Header :: LobbyHeaderClient

definition Join_Size :: "Join \<Rightarrow> int" where
  "Join_Size m = lobbySizeClientBase + SizeOfToken + 1 + 1 + int (length (jo_Name m)) +
     1 + int (length (jo_Config m))"

definition Leave_Size :: "Leave \<Rightarrow> int" where
  "Leave_Size m = lobbySizeClientBase + SizeOfToken"

definition Request_Size :: "Request \<Rightarrow> int" where
  "Request_Size m = lobbySizeClientBase"

definition Join_Put :: "Join \<Rightarrow> byte list \<Rightarrow> byte list go" where
  "Join_Put m buf =
     go_bind (PutStr (jo_Name m)
       (Put8 (jo_Slot m) (PutToken (jo_ActorToken m) (LobbyHeaderClient_Put (jo_Header m)
         (Put8 CommandJoin (PutCategory CategoryLobby (PutPrefix buf)))))))
       (PutBytes (jo_Config m))"

definition Leave_Put :: "Leave \<Rightarrow> byte list \<Rightarrow> byte list" where
  "Leave_Put m buf =
     PutToken (le_ActorToken m) (LobbyHeaderClient_Put (le_Header m)
       (Put8 CommandLeave (PutCategory CategoryLobby (PutPrefix buf))))"

definition Request_Put :: "Request \<Rightarrow> byte list \<Rightarrow> byte list" where
  "Request_Put m buf =
     LobbyHeaderClient_Put (re_Header m) (Put8 CommandRequest (PutCategory CategoryLobby (PutPrefix buf)))"

text \<open>The checks every client message starts with, in the order of the code's \<open>&&\<close>.\<close>

definition lobby_checks :: "byte \<Rightarrow> byte list \<Rightarrow> bool \<times> Deserializer" where
  "lobby_checks cmd buf =
     (let (ok1, s) = CheckPrefix (NewDeserializer buf);
          (ok2, s) = (if ok1 then CheckCategory CategoryLobby s else (False, s))
      in if ok2 then checkCommand s cmd else (False, s))"

definition Join_Get :: "byte list \<Rightarrow> Join \<Rightarrow> Join got" where
  "Join_Get buf m =
     (let (ok, s) = lobby_checks CommandJoin buf
      in if \<not> ok then invalid ''invalid join command'' m
         else
           let (s, h) = Get LobbyHeaderClient_Get s (jo_Header m);
               (s, a) = GetToken s (jo_ActorToken m);
               (s, sl) = Get8 s (jo_Slot m);
               (s, n) = GetStr s (jo_Name m);
               (s, c) = GetBytes s (jo_Config m)
           in got s \<lparr>jo_Header = h, jo_ActorToken = a, jo_Slot = sl, jo_Name = n, jo_Config = c\<rparr>)"

definition Leave_Get :: "byte list \<Rightarrow> Leave \<Rightarrow> Leave got" where
  "Leave_Get buf m =
     (let (ok, s) = lobby_checks CommandLeave buf
      in if \<not> ok then invalid ''invalid leave command'' m
         else
           let (s, h) = Get LobbyHeaderClient_Get s (le_Header m);
               (s, a) = GetToken s (le_ActorToken m)
           in got s \<lparr>le_Header = h, le_ActorToken = a\<rparr>)"

definition Request_Get :: "byte list \<Rightarrow> Request \<Rightarrow> Request got" where
  "Request_Get buf m =
     (let (ok, s) = lobby_checks CommandRequest buf
      in if \<not> ok then invalid ''invalid request command'' m
         else
           let (s, h) = Get LobbyHeaderClient_Get s (re_Header m)
           in got s \<lparr>re_Header = h\<rparr>)"

datatype LobbyClientMessage = MJoin Join | MLeave Leave | MRequest Request

definition zero_LobbyHeaderClient :: LobbyHeaderClient where
  "zero_LobbyHeaderClient = \<lparr>lhc_LobbyToken = 0, lhc_ClientToken = 0, lhc_Latency = 0\<rparr>"

definition parsed :: "('m \<Rightarrow> 'c) \<Rightarrow> 'm got \<Rightarrow> 'c option" where
  "parsed c r = (case r of ((_, None), m) \<Rightarrow> Some (c m) | _ \<Rightarrow> None)"

definition LobbyParseClient :: "byte list \<Rightarrow> LobbyClientMessage option" where
  "LobbyParseClient buf =
     (if int (length buf) < lobbySizeClientBase then None
      else
        let t = buf ! 5
        in if t = CommandJoin then
             parsed MJoin (Join_Get buf \<lparr>jo_Header = zero_LobbyHeaderClient, jo_ActorToken = 0,
               jo_Slot = 0, jo_Name = [], jo_Config = []\<rparr>)
           else if t = CommandLeave then
             parsed MLeave (Leave_Get buf \<lparr>le_Header = zero_LobbyHeaderClient, le_ActorToken = 0\<rparr>)
           else if t = CommandRequest then
             parsed MRequest (Request_Get buf \<lparr>re_Header = zero_LobbyHeaderClient\<rparr>)
           else None)"

section \<open>Server messages\<close>

definition lobbySizeServerBase :: int where
  "lobbySizeServerBase = SizeOfPrefix + 1 + sizeOfLobbyHeaderServer"

record Slot =
  sl_StoryToken :: token
  sl_ActorToken :: token
  sl_Availability :: SlotAvailability
  sl_Name :: gostring
  sl_Latency :: duration

record Setup =
  se_Header :: LobbyHeaderServer
  se_Name :: gostring
  se_Def :: "byte list"
  se_Slots :: "Slot list"
  se_State :: LobbyState

definition Setup_Size :: "Setup \<Rightarrow> int" where
  "Setup_Size m =
     foldl (\<lambda>size sl. size + (SizeOfToken + SizeOfToken + 1 + 1 + int (length (sl_Name sl)) + 8))
       (lobbySizeServerBase + 1 + int (length (se_Name m)) + 1 + int (length (se_Def m)) + 1 + 1)
       (se_Slots m)"

definition put_Slot :: "Slot \<Rightarrow> byte list \<Rightarrow> byte list go" where
  "put_Slot sl s =
     go_bind (PutStr (sl_Name sl)
       (Put8 (sl_Availability sl) (PutToken (sl_ActorToken sl) (PutToken (sl_StoryToken sl) s))))
       (\<lambda>s. Inr (PutDuration (sl_Latency sl) s))"

definition Setup_Put :: "Setup \<Rightarrow> byte list \<Rightarrow> byte list go" where
  "Setup_Put m buf =
     go_bind (PutStr (se_Name m) (LobbyHeaderServer_Put (se_Header m)
       (PutCategory CategoryLobby (PutPrefix buf)))) (\<lambda>s.
     go_bind (PutBytes (se_Def m) s) (\<lambda>s.
     go_bind (put_each put_Slot (se_Slots m) (Put8 (word_of_nat (length (se_Slots m))) s)) (\<lambda>s.
     Inr (Put8 (se_State m) s))))"

definition zero_Slot :: Slot where
  "zero_Slot = \<lparr>sl_StoryToken = 0, sl_ActorToken = 0, sl_Availability = 0, sl_Name = [], sl_Latency = 0\<rparr>"

definition get_Slot :: "Deserializer \<Rightarrow> Slot \<Rightarrow> (Deserializer \<times> Slot) go" where
  "get_Slot s sl =
     (let (s, st) = GetToken s (sl_StoryToken sl);
          (s, ac) = GetToken s (sl_ActorToken sl);
          (s, av) = Get8 s (sl_Availability sl);
          (s, n) = GetStr s (sl_Name sl);
          (s, l) = GetDuration s (sl_Latency sl)
      in Inr (s, \<lparr>sl_StoryToken = st, sl_ActorToken = ac, sl_Availability = av, sl_Name = n,
                  sl_Latency = l\<rparr>))"

definition Setup_Get :: "byte list \<Rightarrow> Setup \<Rightarrow> Setup got go" where
  "Setup_Get buf m =
     (let (ok1, s) = CheckPrefix (NewDeserializer buf);
          (ok2, s) = (if ok1 then CheckCategory CategoryLobby s else (False, s))
      in if \<not> ok2 then Inr (invalid ''invalid setup message'' m)
         else
           let (s, h) = Get LobbyHeaderServer_Get s (se_Header m);
               (s, n) = GetStr s (se_Name m);
               (s, d) = GetBytes s (se_Def m);
               (s, l) = Get8 s 0
           in go_bind (get_each get_Slot (replicate (unat l) zero_Slot) s) (\<lambda>(s, slots).
                let (s, st) = Get8 s (se_State m)
                in Inr (got s \<lparr>se_Header = h, se_Name = n, se_Def = d, se_Slots = slots,
                     se_State = st\<rparr>)))"

definition LobbyParseServer :: "byte list \<Rightarrow> Setup option go" where
  "LobbyParseServer buf =
     go_bind (Setup_Get buf \<lparr>se_Header = \<lparr>lhs_LobbyToken = 0\<rparr>, se_Name = [], se_Def = [],
       se_Slots = [], se_State = 0\<rparr>) (\<lambda>r. Inr (parsed id r))"

section \<open>Round trips\<close>

text \<open>
  A message's format: writing a valid message appends as many bytes as \<open>Size\<close> says, and reading
  them gives the message back and leaves what follows.
\<close>

locale message_format =
  fixes Put :: "'m \<Rightarrow> byte list \<Rightarrow> byte list go"
    and Size :: "'m \<Rightarrow> int"
    and Get :: "byte list \<Rightarrow> 'm \<Rightarrow> 'm got go"
    and valid :: "'m \<Rightarrow> bool"
    and bytes :: "'m \<Rightarrow> byte list"
  assumes put_bytes: "valid m \<Longrightarrow> Put m buf = Inr (buf @ bytes m)"
    and bytes_size: "valid m \<Longrightarrow> int (length (bytes m)) = Size m"
    and get_bytes: "valid m \<Longrightarrow> Get (bytes m @ t) m0 = Inr ((t, None), m)"
begin

lemma format_roundtrip:
  "valid m \<Longrightarrow> \<exists>bs. Put m [] = Inr bs \<and> int (length bs) = Size m \<and> Get bs m0 = Inr (([], None), m)"
  using put_bytes [of m "[]"] bytes_size get_bytes [of m "[]"] by simp

lemma format_injective:
  assumes "valid m" and "valid m'" and "bytes m = bytes m'"
  shows "m = m'"
  using get_bytes [OF assms(1), of "[]" m] get_bytes [OF assms(2), of "[]" m] assms(3) by simp

end

lemma got_D [wire_simps]: "got (D r) m = ((r, None), m)"
  by (simp add: got_def)

definition enc_lobby_client :: "LobbyHeaderClient \<Rightarrow> byte list" where
  "enc_lobby_client h = enc32 (lhc_LobbyToken h) @ enc32 (lhc_ClientToken h) @ enc32 (lhc_Latency h)"

definition enc_lobby_server :: "LobbyHeaderServer \<Rightarrow> byte list" where
  "enc_lobby_server h = enc32 (lhs_LobbyToken h)"

lemma Uint32_enc: "Uint32 (enc32 v) = v" "Uint32 (enc32 v @ r) = v"
  using Uint32_Append [of v "[]"] Uint32_Append [of v r] by (simp_all add: enc32_def)

lemma lobby_header_wire [wire_simps]:
  "LobbyHeaderClient_Put h s = s @ enc_lobby_client h"
  "LobbyHeaderServer_Put g s = s @ enc_lobby_server g"
  "Get LobbyHeaderClient_Get (D (enc_lobby_client h @ r)) h0 = (D r, h)"
  "Get LobbyHeaderServer_Get (D (enc_lobby_server g @ r)) g0 = (D r, g)"
  by (simp_all add: LobbyHeaderClient_Put_def LobbyHeaderServer_Put_def enc_lobby_client_def
      enc_lobby_server_def Append_append Get_def LobbyHeaderClient_Get_def LobbyHeaderServer_Get_def
      Uint32_enc)

lemma lobby_checks_wire [wire_simps]:
  "lobby_checks cmd (enc32 Prefix @ CategoryLobby # cmd # r) = (True, D r)"
  by (simp add: lobby_checks_def wire_simps checkCommand_def)

lemma lobby_header_length [simp]:
  "length (enc_lobby_client h) = 12" "length (enc_lobby_server g) = 4"
  by (simp_all add: enc_lobby_client_def enc_lobby_server_def)

definition ping_bytes :: "32 word \<Rightarrow> time \<Rightarrow> byte list" where
  "ping_bytes i t = enc32 Prefix @ CategoryPing # enc32 i @ enc_dur (t - unix_epoch)"

interpretation ping_format: message_format "\<lambda>m s. Inr (Ping_Put m s)" "\<lambda>_. SizeOfPing"
  "\<lambda>b m. Inr (Ping_Get b m)" "\<lambda>m. time_valid (pi_ClientTime m)"
  "\<lambda>m. ping_bytes (pi_MessageID m) (pi_ClientTime m)"
  by unfold_locales
    (simp_all add: Ping_Put_def Ping_Get_def ping_bytes_def put_simps wire_simps SizeOfPing_def SizeOfPrefix_def)

interpretation pong_format: message_format "\<lambda>m s. Inr (Pong_Put m s)" "\<lambda>_. SizeOfPong"
  "\<lambda>b m. Inr (Pong_Get b m)" "\<lambda>m. time_valid (po_ClientTime m)"
  "\<lambda>m. ping_bytes (po_MessageID m) (po_ClientTime m)"
  by unfold_locales
    (simp_all add: Pong_Put_def Pong_Get_def ping_bytes_def put_simps wire_simps SizeOfPong_def SizeOfPrefix_def)

definition lobby_bytes :: "byte \<Rightarrow> LobbyHeaderClient \<Rightarrow> byte list \<Rightarrow> byte list" where
  "lobby_bytes cmd h body = enc32 Prefix @ CategoryLobby # cmd # enc_lobby_client h @ body"

definition join_valid :: "Join \<Rightarrow> bool" where
  "join_valid m \<longleftrightarrow> length (jo_Name m) \<le> 254 \<and> length (jo_Config m) \<le> 254"

lemmas lobby_sizes = lobbySizeClientBase_def SizeOfPrefix_def SizeOfToken_def
  sizeOfLobbyHeaderClient_def lobbySizeServerBase_def sizeOfLobbyHeaderServer_def

interpretation join_format: message_format Join_Put Join_Size "\<lambda>b m. Inr (Join_Get b m)" join_valid
  "\<lambda>m. lobby_bytes CommandJoin (jo_Header m) (enc32 (jo_ActorToken m) @ jo_Slot m #
     enc_bytes (jo_Name m) @ enc_bytes (jo_Config m))"
  by unfold_locales
    (simp_all add: Join_Put_def Join_Get_def Join_Size_def lobby_bytes_def put_simps wire_simps
      lobby_sizes join_valid_def)

interpretation leave_format: message_format "\<lambda>m s. Inr (Leave_Put m s)" Leave_Size
  "\<lambda>b m. Inr (Leave_Get b m)" "\<lambda>_. True"
  "\<lambda>m. lobby_bytes CommandLeave (le_Header m) (enc32 (le_ActorToken m))"
  by unfold_locales
    (simp_all add: Leave_Put_def Leave_Get_def Leave_Size_def lobby_bytes_def put_simps wire_simps lobby_sizes)

interpretation request_format: message_format "\<lambda>m s. Inr (Request_Put m s)" Request_Size
  "\<lambda>b m. Inr (Request_Get b m)" "\<lambda>_. True" "\<lambda>m. lobby_bytes CommandRequest (re_Header m) []"
  by unfold_locales
    (simp_all add: Request_Put_def Request_Get_def Request_Size_def lobby_bytes_def put_simps wire_simps lobby_sizes)

definition enc_slot :: "Slot \<Rightarrow> byte list" where
  "enc_slot sl = enc32 (sl_StoryToken sl) @ enc32 (sl_ActorToken sl) @ sl_Availability sl #
     enc_bytes (sl_Name sl) @ enc_dur (sl_Latency sl)"

definition slot_valid :: "Slot \<Rightarrow> bool" where
  "slot_valid sl \<longleftrightarrow> length (sl_Name sl) \<le> 254 \<and> duration_valid (sl_Latency sl)"

interpretation slot_codec: codec put_Slot get_Slot slot_valid enc_slot
  by unfold_locales
    (simp_all add: put_Slot_def get_Slot_def slot_valid_def enc_slot_def put_simps wire_simps)

definition setup_valid :: "Setup \<Rightarrow> bool" where
  "setup_valid m \<longleftrightarrow> length (se_Name m) \<le> 254 \<and> length (se_Def m) \<le> 254 \<and>
     lists_valid slot_valid (se_Slots m)"

lemma int_sum_list: "int (sum_list (map f xs)) = sum_list (map (\<lambda>x. int (f x)) xs)"
  by (induction xs) auto

lemma foldl_sum: "foldl (\<lambda>n x. n + f x) (a :: int) xs = a + sum_list (map f xs)"
  by (induction xs arbitrary: a) auto

interpretation setup_format: message_format Setup_Put Setup_Size Setup_Get setup_valid
  "\<lambda>m. enc32 Prefix @ CategoryLobby # enc_lobby_server (se_Header m) @ enc_bytes (se_Name m) @
     enc_bytes (se_Def m) @ enc_list enc_slot (se_Slots m) @ [se_State m]"
proof
  fix m buf t m0 assume m: "setup_valid m"
  show "Setup_Put m buf = Inr (buf @ enc32 Prefix @ CategoryLobby # enc_lobby_server (se_Header m) @
      enc_bytes (se_Name m) @ enc_bytes (se_Def m) @ enc_list enc_slot (se_Slots m) @ [se_State m])"
    using m by (simp add: Setup_Put_def setup_valid_def lists_valid_def put_simps wire_simps
        enc_list_def slot_codec.put_all)
  show "int (length (enc32 Prefix @ CategoryLobby # enc_lobby_server (se_Header m) @ enc_bytes (se_Name m) @
      enc_bytes (se_Def m) @ enc_list enc_slot (se_Slots m) @ [se_State m])) = Setup_Size m"
    by (simp add: Setup_Size_def foldl_sum enc_list_length enc_slot_def lobby_sizes comp_def int_sum_list)
  show "Setup_Get ((enc32 Prefix @ CategoryLobby # enc_lobby_server (se_Header m) @ enc_bytes (se_Name m) @
      enc_bytes (se_Def m) @ enc_list enc_slot (se_Slots m) @ [se_State m]) @ t) m0 = Inr ((t, None), m)"
    using m by (simp add: Setup_Get_def setup_valid_def lists_valid_def wire_simps
        enc_list_def slot_codec.get_all list_len)
qed

text \<open>The methods of the client messages' interface.\<close>

fun LobbyClient_Put :: "LobbyClientMessage \<Rightarrow> byte list \<Rightarrow> byte list go" where
  "LobbyClient_Put (MJoin m) buf = Join_Put m buf"
| "LobbyClient_Put (MLeave m) buf = Inr (Leave_Put m buf)"
| "LobbyClient_Put (MRequest m) buf = Inr (Request_Put m buf)"

fun LobbyClient_Size :: "LobbyClientMessage \<Rightarrow> int" where
  "LobbyClient_Size (MJoin m) = Join_Size m"
| "LobbyClient_Size (MLeave m) = Leave_Size m"
| "LobbyClient_Size (MRequest m) = Request_Size m"

fun lobby_client_valid :: "LobbyClientMessage \<Rightarrow> bool" where
  "lobby_client_valid (MJoin m) = join_valid m"
| "lobby_client_valid _ = True"

lemma lobby_bytes_cmd:
  "lobby_bytes cmd h body ! 5 = cmd" "\<not> length (lobby_bytes cmd h body) < 18"
  by (simp_all add: lobby_bytes_def nth_append)

lemma parsed_ok [simp]: "parsed c ((t, None), m) = Some (c m)"
  by (simp add: parsed_def)

lemma lobby_client_parse:
  assumes "lobby_client_valid m"
  shows "\<exists>bs. LobbyClient_Put m buf = Inr (buf @ bs) \<and> int (length bs) = LobbyClient_Size m \<and>
    LobbyParseClient bs = Some m"
proof (cases m)
  case (MJoin j)
  then have v: "join_valid j" using assms by simp
  let ?bs = "lobby_bytes CommandJoin (jo_Header j) (enc32 (jo_ActorToken j) @ jo_Slot j #
     enc_bytes (jo_Name j) @ enc_bytes (jo_Config j))"
  have "Join_Get ?bs m0 = (([], None), j)" for m0
    using join_format.get_bytes [OF v, of "[]" m0] by simp
  then have "LobbyParseClient ?bs = Some m"
    using lobby_bytes_cmd by (simp add: LobbyParseClient_def lobby_sizes MJoin Let_def)
  then show ?thesis using join_format.put_bytes [OF v] join_format.bytes_size [OF v] MJoin by auto
next
  case (MLeave l)
  let ?bs = "lobby_bytes CommandLeave (le_Header l) (enc32 (le_ActorToken l))"
  have "Leave_Get ?bs m0 = (([], None), l)" for m0
    using leave_format.get_bytes [of l "[]" m0] by simp
  then have "LobbyParseClient ?bs = Some m"
    using lobby_bytes_cmd
    by (simp add: LobbyParseClient_def lobby_sizes MLeave Let_def CommandJoin_def CommandLeave_def)
  then show ?thesis using leave_format.put_bytes leave_format.bytes_size MLeave by auto
next
  case (MRequest r)
  let ?bs = "lobby_bytes CommandRequest (re_Header r) []"
  have "Request_Get ?bs m0 = (([], None), r)" for m0
    using request_format.get_bytes [of r "[]" m0] by simp
  then have "LobbyParseClient ?bs = Some m"
    using lobby_bytes_cmd
    by (simp add: LobbyParseClient_def lobby_sizes MRequest Let_def CommandJoin_def CommandLeave_def
        CommandRequest_def)
  then show ?thesis using request_format.put_bytes request_format.bytes_size MRequest by auto
qed



end
