(* ===== verification/Lobbies.thy ===== *)
theory Lobbies
  imports LobbyMsg "HOL-Library.AList"
begin

text \<open>
  \<open>udpstar/server/service_lobby.go\<close>, \<open>data_client.go\<close> and \<open>LobbySetup\<close> of \<open>setup.go\<close>: the lobby in which
  players gather. The service's goroutine owns the state and handles one command at a time, so it is
  a state machine: \<open>process\<close> handles a command and \<open>broadcast_tick\<close> the timer. A command that sends or
  answers something has it in its result; a packet is a setup message with its destination
  (its bytes are \<open>Setup_Put\<close> of it). The map of clients is the list of its entries in the order Go
  happens to iterate over it. The current time is an argument.
\<close>

section \<open>State\<close>

text \<open>\<open>net.UDPAddr\<close> of Go's standard library.\<close>

record UDPAddr =
  udp_IP :: "byte list"
  udp_Port :: int
  udp_Zone :: gostring

record ClientData =
  cd_LastMsgReceived :: time
  cd_Address :: UDPAddr
  cd_Latency :: duration

record clientInfo =
  ci_Count :: int
  ci_Data :: ClientData

record LobbySlot =
  ls_StoryToken :: token
  ls_Availability :: SlotAvailability
  ls_ClientToken :: token
  ls_ActorToken :: token
  ls_Name :: gostring
  ls_Config :: "byte list option"

record LobbySetup =
  lsu_Token :: token
  lsu_Name :: gostring
  lsu_Def :: "byte list"
  lsu_SlotStories :: "token list"

record lobbyService =
  lb_Token :: token
  lb_name :: gostring
  lb_def :: "byte list"
  lb_broadcastAddr :: UDPAddr
  lb_slots :: "LobbySlot list"
  lb_state :: LobbyState
  lb_clients :: "(token \<times> clientInfo) list"
  lb_version :: int

definition zero_UDPAddr :: UDPAddr where
  "zero_UDPAddr = \<lparr>udp_IP = [], udp_Port = 0, udp_Zone = []\<rparr>"

definition zero_clientInfo :: clientInfo where
  "zero_clientInfo = \<lparr>ci_Count = 0,
     ci_Data = \<lparr>cd_LastMsgReceived = 0, cd_Address = zero_UDPAddr, cd_Latency = 0\<rparr>\<rparr>"

definition zero_LobbySlot :: LobbySlot where
  "zero_LobbySlot = \<lparr>ls_StoryToken = 0, ls_Availability = 0, ls_ClientToken = 0, ls_ActorToken = 0,
     ls_Name = [], ls_Config = None\<rparr>"

section \<open>Slots\<close>

definition isRemote :: "LobbySlot \<Rightarrow> bool" where
  "isRemote d \<longleftrightarrow> ls_Availability d = SlotRemote"

definition isLocal :: "LobbySlot \<Rightarrow> bool" where
  "isLocal d \<longleftrightarrow> ls_Availability d \<ge> SlotLocal0 \<and> ls_Availability d \<le> SlotLocal3"

definition isAvailable :: "LobbySlot \<Rightarrow> bool" where
  "isAvailable d \<longleftrightarrow> ls_Availability d = SlotAvailable"

definition slot_remote :: "token \<Rightarrow> token \<Rightarrow> gostring \<Rightarrow> byte list \<Rightarrow> LobbySlot \<Rightarrow> LobbySlot" where
  "slot_remote actor client name config d =
     d\<lparr>ls_Availability := SlotRemote, ls_ClientToken := client, ls_ActorToken := actor,
       ls_Name := name, ls_Config := Some config\<rparr>"

definition slot_local :: "token \<Rightarrow> byte \<Rightarrow> gostring \<Rightarrow> LobbySlot \<Rightarrow> LobbySlot" where
  "slot_local actor idx name d =
     d\<lparr>ls_Availability := SlotLocal0 + idx, ls_ClientToken := 0, ls_ActorToken := actor,
       ls_Name := name, ls_Config := None\<rparr>"

definition slot_clear :: "LobbySlot \<Rightarrow> LobbySlot" where
  "slot_clear d =
     d\<lparr>ls_Availability := SlotAvailable, ls_ClientToken := 0, ls_ActorToken := 0,
       ls_Name := [], ls_Config := None\<rparr>"

section \<open>Start of a lobby\<close>

definition LobbySetup_Validate :: "LobbySetup \<Rightarrow> string option" where
  "LobbySetup_Validate s =
     (if lsu_Token s = 0 then Some ''token is missing for the lobby''
      else if length (lsu_SlotStories s) < 1 then Some ''too few slots''
      else if \<exists>t \<in> set (lsu_SlotStories s). t = 0 then Some ''slot is missing the story token''
      else None)"

definition newLobbyService :: "LobbySetup \<Rightarrow> UDPAddr \<Rightarrow> string + lobbyService" where
  "newLobbyService setup addr =
     (case LobbySetup_Validate setup of
        Some e \<Rightarrow> Inl e
      | None \<Rightarrow> Inr \<lparr>lb_Token = lsu_Token setup, lb_name = lsu_Name setup, lb_def = lsu_Def setup,
          lb_broadcastAddr = addr,
          lb_slots = map (\<lambda>t. (slot_clear zero_LobbySlot)\<lparr>ls_StoryToken := t\<rparr>) (lsu_SlotStories setup),
          lb_state = StateActive, lb_clients = [], lb_version = 0\<rparr>)"

section \<open>Clients\<close>

definition client_of :: "token \<Rightarrow> lobbyService \<Rightarrow> clientInfo" where
  "client_of t s = (case map_of (lb_clients s) t of None \<Rightarrow> zero_clientInfo | Some i \<Rightarrow> i)"

definition set_client :: "token \<Rightarrow> clientInfo \<Rightarrow> lobbyService \<Rightarrow> lobbyService" where
  "set_client t i s = s\<lparr>lb_clients := AList.update t i (lb_clients s)\<rparr>"

definition touch_info :: "time \<Rightarrow> UDPAddr \<Rightarrow> duration \<Rightarrow> clientInfo \<Rightarrow> clientInfo" where
  "touch_info now addr latency info =
     info\<lparr>ci_Data := \<lparr>cd_LastMsgReceived = now, cd_Address = addr, cd_Latency = latency\<rparr>\<rparr>"

definition touchClient :: "time \<Rightarrow> token \<Rightarrow> UDPAddr \<Rightarrow> duration \<Rightarrow> lobbyService \<Rightarrow> lobbyService" where
  "touchClient now t addr latency s = set_client t (touch_info now addr latency (client_of t s)) s"

definition incClient :: "time \<Rightarrow> token \<Rightarrow> UDPAddr \<Rightarrow> duration \<Rightarrow> lobbyService \<Rightarrow> lobbyService" where
  "incClient now t addr latency s =
     (let info = client_of t s
      in set_client t (touch_info now addr latency (info\<lparr>ci_Count := ci_Count info + 1\<rparr>)) s)"

definition decClient :: "time \<Rightarrow> token \<Rightarrow> UDPAddr \<Rightarrow> duration \<Rightarrow> lobbyService \<Rightarrow> lobbyService" where
  "decClient now t addr latency s =
     (let info = client_of t s
      in set_client t (touch_info now addr latency (info\<lparr>ci_Count := ci_Count info - 1\<rparr>)) s)"

definition decClientNoAddr :: "token \<Rightarrow> lobbyService \<Rightarrow> lobbyService" where
  "decClientNoAddr t s =
     (let info = client_of t s in set_client t (info\<lparr>ci_Count := ci_Count info - 1\<rparr>) s)"

definition zeroClient :: "time \<Rightarrow> token \<Rightarrow> UDPAddr \<Rightarrow> duration \<Rightarrow> lobbyService \<Rightarrow> lobbyService" where
  "zeroClient now t addr latency s =
     set_client t (touch_info now addr latency ((client_of t s)\<lparr>ci_Count := 0\<rparr>)) s"

definition updateClient :: "time \<Rightarrow> token \<Rightarrow> UDPAddr \<Rightarrow> duration \<Rightarrow> lobbyService \<Rightarrow> lobbyService" where
  "updateClient now t addr latency s = set_client t (touch_info now addr latency (client_of t s)) s"

section \<open>Joining and leaving\<close>

text \<open>The loops over the slots stop at the first slot of the actor they look for.\<close>

fun first_idx :: "('a \<Rightarrow> bool) \<Rightarrow> 'a list \<Rightarrow> nat option" where
  "first_idx P [] = None"
| "first_idx P (x # xs) = (if P x then Some 0 else map_option Suc (first_idx P xs))"

definition upd_slot :: "nat \<Rightarrow> (LobbySlot \<Rightarrow> LobbySlot) \<Rightarrow> lobbyService \<Rightarrow> lobbyService" where
  "upd_slot i f s = s\<lparr>lb_slots := (lb_slots s)[i := f (lb_slots s ! i)]\<rparr>"

definition updateState :: "lobbyService \<Rightarrow> lobbyService" where
  "updateState s =
     s\<lparr>lb_state := (if \<exists>sl \<in> set (lb_slots s). isAvailable sl then StateActive else StateReady)\<rparr>"

definition localJoin :: "token \<Rightarrow> byte \<Rightarrow> byte \<Rightarrow> gostring \<Rightarrow> lobbyService \<Rightarrow> bool \<times> lobbyService" where
  "localJoin actor slotIdx localIdx name s =
     (if slotIdx \<ge> word_of_nat (length (lb_slots s)) \<or> localIdx > SlotLocal3 - SlotLocal0 then (False, s)
      else
        let k = unat slotIdx
        in if \<not> isAvailable (lb_slots s ! k) then
             (if ls_ActorToken (lb_slots s ! k) = actor
              then (True, updateState (upd_slot k (slot_local actor localIdx name) s))
              else (False, s))
           else
             let s1 = (case first_idx (\<lambda>sl. actor = ls_ActorToken sl) (lb_slots s) of
                         None \<Rightarrow> s | Some i \<Rightarrow> upd_slot i slot_clear s)
             in (True, updateState (upd_slot k (slot_local actor localIdx name) s1)))"

definition localLeave :: "token \<Rightarrow> lobbyService \<Rightarrow> bool \<times> lobbyService" where
  "localLeave actor s =
     (case first_idx (\<lambda>sl. actor = ls_ActorToken sl) (lb_slots s) of
        None \<Rightarrow> (False, s)
      | Some i \<Rightarrow> (True, (upd_slot i slot_clear s)\<lparr>lb_state := StateActive\<rparr>))"

definition evictClient :: "token \<Rightarrow> lobbyService \<Rightarrow> bool \<times> lobbyService" where
  "evictClient t s =
     (let found = (\<exists>sl \<in> set (lb_slots s). t = ls_ClientToken sl)
      in (found,
          s\<lparr>lb_slots := map (\<lambda>sl. if t = ls_ClientToken sl then slot_clear sl else sl) (lb_slots s),
            lb_state := (if found then StateActive else lb_state s),
            lb_clients := AList.delete t (lb_clients s)\<rparr>))"

definition remoteJoin :: "time \<Rightarrow> Join \<Rightarrow> UDPAddr \<Rightarrow> lobbyService \<Rightarrow> bool \<times> lobbyService" where
  "remoteJoin now msg addr s =
     (let k = unat (jo_Slot msg);
          latency = LobbyGetLatency (jo_Header msg);
          client = lhc_ClientToken (jo_Header msg);
          actor = jo_ActorToken msg;
          take_slot = upd_slot k (slot_remote actor client (jo_Name msg) (jo_Config msg))
      in if k \<ge> length (lb_slots s) then (False, s)
         else if \<not> isAvailable (lb_slots s ! k) then
           (if ls_ActorToken (lb_slots s ! k) = actor then
              let owner = ls_ClientToken (lb_slots s ! k);
                  s1 = (if owner \<noteq> client
                        then incClient now client addr latency (snd (evictClient owner s))
                        else touchClient now client addr latency s)
              in (True, updateState (take_slot s1))
            else (False, s))
         else
           let s1 = (case first_idx (\<lambda>sl. actor = ls_ActorToken sl) (lb_slots s) of
                       None \<Rightarrow> s
                     | Some i \<Rightarrow>
                         let owner = ls_ClientToken (lb_slots s ! i)
                         in if owner \<noteq> client then snd (evictClient owner s)
                            else upd_slot i slot_clear (decClient now owner addr latency s))
           in (True, updateState (take_slot (incClient now client addr latency s1))))"

definition remoteLeave :: "time \<Rightarrow> Leave \<Rightarrow> UDPAddr \<Rightarrow> lobbyService \<Rightarrow> bool \<times> lobbyService" where
  "remoteLeave now msg addr s =
     (let latency = LobbyGetLatency (le_Header msg);
          client = lhc_ClientToken (le_Header msg);
          actor = le_ActorToken msg
      in if actor = 0 then
           (if \<not> (\<exists>sl \<in> set (lb_slots s). client = ls_ClientToken sl) then (False, s)
            else (True, (zeroClient now client addr latency
              (s\<lparr>lb_slots := map (\<lambda>sl. if client = ls_ClientToken sl then slot_clear sl else sl)
                 (lb_slots s)\<rparr>))\<lparr>lb_state := StateActive\<rparr>))
         else
           (case first_idx (\<lambda>sl. actor = ls_ActorToken sl \<and> client = ls_ClientToken sl) (lb_slots s) of
              None \<Rightarrow> (False, s)
            | Some i \<Rightarrow>
                (True, (upd_slot i slot_clear
                  (decClient now (ls_ClientToken (lb_slots s ! i)) addr latency s))
                  \<lparr>lb_state := StateActive\<rparr>)))"

definition evictActor :: "token \<Rightarrow> lobbyService \<Rightarrow> bool \<times> lobbyService" where
  "evictActor actor s =
     (case first_idx (\<lambda>sl. actor = ls_ActorToken sl) (lb_slots s) of
        None \<Rightarrow> (False, s)
      | Some i \<Rightarrow>
          let s1 = (if isRemote (lb_slots s ! i)
                    then decClientNoAddr (ls_ClientToken (lb_slots s ! i)) s else s)
          in (True, (upd_slot i slot_clear s1)\<lparr>lb_state := StateActive\<rparr>))"

section \<open>Setup messages\<close>

definition getSetupMessage :: "lobbyService \<Rightarrow> Setup" where
  "getSetupMessage s =
     \<lparr>se_Header = \<lparr>lhs_LobbyToken = lb_Token s\<rparr>, se_Name = lb_name s, se_Def = lb_def s,
      se_Slots = map (\<lambda>sl.
        \<lparr>sl_StoryToken = ls_StoryToken sl, sl_ActorToken = 0, sl_Availability = ls_Availability sl,
         sl_Name = ls_Name sl, sl_Latency = cd_Latency (ci_Data (client_of (ls_ClientToken sl) s))\<rparr>)
        (lb_slots s),
      se_State = lb_state s\<rparr>"

definition with_tokens :: "(LobbySlot \<Rightarrow> token) \<Rightarrow> lobbyService \<Rightarrow> Setup \<Rightarrow> Setup" where
  "with_tokens f s msg =
     msg\<lparr>se_Slots := map (\<lambda>(sl, m). m\<lparr>sl_ActorToken := f sl\<rparr>) (zip (lb_slots s) (se_Slots msg))\<rparr>"

definition own_token :: "token \<Rightarrow> LobbySlot \<Rightarrow> token" where
  "own_token client sl =
     (if isRemote sl \<and> ls_ClientToken sl = client then ls_ActorToken sl else 0)"

type_synonym packet = "Setup \<times> UDPAddr"

definition remoteRequest :: "time \<Rightarrow> Request \<Rightarrow> UDPAddr \<Rightarrow> lobbyService \<Rightarrow> lobbyService \<times> packet list" where
  "remoteRequest now msg addr s =
     (let client = lhc_ClientToken (re_Header msg);
          s1 = updateClient now client addr (LobbyGetLatency (re_Header msg)) s
      in (s1, [(with_tokens (own_token client) s1 (getSetupMessage s1), addr)]))"

definition ns_Minute :: duration where
  "ns_Minute = 60 * ns_Second"

text \<open>
  The timer of \<open>Start\<close>: a broadcast while there are free slots, then a message to every client, with
  its own actor tokens only; a client without actors that has been silent for a minute is forgotten.
\<close>

definition broadcast_tick :: "time \<Rightarrow> lobbyService \<Rightarrow> lobbyService \<times> packet list" where
  "broadcast_tick now s =
     (let msg = getSetupMessage s;
          bc = (if lb_state s = StateActive \<and> length (udp_IP (lb_broadcastAddr s)) > 0
                then [(msg, lb_broadcastAddr s)] else []);
          stale = (\<lambda>(t, i). ci_Count i \<le> 0 \<and>
                     time_Sub now (cd_LastMsgReceived (ci_Data i)) > ns_Minute);
          keep = filter (\<lambda>c. \<not> stale c) (lb_clients s)
      in (s\<lparr>lb_clients := keep\<rparr>,
          bc @ map (\<lambda>(t, i).
            (with_tokens (if ci_Count i \<le> 0 then (\<lambda>_. 0) else own_token t) s msg,
             cd_Address (ci_Data i))) keep))"

section \<open>Commands\<close>

text \<open>The view of the lobby that \<open>Get\<close> answers: \<open>udpstar.Lobby\<close>.\<close>

record Lobby =
  lo_Version :: int
  lo_Name :: gostring
  lo_Def :: "byte list"
  lo_Slots :: "Slot list"
  lo_State :: LobbyState

definition toLobby :: "lobbyService \<Rightarrow> Lobby" where
  "toLobby s =
     \<lparr>lo_Version = lb_version s, lo_Name = lb_name s, lo_Def = lb_def s,
      lo_Slots = map (\<lambda>sl.
        \<lparr>sl_StoryToken = ls_StoryToken sl, sl_ActorToken = ls_ActorToken sl,
         sl_Availability = ls_Availability sl, sl_Name = ls_Name sl,
         sl_Latency = cd_Latency (ci_Data (client_of (ls_ClientToken sl) s))\<rparr>) (lb_slots s),
      lo_State = lb_state s\<rparr>"

record lobbyFinishResp =
  fr_version :: int
  fr_name :: gostring
  fr_def :: "byte list"
  fr_slots :: "LobbySlot list"
  fr_clientMap :: "(token \<times> ClientData) list"
  fr_state :: LobbyState

definition ErrLobbyNotReady :: string where
  "ErrLobbyNotReady = ''lobby not ready''"

datatype command =
    GetReq int
  | JoinReq token byte byte gostring
  | LeaveReq token
  | EvictReq token
  | EvictClientReq token
  | RemoteJoin Join UDPAddr
  | RemoteLeave Leave UDPAddr
  | RemoteRequest Request UDPAddr
  | ChangeName gostring
  | FinishReq LobbyState int

datatype answer =
    NoAnswer | GotLobby Lobby | GotFinish "string + lobbyFinishResp" | Sent "packet list"

definition finish_state :: "LobbyState \<Rightarrow> LobbyState" where
  "finish_state st =
     (if st = StateReady then StateStarting3
      else if st = StateStarting3 then StateStarting2
      else if st = StateStarting2 then StateStarting1
      else if st = StateStarting1 \<or> st = StateStarting then StateStarting
      else st)"

definition finish :: "LobbyState \<Rightarrow> int \<Rightarrow> lobbyService \<Rightarrow> bool \<times> lobbyService \<times> answer" where
  "finish state expectedVersion s =
     (if lb_state s = StateActive \<or> expectedVersion \<noteq> lb_version s
      then (False, s, GotFinish (Inl ErrLobbyNotReady))
      else
        let s1 = s\<lparr>lb_state := finish_state (lb_state s)\<rparr>
        in (True, s1, GotFinish (Inr
          \<lparr>fr_version = lb_version s1, fr_name = lb_name s1, fr_def = lb_def s1, fr_slots = lb_slots s1,
           fr_clientMap = map (\<lambda>(t, i). (t, ci_Data i)) (lb_clients s1), fr_state = lb_state s1\<rparr>)))"

fun process :: "time \<Rightarrow> command \<Rightarrow> lobbyService \<Rightarrow> bool \<times> lobbyService \<times> answer" where
  "process now (GetReq have) s =
     (False, s, if lb_version s = have then NoAnswer else GotLobby (toLobby s))"
| "process now (JoinReq a i l n) s = (let (c, s') = localJoin a i l n s in (c, s', NoAnswer))"
| "process now (LeaveReq a) s = (let (c, s') = localLeave a s in (c, s', NoAnswer))"
| "process now (EvictReq a) s = (let (c, s') = evictActor a s in (c, s', NoAnswer))"
| "process now (EvictClientReq t) s = (let (c, s') = evictClient t s in (c, s', NoAnswer))"
| "process now (RemoteJoin m addr) s = (let (c, s') = remoteJoin now m addr s in (c, s', NoAnswer))"
| "process now (RemoteLeave m addr) s = (let (c, s') = remoteLeave now m addr s in (c, s', NoAnswer))"
| "process now (RemoteRequest m addr) s =
     (let (s', ps) = remoteRequest now m addr s in (True, s', Sent ps))"
| "process now (ChangeName n) s = (n \<noteq> lb_name s, s\<lparr>lb_name := n\<rparr>, NoAnswer)"
| "process now (FinishReq st v) s = finish st v s"

text \<open>One turn of the loop of \<open>Start\<close>: a command that changed something increments the version.\<close>

definition turn :: "time \<Rightarrow> command \<Rightarrow> lobbyService \<Rightarrow> lobbyService \<times> answer" where
  "turn now c s =
     (let (changed, s', a) = process now c s
      in (if changed then s'\<lparr>lb_version := i64 (lb_version s' + 1)\<rparr> else s', a))"

text \<open>\<open>HandleClient\<close> turns a client's message into a command.\<close>

fun HandleClient :: "LobbyClientMessage \<Rightarrow> UDPAddr \<Rightarrow> command" where
  "HandleClient (MJoin m) addr = RemoteJoin m addr"
| "HandleClient (MLeave m) addr = RemoteLeave m addr"
| "HandleClient (MRequest m) addr = RemoteRequest m addr"

section \<open>Invariant\<close>

definition slot_ok :: "LobbySlot \<Rightarrow> bool" where
  "slot_ok sl \<longleftrightarrow>
     (isAvailable sl \<and> ls_ClientToken sl = 0 \<and> ls_ActorToken sl = 0) \<or>
     (isLocal sl \<and> ls_ClientToken sl = 0) \<or> isRemote sl"

definition actors_apart :: "LobbySlot list \<Rightarrow> bool" where
  "actors_apart sls \<longleftrightarrow> (\<forall>i < length sls. \<forall>j < length sls.
     ls_ActorToken (sls ! i) = ls_ActorToken (sls ! j) \<longrightarrow> ls_ActorToken (sls ! i) \<noteq> 0 \<longrightarrow> i = j)"

definition state_ok :: "lobbyService \<Rightarrow> bool" where
  "state_ok s \<longleftrightarrow> (lb_state s = StateActive \<longleftrightarrow> (\<exists>sl \<in> set (lb_slots s). isAvailable sl))"

definition lobby_ok :: "lobbyService \<Rightarrow> bool" where
  "lobby_ok s \<longleftrightarrow> (\<forall>sl \<in> set (lb_slots s). slot_ok sl) \<and> actors_apart (lb_slots s) \<and> state_ok s \<and>
     distinct (map fst (lb_clients s))"

lemma slot_clear_simps [simp]:
  "isAvailable (slot_clear sl)" "ls_ActorToken (slot_clear sl) = 0" "ls_ClientToken (slot_clear sl) = 0"
  "\<not> isRemote (slot_clear sl)" "\<not> isLocal (slot_clear sl)" "slot_ok (slot_clear sl)"
  "ls_StoryToken (slot_clear sl) = ls_StoryToken sl"
  by (simp_all add: slot_clear_def isAvailable_def isRemote_def isLocal_def slot_ok_def SlotAvailable_def
      SlotRemote_def SlotLocal0_def)

lemma slot_remote_simps [simp]:
  "isRemote (slot_remote a c n g sl)" "\<not> isAvailable (slot_remote a c n g sl)"
  "slot_ok (slot_remote a c n g sl)" "ls_ActorToken (slot_remote a c n g sl) = a"
  "ls_ClientToken (slot_remote a c n g sl) = c" "ls_StoryToken (slot_remote a c n g sl) = ls_StoryToken sl"
  by (simp_all add: slot_remote_def isAvailable_def isRemote_def slot_ok_def SlotAvailable_def SlotRemote_def)

lemma byte_le_3: "(i :: byte) \<le> 3 \<Longrightarrow> i = 0 \<or> i = 1 \<or> i = 2 \<or> i = 3"
proof -
  assume "i \<le> 3"
  then have "unat i \<le> 3" by (simp add: word_le_nat_alt)
  then consider "unat i = 0" | "unat i = 1" | "unat i = 2" | "unat i = 3" by linarith
  then have "word_of_nat (unat i) \<in> {0, 1, 2, 3 :: byte}" by cases simp_all
  then show ?thesis by simp
qed

lemma slot_local_simps [simp]:
  "ls_ActorToken (slot_local a i n sl) = a" "ls_ClientToken (slot_local a i n sl) = 0"
  "ls_StoryToken (slot_local a i n sl) = ls_StoryToken sl"
  by (simp_all add: slot_local_def)

lemma slot_local_kind:
  assumes "\<not> i > SlotLocal3 - SlotLocal0"
  shows "isLocal (slot_local a i n sl)" "\<not> isAvailable (slot_local a i n sl)"
    "\<not> isRemote (slot_local a i n sl)" "slot_ok (slot_local a i n sl)"
proof -
  have "i \<le> 3" using assms by (simp add: SlotLocal3_def SlotLocal0_def not_less)
  then show "isLocal (slot_local a i n sl)" "\<not> isAvailable (slot_local a i n sl)"
    "\<not> isRemote (slot_local a i n sl)" "slot_ok (slot_local a i n sl)"
    by (auto dest!: byte_le_3 simp: slot_ok_def slot_local_def isLocal_def isAvailable_def isRemote_def
        SlotLocal0_def SlotLocal3_def SlotAvailable_def SlotRemote_def)
qed

lemma kinds_exclusive:
  "isAvailable sl \<Longrightarrow> \<not> isRemote sl" "isAvailable sl \<Longrightarrow> \<not> isLocal sl" "isLocal sl \<Longrightarrow> \<not> isRemote sl"
  by (auto simp: isAvailable_def isRemote_def isLocal_def SlotLocal0_def SlotLocal3_def
      SlotAvailable_def SlotRemote_def)

lemma upd_slot_simps [simp]:
  "lb_slots (upd_slot i f s) = (lb_slots s)[i := f (lb_slots s ! i)]"
  "lb_state (upd_slot i f s) = lb_state s" "lb_clients (upd_slot i f s) = lb_clients s"
  "lb_version (upd_slot i f s) = lb_version s" "lb_name (upd_slot i f s) = lb_name s"
  by (simp_all add: upd_slot_def)

lemma client_ops_simps [simp]:
  "lb_slots (set_client t i s) = lb_slots s" "lb_state (set_client t i s) = lb_state s"
  "lb_version (set_client t i s) = lb_version s" "lb_name (set_client t i s) = lb_name s"
  "lb_clients (set_client t i s) = AList.update t i (lb_clients s)"
  by (simp_all add: set_client_def)

lemmas client_op_defs = touchClient_def incClient_def decClient_def decClientNoAddr_def zeroClient_def
  updateClient_def

lemma first_idx_Some:
  "first_idx P xs = Some i \<Longrightarrow> i < length xs \<and> P (xs ! i) \<and> (\<forall>j < i. \<not> P (xs ! j))"
proof (induction xs arbitrary: i)
  case (Cons x xs)
  show ?case
  proof (cases "P x")
    case False
    then obtain k where "first_idx P xs = Some k" "i = Suc k" using Cons.prems by auto
    then show ?thesis using Cons.IH False by (auto simp: less_Suc_eq_0_disj)
  qed (use Cons.prems in simp)
qed simp

lemma first_idx_None: "first_idx P xs = None \<longleftrightarrow> (\<forall>x \<in> set xs. \<not> P x)"
  by (induction xs) auto

lemma updateState_ok [simp]:
  "state_ok (updateState s)" "lb_slots (updateState s) = lb_slots s"
  "lb_clients (updateState s) = lb_clients s" "lb_version (updateState s) = lb_version s"
  "lb_name (updateState s) = lb_name s"
  by (auto simp: updateState_def state_ok_def StateActive_def StateReady_def)

lemma apart_update:
  assumes "actors_apart sls" and "k < length sls"
    and "ls_ActorToken x \<noteq> 0 \<Longrightarrow> \<forall>i < length sls. i \<noteq> k \<longrightarrow> ls_ActorToken (sls ! i) \<noteq> ls_ActorToken x"
  shows "actors_apart (sls[k := x])"
  unfolding actors_apart_def
proof (intro allI impI)
  fix i j
  assume ij: "i < length (sls[k := x])" "j < length (sls[k := x])"
    "ls_ActorToken (sls[k := x] ! i) = ls_ActorToken (sls[k := x] ! j)"
    "ls_ActorToken (sls[k := x] ! i) \<noteq> 0"
  then show "i = j"
    using assms unfolding actors_apart_def by (cases "i = k"; cases "j = k") auto
qed

lemma apart_clear: "actors_apart sls \<Longrightarrow> actors_apart (sls[k := slot_clear (sls ! k)])"
  by (cases "k < length sls") (auto intro!: apart_update simp: list_update_beyond)

lemma apart_clear_all:
  "actors_apart sls \<Longrightarrow> actors_apart (map (\<lambda>sl. if P sl then slot_clear sl else sl) sls)"
  unfolding actors_apart_def by auto

lemma ok_update:
  "\<forall>sl \<in> set sls. slot_ok sl \<Longrightarrow> slot_ok x \<Longrightarrow> \<forall>sl \<in> set (sls[k := x]). slot_ok sl"
  by (auto dest: subsetD [OF set_update_subset_insert])

lemma distinct_keys [simp]:
  "distinct (map fst cs) \<Longrightarrow> distinct (map fst (AList.update t i cs))"
  "distinct (map fst cs) \<Longrightarrow> distinct (map fst (AList.delete t cs))"
  by (simp_all add: distinct_update distinct_delete)

text \<open>
  A command keeps the invariant, and one that reports no change has not changed what the lobby
  shows. This is the contract of \<open>lobbyCommandProcessor\<close>.
\<close>

definition shown :: "lobbyService \<Rightarrow> LobbySlot list \<times> LobbyState \<times> gostring \<times> int" where
  "shown s = (lb_slots s, lb_state s, lb_name s, lb_version s)"

locale lobby_command =
  fixes run :: "lobbyService \<Rightarrow> bool \<times> lobbyService"
  assumes keeps: "lobby_ok s \<Longrightarrow> lobby_ok (snd (run s))"
    and silent: "\<not> fst (run s) \<Longrightarrow> shown (snd (run s)) = shown s"
    and version: "lb_version (snd (run s)) = lb_version s"
    and stories: "map ls_StoryToken (lb_slots (snd (run s))) = map ls_StoryToken (lb_slots s)"
begin

text \<open>The loop's step over the command.\<close>

lemma step_keeps:
  assumes "lobby_ok s" and "run s = (c, s')"
  shows "lobby_ok (if c then s'\<lparr>lb_version := i64 (lb_version s' + 1)\<rparr> else s')"
  using keeps [OF assms(1)] assms(2) by (simp add: lobby_ok_def state_ok_def)

lemma step_version:
  assumes "run s = (c, s')"
    and "lb_version (if c then s'\<lparr>lb_version := i64 (lb_version s' + 1)\<rparr> else s') = lb_version s"
    and "0 \<le> lb_version s" "lb_version s < int_lim"
  shows "shown s' = shown s \<and> \<not> c"
proof (cases c)
  case True
  then have v: "i64 (lb_version s + 1) = lb_version s" using assms(1,2) version [of s] by simp
  show ?thesis
  proof (cases "lb_version s + 1 < int_lim")
    case True
    then show ?thesis using v assms(3) by (simp add: i64_id)
  next
    case False
    then have "lb_version s = int_lim - 1" using assms(4) by simp
    then show ?thesis using v by (simp add: i64_def)
  qed
qed (use silent [of s] assms in auto)

end


lemma updateState_shape: "updateState s = s\<lparr>lb_state := lb_state (updateState s)\<rparr>"
  by (simp add: updateState_def)

lemma ok_intro:
  assumes "\<forall>sl \<in> set (lb_slots s). slot_ok sl" and "actors_apart (lb_slots s)" and "state_ok s"
    and "distinct (map fst (lb_clients s))"
  shows "lobby_ok s"
  using assms by (simp add: lobby_ok_def)

lemma claim_keeps:
  assumes "lobby_ok s" and "k < length (lb_slots s)" and "slot_ok x"
    and "ls_ActorToken x \<noteq> 0 \<Longrightarrow>
      \<forall>i < length (lb_slots s). i \<noteq> k \<longrightarrow> ls_ActorToken (lb_slots s ! i) \<noteq> ls_ActorToken x"
  shows "lobby_ok (updateState (s\<lparr>lb_slots := (lb_slots s)[k := x]\<rparr>))"
  using assms apart_update [of "lb_slots s" k x] ok_update [of "lb_slots s" x k]
  by (intro ok_intro) (auto simp: lobby_ok_def)

lemma same_actor_apart:
  assumes "actors_apart sls" and "k < length sls" and "ls_ActorToken (sls ! k) = a" and "a \<noteq> 0"
  shows "\<forall>i < length sls. i \<noteq> k \<longrightarrow> ls_ActorToken (sls ! i) \<noteq> a"
  using assms by (auto simp: actors_apart_def)

lemma cleared_actor_apart:
  assumes "actors_apart sls" and "first_idx (\<lambda>sl. a = ls_ActorToken sl) sls = Some i" and "a \<noteq> 0"
  shows "\<forall>sl \<in> set (sls[i := slot_clear (sls ! i)]). ls_ActorToken sl \<noteq> a"
proof -
  have i: "i < length sls" "ls_ActorToken (sls ! i) = a" using first_idx_Some [OF assms(2)] by auto
  then have "\<forall>j < length sls. j \<noteq> i \<longrightarrow> ls_ActorToken (sls ! j) \<noteq> a"
    using same_actor_apart assms(1,3) by blast
  then have "ls_ActorToken (sls[i := slot_clear (sls ! i)] ! j) \<noteq> a" if "j < length sls" for j
    using i assms(3) that by (cases "j = i") auto
  then show ?thesis by (metis in_set_conv_nth length_list_update)
qed

lemma clear_keeps:
  assumes "lobby_ok s" and "i < length (lb_slots s)"
  shows "lobby_ok ((upd_slot i slot_clear s)\<lparr>lb_state := StateActive\<rparr>)"
proof (rule ok_intro)
  let ?sls = "(lb_slots s)[i := slot_clear (lb_slots s ! i)]"
  have "slot_clear (lb_slots s ! i) \<in> set ?sls" using assms(2) by (simp add: set_update_memI)
  then have "\<exists>sl \<in> set ?sls. isAvailable sl" using slot_clear_simps(1) by blast
  then show "state_ok ((upd_slot i slot_clear s)\<lparr>lb_state := StateActive\<rparr>)" by (simp add: state_ok_def)
  show "\<forall>sl \<in> set (lb_slots ((upd_slot i slot_clear s)\<lparr>lb_state := StateActive\<rparr>)). slot_ok sl"
    using assms(1) ok_update [of "lb_slots s" "slot_clear (lb_slots s ! i)" i]
    by (simp add: lobby_ok_def)
  show "actors_apart (lb_slots ((upd_slot i slot_clear s)\<lparr>lb_state := StateActive\<rparr>))"
    using assms(1) by (simp add: lobby_ok_def apart_clear)
  show "distinct (map fst (lb_clients ((upd_slot i slot_clear s)\<lparr>lb_state := StateActive\<rparr>)))"
    using assms(1) by (simp add: lobby_ok_def)
qed

lemma slot_lt:
  "\<not> slotIdx \<ge> (word_of_nat (length xs) :: byte) \<Longrightarrow> unat slotIdx < length xs"
proof -
  assume "\<not> slotIdx \<ge> (word_of_nat (length xs) :: byte)"
  then have "unat slotIdx < unat (word_of_nat (length xs) :: byte)" by (simp add: word_less_nat_alt not_le)
  also have "\<dots> \<le> length xs" by (simp add: unat_of_nat)
  finally show ?thesis .
qed

lemma upd_slot_record: "upd_slot i f s = s\<lparr>lb_slots := (lb_slots s)[i := f (lb_slots s ! i)]\<rparr>"
  by (simp add: upd_slot_def)

lemma localJoin_keeps:
  assumes "lobby_ok s"
  shows "lobby_ok (snd (localJoin a si li n s))"
proof (cases "si \<ge> word_of_nat (length (lb_slots s)) \<or> li > SlotLocal3 - SlotLocal0")
  case False
  let ?k = "unat si"
  have k: "?k < length (lb_slots s)" using False slot_lt by blast
  have sl: "slot_ok (slot_local a li n d)" for d using False slot_local_kind by blast
  have ap: "actors_apart (lb_slots s)" using assms by (simp add: lobby_ok_def)
  show ?thesis
  proof (cases "isAvailable (lb_slots s ! ?k)")
    case occupied: False
    have "lobby_ok (updateState (upd_slot ?k (slot_local a li n) s))"
      if "ls_ActorToken (lb_slots s ! ?k) = a"
      unfolding upd_slot_record
      using claim_keeps [OF assms k sl] same_actor_apart [OF ap k that] by simp
    then show ?thesis using False occupied assms by (simp add: localJoin_def Let_def)
  next
    case True
    define s1 where "s1 = (case first_idx (\<lambda>sl. a = ls_ActorToken sl) (lb_slots s) of
                         None \<Rightarrow> s | Some i \<Rightarrow> upd_slot i slot_clear s)"
    have s1: "(\<forall>sl \<in> set (lb_slots s1). slot_ok sl) \<and> actors_apart (lb_slots s1) \<and>
        lb_clients s1 = lb_clients s \<and> length (lb_slots s1) = length (lb_slots s) \<and>
        (a \<noteq> 0 \<longrightarrow> (\<forall>sl \<in> set (lb_slots s1). ls_ActorToken sl \<noteq> a))"
    proof (cases "first_idx (\<lambda>sl. a = ls_ActorToken sl) (lb_slots s)")
      case None
      then have "s1 = s" by (simp add: s1_def)
      then show ?thesis using assms None by (auto simp: lobby_ok_def first_idx_None)
    next
      case (Some i)
      then have "s1 = upd_slot i slot_clear s" by (simp add: s1_def)
      then show ?thesis using assms cleared_actor_apart [OF ap Some]
          ok_update [of "lb_slots s" "slot_clear (lb_slots s ! i)" i]
        by (simp add: lobby_ok_def apart_clear)
    qed
    have "lobby_ok (updateState (upd_slot ?k (slot_local a li n) s1))"
      using s1 k assms sl apart_update [of "lb_slots s1" ?k "slot_local a li n (lb_slots s1 ! ?k)"]
        ok_update [of "lb_slots s1" "slot_local a li n (lb_slots s1 ! ?k)" ?k]
      by (intro ok_intro) (auto simp: lobby_ok_def)
    then show ?thesis using False True by (simp add: localJoin_def Let_def s1_def)
  qed
qed (use assms in \<open>simp add: localJoin_def\<close>)

lemma evictClient_facts:
  assumes "lobby_ok s"
  shows "lobby_ok (snd (evictClient t s))" "length (lb_slots (snd (evictClient t s))) = length (lb_slots s)"
    "lb_version (snd (evictClient t s)) = lb_version s" "lb_name (snd (evictClient t s)) = lb_name s"
proof -
  have "state_ok (snd (evictClient t s))"
  proof (cases "\<exists>sl \<in> set (lb_slots s). t = ls_ClientToken sl")
    case True
    then obtain sl where "sl \<in> set (lb_slots s)" "t = ls_ClientToken sl" by blast
    then have "slot_clear sl \<in> set (lb_slots (snd (evictClient t s)))"
      by (force simp: evictClient_def Let_def)
    then have "\<exists>x \<in> set (lb_slots (snd (evictClient t s))). isAvailable x"
      using slot_clear_simps(1) by blast
    moreover have "lb_state (snd (evictClient t s)) = StateActive"
      using True by (simp add: evictClient_def Let_def)
    ultimately show ?thesis by (simp add: state_ok_def)
  next
    case False
    then have "map (\<lambda>sl. if t = ls_ClientToken sl then slot_clear sl else sl) (lb_slots s) = lb_slots s"
      by (intro map_idI) auto
    then show ?thesis using assms False by (simp add: lobby_ok_def state_ok_def evictClient_def Let_def)
  qed
  then show "lobby_ok (snd (evictClient t s))"
    using assms apart_clear_all
    by (intro ok_intro) (auto simp: lobby_ok_def evictClient_def Let_def)
qed (simp_all add: evictClient_def Let_def)

lemma set_client_ok [simp]: "lobby_ok (set_client t i s) = lobby_ok s" if "distinct (map fst (lb_clients s))"
  using that by (auto simp: lobby_ok_def state_ok_def)

lemma client_ops_ok [simp]:
  assumes "lobby_ok s"
  shows "lobby_ok (touchClient now t addr l s)" "lobby_ok (incClient now t addr l s)"
    "lobby_ok (decClient now t addr l s)" "lobby_ok (decClientNoAddr t s)"
    "lobby_ok (zeroClient now t addr l s)" "lobby_ok (updateClient now t addr l s)"
proof -
  have "distinct (map fst (lb_clients s))" using assms by (simp add: lobby_ok_def)
  note c = set_client_ok [OF this]
  show "lobby_ok (touchClient now t addr l s)" "lobby_ok (incClient now t addr l s)"
    "lobby_ok (decClient now t addr l s)" "lobby_ok (decClientNoAddr t s)"
    "lobby_ok (zeroClient now t addr l s)" "lobby_ok (updateClient now t addr l s)"
    by (simp_all add: client_op_defs c Let_def assms)
qed

lemma client_ops_shown [simp]:
  "shown (touchClient now t addr l s) = shown s" "shown (incClient now t addr l s) = shown s"
  "shown (decClient now t addr l s) = shown s" "shown (decClientNoAddr t s) = shown s"
  "shown (zeroClient now t addr l s) = shown s" "shown (updateClient now t addr l s) = shown s"
  by (simp_all add: client_op_defs shown_def Let_def)

lemma shown_parts:
  assumes "shown s = shown s'"
  shows "lb_slots s = lb_slots s'" "lb_state s = lb_state s'" "lb_name s = lb_name s'"
    "lb_version s = lb_version s'"
  using assms by (auto simp: shown_def)

lemmas client_ops_parts [simp] =
  client_ops_shown(1) [THEN shown_parts(1)] client_ops_shown(2) [THEN shown_parts(1)]
  client_ops_shown(3) [THEN shown_parts(1)] client_ops_shown(4) [THEN shown_parts(1)]
  client_ops_shown(5) [THEN shown_parts(1)] client_ops_shown(6) [THEN shown_parts(1)]
  client_ops_shown(1) [THEN shown_parts(4)] client_ops_shown(2) [THEN shown_parts(4)]
  client_ops_shown(3) [THEN shown_parts(4)] client_ops_shown(4) [THEN shown_parts(4)]
  client_ops_shown(5) [THEN shown_parts(4)] client_ops_shown(6) [THEN shown_parts(4)]

lemma leave_keeps:
  assumes "lobby_ok s"
  shows "lobby_ok (snd (localLeave a s))"
  using assms clear_keeps
  by (auto simp: localLeave_def split: option.split dest!: first_idx_Some)

lemma evictActor_keeps:
  assumes "lobby_ok s"
  shows "lobby_ok (snd (evictActor a s))"
  using assms
  by (auto simp: evictActor_def Let_def split: option.split dest!: first_idx_Some intro!: clear_keeps)

lemma take_slot_keeps:
  assumes "lobby_ok s" and "k < length (lb_slots s)"
    and "a \<noteq> 0 \<Longrightarrow> \<forall>i < length (lb_slots s). i \<noteq> k \<longrightarrow> ls_ActorToken (lb_slots s ! i) \<noteq> a"
  shows "lobby_ok (updateState (upd_slot k (slot_remote a c n g) s))"
  unfolding upd_slot_record by (rule claim_keeps [OF assms(1,2)]) (use assms(3) in simp_all)

lemma evicted_tokens:
  "i < length (lb_slots s) \<Longrightarrow>
   ls_ActorToken (lb_slots (snd (evictClient t s)) ! i) \<in> {0, ls_ActorToken (lb_slots s ! i)}"
  by (simp add: evictClient_def Let_def)

lemma remoteJoin_keeps:
  assumes ok: "lobby_ok s"
  shows "lobby_ok (snd (remoteJoin now m addr s))"
proof (cases "unat (jo_Slot m) < length (lb_slots s)")
  case False
  then show ?thesis using ok by (simp add: remoteJoin_def Let_def)
next
  case k: True
  let ?k = "unat (jo_Slot m)" and ?a = "jo_ActorToken m" and ?c = "lhc_ClientToken (jo_Header m)"
  let ?l = "LobbyGetLatency (jo_Header m)"
  have ap: "actors_apart (lb_slots s)" using ok by (simp add: lobby_ok_def)
  note ev = evictClient_facts [OF ok]
  show ?thesis
  proof (cases "isAvailable (lb_slots s ! ?k)")
    case False
    show ?thesis
    proof (cases "ls_ActorToken (lb_slots s ! ?k) = ?a")
      case True
      define s1 where "s1 = (if ls_ClientToken (lb_slots s ! ?k) \<noteq> ?c
          then incClient now ?c addr ?l (snd (evictClient (ls_ClientToken (lb_slots s ! ?k)) s))
          else touchClient now ?c addr ?l s)"
      have apart: "\<forall>i < length (lb_slots s). i \<noteq> ?k \<longrightarrow> ls_ActorToken (lb_slots s ! i) \<noteq> ?a" if "?a \<noteq> 0"
        using same_actor_apart [OF ap k True that] .
      have "lobby_ok s1" using ok ev by (simp add: s1_def)
      moreover have "length (lb_slots s1) = length (lb_slots s)" using ev by (simp add: s1_def)
      moreover have "\<forall>i < length (lb_slots s1). i \<noteq> ?k \<longrightarrow> ls_ActorToken (lb_slots s1 ! i) \<noteq> ?a"
        if "?a \<noteq> 0"
      proof (intro allI impI)
        fix i assume "i < length (lb_slots s1)" "i \<noteq> ?k"
        then have i: "i < length (lb_slots s)" "ls_ActorToken (lb_slots s ! i) \<noteq> ?a"
          using apart [OF that] ev by (auto simp: s1_def split: if_splits)
        then show "ls_ActorToken (lb_slots s1 ! i) \<noteq> ?a"
          using that evicted_tokens [OF i(1), of "ls_ClientToken (lb_slots s ! ?k)"]
          by (auto simp: s1_def)
      qed
      ultimately have "lobby_ok (updateState (upd_slot ?k (slot_remote ?a ?c (jo_Name m) (jo_Config m)) s1))"
        using k by (intro take_slot_keeps) auto
      then show ?thesis using k False True by (simp add: remoteJoin_def Let_def s1_def)
    qed (use k False ok in \<open>simp add: remoteJoin_def Let_def\<close>)
  next
    case True
    define s1 where "s1 = (case first_idx (\<lambda>sl. ?a = ls_ActorToken sl) (lb_slots s) of
                       None \<Rightarrow> s
                     | Some i \<Rightarrow>
                         let owner = ls_ClientToken (lb_slots s ! i)
                         in if owner \<noteq> ?c then snd (evictClient owner s)
                            else upd_slot i slot_clear (decClient now owner addr ?l s))"
    have s1: "(\<forall>sl \<in> set (lb_slots s1). slot_ok sl) \<and> actors_apart (lb_slots s1) \<and>
        distinct (map fst (lb_clients s1)) \<and> length (lb_slots s1) = length (lb_slots s) \<and>
        (?a \<noteq> 0 \<longrightarrow> (\<forall>sl \<in> set (lb_slots s1). ls_ActorToken sl \<noteq> ?a))"
    proof (cases "first_idx (\<lambda>sl. ?a = ls_ActorToken sl) (lb_slots s)")
      case None
      then have "s1 = s" by (simp add: s1_def)
      then show ?thesis using ok None by (auto simp: lobby_ok_def first_idx_None)
    next
      case (Some i)
      note i = first_idx_Some [OF Some]
      let ?o = "ls_ClientToken (lb_slots s ! i)"
      show ?thesis
      proof (cases "?o = ?c")
        case True
        then have "s1 = upd_slot i slot_clear (decClient now ?o addr ?l s)" by (simp add: s1_def Some)
        then show ?thesis
          using ok cleared_actor_apart [OF ap Some] client_ops_ok(3) [OF ok]
            ok_update [of "lb_slots s" "slot_clear (lb_slots s ! i)" i]
          by (simp add: lobby_ok_def apart_clear)
      next
        case False
        then have s1: "s1 = snd (evictClient ?o s)" by (simp add: s1_def Some)
        have "ls_ActorToken (lb_slots s1 ! j) \<noteq> ?a" if "?a \<noteq> 0" "j < length (lb_slots s)" for j
        proof (cases "j = i")
          case True
          then show ?thesis using i that by (simp add: s1 evictClient_def Let_def)
        next
          case False
          then have "ls_ActorToken (lb_slots s ! j) \<noteq> ?a"
            using same_actor_apart [OF ap, of i ?a] i that by simp
          then show ?thesis using evicted_tokens [OF that(2), of ?o] that(1) by (auto simp: s1)
        qed
        then show ?thesis using ev [of ?o] by (auto simp: s1 lobby_ok_def in_set_conv_nth)
      qed
    qed
    let ?q = "incClient now ?c addr ?l s1"
    have "lobby_ok (updateState (upd_slot ?k (slot_remote ?a ?c (jo_Name m) (jo_Config m)) ?q))"
    proof (rule ok_intro)
      let ?x = "slot_remote ?a ?c (jo_Name m) (jo_Config m) (lb_slots s1 ! ?k)"
      show "\<forall>sl \<in> set (lb_slots (updateState (upd_slot ?k (slot_remote ?a ?c (jo_Name m) (jo_Config m)) ?q))). slot_ok sl"
        using s1 ok_update [of "lb_slots s1" ?x ?k] by simp
      show "actors_apart (lb_slots (updateState (upd_slot ?k (slot_remote ?a ?c (jo_Name m) (jo_Config m)) ?q)))"
        using s1 k apart_update [of "lb_slots s1" ?k ?x] by simp
      show "distinct (map fst (lb_clients (updateState (upd_slot ?k (slot_remote ?a ?c (jo_Name m) (jo_Config m)) ?q))))"
        using s1 by (simp add: incClient_def Let_def)
    qed simp
    then show ?thesis using k True by (simp add: remoteJoin_def Let_def s1_def)
  qed
qed

lemma remoteLeave_keeps:
  assumes ok: "lobby_ok s"
  shows "lobby_ok (snd (remoteLeave now m addr s))"
proof (cases "le_ActorToken m = 0")
  case True
  let ?c = "lhc_ClientToken (le_Header m)"
  let ?f = "\<lambda>sl. if ?c = ls_ClientToken sl then slot_clear sl else sl"
  show ?thesis
  proof (cases "\<exists>sl \<in> set (lb_slots s). ?c = ls_ClientToken sl")
    case found: True
    let ?q = "(zeroClient now ?c addr (LobbyGetLatency (le_Header m)) (s\<lparr>lb_slots := map ?f (lb_slots s)\<rparr>))
      \<lparr>lb_state := StateActive\<rparr>"
    have "lb_slots ?q = lb_slots (snd (evictClient ?c s))" "lb_state ?q = lb_state (snd (evictClient ?c s))"
      using found by (simp_all add: evictClient_def Let_def)
    moreover have "distinct (map fst (lb_clients ?q))"
      using ok by (simp add: zeroClient_def lobby_ok_def)
    ultimately have "lobby_ok ?q"
      using evictClient_facts(1) [OF ok, of ?c] by (simp add: lobby_ok_def state_ok_def)
    then show ?thesis using True found by (auto simp: remoteLeave_def Let_def)
  qed (use True ok in \<open>simp add: remoteLeave_def Let_def\<close>)
next
  case False
  then show ?thesis using ok
    by (auto simp: remoteLeave_def Let_def split: option.split dest!: first_idx_Some intro!: clear_keeps)
qed

lemma stories_upd:
  "(\<And>d. ls_StoryToken (f d) = ls_StoryToken d) \<Longrightarrow>
   map ls_StoryToken (lb_slots (upd_slot i f s)) = map ls_StoryToken (lb_slots s)"
  by (cases "i < length (lb_slots s)")
    (auto simp: map_update list_update_beyond intro!: list_update_same_conv [THEN iffD2])

lemma stories_simps [simp]:
  "map ls_StoryToken (lb_slots (upd_slot i (slot_local a l n) s)) = map ls_StoryToken (lb_slots s)"
  "map ls_StoryToken (lb_slots (upd_slot i (slot_remote a c n g) s)) = map ls_StoryToken (lb_slots s)"
  "map ls_StoryToken (lb_slots (upd_slot i slot_clear s)) = map ls_StoryToken (lb_slots s)"
  "map ls_StoryToken (lb_slots (snd (evictClient t s))) = map ls_StoryToken (lb_slots s)"
  by (simp_all add: stories_upd del: upd_slot_simps) (simp add: evictClient_def Let_def comp_def)

definition request_run :: "time \<Rightarrow> Request \<Rightarrow> UDPAddr \<Rightarrow> lobbyService \<Rightarrow> bool \<times> lobbyService" where
  "request_run now m addr s = (True, fst (remoteRequest now m addr s))"

definition rename_run :: "gostring \<Rightarrow> lobbyService \<Rightarrow> bool \<times> lobbyService" where
  "rename_run n s = (n \<noteq> lb_name s, s\<lparr>lb_name := n\<rparr>)"

definition finish_run :: "LobbyState \<Rightarrow> int \<Rightarrow> lobbyService \<Rightarrow> bool \<times> lobbyService" where
  "finish_run st v s = (let (c, s', _) = finish st v s in (c, s'))"

interpretation local_join: lobby_command "localJoin a si li n"
proof
  show "lobby_ok s \<Longrightarrow> lobby_ok (snd (localJoin a si li n s))" for s by (rule localJoin_keeps)
  show "\<not> fst (localJoin a si li n s) \<Longrightarrow> shown (snd (localJoin a si li n s)) = shown s" for s
    by (auto simp: localJoin_def Let_def split: if_splits)
  show "lb_version (snd (localJoin a si li n s)) = lb_version s" for s
    by (auto simp: localJoin_def Let_def split: option.split)
  show "map ls_StoryToken (lb_slots (snd (localJoin a si li n s))) = map ls_StoryToken (lb_slots s)" for s
    by (simp add: localJoin_def Let_def split: option.split del: upd_slot_simps)
qed

interpretation local_leave: lobby_command "localLeave a"
proof
  show "lobby_ok s \<Longrightarrow> lobby_ok (snd (localLeave a s))" for s by (rule leave_keeps)
  show "map ls_StoryToken (lb_slots (snd (localLeave a s))) = map ls_StoryToken (lb_slots s)" for s
    by (simp add: localLeave_def split: option.split del: upd_slot_simps)
qed (auto simp: localLeave_def split: option.splits)

interpretation evict_actor: lobby_command "evictActor a"
proof
  show "lobby_ok s \<Longrightarrow> lobby_ok (snd (evictActor a s))" for s by (rule evictActor_keeps)
  show "map ls_StoryToken (lb_slots (snd (evictActor a s))) = map ls_StoryToken (lb_slots s)" for s
    by (simp add: evictActor_def Let_def split: option.split del: upd_slot_simps)
qed (auto simp: evictActor_def Let_def split: option.splits)

interpretation evict_client: lobby_command "evictClient t"
proof
  show "lobby_ok s \<Longrightarrow> lobby_ok (snd (evictClient t s))" for s by (rule evictClient_facts(1))
  show "shown (snd (evictClient t s)) = shown s" if "\<not> fst (evictClient t s)" for s
  proof -
    have "map (\<lambda>sl. if t = ls_ClientToken sl then slot_clear sl else sl) (lb_slots s) = lb_slots s"
      using that by (intro map_idI) (auto simp: evictClient_def Let_def)
    then show ?thesis using that by (simp add: evictClient_def Let_def shown_def)
  qed
  show "lb_version (snd (evictClient t s)) = lb_version s" for s by (simp add: evictClient_def Let_def)
  show "map ls_StoryToken (lb_slots (snd (evictClient t s))) = map ls_StoryToken (lb_slots s)" for s
    by simp
qed

interpretation remote_join: lobby_command "remoteJoin now m addr"
proof
  show "lobby_ok s \<Longrightarrow> lobby_ok (snd (remoteJoin now m addr s))" for s by (rule remoteJoin_keeps)
  show "\<not> fst (remoteJoin now m addr s) \<Longrightarrow> shown (snd (remoteJoin now m addr s)) = shown s" for s
    by (auto simp: remoteJoin_def Let_def split: if_splits)
  have e: "lb_version (snd (evictClient t s)) = lb_version s" for t s
    by (simp add: evictClient_def Let_def)
  show "lb_version (snd (remoteJoin now m addr s)) = lb_version s" for s
    by (auto simp: remoteJoin_def Let_def e split: option.split)
  show "map ls_StoryToken (lb_slots (snd (remoteJoin now m addr s))) = map ls_StoryToken (lb_slots s)" for s
    by (simp add: remoteJoin_def Let_def split: option.split del: upd_slot_simps)
qed

interpretation remote_leave: lobby_command "remoteLeave now m addr"
proof
  show "lobby_ok s \<Longrightarrow> lobby_ok (snd (remoteLeave now m addr s))" for s by (rule remoteLeave_keeps)
  show "map ls_StoryToken (lb_slots (snd (remoteLeave now m addr s))) = map ls_StoryToken (lb_slots s)" for s
    by (simp add: remoteLeave_def Let_def comp_def split: option.split del: upd_slot_simps)
qed (auto simp: remoteLeave_def Let_def split: option.splits if_splits)

interpretation remote_request: lobby_command "request_run now m addr"
  by unfold_locales (auto simp: request_run_def remoteRequest_def Let_def)

interpretation rename: lobby_command "rename_run n"
  by unfold_locales (auto simp: rename_run_def shown_def lobby_ok_def state_ok_def)

lemma finish_state_active: "st \<noteq> StateActive \<Longrightarrow> finish_state st \<noteq> StateActive"
  by (simp add: finish_state_def StateActive_def StateReady_def StateStarting_def StateStarting1_def
      StateStarting2_def StateStarting3_def)

interpretation finishing: lobby_command "finish_run st v"
  by unfold_locales
    (auto simp: finish_run_def finish_def Let_def lobby_ok_def state_ok_def finish_state_active)

definition command_run :: "time \<Rightarrow> command \<Rightarrow> lobbyService \<Rightarrow> bool \<times> lobbyService" where
  "command_run now c s = (let (ch, s', _) = process now c s in (ch, s'))"

lemma command_run_simps:
  "command_run now (GetReq v) s = (False, s)"
  "command_run now (JoinReq a si li n) s = localJoin a si li n s"
  "command_run now (LeaveReq a) s = localLeave a s"
  "command_run now (EvictReq a) s = evictActor a s"
  "command_run now (EvictClientReq t) s = evictClient t s"
  "command_run now (RemoteJoin j addr) s = remoteJoin now j addr s"
  "command_run now (RemoteLeave l addr) s = remoteLeave now l addr s"
  "command_run now (RemoteRequest q addr) s = request_run now q addr s"
  "command_run now (ChangeName n) s = rename_run n s"
  "command_run now (FinishReq st v) s = finish_run st v s"
  by (simp_all add: command_run_def request_run_def rename_run_def finish_run_def split: prod.split)

interpretation any_command: lobby_command "command_run now c"
proof
  show "lobby_ok s \<Longrightarrow> lobby_ok (snd (command_run now c s))" for s
    by (cases c) (simp_all add: command_run_simps local_join.keeps local_leave.keeps evict_actor.keeps
        evict_client.keeps remote_join.keeps remote_leave.keeps remote_request.keeps rename.keeps
        finishing.keeps)
  show "\<not> fst (command_run now c s) \<Longrightarrow> shown (snd (command_run now c s)) = shown s" for s
    by (cases c) (simp_all add: command_run_simps local_join.silent local_leave.silent evict_actor.silent
        evict_client.silent remote_join.silent remote_leave.silent remote_request.silent rename.silent
        finishing.silent)
  show "lb_version (snd (command_run now c s)) = lb_version s" for s
    by (cases c) (simp_all add: command_run_simps local_join.version local_leave.version
        evict_actor.version evict_client.version remote_join.version remote_leave.version
        remote_request.version rename.version finishing.version)
  show "map ls_StoryToken (lb_slots (snd (command_run now c s))) = map ls_StoryToken (lb_slots s)" for s
    by (cases c) (simp_all only: command_run_simps local_join.stories local_leave.stories snd_conv
        evict_actor.stories evict_client.stories remote_join.stories remote_leave.stories
        remote_request.stories rename.stories finishing.stories)
qed

lemma turn_run:
  "fst (turn now c s) = (let (ch, s') = command_run now c s in
     if ch then s'\<lparr>lb_version := i64 (lb_version s' + 1)\<rparr> else s')"
  by (simp add: turn_def command_run_def split: prod.split)

lemma turn_ok: "lobby_ok s \<Longrightarrow> lobby_ok (fst (turn now c s))"
  unfolding turn_run Let_def
  by (cases "command_run now c s") (simp add: any_command.step_keeps)

lemma filter_keys: "distinct (map fst xs) \<Longrightarrow> distinct (map fst (filter P xs))"
  by (induction xs) auto

lemma tick_ok: "lobby_ok s \<Longrightarrow> lobby_ok (fst (broadcast_tick now s))"
  by (simp add: broadcast_tick_def Let_def lobby_ok_def state_ok_def filter_keys)

section \<open>Runs of the service\<close>

inductive lobby_step :: "lobbyService \<Rightarrow> lobbyService \<Rightarrow> bool" where
  command: "lobby_step s (fst (turn now c s))"
| tick: "lobby_step s (fst (broadcast_tick now s))"

inductive_cases lobby_stepE: "lobby_step s s'"

lemma new_lobby_ok:
  assumes "newLobbyService setup addr = Inr s0"
  shows "lobby_ok s0" and "map ls_StoryToken (lb_slots s0) = lsu_SlotStories setup"
proof -
  have v: "LobbySetup_Validate setup = None"
    and s0: "lb_slots s0 = map (\<lambda>t. (slot_clear zero_LobbySlot)\<lparr>ls_StoryToken := t\<rparr>) (lsu_SlotStories setup)"
      "lb_state s0 = StateActive" "lb_clients s0 = []"
    using assms by (auto simp: newLobbyService_def split: option.splits)
  have ne: "lsu_SlotStories setup \<noteq> []" using v by (auto simp: LobbySetup_Validate_def split: if_splits)
  have fresh: "isAvailable ((slot_clear zero_LobbySlot)\<lparr>ls_StoryToken := t\<rparr>)"
    "slot_ok ((slot_clear zero_LobbySlot)\<lparr>ls_StoryToken := t\<rparr>)"
    "ls_ActorToken ((slot_clear zero_LobbySlot)\<lparr>ls_StoryToken := t\<rparr>) = 0" for t
    by (simp_all add: slot_clear_def isAvailable_def slot_ok_def)
  then have "\<exists>sl \<in> set (lb_slots s0). isAvailable sl" using ne by (cases "lsu_SlotStories setup") (auto simp: s0)
  then show "lobby_ok s0" using fresh by (auto simp: lobby_ok_def state_ok_def actors_apart_def s0)
  show "map ls_StoryToken (lb_slots s0) = lsu_SlotStories setup" by (simp add: s0 comp_def)
qed

section \<open>Counting the actors of a client\<close>

definition held_by :: "token \<Rightarrow> LobbySlot \<Rightarrow> bool" where
  "held_by t sl \<longleftrightarrow> isRemote sl \<and> ls_ClientToken sl = t"

definition held :: "token \<Rightarrow> LobbySlot list \<Rightarrow> int" where
  "held t sls = int (length (filter (held_by t) sls))"

definition counts_ok :: "lobbyService \<Rightarrow> bool" where
  "counts_ok s \<longleftrightarrow> (\<forall>t. ci_Count (client_of t s) = held t (lb_slots s)) \<and>
     (\<forall>sl \<in> set (lb_slots s). isRemote sl \<longrightarrow> ls_ClientToken sl \<noteq> 0 \<and> ls_ActorToken sl \<noteq> 0)"

text \<open>
  Commands of clients that use nonzero tokens of their own: no remote actor has the token of a local
  one and no local command names the token of a remote actor.
\<close>

fun orderly :: "command \<Rightarrow> lobbyService \<Rightarrow> bool" where
  "orderly (JoinReq a _ _ _) s = (\<forall>sl \<in> set (lb_slots s). isRemote sl \<longrightarrow> ls_ActorToken sl \<noteq> a)"
| "orderly (LeaveReq a) s = (\<forall>sl \<in> set (lb_slots s). isRemote sl \<longrightarrow> ls_ActorToken sl \<noteq> a)"
| "orderly (RemoteJoin m _) s = (jo_ActorToken m \<noteq> 0 \<and> lhc_ClientToken (jo_Header m) \<noteq> 0 \<and>
     (\<forall>sl \<in> set (lb_slots s). isLocal sl \<longrightarrow> ls_ActorToken sl \<noteq> jo_ActorToken m))"
| "orderly (RemoteLeave m _) s = (lhc_ClientToken (le_Header m) \<noteq> 0)"
| "orderly _ _ = True"

lemma client_of_set [simp]: "client_of t (set_client u i s) = (if t = u then i else client_of t s)"
  by (simp add: client_of_def update_conv')

lemma client_of_other [simp]:
  "client_of t (upd_slot k f s) = client_of t s" "client_of t (s\<lparr>lb_state := st\<rparr>) = client_of t s"
  "client_of t (s\<lparr>lb_slots := sls\<rparr>) = client_of t s" "client_of t (updateState s) = client_of t s"
  "client_of t (s\<lparr>lb_version := v\<rparr>) = client_of t s" "client_of t (s\<lparr>lb_name := n\<rparr>) = client_of t s"
  by (simp_all add: client_of_def)

lemma counts_of_ops [simp]:
  "ci_Count (client_of t (touchClient now u addr l s)) = ci_Count (client_of t s)"
  "ci_Count (client_of t (updateClient now u addr l s)) = ci_Count (client_of t s)"
  "ci_Count (client_of t (incClient now u addr l s)) = ci_Count (client_of t s) + (if t = u then 1 else 0)"
  "ci_Count (client_of t (decClient now u addr l s)) = ci_Count (client_of t s) - (if t = u then 1 else 0)"
  "ci_Count (client_of t (decClientNoAddr u s)) = ci_Count (client_of t s) - (if t = u then 1 else 0)"
  "ci_Count (client_of t (zeroClient now u addr l s)) = (if t = u then 0 else ci_Count (client_of t s))"
  "client_of t (snd (evictClient u s)) = (if t = u then zero_clientInfo else client_of t s)"
  by (simp_all add: client_op_defs touch_info_def Let_def)
    (simp add: evictClient_def client_of_def Let_def delete_conv')

lemma held_update:
  assumes "k < length sls"
  shows "held t (sls[k := x]) =
    held t sls - (if held_by t (sls ! k) then 1 else 0) + (if held_by t x then 1 else 0)"
proof -
  have u: "sls[k := x] = take k sls @ x # drop (Suc k) sls" using assms by (rule upd_conv_take_nth_drop)
  have s: "sls = take k sls @ sls ! k # drop (Suc k) sls" using assms by (rule id_take_nth_drop)
  have "held t sls = held t (take k sls @ sls ! k # drop (Suc k) sls)" using s by simp
  then show ?thesis unfolding u by (simp add: held_def)
qed

lemma held_evict:
  "held t (lb_slots (snd (evictClient u s))) = (if t = u then 0 else held t (lb_slots s))"
proof -
  let ?f = "\<lambda>sl. if u = ls_ClientToken sl then slot_clear sl else sl"
  have "held u (map ?f sls) = 0" for sls
    by (auto simp: held_def filter_empty_conv held_by_def)
  moreover have "held t (map ?f sls) = held t sls" if "t \<noteq> u" for sls
    using that by (induction sls) (auto simp: held_def held_by_def)
  ultimately have "held t (map ?f sls) = (if t = u then 0 else held t sls)" for sls by simp
  then show ?thesis by (simp add: evictClient_def Let_def)
qed

lemma held_simps [simp]: "\<not> held_by t (slot_clear sl)"
  "held_by t (slot_remote a c n g sl) \<longleftrightarrow> t = c"
  by (auto simp: held_by_def)

lemma not_held: "\<not> isRemote sl \<Longrightarrow> \<not> held_by t sl"
  by (simp add: held_by_def)

lemma owned_update:
  "\<forall>sl \<in> set sls. isRemote sl \<longrightarrow> ls_ClientToken sl \<noteq> 0 \<and> ls_ActorToken sl \<noteq> 0 \<Longrightarrow>
   isRemote x \<longrightarrow> ls_ClientToken x \<noteq> 0 \<and> ls_ActorToken x \<noteq> 0 \<Longrightarrow>
   \<forall>sl \<in> set (sls[k := x]). isRemote sl \<longrightarrow> ls_ClientToken sl \<noteq> 0 \<and> ls_ActorToken sl \<noteq> 0"
  by (auto dest: subsetD [OF set_update_subset_insert])

lemma counts_neutral:
  assumes "counts_ok s" and "k < length (lb_slots s)" and "\<not> isRemote (lb_slots s ! k)"
    and "\<not> isRemote (f (lb_slots s ! k))"
  shows "counts_ok (upd_slot k f s)"
  using assms owned_update [of "lb_slots s" "f (lb_slots s ! k)" k]
  by (simp add: counts_ok_def held_update not_held)

lemma counts_state [simp]:
  "counts_ok (s\<lparr>lb_state := st\<rparr>) = counts_ok s" "counts_ok (updateState s) = counts_ok s"
  "counts_ok (s\<lparr>lb_version := v\<rparr>) = counts_ok s" "counts_ok (s\<lparr>lb_name := n\<rparr>) = counts_ok s"
  by (simp_all add: counts_ok_def)

lemma slot_kind_of:
  assumes "lobby_ok s" and "k < length (lb_slots s)"
  shows "slot_ok (lb_slots s ! k)"
  using assms by (simp add: lobby_ok_def)

lemma counts_localJoin:
  assumes ok: "lobby_ok s" and c: "counts_ok s"
    and o: "\<forall>sl \<in> set (lb_slots s). isRemote sl \<longrightarrow> ls_ActorToken sl \<noteq> a"
  shows "counts_ok (snd (localJoin a si li n s))"
proof (cases "si \<ge> word_of_nat (length (lb_slots s)) \<or> li > SlotLocal3 - SlotLocal0")
  case False
  let ?k = "unat si"
  have k: "?k < length (lb_slots s)" using False slot_lt by blast
  have nr: "\<not> isRemote (slot_local a li n d)" for d using False slot_local_kind by blast
  show ?thesis
  proof (cases "isAvailable (lb_slots s ! ?k)")
    case occupied: False
    have "counts_ok (upd_slot ?k (slot_local a li n) s)" if "ls_ActorToken (lb_slots s ! ?k) = a"
    proof (rule counts_neutral [OF c k _ nr])
      show "\<not> isRemote (lb_slots s ! ?k)" using o that k nth_mem by blast
    qed
    then show ?thesis using False occupied c by (simp add: localJoin_def Let_def)
  next
    case True
    define s1 where "s1 = (case first_idx (\<lambda>sl. a = ls_ActorToken sl) (lb_slots s) of
                         None \<Rightarrow> s | Some i \<Rightarrow> upd_slot i slot_clear s)"
    have s1: "counts_ok s1 \<and> length (lb_slots s1) = length (lb_slots s) \<and> \<not> isRemote (lb_slots s1 ! ?k)"
    proof (cases "first_idx (\<lambda>sl. a = ls_ActorToken sl) (lb_slots s)")
      case None
      then have "s1 = s" by (simp add: s1_def)
      then show ?thesis using c kinds_exclusive(1) [OF True] by simp
    next
      case (Some i)
      note i = first_idx_Some [OF Some]
      have s1: "s1 = upd_slot i slot_clear s" using Some by (simp add: s1_def)
      have "\<not> isRemote (lb_slots s ! i)" using o i nth_mem by blast
      then have "counts_ok s1" unfolding s1 using i c by (intro counts_neutral) auto
      then show ?thesis using kinds_exclusive(1) [OF True] i by (cases "i = ?k") (auto simp: s1)
    qed
    have "counts_ok (upd_slot ?k (slot_local a li n) s1)"
      using s1 k nr by (intro counts_neutral) auto
    then show ?thesis using False True by (simp add: localJoin_def Let_def s1_def)
  qed
qed (use c in \<open>simp add: localJoin_def\<close>)

lemma counts_localLeave:
  assumes "counts_ok s" and "\<forall>sl \<in> set (lb_slots s). isRemote sl \<longrightarrow> ls_ActorToken sl \<noteq> a"
  shows "counts_ok (snd (localLeave a s))"
proof (cases "first_idx (\<lambda>sl. a = ls_ActorToken sl) (lb_slots s)")
  case (Some i)
  then have i: "i < length (lb_slots s)" "\<not> isRemote (lb_slots s ! i)"
    using first_idx_Some [OF Some] assms(2) nth_mem by blast+
  then have "counts_ok (upd_slot i slot_clear s)" using assms(1) by (intro counts_neutral) auto
  then show ?thesis by (simp add: localLeave_def Some)
qed (use assms in \<open>simp add: localLeave_def\<close>)

lemma counts_evictClient:
  assumes "counts_ok s"
  shows "counts_ok (snd (evictClient t s))"
proof -
  have "\<forall>sl \<in> set (lb_slots (snd (evictClient t s))). isRemote sl \<longrightarrow> ls_ClientToken sl \<noteq> 0 \<and> ls_ActorToken sl \<noteq> 0"
    using assms by (auto simp: counts_ok_def evictClient_def Let_def)
  then show ?thesis using assms by (simp add: counts_ok_def held_evict zero_clientInfo_def)
qed

lemma counts_clear_remote:
  assumes "counts_ok s" and "i < length (lb_slots s)" and "isRemote (lb_slots s ! i)"
    and "\<And>t. ci_Count (client_of t q) =
      ci_Count (client_of t s) - (if t = ls_ClientToken (lb_slots s ! i) then 1 else 0)"
    and "lb_slots q = lb_slots s"
  shows "counts_ok (upd_slot i slot_clear q)"
  using assms owned_update [of "lb_slots s" "slot_clear (lb_slots s ! i)" i]
  by (auto simp: counts_ok_def held_update held_by_def)

lemma counts_evictActor:
  assumes "counts_ok s"
  shows "counts_ok (snd (evictActor a s))"
proof (cases "first_idx (\<lambda>sl. a = ls_ActorToken sl) (lb_slots s)")
  case (Some i)
  then have i: "i < length (lb_slots s)" using first_idx_Some [OF Some] by blast
  show ?thesis
  proof (cases "isRemote (lb_slots s ! i)")
    case True
    have "counts_ok (upd_slot i slot_clear (decClientNoAddr (ls_ClientToken (lb_slots s ! i)) s))"
      by (rule counts_clear_remote [OF assms i True]) simp_all
    then show ?thesis using True by (simp add: evictActor_def Some Let_def)
  next
    case False
    have "counts_ok (upd_slot i slot_clear s)" using assms i False by (intro counts_neutral) auto
    then show ?thesis using False by (simp add: evictActor_def Some Let_def)
  qed
qed (use assms in \<open>simp add: evictActor_def\<close>)

lemma counts_take:
  assumes "counts_ok s" and "k < length (lb_slots s)" and "\<not> isRemote (lb_slots s ! k)"
    and "a \<noteq> 0" and "c \<noteq> 0"
  shows "counts_ok (upd_slot k (slot_remote a c n g) (incClient now c addr l s))"
  using assms owned_update [of "lb_slots s" "slot_remote a c n g (lb_slots s ! k)" k]
  by (auto simp: counts_ok_def held_update not_held)

lemma counts_remoteJoin:
  assumes ok: "lobby_ok s" and c: "counts_ok s" and o: "orderly (RemoteJoin m addr) s"
  shows "counts_ok (snd (remoteJoin now m addr s))"
proof (cases "unat (jo_Slot m) < length (lb_slots s)")
  case False
  then show ?thesis using c by (simp add: remoteJoin_def Let_def)
next
  case k: True
  let ?k = "unat (jo_Slot m)" and ?a = "jo_ActorToken m" and ?c = "lhc_ClientToken (jo_Header m)"
  let ?l = "LobbyGetLatency (jo_Header m)" and ?n = "jo_Name m" and ?g = "jo_Config m"
  have nz: "?a \<noteq> 0" "?c \<noteq> 0" using o by auto
  have remote_of: "isRemote (lb_slots s ! i)" if "i < length (lb_slots s)" "ls_ActorToken (lb_slots s ! i) = ?a" for i
    using slot_kind_of [OF ok that(1)] that o nz nth_mem [OF that(1)] by (auto simp: slot_ok_def)
  show ?thesis
  proof (cases "isAvailable (lb_slots s ! ?k)")
    case False
    show ?thesis
    proof (cases "ls_ActorToken (lb_slots s ! ?k) = ?a")
      case True
      let ?o = "ls_ClientToken (lb_slots s ! ?k)"
      have r: "isRemote (lb_slots s ! ?k)" using remote_of k True by blast
      have "counts_ok (upd_slot ?k (slot_remote ?a ?c ?n ?g) (incClient now ?c addr ?l (snd (evictClient ?o s))))"
        if "?o \<noteq> ?c"
        by (rule counts_take [OF counts_evictClient [OF c]])
          (use k nz in \<open>simp_all add: evictClient_def Let_def\<close>)
      moreover have "counts_ok (upd_slot ?k (slot_remote ?a ?c ?n ?g) (touchClient now ?c addr ?l s))"
        if "?o = ?c"
        using c k nz that r owned_update [of "lb_slots s" "slot_remote ?a ?c ?n ?g (lb_slots s ! ?k)" ?k]
        by (auto simp: counts_ok_def held_update held_by_def)
      ultimately show ?thesis using k False True by (simp add: remoteJoin_def Let_def)
    qed (use k False c in \<open>simp add: remoteJoin_def Let_def\<close>)
  next
    case True
    define s1 where "s1 = (case first_idx (\<lambda>sl. ?a = ls_ActorToken sl) (lb_slots s) of
                       None \<Rightarrow> s
                     | Some i \<Rightarrow>
                         let owner = ls_ClientToken (lb_slots s ! i)
                         in if owner \<noteq> ?c then snd (evictClient owner s)
                            else upd_slot i slot_clear (decClient now owner addr ?l s))"
    have s1: "counts_ok s1 \<and> length (lb_slots s1) = length (lb_slots s) \<and> \<not> isRemote (lb_slots s1 ! ?k)"
    proof (cases "first_idx (\<lambda>sl. ?a = ls_ActorToken sl) (lb_slots s)")
      case None
      then have "s1 = s" by (simp add: s1_def)
      then show ?thesis using c kinds_exclusive(1) [OF True] by simp
    next
      case (Some i)
      note i = first_idx_Some [OF Some]
      let ?o = "ls_ClientToken (lb_slots s ! i)"
      have r: "isRemote (lb_slots s ! i)" using remote_of i by auto
      then have ik: "i \<noteq> ?k" using kinds_exclusive(1) [OF True] by auto
      show ?thesis
      proof (cases "?o = ?c")
        case o: True
        have "counts_ok (upd_slot i slot_clear (decClient now ?o addr ?l s))"
          by (rule counts_clear_remote [OF c _ r]) (use i in simp_all)
        then show ?thesis using o ik kinds_exclusive(1) [OF True] by (simp add: s1_def Some)
      next
        case False
        then have "s1 = snd (evictClient ?o s)" by (simp add: s1_def Some)
        then show ?thesis using counts_evictClient [OF c] kinds_exclusive(1) [OF True] k
          by (simp add: evictClient_def Let_def)
      qed
    qed
    have "counts_ok (upd_slot ?k (slot_remote ?a ?c ?n ?g) (incClient now ?c addr ?l s1))"
      using s1 k nz by (intro counts_take) auto
    then show ?thesis using k True by (simp add: remoteJoin_def Let_def s1_def)
  qed
qed

lemma counts_remoteLeave:
  assumes ok: "lobby_ok s" and c: "counts_ok s" and nz: "lhc_ClientToken (le_Header m) \<noteq> 0"
  shows "counts_ok (snd (remoteLeave now m addr s))"
proof (cases "le_ActorToken m = 0")
  case True
  let ?c = "lhc_ClientToken (le_Header m)"
  let ?q = "zeroClient now ?c addr (LobbyGetLatency (le_Header m))
    (s\<lparr>lb_slots := map (\<lambda>sl. if ?c = ls_ClientToken sl then slot_clear sl else sl) (lb_slots s)\<rparr>)"
  have sl: "lb_slots ?q = lb_slots (snd (evictClient ?c s))" by (simp add: evictClient_def Let_def)
  have "counts_ok ?q"
    using counts_evictClient [OF c, of ?c] c unfolding counts_ok_def sl
    by (auto simp: held_evict zero_clientInfo_def split: if_splits)
  then show ?thesis using True c by (simp add: remoteLeave_def Let_def)
next
  case False
  let ?P = "\<lambda>sl. le_ActorToken m = ls_ActorToken sl \<and> lhc_ClientToken (le_Header m) = ls_ClientToken sl"
  show ?thesis
  proof (cases "first_idx ?P (lb_slots s)")
    case None
    then show ?thesis using False c by (simp add: remoteLeave_def Let_def)
  next
    case (Some i)
    note i = first_idx_Some [OF Some]
    have r: "isRemote (lb_slots s ! i)" using slot_kind_of [OF ok, of i] i nz by (auto simp: slot_ok_def)
    have "counts_ok (upd_slot i slot_clear (decClient now (ls_ClientToken (lb_slots s ! i)) addr
        (LobbyGetLatency (le_Header m)) s))"
      by (rule counts_clear_remote [OF c _ r]) (use i in simp_all)
    then show ?thesis using False Some by (simp add: remoteLeave_def Let_def)
  qed
qed

lemma counts_command:
  assumes "lobby_ok s" and "counts_ok s" and "orderly c s"
  shows "counts_ok (snd (command_run now c s))"
  using assms
proof (cases c)
  case (RemoteRequest q addr)
  then show ?thesis using assms
    by (simp add: command_run_simps request_run_def remoteRequest_def Let_def counts_ok_def)
next
  case (FinishReq st v)
  then show ?thesis using assms
    by (simp add: command_run_simps finish_run_def finish_def Let_def)
qed (simp_all add: command_run_simps counts_localJoin counts_localLeave counts_evictActor
    counts_evictClient counts_remoteJoin counts_remoteLeave rename_run_def)

lemma counts_turn:
  assumes "lobby_ok s" and "counts_ok s" and "orderly c s"
  shows "counts_ok (fst (turn now c s))"
  using counts_command [OF assms, of now]
  by (cases "command_run now c s") (simp add: turn_run)

lemma map_of_filter_keys:
  assumes "distinct (map fst cs)"
  shows "map_of (filter P cs) t =
    (case map_of cs t of None \<Rightarrow> None | Some i \<Rightarrow> if P (t, i) then Some i else None)"
  using assms
proof (induction cs)
  case (Cons c cs)
  obtain k i where c: "c = (k, i)" by (cases c)
  have "map_of (filter P cs) k = None" "map_of cs k = None"
    using Cons.prems by (force simp: c map_of_eq_None_iff)+
  then show ?case using Cons by (auto simp: c)
qed simp

lemma counts_tick:
  assumes ok: "lobby_ok s" and c: "counts_ok s"
  shows "counts_ok (fst (broadcast_tick now s))"
proof -
  let ?keep = "filter (\<lambda>c. \<not> (case c of (t, i) \<Rightarrow> ci_Count i \<le> 0 \<and>
      time_Sub now (cd_LastMsgReceived (ci_Data i)) > ns_Minute)) (lb_clients s)"
  have d: "distinct (map fst (lb_clients s))" using ok by (simp add: lobby_ok_def)
  note m = map_of_filter_keys
  have n: "0 \<le> held t (lb_slots s)" for t by (simp add: held_def)
  have "ci_Count (client_of t (s\<lparr>lb_clients := ?keep\<rparr>)) = ci_Count (client_of t s)" for t
  proof (cases "map_of (lb_clients s) t")
    case (Some i)
    then have "ci_Count i = held t (lb_slots s)" using c
      by (simp add: counts_ok_def client_of_def split: option.splits)
    then show ?thesis using n [of t] by (auto simp: client_of_def m [OF d] Some zero_clientInfo_def)
  qed (simp add: client_of_def m [OF d])
  then show ?thesis using c by (simp add: broadcast_tick_def Let_def counts_ok_def)
qed

inductive orderly_step :: "lobbyService \<Rightarrow> lobbyService \<Rightarrow> bool" where
  command: "orderly c s \<Longrightarrow> orderly_step s (fst (turn now c s))"
| tick: "orderly_step s (fst (broadcast_tick now s))"

inductive_cases orderly_stepE: "orderly_step s s'"

lemma lobby_step_ok: "lobby_step s s' \<Longrightarrow> lobby_ok s \<Longrightarrow>
    lobby_ok s' \<and> map ls_StoryToken (lb_slots s') = map ls_StoryToken (lb_slots s)"
proof (erule lobby_stepE)
  fix now c assume s: "lobby_ok s" "s' = fst (turn now c s)"
  have "map ls_StoryToken (lb_slots (fst (turn now c s))) = map ls_StoryToken (lb_slots s)"
    using any_command.stories [of now c s] by (cases "command_run now c s") (simp add: turn_run)
  then show ?thesis using s turn_ok by simp
next
  fix now assume "lobby_ok s" "s' = fst (broadcast_tick now s)"
  then show ?thesis using tick_ok by (simp add: broadcast_tick_def Let_def)
qed

lemma lobby_run_ok:
  assumes "lobby_step\<^sup>*\<^sup>* s s'" and "lobby_ok s"
  shows "lobby_ok s' \<and> map ls_StoryToken (lb_slots s') = map ls_StoryToken (lb_slots s)"
  using assms by (induction rule: rtranclp_induct) (auto dest: lobby_step_ok)

lemma orderly_run_ok:
  assumes "orderly_step\<^sup>*\<^sup>* s s'" and "lobby_ok s" and "counts_ok s"
  shows "lobby_ok s' \<and> counts_ok s'"
  using assms
proof (induction rule: rtranclp_induct)
  case (step s1 s2)
  then have "lobby_ok s1" "counts_ok s1" by auto
  with step.hyps(2) show ?case
    by (auto elim!: orderly_stepE simp: turn_ok counts_turn tick_ok counts_tick)
qed simp

definition sample_setup :: LobbySetup where
  "sample_setup = \<lparr>lsu_Token = 1, lsu_Name = [76], lsu_Def = [], lsu_SlotStories = [5, 5]\<rparr>"

definition sample_lobby :: lobbyService where
  "sample_lobby = \<lparr>lb_Token = 1, lb_name = [76], lb_def = [], lb_broadcastAddr = zero_UDPAddr,
     lb_slots = [zero_LobbySlot\<lparr>ls_StoryToken := 5\<rparr>, zero_LobbySlot\<lparr>ls_StoryToken := 5\<rparr>],
     lb_state = StateActive, lb_clients = [], lb_version = 0\<rparr>"

lemma sample_lobby_new: "newLobbyService sample_setup zero_UDPAddr = Inr sample_lobby"
  by (simp add: newLobbyService_def LobbySetup_Validate_def sample_setup_def sample_lobby_def
      slot_clear_def zero_LobbySlot_def SlotAvailable_def)

definition sample_join :: command where
  "sample_join = RemoteJoin \<lparr>jo_Header = \<lparr>lhc_LobbyToken = 1, lhc_ClientToken = 9, lhc_Latency = 0\<rparr>,
     jo_ActorToken = 7, jo_Slot = 1, jo_Name = [65], jo_Config = []\<rparr> zero_UDPAddr"



text \<open>
  While every client uses nonzero tokens of its own and no local command names a remote
  actor, the count kept for each client is the number of slots its actors hold, and every client
  with an actor in the lobby is known, so it keeps receiving setup messages.
\<close>

theorem lobby_counts_exact:
  assumes "newLobbyService setup addr = Inr s0" and "orderly_step\<^sup>*\<^sup>* s0 s"
  shows "(\<forall>t. ci_Count (client_of t s) =
      int (length (filter (\<lambda>sl. isRemote sl \<and> ls_ClientToken sl = t) (lb_slots s)))) \<and>
    (\<forall>sl \<in> set (lb_slots s). isRemote sl \<longrightarrow> map_of (lb_clients s) (ls_ClientToken sl) \<noteq> None)"
proof -
  have "counts_ok s0"
    using assms(1) by (auto simp: newLobbyService_def counts_ok_def client_of_def held_def zero_clientInfo_def
        filter_empty_conv held_by_def isRemote_def slot_clear_def SlotAvailable_def SlotRemote_def
        split: option.splits)
  then have s: "counts_ok s"
    using orderly_run_ok [OF assms(2) new_lobby_ok(1) [OF assms(1)]] by blast
  have "map_of (lb_clients s) (ls_ClientToken sl) \<noteq> None" if "sl \<in> set (lb_slots s)" "isRemote sl" for sl
  proof
    assume "map_of (lb_clients s) (ls_ClientToken sl) = None"
    then have "client_of (ls_ClientToken sl) s = zero_clientInfo" by (simp add: client_of_def)
    moreover have "ci_Count (client_of (ls_ClientToken sl) s) = held (ls_ClientToken sl) (lb_slots s)"
      using s by (simp add: counts_ok_def)
    ultimately have "held (ls_ClientToken sl) (lb_slots s) = 0" by (simp add: zero_clientInfo_def)
    then show False using that by (auto simp: held_def held_by_def filter_empty_conv)
  qed
  then show ?thesis using s by (simp add: counts_ok_def held_def held_by_def [abs_def])
qed

theorem lobby_counts_exact_witness:
  "ci_Count (client_of 9 (fst (turn 3 sample_join sample_lobby))) =
     int (length (filter (\<lambda>sl. isRemote sl \<and> ls_ClientToken sl = 9)
       (lb_slots (fst (turn 3 sample_join sample_lobby)))))"
proof -
  have "orderly sample_join sample_lobby"
    by (simp add: sample_join_def sample_lobby_def isLocal_def zero_LobbySlot_def SlotLocal0_def)
  then have "orderly_step\<^sup>*\<^sup>* sample_lobby (fst (turn 3 sample_join sample_lobby))"
    by (intro r_into_rtranclp orderly_step.command)
  from lobby_counts_exact [OF sample_lobby_new this] show ?thesis by blast
qed

text \<open>
  C32. Actor tokens, which are what a player proves ownership with, stay secret: a broadcast shows
  none, and every other setup message goes to a known client's address, or answers a request to
  the requester, and shows the tokens of that client's own actors only.
\<close>

theorem setup_messages_hide_tokens:
  "(\<forall>(msg, dst) \<in> set (snd (broadcast_tick now s)).
      (\<forall>m \<in> set (se_Slots msg). sl_ActorToken m = 0) \<or>
      (\<exists>t i. (t, i) \<in> set (lb_clients s) \<and> dst = cd_Address (ci_Data i) \<and>
         map sl_ActorToken (se_Slots msg) = map (own_token t) (lb_slots s))) \<and>
   (\<forall>(msg, dst) \<in> set (snd (remoteRequest now req addr s)). dst = addr \<and>
      map sl_ActorToken (se_Slots msg) = map (own_token (lhc_ClientToken (re_Header req))) (lb_slots s)) \<and>
   (\<forall>t sl. own_token t sl \<noteq> 0 \<longrightarrow> isRemote sl \<and> ls_ClientToken sl = t)"
proof -
  have w: "map sl_ActorToken (se_Slots (with_tokens f q (getSetupMessage q))) = map f (lb_slots q)" for f q
    by (intro nth_equalityI) (auto simp: with_tokens_def getSetupMessage_def)
  have z: "\<forall>m \<in> set (se_Slots (with_tokens (\<lambda>_. 0) s (getSetupMessage s))). sl_ActorToken m = 0"
  proof
    fix m assume "m \<in> set (se_Slots (with_tokens (\<lambda>_. 0) s (getSetupMessage s)))"
    then have "sl_ActorToken m \<in> set (map sl_ActorToken (se_Slots (with_tokens (\<lambda>_. 0) s (getSetupMessage s))))"
      by simp
    then show "sl_ActorToken m = 0" unfolding w by auto
  qed
  let ?ok = "\<lambda>(msg, dst). (\<forall>m \<in> set (se_Slots msg). sl_ActorToken m = 0) \<or>
      (\<exists>t i. (t, i) \<in> set (lb_clients s) \<and> dst = cd_Address (ci_Data i) \<and>
         map sl_ActorToken (se_Slots msg) = map (own_token t) (lb_slots s))"
  let ?send = "\<lambda>(t, i). (with_tokens (if ci_Count i \<le> 0 then (\<lambda>_. 0) else own_token t) s (getSetupMessage s),
             cd_Address (ci_Data i))"
  have b: "?ok (getSetupMessage s, dst)" for dst by (simp add: getSetupMessage_def)
  have c: "?ok (?send c)" if "c \<in> set (lb_clients s)" for c
  proof (cases c)
    case (Pair t i)
    show ?thesis
    proof (cases "ci_Count i \<le> 0")
      case True
      then show ?thesis using z by (simp add: Pair)
    next
      case False
      then show ?thesis using that w [of "own_token t" s] by (auto simp: Pair)
    qed
  qed
  have "\<forall>p \<in> set (snd (broadcast_tick now s)). ?ok p"
    using b c by (simp add: broadcast_tick_def Let_def ball_Un)
  moreover have "\<forall>(msg, dst) \<in> set (snd (remoteRequest now req addr s)). dst = addr \<and>
      map sl_ActorToken (se_Slots msg) = map (own_token (lhc_ClientToken (re_Header req))) (lb_slots s)"
    by (simp add: remoteRequest_def Let_def w)
  moreover have "\<forall>t sl. own_token t sl \<noteq> 0 \<longrightarrow> isRemote sl \<and> ls_ClientToken sl = t"
    by (simp add: own_token_def)
  ultimately show ?thesis by blast
qed

theorem setup_messages_hide_tokens_witness:
  "map sl_ActorToken (se_Slots (fst (hd (snd (remoteRequest 5
     \<lparr>re_Header = \<lparr>lhc_LobbyToken = 1, lhc_ClientToken = 8, lhc_Latency = 0\<rparr>\<rparr>
       zero_UDPAddr (fst (turn 4 sample_join sample_lobby))))))) = [0, 0]"
proof -
  let ?q = "\<lparr>re_Header = \<lparr>lhc_LobbyToken = 1, lhc_ClientToken = 8, lhc_Latency = 0\<rparr>\<rparr> :: Request"
  let ?s = "fst (turn 4 sample_join sample_lobby)"
  have t: "map (own_token 8) (lb_slots ?s) = [0, 0]" by code_simp
  obtain m where m: "snd (remoteRequest 5 ?q zero_UDPAddr ?s) = [(m, zero_UDPAddr)]"
    by (simp add: remoteRequest_def Let_def)
  show ?thesis using setup_messages_hide_tokens [of 5 ?s ?q zero_UDPAddr] t by (simp add: m)
qed

text \<open>
  A reader that polls with the last version it has seen misses nothing: if a command leaves
  the version as it was, the lobby's slots, state and name are as they were.
\<close>

theorem same_version_same_lobby:
  assumes "lb_version (fst (turn now c s)) = lb_version s"
    and "0 \<le> lb_version s" and "lb_version s < int_lim"
  shows "lb_slots (fst (turn now c s)) = lb_slots s \<and> lb_state (fst (turn now c s)) = lb_state s \<and>
    lb_name (fst (turn now c s)) = lb_name s"
proof -
  obtain ch s' where r: "command_run now c s = (ch, s')" by fastforce
  have "shown s' = shown s \<and> \<not> ch"
    by (rule any_command.step_version [OF r]) (use assms in \<open>simp_all add: turn_run r\<close>)
  then show ?thesis by (simp add: turn_run r shown_def)
qed

theorem same_version_same_lobby_witness:
  "lb_slots (fst (turn 3 (LeaveReq 4) sample_lobby)) = lb_slots sample_lobby"
proof -
  have "lb_version (fst (turn 3 (LeaveReq 4) sample_lobby)) = lb_version sample_lobby"
    by (simp add: turn_def localLeave_def sample_lobby_def zero_LobbySlot_def)
  from same_version_same_lobby [OF this] show ?thesis by (simp add: sample_lobby_def)
qed

text \<open>
  A remote client that leaves with both tokens 0 throws out every local player: after the
  command no slot is local, whatever the lobby was.
\<close>

theorem zero_leave_evicts_locals:
  assumes "lobby_ok s" and "le_ActorToken m = 0" and "lhc_ClientToken (le_Header m) = 0"
  shows "\<forall>sl \<in> set (lb_slots (fst (turn now (RemoteLeave m addr) s))). \<not> isLocal sl"
proof -
  have "\<not> isLocal sl" if "sl \<in> set (lb_slots s)" "ls_ClientToken sl \<noteq> 0" for sl
    using assms(1) that kinds_exclusive(3) by (auto simp: lobby_ok_def slot_ok_def)
  moreover have "\<not> isLocal sl" if "\<not> (\<exists>x \<in> set (lb_slots s). 0 = ls_ClientToken x)" "sl \<in> set (lb_slots s)" for sl
    using calculation that by metis
  ultimately show ?thesis
    using assms(2,3) by (auto simp: turn_run command_run_simps remoteLeave_def Let_def)
qed

theorem zero_leave_evicts_locals_witness:
  "isLocal (lb_slots (fst (turn 3 (JoinReq 7 0 0 [65]) sample_lobby)) ! 0) \<and>
   filter isLocal (lb_slots (fst (turn 4 (RemoteLeave \<lparr>le_Header = zero_LobbyHeaderClient, le_ActorToken = 0\<rparr>
       zero_UDPAddr) (fst (turn 3 (JoinReq 7 0 0 [65]) sample_lobby))))) = []"
proof -
  let ?m = "\<lparr>le_Header = zero_LobbyHeaderClient, le_ActorToken = 0\<rparr> :: Leave"
  have "isLocal (lb_slots (fst (turn 3 (JoinReq 7 0 0 [65]) sample_lobby)) ! 0)" by code_simp
  moreover have ok: "lobby_ok (fst (turn 3 (JoinReq 7 0 0 [65]) sample_lobby))"
    by (rule turn_ok [OF new_lobby_ok(1) [OF sample_lobby_new]])
  have m: "le_ActorToken ?m = 0" "lhc_ClientToken (le_Header ?m) = 0"
    by (simp_all add: zero_LobbyHeaderClient_def)
  moreover note zero_leave_evicts_locals [OF ok m, of 4 zero_UDPAddr]
  ultimately show ?thesis unfolding filter_empty_conv by blast
qed

end
