(* ===== verification/StoryMsg.thy ===== *)
theory StoryMsg
  imports LobbyMsg
begin

text \<open>
  \<open>udpstar/message/story\<close>: the messages of a running session. Client messages carry actions and story
  confirmations to the server, server messages carry story packs, action confirmations and latency
  reports to the clients. Reading a list of ranges can panic, so readers return a panic or a result.
\<close>

section \<open>Values and headers\<close>

definition CategoryStory :: category where
  "CategoryStory = 3"

definition LenStoryConfirm :: int where
  "LenStoryConfirm = 60"

definition LenLatencyReport :: int where
  "LenLatencyReport = 8"

definition LenLatencyReportName :: int where
  "LenLatencyReportName = 52"

definition TypeTest :: byte where
  "TypeTest = 0"

definition TypeAction :: byte where
  "TypeAction = 1"

definition TypeStory :: byte where
  "TypeStory = 2"

definition TypeLatencyReport :: byte where
  "TypeLatencyReport = 3"

type_synonym ClientState = byte

definition ClientStateNew :: ClientState where
  "ClientStateNew = 0"

definition ClientStateLocal :: ClientState where
  "ClientStateLocal = 1"

definition ClientStateGood :: ClientState where
  "ClientStateGood = 2"

definition ClientStateLagging :: ClientState where
  "ClientStateLagging = 3"

definition ClientStateLost :: ClientState where
  "ClientStateLost = 4"

record StoryHeaderClient =
  shc_ClientToken :: token
  shc_Latency :: "32 word"

record StoryHeaderServer =
  shs_SessionToken :: token

definition StoryGetLatency :: "StoryHeaderClient \<Rightarrow> duration" where
  "StoryGetLatency m = i64 (sint (shc_Latency m) * 1000)"

definition StorySetLatency :: "duration \<Rightarrow> StoryHeaderClient \<Rightarrow> StoryHeaderClient" where
  "StorySetLatency latency m = m\<lparr>shc_Latency := word_of_int (go_div latency 1000)\<rparr>"

definition sizeOfStoryHeaderClient :: int where
  "sizeOfStoryHeaderClient = SizeOfToken + 4"

definition sizeOfStoryHeaderServer :: int where
  "sizeOfStoryHeaderServer = SizeOfToken"

definition StoryHeaderClient_Put :: "StoryHeaderClient \<Rightarrow> byte list \<Rightarrow> byte list" where
  "StoryHeaderClient_Put m buf = AppendUint32 (AppendUint32 buf (shc_ClientToken m)) (shc_Latency m)"

definition StoryHeaderClient_Get ::
  "byte list \<Rightarrow> StoryHeaderClient \<Rightarrow> (string + byte list) \<times> StoryHeaderClient" where
  "StoryHeaderClient_Get buf m =
     (if length buf < 8 then (Inl ErrUnexpectedEOF, m)
      else (Inr (drop 8 buf),
        \<lparr>shc_ClientToken = Uint32 (take 4 buf), shc_Latency = Uint32 (take 4 (drop 4 buf))\<rparr>))"

definition StoryHeaderServer_Put :: "StoryHeaderServer \<Rightarrow> byte list \<Rightarrow> byte list" where
  "StoryHeaderServer_Put m buf = AppendUint32 buf (shs_SessionToken m)"

definition StoryHeaderServer_Get ::
  "byte list \<Rightarrow> StoryHeaderServer \<Rightarrow> (string + byte list) \<times> StoryHeaderServer" where
  "StoryHeaderServer_Get buf m =
     (if length buf < 4 then (Inl ErrUnexpectedEOF, m)
      else (Inr (drop 4 buf), \<lparr>shs_SessionToken = Uint32 (take 4 buf)\<rparr>))"

definition checkType :: "Deserializer \<Rightarrow> byte \<Rightarrow> bool \<times> Deserializer" where
  "checkType s t = (let (s', b) = Get8 s 0 in (d_err s' = None \<and> b = t, s'))"

definition story_checks :: "byte \<Rightarrow> byte list \<Rightarrow> bool \<times> Deserializer" where
  "story_checks t buf =
     (let (ok1, s) = CheckPrefix (NewDeserializer buf);
          (ok2, s) = (if ok1 then CheckCategory CategoryStory s else (False, s))
      in if ok2 then checkType s t else (False, s))"

definition story_open :: "byte \<Rightarrow> byte list \<Rightarrow> byte list" where
  "story_open t buf = Put8 t (PutCategory CategoryStory (PutPrefix buf))"

section \<open>Client messages\<close>

definition storySizeClientBase :: int where
  "storySizeClientBase = SizeOfPrefix + 1 + 1 + sizeOfStoryHeaderClient"

record TestClient =
  tc_Header :: StoryHeaderClient
  tc_Payload :: "byte list"

record ActionPack =
  ap_Header :: StoryHeaderClient
  ap_ActorToken :: token
  ap_Actions :: "Entry list"

record StoryConfirm =
  sc_Header :: StoryHeaderClient
  sc_StoryToken :: token
  sc_LastSequence :: int
  sc_Missing :: "Range list"

definition TestClient_Size :: "TestClient \<Rightarrow> int" where
  "TestClient_Size m = storySizeClientBase + 1 + int (length (tc_Payload m))"

definition ActionPack_Size :: "ActionPack \<Rightarrow> int" where
  "ActionPack_Size m =
     foldl (\<lambda>size a. size + (1 + int (length (Payload a)) + 4 + 8))
       (storySizeClientBase + SizeOfToken + 1) (ap_Actions m)"

definition StoryConfirm_Size :: "StoryConfirm \<Rightarrow> int" where
  "StoryConfirm_Size m = storySizeClientBase + SizeOfToken + 4 + 1 + int (length (sc_Missing m)) * 8"

definition TestClient_Put :: "TestClient \<Rightarrow> byte list \<Rightarrow> byte list go" where
  "TestClient_Put m buf =
     PutBytes (tc_Payload m) (StoryHeaderClient_Put (tc_Header m) (story_open TypeTest buf))"

definition ActionPack_Put :: "ActionPack \<Rightarrow> byte list \<Rightarrow> byte list go" where
  "ActionPack_Put m buf =
     PutEntries (ap_Actions m) (PutToken (ap_ActorToken m)
       (StoryHeaderClient_Put (ap_Header m) (story_open TypeAction buf)))"

definition StoryConfirm_Put :: "StoryConfirm \<Rightarrow> byte list \<Rightarrow> byte list go" where
  "StoryConfirm_Put m buf =
     PutRanges (sc_Missing m) (PutSequence (sc_LastSequence m) (PutToken (sc_StoryToken m)
       (StoryHeaderClient_Put (sc_Header m) (story_open TypeStory buf))))"

definition TestClient_Get :: "byte list \<Rightarrow> TestClient \<Rightarrow> TestClient got go" where
  "TestClient_Get buf m =
     (let (ok, s) = story_checks TypeTest buf
      in if \<not> ok then Inr (invalid ''invalid test message'' m)
         else
           let (s, h) = Get StoryHeaderClient_Get s (tc_Header m);
               (s, p) = GetBytes s (tc_Payload m)
           in Inr (got s \<lparr>tc_Header = h, tc_Payload = p\<rparr>))"

definition ActionPack_Get :: "byte list \<Rightarrow> ActionPack \<Rightarrow> ActionPack got go" where
  "ActionPack_Get buf m =
     (let (ok, s) = story_checks TypeAction buf
      in if \<not> ok then Inr (invalid ''invalid action pack message'' m)
         else
           let (s, h) = Get StoryHeaderClient_Get s (ap_Header m);
               (s, a) = GetToken s (ap_ActorToken m)
           in go_bind (GetEntries s (ap_Actions m)) (\<lambda>(s, es).
                Inr (got s \<lparr>ap_Header = h, ap_ActorToken = a, ap_Actions = es\<rparr>)))"

definition StoryConfirm_Get :: "byte list \<Rightarrow> StoryConfirm \<Rightarrow> StoryConfirm got go" where
  "StoryConfirm_Get buf m =
     (let (ok, s) = story_checks TypeStory buf
      in if \<not> ok then Inr (invalid ''invalid story confirm message'' m)
         else
           let (s, h) = Get StoryHeaderClient_Get s (sc_Header m);
               (s, t) = GetToken s (sc_StoryToken m);
               (s, q) = GetSequence s (sc_LastSequence m)
           in go_bind (GetRanges s (sc_Missing m)) (\<lambda>(s, rs).
                Inr (got s \<lparr>sc_Header = h, sc_StoryToken = t, sc_LastSequence = q, sc_Missing = rs\<rparr>)))"

datatype StoryClientMessage =
    MTestClient TestClient | MActionPack ActionPack | MStoryConfirm StoryConfirm

definition zero_StoryHeaderClient :: StoryHeaderClient where
  "zero_StoryHeaderClient = \<lparr>shc_ClientToken = 0, shc_Latency = 0\<rparr>"

definition go_parsed :: "('m \<Rightarrow> 'c) \<Rightarrow> 'm got go \<Rightarrow> 'c option go" where
  "go_parsed c r = go_bind r (\<lambda>g. Inr (parsed c g))"

definition StoryParseClient :: "byte list \<Rightarrow> StoryClientMessage option go" where
  "StoryParseClient buf =
     (if int (length buf) < storySizeClientBase then Inr None
      else
        let t = buf ! 5
        in if t = TypeTest then
             go_parsed MTestClient (TestClient_Get buf \<lparr>tc_Header = zero_StoryHeaderClient, tc_Payload = []\<rparr>)
           else if t = TypeAction then
             go_parsed MActionPack (ActionPack_Get buf \<lparr>ap_Header = zero_StoryHeaderClient,
               ap_ActorToken = 0, ap_Actions = []\<rparr>)
           else if t = TypeStory then
             go_parsed MStoryConfirm (StoryConfirm_Get buf \<lparr>sc_Header = zero_StoryHeaderClient,
               sc_StoryToken = 0, sc_LastSequence = 0, sc_Missing = []\<rparr>)
           else Inr None)"

section \<open>Server messages\<close>

definition storySizeServerBase :: int where
  "storySizeServerBase = SizeOfPrefix + 1 + 1 + sizeOfStoryHeaderServer"

record TestServer =
  ts_Header :: StoryHeaderServer
  ts_Payload :: "byte list"

record ActionConfirm =
  ac_Header :: StoryHeaderServer
  ac_ActorToken :: token
  ac_LastSequence :: int
  ac_Missing :: "Range list"

record StoryPack =
  sp_Header :: StoryHeaderServer
  sp_StoryToken :: token
  sp_Stories :: "Entry list"

record LatencyReportActor =
  la_Name :: gostring
  la_State :: ClientState
  la_Latency :: duration

record LatencyReport =
  lr_Header :: StoryHeaderServer
  lr_Latencies :: "LatencyReportActor list"

definition TestServer_Size :: "TestServer \<Rightarrow> int" where
  "TestServer_Size m = storySizeServerBase + 1 + int (length (ts_Payload m))"

definition ActionConfirm_Size :: "ActionConfirm \<Rightarrow> int" where
  "ActionConfirm_Size m = storySizeServerBase + SizeOfToken + 4 + 1 + int (length (ac_Missing m)) * 8"

definition StoryPack_Size :: "StoryPack \<Rightarrow> int" where
  "StoryPack_Size m =
     foldl (\<lambda>size e. size + (1 + int (length (Payload e)) + 4 + 8))
       (storySizeServerBase + SizeOfToken + 1) (sp_Stories m)"

definition LatencyReport_Size :: "LatencyReport \<Rightarrow> int" where
  "LatencyReport_Size m =
     foldl (\<lambda>size l. size + (1 + int (length (la_Name l)) + 1 + 8)) (storySizeServerBase + 1)
       (lr_Latencies m)"

definition TestServer_Put :: "TestServer \<Rightarrow> byte list \<Rightarrow> byte list go" where
  "TestServer_Put m buf =
     PutBytes (ts_Payload m) (StoryHeaderServer_Put (ts_Header m) (story_open TypeTest buf))"

definition ActionConfirm_Put :: "ActionConfirm \<Rightarrow> byte list \<Rightarrow> byte list go" where
  "ActionConfirm_Put m buf =
     PutRanges (ac_Missing m) (PutSequence (ac_LastSequence m) (PutToken (ac_ActorToken m)
       (StoryHeaderServer_Put (ac_Header m) (story_open TypeAction buf))))"

definition StoryPack_Put :: "StoryPack \<Rightarrow> byte list \<Rightarrow> byte list go" where
  "StoryPack_Put m buf =
     PutEntries (sp_Stories m) (PutToken (sp_StoryToken m)
       (StoryHeaderServer_Put (sp_Header m) (story_open TypeStory buf)))"

definition put_Latency :: "LatencyReportActor \<Rightarrow> byte list \<Rightarrow> byte list go" where
  "put_Latency l s =
     go_bind (PutStr (la_Name l) s) (\<lambda>s. Inr (PutDuration (la_Latency l) (Put8 (la_State l) s)))"

definition LatencyReport_Put :: "LatencyReport \<Rightarrow> byte list \<Rightarrow> byte list go" where
  "LatencyReport_Put m buf =
     put_each put_Latency (lr_Latencies m)
       (Put8 (word_of_nat (length (lr_Latencies m)))
         (StoryHeaderServer_Put (lr_Header m) (story_open TypeLatencyReport buf)))"

definition TestServer_Get :: "byte list \<Rightarrow> TestServer \<Rightarrow> TestServer got go" where
  "TestServer_Get buf m =
     (let (ok, s) = story_checks TypeTest buf
      in if \<not> ok then Inr (invalid ''invalid test message'' m)
         else
           let (s, h) = Get StoryHeaderServer_Get s (ts_Header m);
               (s, p) = GetBytes s (ts_Payload m)
           in Inr (got s \<lparr>ts_Header = h, ts_Payload = p\<rparr>))"

definition ActionConfirm_Get :: "byte list \<Rightarrow> ActionConfirm \<Rightarrow> ActionConfirm got go" where
  "ActionConfirm_Get buf m =
     (let (ok, s) = story_checks TypeAction buf
      in if \<not> ok then Inr (invalid ''invalid action confirm message'' m)
         else
           let (s, h) = Get StoryHeaderServer_Get s (ac_Header m);
               (s, t) = GetToken s (ac_ActorToken m);
               (s, q) = GetSequence s (ac_LastSequence m)
           in go_bind (GetRanges s (ac_Missing m)) (\<lambda>(s, rs).
                Inr (got s \<lparr>ac_Header = h, ac_ActorToken = t, ac_LastSequence = q, ac_Missing = rs\<rparr>)))"

definition StoryPack_Get :: "byte list \<Rightarrow> StoryPack \<Rightarrow> StoryPack got go" where
  "StoryPack_Get buf m =
     (let (ok, s) = story_checks TypeStory buf
      in if \<not> ok then Inr (invalid ''invalid story pack message'' m)
         else
           let (s, h) = Get StoryHeaderServer_Get s (sp_Header m);
               (s, t) = GetToken s (sp_StoryToken m)
           in go_bind (GetEntries s (sp_Stories m)) (\<lambda>(s, es).
                Inr (got s \<lparr>sp_Header = h, sp_StoryToken = t, sp_Stories = es\<rparr>)))"

definition zero_Latency :: LatencyReportActor where
  "zero_Latency = \<lparr>la_Name = [], la_State = 0, la_Latency = 0\<rparr>"

definition get_Latency :: "Deserializer \<Rightarrow> LatencyReportActor \<Rightarrow> (Deserializer \<times> LatencyReportActor) go" where
  "get_Latency s l =
     (let (s, n) = GetStr s (la_Name l);
          (s, st) = Get8 s (la_State l);
          (s, d) = GetDuration s (la_Latency l)
      in Inr (s, \<lparr>la_Name = n, la_State = st, la_Latency = d\<rparr>))"

definition LatencyReport_Get :: "byte list \<Rightarrow> LatencyReport \<Rightarrow> LatencyReport got go" where
  "LatencyReport_Get buf m =
     (let (ok, s) = story_checks TypeLatencyReport buf
      in if \<not> ok then Inr (invalid ''invalid latency report message'' m)
         else
           let (s, h) = Get StoryHeaderServer_Get s (lr_Header m);
               (s, l) = Get8 s 0
           in go_bind (get_each get_Latency (replicate (unat l) zero_Latency) s) (\<lambda>(s, ls).
                Inr (got s \<lparr>lr_Header = h, lr_Latencies = ls\<rparr>)))"

datatype StoryServerMessage =
    MTestServer TestServer | MActionConfirm ActionConfirm | MStoryPack StoryPack
  | MLatencyReport LatencyReport

definition StoryParseServer :: "byte list \<Rightarrow> StoryServerMessage option go" where
  "StoryParseServer buf =
     (if int (length buf) < storySizeServerBase then Inr None
      else
        let t = buf ! 5; h = \<lparr>shs_SessionToken = 0\<rparr>
        in if t = TypeTest then
             go_parsed MTestServer (TestServer_Get buf \<lparr>ts_Header = h, ts_Payload = []\<rparr>)
           else if t = TypeAction then
             go_parsed MActionConfirm (ActionConfirm_Get buf \<lparr>ac_Header = h, ac_ActorToken = 0,
               ac_LastSequence = 0, ac_Missing = []\<rparr>)
           else if t = TypeStory then
             go_parsed MStoryPack (StoryPack_Get buf \<lparr>sp_Header = h, sp_StoryToken = 0, sp_Stories = []\<rparr>)
           else if t = TypeLatencyReport then
             go_parsed MLatencyReport (LatencyReport_Get buf \<lparr>lr_Header = h, lr_Latencies = []\<rparr>)
           else Inr None)"

section \<open>Round trips\<close>

definition enc_story_client :: "StoryHeaderClient \<Rightarrow> byte list" where
  "enc_story_client h = enc32 (shc_ClientToken h) @ enc32 (shc_Latency h)"

definition enc_story_server :: "StoryHeaderServer \<Rightarrow> byte list" where
  "enc_story_server h = enc32 (shs_SessionToken h)"

definition story_head :: "byte \<Rightarrow> byte list" where
  "story_head t = enc32 Prefix @ [CategoryStory, t]"

lemma story_header_wire [wire_simps]:
  "StoryHeaderClient_Put h s = s @ enc_story_client h"
  "StoryHeaderServer_Put g s = s @ enc_story_server g"
  "Get StoryHeaderClient_Get (D (enc_story_client h @ r)) h0 = (D r, h)"
  "Get StoryHeaderServer_Get (D (enc_story_server g @ r)) g0 = (D r, g)"
  by (simp_all add: StoryHeaderClient_Put_def StoryHeaderServer_Put_def enc_story_client_def
      enc_story_server_def Append_append Get_def StoryHeaderClient_Get_def StoryHeaderServer_Get_def
      Uint32_enc)

lemma story_head_wire [wire_simps]:
  "story_open t s = s @ story_head t"
  "story_checks t (story_head t @ r) = (True, D r)"
  by (simp_all add: story_open_def story_head_def story_checks_def put_simps wire_simps checkType_def)

lemma story_lengths [simp]:
  "length (enc_story_client h) = 8" "length (enc_story_server g) = 4" "length (story_head t) = 6"
  by (simp_all add: enc_story_client_def enc_story_server_def story_head_def)

lemmas story_sizes = storySizeClientBase_def SizeOfPrefix_def SizeOfToken_def
  sizeOfStoryHeaderClient_def storySizeServerBase_def sizeOfStoryHeaderServer_def

lemma entries_size:
  "int (length (enc_list enc_entry es)) = 1 + sum_list (map (\<lambda>a. 1 + int (length (Payload a)) + 4 + 8) es)"
  by (induction es) (simp_all add: enc_list_length enc_entry_length)

lemma ranges_size: "int (length (enc_list enc_range rs)) = 1 + int (length rs) * 8"
  by (simp add: enc_list_length enc_range_length sum_list_triv)

definition confirm_valid :: "int \<Rightarrow> Range list \<Rightarrow> bool" where
  "confirm_valid q rs \<longleftrightarrow> seq_valid q \<and> lists_valid wire_range rs"

interpretation test_client_format: message_format TestClient_Put TestClient_Size TestClient_Get
  "\<lambda>m. length (tc_Payload m) \<le> 254"
  "\<lambda>m. story_head TypeTest @ enc_story_client (tc_Header m) @ enc_bytes (tc_Payload m)"
  by unfold_locales
    (simp_all add: TestClient_Put_def TestClient_Get_def TestClient_Size_def wire_simps story_sizes)

interpretation action_pack_format: message_format ActionPack_Put ActionPack_Size ActionPack_Get
  "\<lambda>m. lists_valid entry_valid (ap_Actions m)"
  "\<lambda>m. story_head TypeAction @ enc_story_client (ap_Header m) @ enc32 (ap_ActorToken m) @
     enc_list enc_entry (ap_Actions m)"
  by unfold_locales
    (simp_all add: ActionPack_Put_def ActionPack_Get_def ActionPack_Size_def wire_simps story_sizes
      put_simps foldl_sum entries_size)

interpretation story_confirm_format: message_format StoryConfirm_Put StoryConfirm_Size StoryConfirm_Get
  "\<lambda>m. confirm_valid (sc_LastSequence m) (sc_Missing m)"
  "\<lambda>m. story_head TypeStory @ enc_story_client (sc_Header m) @ enc32 (sc_StoryToken m) @
     enc_seq (sc_LastSequence m) @ enc_list enc_range (sc_Missing m)"
  by unfold_locales
    (simp_all add: StoryConfirm_Put_def StoryConfirm_Get_def StoryConfirm_Size_def wire_simps story_sizes
      put_simps ranges_size confirm_valid_def)

interpretation test_server_format: message_format TestServer_Put TestServer_Size TestServer_Get
  "\<lambda>m. length (ts_Payload m) \<le> 254"
  "\<lambda>m. story_head TypeTest @ enc_story_server (ts_Header m) @ enc_bytes (ts_Payload m)"
  by unfold_locales
    (simp_all add: TestServer_Put_def TestServer_Get_def TestServer_Size_def wire_simps story_sizes)

interpretation action_confirm_format: message_format ActionConfirm_Put ActionConfirm_Size ActionConfirm_Get
  "\<lambda>m. confirm_valid (ac_LastSequence m) (ac_Missing m)"
  "\<lambda>m. story_head TypeAction @ enc_story_server (ac_Header m) @ enc32 (ac_ActorToken m) @
     enc_seq (ac_LastSequence m) @ enc_list enc_range (ac_Missing m)"
  by unfold_locales
    (simp_all add: ActionConfirm_Put_def ActionConfirm_Get_def ActionConfirm_Size_def wire_simps story_sizes
      put_simps ranges_size confirm_valid_def)

interpretation story_pack_format: message_format StoryPack_Put StoryPack_Size StoryPack_Get
  "\<lambda>m. lists_valid entry_valid (sp_Stories m)"
  "\<lambda>m. story_head TypeStory @ enc_story_server (sp_Header m) @ enc32 (sp_StoryToken m) @
     enc_list enc_entry (sp_Stories m)"
  by unfold_locales
    (simp_all add: StoryPack_Put_def StoryPack_Get_def StoryPack_Size_def wire_simps story_sizes
      put_simps foldl_sum entries_size)

definition enc_latency :: "LatencyReportActor \<Rightarrow> byte list" where
  "enc_latency l = enc_bytes (la_Name l) @ la_State l # enc_dur (la_Latency l)"

definition latency_valid :: "LatencyReportActor \<Rightarrow> bool" where
  "latency_valid l \<longleftrightarrow> length (la_Name l) \<le> 254 \<and> duration_valid (la_Latency l)"

interpretation latency_codec: codec put_Latency get_Latency latency_valid enc_latency
  by unfold_locales
    (simp_all add: put_Latency_def get_Latency_def latency_valid_def enc_latency_def put_simps wire_simps)

lemma latencies_size:
  "int (length (enc_list enc_latency ls)) = 1 + sum_list (map (\<lambda>l. 1 + int (length (la_Name l)) + 1 + 8) ls)"
  by (induction ls) (simp_all add: enc_list_length enc_latency_def)

interpretation latency_report_format: message_format LatencyReport_Put LatencyReport_Size LatencyReport_Get
  "\<lambda>m. lists_valid latency_valid (lr_Latencies m)"
  "\<lambda>m. story_head TypeLatencyReport @ enc_story_server (lr_Header m) @
     enc_list enc_latency (lr_Latencies m)"
proof
  fix m m0 :: LatencyReport and buf t
  assume "lists_valid latency_valid (lr_Latencies m)"
  then have m: "length (lr_Latencies m) \<le> 255" "\<forall>l \<in> set (lr_Latencies m). latency_valid l"
    by (auto simp: lists_valid_def)
  show "LatencyReport_Put m buf = Inr (buf @ story_head TypeLatencyReport @
      enc_story_server (lr_Header m) @ enc_list enc_latency (lr_Latencies m))"
    using m by (simp add: LatencyReport_Put_def wire_simps put_simps enc_list_def latency_codec.put_all)
  show "int (length (story_head TypeLatencyReport @ enc_story_server (lr_Header m) @
      enc_list enc_latency (lr_Latencies m))) = LatencyReport_Size m"
    by (simp add: LatencyReport_Size_def story_sizes foldl_sum latencies_size)
  show "LatencyReport_Get ((story_head TypeLatencyReport @ enc_story_server (lr_Header m) @
      enc_list enc_latency (lr_Latencies m)) @ t) m0 = Inr ((t, None), m)"
    using m by (simp add: LatencyReport_Get_def wire_simps enc_list_def latency_codec.get_all list_len)
qed

fun StoryClient_Put :: "StoryClientMessage \<Rightarrow> byte list \<Rightarrow> byte list go" where
  "StoryClient_Put (MTestClient m) buf = TestClient_Put m buf"
| "StoryClient_Put (MActionPack m) buf = ActionPack_Put m buf"
| "StoryClient_Put (MStoryConfirm m) buf = StoryConfirm_Put m buf"

fun StoryClient_Size :: "StoryClientMessage \<Rightarrow> int" where
  "StoryClient_Size (MTestClient m) = TestClient_Size m"
| "StoryClient_Size (MActionPack m) = ActionPack_Size m"
| "StoryClient_Size (MStoryConfirm m) = StoryConfirm_Size m"

fun StoryServer_Put :: "StoryServerMessage \<Rightarrow> byte list \<Rightarrow> byte list go" where
  "StoryServer_Put (MTestServer m) buf = TestServer_Put m buf"
| "StoryServer_Put (MActionConfirm m) buf = ActionConfirm_Put m buf"
| "StoryServer_Put (MStoryPack m) buf = StoryPack_Put m buf"
| "StoryServer_Put (MLatencyReport m) buf = LatencyReport_Put m buf"

fun StoryServer_Size :: "StoryServerMessage \<Rightarrow> int" where
  "StoryServer_Size (MTestServer m) = TestServer_Size m"
| "StoryServer_Size (MActionConfirm m) = ActionConfirm_Size m"
| "StoryServer_Size (MStoryPack m) = StoryPack_Size m"
| "StoryServer_Size (MLatencyReport m) = LatencyReport_Size m"

fun story_client_valid :: "StoryClientMessage \<Rightarrow> bool" where
  "story_client_valid (MTestClient m) = (length (tc_Payload m) \<le> 254)"
| "story_client_valid (MActionPack m) = lists_valid entry_valid (ap_Actions m)"
| "story_client_valid (MStoryConfirm m) = confirm_valid (sc_LastSequence m) (sc_Missing m)"

fun story_server_valid :: "StoryServerMessage \<Rightarrow> bool" where
  "story_server_valid (MTestServer m) = (length (ts_Payload m) \<le> 254)"
| "story_server_valid (MActionConfirm m) = confirm_valid (ac_LastSequence m) (ac_Missing m)"
| "story_server_valid (MStoryPack m) = lists_valid entry_valid (sp_Stories m)"
| "story_server_valid (MLatencyReport m) = lists_valid latency_valid (lr_Latencies m)"

lemma story_head_type:
  "(story_head t @ r) ! 5 = t"
  "\<not> length (story_head t @ enc_story_client h @ r) < 14"
  "\<not> length (story_head t @ enc_story_server g @ r) < 10"
  by (simp_all add: story_head_def nth_append)

lemma story_types [simp]:
  "TypeAction \<noteq> TypeTest" "TypeStory \<noteq> TypeTest" "TypeStory \<noteq> TypeAction"
  "TypeLatencyReport \<noteq> TypeTest" "TypeLatencyReport \<noteq> TypeAction" "TypeLatencyReport \<noteq> TypeStory"
  by (simp_all add: TypeTest_def TypeAction_def TypeStory_def TypeLatencyReport_def)

lemma story_client_parse:
  assumes "story_client_valid m"
  shows "\<exists>bs. StoryClient_Put m buf = Inr (buf @ bs) \<and> int (length bs) = StoryClient_Size m \<and>
    StoryParseClient bs = Inr (Some m)"
proof (cases m)
  case (MTestClient a)
  then have v: "length (tc_Payload a) \<le> 254" using assms by simp
  note f = test_client_format.put_bytes [OF v] test_client_format.bytes_size [OF v]
    test_client_format.get_bytes [OF v, of "[]", simplified]
  show ?thesis unfolding MTestClient StoryClient_Put.simps StoryClient_Size.simps f(1) f(2) [symmetric]
    by (intro exI conjI, rule refl, rule refl)
      (simp add: StoryParseClient_def story_sizes Let_def story_head_type f(3) go_parsed_def
        del: append_assoc length_append)
next
  case (MActionPack a)
  then have v: "lists_valid entry_valid (ap_Actions a)" using assms by simp
  note f = action_pack_format.put_bytes [OF v] action_pack_format.bytes_size [OF v]
    action_pack_format.get_bytes [OF v, of "[]", simplified]
  show ?thesis unfolding MActionPack StoryClient_Put.simps StoryClient_Size.simps f(1) f(2) [symmetric]
    by (intro exI conjI, rule refl, rule refl)
      (simp add: StoryParseClient_def story_sizes Let_def story_head_type f(3) go_parsed_def
        del: append_assoc length_append)
next
  case (MStoryConfirm a)
  then have v: "confirm_valid (sc_LastSequence a) (sc_Missing a)" using assms by simp
  note f = story_confirm_format.put_bytes [OF v] story_confirm_format.bytes_size [OF v]
    story_confirm_format.get_bytes [OF v, of "[]", simplified]
  show ?thesis unfolding MStoryConfirm StoryClient_Put.simps StoryClient_Size.simps f(1) f(2) [symmetric]
    by (intro exI conjI, rule refl, rule refl)
      (simp add: StoryParseClient_def story_sizes Let_def story_head_type f(3) go_parsed_def
        del: append_assoc length_append)
qed

lemma story_server_parse:
  assumes "story_server_valid m"
  shows "\<exists>bs. StoryServer_Put m buf = Inr (buf @ bs) \<and> int (length bs) = StoryServer_Size m \<and>
    StoryParseServer bs = Inr (Some m)"
proof (cases m)
  case (MTestServer a)
  then have v: "length (ts_Payload a) \<le> 254" using assms by simp
  note f = test_server_format.put_bytes [OF v] test_server_format.bytes_size [OF v] test_server_format.get_bytes [OF v, of "[]", simplified]
  show ?thesis unfolding MTestServer StoryServer_Put.simps StoryServer_Size.simps f(1) f(2) [symmetric]
    by (intro exI conjI, rule refl, rule refl)
      (simp add: StoryParseServer_def story_sizes Let_def story_head_type f(3) go_parsed_def
        del: append_assoc length_append)
next
  case (MActionConfirm a)
  then have v: "confirm_valid (ac_LastSequence a) (ac_Missing a)" using assms by simp
  note f = action_confirm_format.put_bytes [OF v] action_confirm_format.bytes_size [OF v] action_confirm_format.get_bytes [OF v, of "[]", simplified]
  show ?thesis unfolding MActionConfirm StoryServer_Put.simps StoryServer_Size.simps f(1) f(2) [symmetric]
    by (intro exI conjI, rule refl, rule refl)
      (simp add: StoryParseServer_def story_sizes Let_def story_head_type f(3) go_parsed_def
        del: append_assoc length_append)
next
  case (MStoryPack a)
  then have v: "lists_valid entry_valid (sp_Stories a)" using assms by simp
  note f = story_pack_format.put_bytes [OF v] story_pack_format.bytes_size [OF v] story_pack_format.get_bytes [OF v, of "[]", simplified]
  show ?thesis unfolding MStoryPack StoryServer_Put.simps StoryServer_Size.simps f(1) f(2) [symmetric]
    by (intro exI conjI, rule refl, rule refl)
      (simp add: StoryParseServer_def story_sizes Let_def story_head_type f(3) go_parsed_def
        del: append_assoc length_append)
next
  case (MLatencyReport a)
  then have v: "lists_valid latency_valid (lr_Latencies a)" using assms by simp
  note f = latency_report_format.put_bytes [OF v] latency_report_format.bytes_size [OF v] latency_report_format.get_bytes [OF v, of "[]", simplified]
  show ?thesis unfolding MLatencyReport StoryServer_Put.simps StoryServer_Size.simps f(1) f(2) [symmetric]
    by (intro exI conjI, rule refl, rule refl)
      (simp add: StoryParseServer_def story_sizes Let_def story_head_type f(3) go_parsed_def
        del: append_assoc length_append)
qed

text \<open>
  C28. Every valid message of a session survives the wire: writing it appends exactly \<open>Size\<close> bytes and
  the parser of the other side gives back the same message, for all three kinds of client
  messages and all four kinds of server messages.
\<close>

theorem story_messages_roundtrip:
  assumes "story_client_valid cm" and "story_server_valid sm"
  shows "(\<exists>bs. StoryClient_Put cm buf = Inr (buf @ bs) \<and> int (length bs) = StoryClient_Size cm \<and>
      StoryParseClient bs = Inr (Some cm)) \<and>
    (\<exists>bs. StoryServer_Put sm buf = Inr (buf @ bs) \<and> int (length bs) = StoryServer_Size sm \<and>
      StoryParseServer bs = Inr (Some sm))"
  using story_client_parse [OF assms(1)] story_server_parse [OF assms(2)] by blast

theorem story_messages_roundtrip_witness:
  "\<exists>bs. StoryConfirm_Put \<lparr>sc_Header = \<lparr>shc_ClientToken = 2, shc_Latency = 3\<rparr>, sc_StoryToken = 4,
       sc_LastSequence = 9, sc_Missing = [\<lparr>rng_seq = 5, rng_len = 2\<rparr>]\<rparr> [] = Inr bs \<and>
     length bs = 31 \<and> StoryParseClient bs =
       Inr (Some (MStoryConfirm \<lparr>sc_Header = \<lparr>shc_ClientToken = 2, shc_Latency = 3\<rparr>, sc_StoryToken = 4,
       sc_LastSequence = 9, sc_Missing = [\<lparr>rng_seq = 5, rng_len = 2\<rparr>]\<rparr>))"
proof -
  let ?m = "\<lparr>sc_Header = \<lparr>shc_ClientToken = 2, shc_Latency = 3\<rparr>, sc_StoryToken = 4,
       sc_LastSequence = 9, sc_Missing = [\<lparr>rng_seq = 5, rng_len = 2\<rparr>]\<rparr> :: StoryConfirm"
  have "story_client_valid (MStoryConfirm ?m)"
    by (simp add: confirm_valid_def seq_valid_def lists_valid_def wire_range_def range_ok_def)
  moreover have "story_server_valid (MTestServer \<lparr>ts_Header = \<lparr>shs_SessionToken = 1\<rparr>, ts_Payload = []\<rparr>)"
    by simp
  ultimately have "\<exists>bs. StoryClient_Put (MStoryConfirm ?m) [] = Inr ([] @ bs) \<and>
      int (length bs) = StoryClient_Size (MStoryConfirm ?m) \<and>
      StoryParseClient bs = Inr (Some (MStoryConfirm ?m))"
    by (rule story_messages_roundtrip [THEN conjunct1])
  then show ?thesis by (simp add: StoryConfirm_Size_def story_sizes)
qed

text \<open>
  A packet whose range starts at 0 (or ends before it starts) makes the server panic: the
  31-byte story confirmation below is not rejected by \<open>ParseClient\<close> but raises the panic of
  \<open>RangeInclusive\<close>.
\<close>

theorem malformed_range_panics:
  "StoryParseClient (story_open TypeStory [] @ [1, 0, 0, 0, 0, 0, 0, 0, 2, 0, 0, 0, 9, 0, 0, 0] @
     [1] @ [0, 0, 0, 0, 5, 0, 0, 0]) = Inl ''range: seqFrom zero is disallowed''"
  by code_simp

section \<open>Foreign packets\<close>

lemma CheckPrefix_buf: "fst (CheckPrefix (D buf)) \<Longrightarrow> snd (CheckPrefix (D buf)) = D (drop 4 buf)"
  by (auto simp: CheckPrefix_def split: if_splits)

lemma CheckCategory_at:
  "buf ! 4 \<noteq> c \<Longrightarrow> \<not> fst (CheckCategory c (D (drop 4 buf)))"
  by (auto simp: CheckCategory_def)

lemma invalid_not_parsed [simp]: "parsed c (invalid e m) = None"
  by (simp add: parsed_def invalid_def)

lemma foreign_checks:
  assumes "buf ! 4 \<noteq> c"
  shows "\<not> fst (if fst (CheckPrefix (D buf)) then CheckCategory c (snd (CheckPrefix (D buf)))
    else (False, snd (CheckPrefix (D buf))))"
  using assms CheckPrefix_buf CheckCategory_at by auto

lemma foreign_lobby:
  assumes "buf ! 4 \<noteq> CategoryLobby"
  shows "LobbyParseClient buf = None \<and> LobbyParseServer buf = Inr None"
proof -
  note f = foreign_checks [OF assms]
  have "\<not> fst (lobby_checks cmd buf)" for cmd
    using f by (simp add: lobby_checks_def split_beta Let_def)
  then show ?thesis
    using f by (simp add: LobbyParseClient_def Join_Get_def Leave_Get_def Request_Get_def
        LobbyParseServer_def Setup_Get_def split_beta Let_def)
qed

lemma foreign_story:
  assumes "buf ! 4 \<noteq> CategoryStory"
  shows "StoryParseClient buf = Inr None \<and> StoryParseServer buf = Inr None"
proof -
  have "\<not> fst (story_checks t buf)" for t
    using foreign_checks [OF assms] by (simp add: story_checks_def split_beta Let_def)
  then show ?thesis
    by (simp add: StoryParseClient_def StoryParseServer_def TestClient_Get_def ActionPack_Get_def
        StoryConfirm_Get_def TestServer_Get_def ActionConfirm_Get_def StoryPack_Get_def
        LatencyReport_Get_def go_parsed_def split_beta Let_def)
qed

lemma foreign_ping:
  assumes "buf ! 4 \<noteq> CategoryPing"
  shows "\<not> snd (ParsePing buf) \<and> \<not> snd (ParsePong buf)"
  using foreign_checks [OF assms]
  by (simp add: ParsePing_def ParsePong_def Ping_Get_def Pong_Get_def invalid_def split_beta Let_def)

text \<open>
  No packet is taken for messages of two kinds: if one of the ping, lobby and session
  parsers accepts a packet (or panics on it), the parsers of the other two kinds reject it, so it
  does not matter in which order a receiver tries them.
\<close>

theorem categories_disjoint:
  "(snd (ParsePing buf) \<or> snd (ParsePong buf) \<longrightarrow>
     LobbyParseClient buf = None \<and> LobbyParseServer buf = Inr None \<and>
     StoryParseClient buf = Inr None \<and> StoryParseServer buf = Inr None) \<and>
   (LobbyParseClient buf \<noteq> None \<or> LobbyParseServer buf \<noteq> Inr None \<longrightarrow>
     \<not> snd (ParsePing buf) \<and> StoryParseClient buf = Inr None \<and> StoryParseServer buf = Inr None) \<and>
   (StoryParseClient buf \<noteq> Inr None \<or> StoryParseServer buf \<noteq> Inr None \<longrightarrow>
     \<not> snd (ParsePing buf) \<and> LobbyParseClient buf = None \<and> LobbyParseServer buf = Inr None)"
proof -
  have "CategoryPing \<noteq> CategoryLobby" "CategoryPing \<noteq> CategoryStory" "CategoryLobby \<noteq> CategoryStory"
    by (simp_all add: CategoryPing_def CategoryLobby_def CategoryStory_def)
  then show ?thesis
    using foreign_ping [of buf] foreign_lobby [of buf] foreign_story [of buf] by metis
qed

theorem categories_disjoint_witness:
  "snd (ParsePing (Ping_Put \<lparr>pi_MessageID = 7, pi_ClientTime = unix_epoch\<rparr> [])) \<and>
   LobbyParseClient (Ping_Put \<lparr>pi_MessageID = 7, pi_ClientTime = unix_epoch\<rparr> []) = None"
proof -
  have "snd (ParsePing (Ping_Put \<lparr>pi_MessageID = 7, pi_ClientTime = unix_epoch\<rparr> []))" by code_simp
  then show ?thesis using categories_disjoint by blast
qed

end
