(* ===== verification/Sessions.thy ===== *)
theory Sessions
  imports Lobbies StoryMsg
begin

text \<open>
  \<open>udpstar/server/setup.go\<close>, \<open>data_latency.go\<close>, the conversion \<open>lobbyToSession\<close> of \<open>service_lobby.go\<close> and
  \<open>FinishLobby\<close> of \<open>server.go\<close>: the description of a session, its validation, and the way from a full
  lobby to a session. A channel is \<open>None\<close> for nil, otherwise an identifier. Maps used as sets of tokens
  are lists, the map from stories to actor masks is the list of its entries in the stories' order.
  The error texts leave out the numbers that the code formats into them.
\<close>

section \<open>Setup of a session\<close>

type_synonym channel = "nat option"

record Actor =
  at_Token :: token
  at_Name :: gostring
  at_Config :: "byte list option"
  at_Story :: token
  at_Index :: byte

record ClientActor =
  ca_Actor :: Actor
  ca_Channel :: channel

record Client =
  cl_Token :: token
  cl_Actors :: "ClientActor list"

record Story =
  st_Token :: token
  st_Channel :: channel

record Session =
  ss_Token :: token
  ss_Name :: gostring
  ss_Def :: "byte list"
  ss_LocalActors :: "Actor list"
  ss_Clients :: "Client list"
  ss_Stories :: "Story list"

section \<open>Validation\<close>

text \<open>
  The occupied indices of a story's actors are the bits of an \<open>int\<close>: a shift by 64 or more gives 0. A
  \<open>64 word\<close> has the same bits.
\<close>

type_synonym story_masks = "(token \<times> 64 word) list"

definition index_mask :: "byte \<Rightarrow> 64 word" where
  "index_mask i = push_bit (unat i) 1"

fun check_stories :: "Story list \<Rightarrow> story_masks \<Rightarrow> string + story_masks" where
  "check_stories [] m = Inr m"
| "check_stories (y # ys) m =
     (if st_Token y = 0 then Inl ''token is missing for story''
      else if st_Channel y = None then Inl ''channel not provided for story''
      else if map_of m (st_Token y) \<noteq> None then Inl ''story tokens are not unique''
      else check_stories ys (m @ [(st_Token y, 0)]))"

definition take_index :: "Actor \<Rightarrow> story_masks \<Rightarrow> string + story_masks" where
  "take_index a m =
     (case map_of m (at_Story a) of
        None \<Rightarrow> Inl ''actor linked to unknown story''
      | Some bits \<Rightarrow>
          if bits AND index_mask (at_Index a) \<noteq> 0 then Inl ''actor on occupied slot''
          else Inr (AList.update (at_Story a) (bits OR index_mask (at_Index a)) m))"

fun check_locals :: "Actor list \<Rightarrow> token list \<Rightarrow> story_masks \<Rightarrow> string + story_masks" where
  "check_locals [] seen m = Inr m"
| "check_locals (a # as) seen m =
     (if at_Token a = 0 then Inl ''token is missing for local actor''
      else if at_Token a \<in> set seen then Inl ''local actor tokens are not unique''
      else case take_index a m of
          Inl e \<Rightarrow> Inl e
        | Inr m' \<Rightarrow> check_locals as (at_Token a # seen) m')"

fun check_remotes :: "ClientActor list \<Rightarrow> token list \<Rightarrow> story_masks \<Rightarrow> string + story_masks" where
  "check_remotes [] seen m = Inr m"
| "check_remotes (c # cs) seen m =
     (let a = ca_Actor c
      in if at_Token a = 0 then Inl ''remote actor token is missing''
         else if at_Token a \<in> set seen then Inl ''remote actor tokens are not unique''
         else if at_Config a = None then Inl ''remote actor config is missing''
         else if ca_Channel c = None then Inl ''channel not provided for remote actor''
         else case take_index a m of
             Inl e \<Rightarrow> Inl e
           | Inr m' \<Rightarrow> check_remotes cs (at_Token a # seen) m')"

fun check_clients :: "Client list \<Rightarrow> token list \<Rightarrow> story_masks \<Rightarrow> string + story_masks" where
  "check_clients [] seen m = Inr m"
| "check_clients (c # cs) seen m =
     (if cl_Token c = 0 then Inl ''client token is missing''
      else if cl_Token c \<in> set seen then Inl ''client tokens are not unique''
      else case check_remotes (cl_Actors c) [] m of
          Inl e \<Rightarrow> Inl e
        | Inr m' \<Rightarrow> check_clients cs (cl_Token c # seen) m')"

definition OnesCount :: "64 word \<Rightarrow> nat" where
  "OnesCount w = length (filter (bit w) [0..<64])"

text \<open>The last check: a story's actors must have the indices from 0 without a gap.\<close>

definition mask_full :: "64 word \<Rightarrow> bool" where
  "mask_full bits \<longleftrightarrow> bits \<noteq> 0 \<and> bits = push_bit (OnesCount bits) 1 - 1"

definition Session_Validate :: "Session \<Rightarrow> string option" where
  "Session_Validate s =
     (if ss_Token s = 0 then Some ''token is missing for the session''
      else if length (ss_Clients s) = 0 then Some ''no clients defined''
      else if length (ss_Clients s) > 64 then Some ''too many clients defined''
      else if length (ss_Stories s) = 0 then Some ''no stories defined''
      else if length (ss_Stories s) > 64 then Some ''too many stories defined''
      else case check_stories (ss_Stories s) [] of
          Inl e \<Rightarrow> Some e
        | Inr m0 \<Rightarrow>
            (case check_locals (ss_LocalActors s) [] m0 of
               Inl e \<Rightarrow> Some e
             | Inr m1 \<Rightarrow>
                 (case check_clients (ss_Clients s) [] m1 of
                    Inl e \<Rightarrow> Some e
                  | Inr m2 \<Rightarrow>
                      if \<forall>(t, bits) \<in> set m2. mask_full bits then None
                      else Some ''story is missing some actors'')))"

section \<open>The actors of a story\<close>

record StoryActorInfo =
  sa_Token :: token
  sa_Name :: gostring
  sa_Config :: "byte list option"
  sa_FieldActorIdx :: byte
  sa_IsLocal :: bool
  sa_LocalActorIdx :: byte
  sa_ClientIdx :: byte
  sa_ClientActorIdx :: byte

definition zero_StoryActorInfo :: StoryActorInfo where
  "zero_StoryActorInfo = \<lparr>sa_Token = 0, sa_Name = [], sa_Config = None, sa_FieldActorIdx = 0,
     sa_IsLocal = False, sa_LocalActorIdx = 0, sa_ClientIdx = 0, sa_ClientActorIdx = 0\<rparr>"

fun add_infos :: "StoryActorInfo list \<Rightarrow> (byte \<times> StoryActorInfo) list
    \<Rightarrow> string + (byte \<times> StoryActorInfo) list" where
  "add_infos [] m = Inr m"
| "add_infos (i # is) m =
     (if map_of m (sa_FieldActorIdx i) \<noteq> None then Inl ''duplicate story actor index''
      else add_infos is ((sa_FieldActorIdx i, i) # m))"

definition local_infos :: "token \<Rightarrow> Session \<Rightarrow> StoryActorInfo list" where
  "local_infos t s =
     map (\<lambda>(k, a). \<lparr>sa_Token = at_Token a, sa_Name = at_Name a, sa_Config = at_Config a,
        sa_FieldActorIdx = at_Index a, sa_IsLocal = True, sa_LocalActorIdx = word_of_nat k,
        sa_ClientIdx = 0, sa_ClientActorIdx = 0\<rparr>)
       (filter (\<lambda>(k, a). at_Story a = t) (enumerate 0 (ss_LocalActors s)))"

definition remote_infos :: "token \<Rightarrow> Session \<Rightarrow> StoryActorInfo list" where
  "remote_infos t s =
     concat (map (\<lambda>(c, cl).
       map (\<lambda>(k, ca). let a = ca_Actor ca in
          \<lparr>sa_Token = at_Token a, sa_Name = at_Name a, sa_Config = at_Config a,
           sa_FieldActorIdx = at_Index a, sa_IsLocal = False, sa_LocalActorIdx = 0,
           sa_ClientIdx = word_of_nat c, sa_ClientActorIdx = word_of_nat k\<rparr>)
         (filter (\<lambda>(k, ca). at_Story (ca_Actor ca) = t) (enumerate 0 (cl_Actors cl))))
       (enumerate 0 (ss_Clients s)))"

definition StoryActors :: "token \<Rightarrow> Session \<Rightarrow> string + StoryActorInfo list" where
  "StoryActors storyToken s =
     (case add_infos (local_infos storyToken s @ remote_infos storyToken s) [] of
        Inl e \<Rightarrow> Inl e
      | Inr m \<Rightarrow>
          let count = (word_of_nat (length m) :: byte)
          in if \<exists>(idx, _) \<in> set m. idx \<ge> count then Inl ''story actor index out of range''
             else Inr (foldl (\<lambda>as (idx, a). as[unat idx := a])
               (replicate (unat count) zero_StoryActorInfo) m))"

section \<open>From a lobby to a session\<close>

text \<open>The state of the loop over the slots: the session, the actor index and the last story's token.\<close>

definition slot_Actor :: "LobbySlot \<Rightarrow> byte \<Rightarrow> Actor" where
  "slot_Actor sl idx = \<lparr>at_Token = ls_ActorToken sl, at_Name = ls_Name sl, at_Config = ls_Config sl,
     at_Story = ls_StoryToken sl, at_Index = idx\<rparr>"

definition add_remote :: "LobbySlot \<Rightarrow> byte \<Rightarrow> Client list \<Rightarrow> Client list" where
  "add_remote sl idx cs =
     (let ca = \<lparr>ca_Actor = slot_Actor sl idx, ca_Channel = None\<rparr>;
          cs' = (if \<exists>c \<in> set cs. cl_Token c = ls_ClientToken sl then cs
                 else cs @ [\<lparr>cl_Token = ls_ClientToken sl, cl_Actors = []\<rparr>])
      in case first_idx (\<lambda>c. cl_Token c = ls_ClientToken sl) cs' of
           None \<Rightarrow> cs'
         | Some i \<Rightarrow> cs'[i := (cs' ! i)\<lparr>cl_Actors := cl_Actors (cs' ! i) @ [ca]\<rparr>])"

definition session_slot :: "LobbySlot \<Rightarrow> Session \<times> byte \<times> token \<Rightarrow> Session \<times> byte \<times> token" where
  "session_slot sl = (\<lambda>(s, idx, story).
     let (s, idx, story) =
       (if story \<noteq> ls_StoryToken sl
        then (s\<lparr>ss_Stories := ss_Stories s @ [\<lparr>st_Token = ls_StoryToken sl, st_Channel = None\<rparr>]\<rparr>,
              0, ls_StoryToken sl)
        else (s, idx, story));
       s = (if isLocal sl then s\<lparr>ss_LocalActors := ss_LocalActors s @ [slot_Actor sl idx]\<rparr>
            else if isRemote sl then s\<lparr>ss_Clients := add_remote sl idx (ss_Clients s)\<rparr>
            else s)
     in (s, idx + 1, story))"

definition lobbyToSession :: "token \<Rightarrow> gostring \<Rightarrow> byte list \<Rightarrow> LobbySlot list \<Rightarrow> Session" where
  "lobbyToSession token name def slots =
     fst (foldl (\<lambda>st sl. session_slot sl st)
       (\<lparr>ss_Token = token, ss_Name = name, ss_Def = def, ss_LocalActors = [], ss_Clients = [],
         ss_Stories = []\<rparr>, 0, 0) slots)"

section \<open>FinishLobby\<close>

text \<open>
  The four \<open>Finish\<close> requests, a second apart; \<open>waits\<close> are the commands and times that the lobby
  handles in the meantime, one list per wait. Cancelling the context and the end of the lobby's
  goroutine are left out.
\<close>

definition run_turns :: "(time \<times> command) list \<Rightarrow> lobbyService \<Rightarrow> lobbyService" where
  "run_turns cs s = foldl (\<lambda>s (now, c). fst (turn now c s)) s cs"

fun finish_loop :: "LobbyState list \<Rightarrow> int \<Rightarrow> time \<Rightarrow> (time \<times> command) list list \<Rightarrow> lobbyService
    \<Rightarrow> (string + lobbyFinishResp) \<times> lobbyService" where
  "finish_loop [] expected now waits s = (Inl ErrLobbyNotReady, s)"
| "finish_loop (st # sts) expected now waits s =
     (let (s1, ans) = turn now (FinishReq st expected) s
      in case ans of
           GotFinish (Inr resp) \<Rightarrow>
             (if st = StateStarting then (Inr resp, s1)
              else case waits of
                  [] \<Rightarrow> finish_loop sts (i64 (fr_version resp + 1)) now [] s1
                | g # gs \<Rightarrow> finish_loop sts (i64 (fr_version resp + 1)) now gs (run_turns g s1))
         | GotFinish (Inl e) \<Rightarrow> (Inl e, s1)
         | _ \<Rightarrow> (Inl ErrLobbyNotReady, s1))"

definition ErrUnknownLobby :: string where
  "ErrUnknownLobby = ''unknown lobby''"

definition FinishLobby :: "time \<Rightarrow> (time \<times> command) list list \<Rightarrow> lobbyService
    \<Rightarrow> (string + Session \<times> (token \<times> ClientData) list) \<times> lobbyService" where
  "FinishLobby now waits s =
     (let (s0, ans) = turn now (GetReq (- 1)) s
      in case ans of
           GotLobby l \<Rightarrow>
             (if lo_State l \<noteq> StateReady then (Inl ErrLobbyNotReady, s0)
              else
                case finish_loop [StateStarting3, StateStarting2, StateStarting1, StateStarting]
                       (lo_Version l) now waits s0 of
                  (Inl e, s') \<Rightarrow> (Inl e, s')
                | (Inr resp, s') \<Rightarrow>
                    (Inr (lobbyToSession (lb_Token s) (fr_name resp) (fr_def resp) (fr_slots resp),
                          fr_clientMap resp), s'))
         | _ \<Rightarrow> (Inl ErrUnknownLobby, s0))"

lemmas lobby_states = StateActive_def StateReady_def StateStarting_def StateStarting1_def
  StateStarting2_def StateStarting3_def

section \<open>Finishing a lobby\<close>

lemma get_turn: "lb_version s \<noteq> - 1 \<Longrightarrow> turn now (GetReq (- 1)) s = (s, GotLobby (toLobby s))"
  by (simp add: turn_def)

lemma finish_turn:
  assumes "lb_state s \<noteq> StateActive" and "0 \<le> lb_version s" and "lb_version s + 1 < int_lim"
  shows "turn now (FinishReq st (lb_version s)) s =
    (s\<lparr>lb_state := finish_state (lb_state s), lb_version := lb_version s + 1\<rparr>,
     GotFinish (Inr \<lparr>fr_version = lb_version s, fr_name = lb_name s, fr_def = lb_def s,
       fr_slots = lb_slots s, fr_clientMap = map (\<lambda>(t, i). (t, ci_Data i)) (lb_clients s),
       fr_state = finish_state (lb_state s)\<rparr>))"
  using assms by (simp add: turn_def finish_def Let_def i64_id)

lemma finish_counts_down:
  assumes "lb_state s = StateReady" and "0 \<le> lb_version s" and "lb_version s + 4 < int_lim"
  shows "FinishLobby now [[], [], []] s =
    (Inr (lobbyToSession (lb_Token s) (lb_name s) (lb_def s) (lb_slots s),
          map (\<lambda>(t, i). (t, ci_Data i)) (lb_clients s)),
     s\<lparr>lb_state := StateStarting, lb_version := lb_version s + 4\<rparr>)"
proof -
  let ?s = "\<lambda>k st. s\<lparr>lb_state := st, lb_version := lb_version s + k\<rparr>"
  have step: "turn now (FinishReq r (lb_version s + k)) (?s k st) =
      (?s (k + 1) (finish_state st),
       GotFinish (Inr \<lparr>fr_version = lb_version s + k, fr_name = lb_name s, fr_def = lb_def s,
         fr_slots = lb_slots s, fr_clientMap = map (\<lambda>(t, i). (t, ci_Data i)) (lb_clients s),
         fr_state = finish_state st\<rparr>))"
    if "st \<noteq> StateActive" "0 \<le> k" "k < 4" for k st r
    using finish_turn [of "?s k st"] that assms by (simp add: add.assoc)
  have "s = ?s 0 StateReady" using assms(1) by (cases s) simp
  then have first: "turn now (FinishReq r (lb_version s)) s = turn now (FinishReq r (lb_version s + 0)) (?s 0 StateReady)" for r
    by simp
  have v: "i64 (lb_version s + k) = lb_version s + k" if "0 \<le> k" "k \<le> 4" for k
    using that assms by (simp add: i64_id)
  have fs: "finish_state StateReady = StateStarting3" "finish_state StateStarting3 = StateStarting2"
    "finish_state StateStarting2 = StateStarting1" "finish_state StateStarting1 = StateStarting"
    by (simp_all add: finish_state_def lobby_states)
  have neq: "StateReady \<noteq> StateActive" "StateStarting3 \<noteq> StateActive" "StateStarting2 \<noteq> StateActive"
    "StateStarting1 \<noteq> StateActive" "StateStarting3 \<noteq> StateStarting" "StateStarting2 \<noteq> StateStarting"
    "StateStarting1 \<noteq> StateStarting"
    by (simp_all add: lobby_states)
  have g: "turn now (GetReq (- 1)) s = (s, GotLobby (toLobby s))" using assms by (intro get_turn) simp
  show ?thesis
    unfolding FinishLobby_def g
    using step [of StateReady 0] step [of StateStarting3 1] step [of StateStarting2 2]
      step [of StateStarting1 3] v [of 1] v [of 2] v [of 3]
    by (simp add: toLobby_def assms(1) first fs neq run_turns_def add.assoc)
qed

text \<open>
  Finishing a ready lobby that nobody touches for three seconds succeeds: it counts down through
  the starting states and returns the session of exactly the lobby's slots, with the data of its
  clients; the lobby ends in the last starting state.
\<close>

theorem FinishLobby_undisturbed:
  assumes "lb_state s = StateReady" and "0 \<le> lb_version s" and "lb_version s + 4 < int_lim"
  shows "FinishLobby now [[], [], []] s =
    (Inr (lobbyToSession (lb_Token s) (lb_name s) (lb_def s) (lb_slots s),
          map (\<lambda>(t, i). (t, ci_Data i)) (lb_clients s)),
     s\<lparr>lb_state := StateStarting, lb_version := lb_version s + 4\<rparr>)"
  by (rule finish_counts_down [OF assms])

theorem FinishLobby_undisturbed_witness:
  "fst (FinishLobby 5 [[], [], []] (fst (turn 4 sample_join (fst (turn 3 (JoinReq 3 0 0 [66]) sample_lobby))))) =
   Inr (lobbyToSession 1 [76] [] (lb_slots (fst (turn 4 sample_join (fst (turn 3 (JoinReq 3 0 0 [66]) sample_lobby))))),
        [(9, \<lparr>cd_LastMsgReceived = 4, cd_Address = zero_UDPAddr, cd_Latency = 0\<rparr>)])"
proof -
  let ?s = "fst (turn 4 sample_join (fst (turn 3 (JoinReq 3 0 0 [66]) sample_lobby)))"
  have "lb_state ?s = StateReady \<and> lb_version ?s = 2 \<and> lb_Token ?s = 1 \<and> lb_name ?s = [76] \<and> lb_def ?s = [] \<and>
    map (\<lambda>(t, i). (t, ci_Data i)) (lb_clients ?s) =
      [(9, \<lparr>cd_LastMsgReceived = 4, cd_Address = zero_UDPAddr, cd_Latency = 0\<rparr>)]"
    by code_simp
  then show ?thesis using FinishLobby_undisturbed [of ?s 5] by simp
qed

text \<open>
  A status request that arrives during the first second of the countdown makes finishing fail
  with "not ready", although nothing about the lobby's slots changed, and leaves the lobby in a
  starting state from which every later attempt to finish it fails too.
\<close>

theorem request_aborts_finish:
  assumes "lb_state s = StateReady" and "0 \<le> lb_version s" and "lb_version s + 4 < int_lim"
  shows "\<exists>s'. FinishLobby now ([(t, RemoteRequest q addr)] # waits) s = (Inl ErrLobbyNotReady, s') \<and>
    lb_slots s' = lb_slots s \<and> lb_state s' = StateStarting3 \<and>
    (\<forall>now' waits'. FinishLobby now' waits' s' = (Inl ErrLobbyNotReady, s'))"
proof -
  have fs: "finish_state StateReady = StateStarting3" by (simp add: finish_state_def lobby_states)
  have neq: "StateStarting3 \<noteq> StateStarting" "StateReady \<noteq> StateActive" "StateStarting3 \<noteq> StateReady"
    by (simp_all add: lobby_states)
  define s1 where "s1 = s\<lparr>lb_state := StateStarting3, lb_version := lb_version s + 1\<rparr>"
  define s2 where "s2 = fst (turn t (RemoteRequest q addr) s1)"
  have s2: "lb_slots s2 = lb_slots s" "lb_state s2 = StateStarting3" "lb_version s2 = lb_version s + 2"
    using assms by (simp_all add: s2_def s1_def turn_def remoteRequest_def Let_def updateClient_def
        set_client_def i64_id add.assoc)
  have g: "turn now (GetReq (- 1)) s = (s, GotLobby (toLobby s))" using assms by (intro get_turn) simp
  have f: "turn now (FinishReq r (lb_version s)) s = (s1, GotFinish (Inr
      \<lparr>fr_version = lb_version s, fr_name = lb_name s, fr_def = lb_def s,
       fr_slots = lb_slots s, fr_clientMap = map (\<lambda>(t, i). (t, ci_Data i)) (lb_clients s),
       fr_state = StateStarting3\<rparr>))" for r
    using finish_turn [of s now r] assms by (simp add: s1_def fs neq)
  have f2: "turn now (FinishReq r (lb_version s + 1)) s2 = (s2, GotFinish (Inl ErrLobbyNotReady))" for r
    by (simp add: turn_def finish_def s2(3))
  have "FinishLobby now ([(t, RemoteRequest q addr)] # waits) s = (Inl ErrLobbyNotReady, s2)"
    unfolding FinishLobby_def g using assms
    by (simp add: toLobby_def f neq i64_id run_turns_def f2 s2_def [symmetric])
  moreover have "FinishLobby now' waits' s2 = (Inl ErrLobbyNotReady, s2)" for now' waits'
    using assms s2 neq by (simp add: FinishLobby_def get_turn toLobby_def)
  ultimately show ?thesis using s2 by blast
qed

theorem request_aborts_finish_witness:
  "\<exists>s'. FinishLobby 5 [[(6, RemoteRequest \<lparr>re_Header = zero_LobbyHeaderClient\<rparr> zero_UDPAddr)]]
      (fst (turn 4 sample_join (fst (turn 3 (JoinReq 3 0 0 [66]) sample_lobby)))) = (Inl ErrLobbyNotReady, s') \<and>
     FinishLobby 7 [[], [], []] s' = (Inl ErrLobbyNotReady, s')"
proof -
  let ?s = "fst (turn 4 sample_join (fst (turn 3 (JoinReq 3 0 0 [66]) sample_lobby)))"
  have "lb_state ?s = StateReady \<and> lb_version ?s = 2" by code_simp
  then show ?thesis using request_aborts_finish [of ?s 5 6 "\<lparr>re_Header = zero_LobbyHeaderClient\<rparr>" zero_UDPAddr "[]"]
    by auto
qed

end
