(* ===== verification/Validity.thy ===== *)
theory Validity
  imports Sessions "HOL-Library.Multiset"
begin

text \<open>
  What \<open>Session.Validate\<close> of \<open>udpstar/server/setup.go\<close> accepts, stated without its loops and bit masks,
  and what follows for the sessions that come out of a full lobby: once the caller has provided the
  channels they pass the validation. A claim is a pair of a story's token and an actor's index.
\<close>

section \<open>Masks of indices\<close>

text \<open>A claim is a story and an index in it; the mask of a story has the bits of its claims below 64.\<close>

type_synonym claims = "(token \<times> byte) list"

definition occupied :: "claims \<Rightarrow> token \<Rightarrow> nat set" where
  "occupied L t = {k. k < 64 \<and> (\<exists>i. (t, i) \<in> set L \<and> unat i = k)}"

definition masks_of :: "token list \<Rightarrow> claims \<Rightarrow> story_masks \<Rightarrow> bool" where
  "masks_of ts L m \<longleftrightarrow> map fst m = ts \<and>
     (\<forall>t w. map_of m t = Some w \<longrightarrow> (\<forall>k. bit w k \<longleftrightarrow> k \<in> occupied L t))"

definition claims_ok :: "token list \<Rightarrow> claims \<Rightarrow> bool" where
  "claims_ok ts L \<longleftrightarrow> (\<forall>c \<in> set L. fst c \<in> set ts) \<and> distinct (filter (\<lambda>c. unat (snd c) < 64) L)"

definition claim :: "Actor \<Rightarrow> token \<times> byte" where
  "claim a = (at_Story a, at_Index a)"

lemma bit_index_mask: "bit (index_mask i) k \<longleftrightarrow> k = unat i \<and> k < 64"
  by (auto simp: index_mask_def push_bit_eq_mult bit_exp_iff)

lemma overlaps: "bits AND index_mask i \<noteq> 0 \<longleftrightarrow> unat i < 64 \<and> bit bits (unat i)"
proof -
  have b: "bit (bits AND index_mask i) k \<longleftrightarrow> k = unat i \<and> k < 64 \<and> bit bits k" for k
    by (auto simp: bit_and_iff bit_index_mask)
  have "bits AND index_mask i = 0 \<longleftrightarrow> (\<forall>k. \<not> bit (bits AND index_mask i) k)"
    by (metis bit_eqI bit_0_eq bot_apply bot_bool_def)
  then show ?thesis unfolding b by auto
qed

lemma map_of_some: "map fst m = ts \<Longrightarrow> (\<exists>w. map_of m t = Some w) \<longleftrightarrow> t \<in> set ts"
  by (auto simp: map_of_eq_None_iff dest!: weak_map_of_SomeI) (metis domI dom_map_of_conv_image_fst image_set)

lemma occupied_snoc: "occupied (L @ [(t, i)]) u = occupied L u \<union> (if u = t \<and> unat i < 64 then {unat i} else {})"
  by (auto simp: occupied_def)

lemma in_occupied: "unat i < 64 \<Longrightarrow> unat i \<in> occupied L t \<longleftrightarrow> (t, i) \<in> set L"
  by (auto simp: occupied_def) (metis word_unat_eq_iff)

lemma take_index_masks:
  assumes m: "masks_of ts L m" and L: "claims_ok ts L"
  shows "case take_index a m of
      Inl _ \<Rightarrow> \<not> claims_ok ts (L @ [claim a])
    | Inr m' \<Rightarrow> claims_ok ts (L @ [claim a]) \<and> masks_of ts (L @ [claim a]) m'"
proof (cases "map_of m (at_Story a)")
  case None
  then have "at_Story a \<notin> set ts" using m by (simp add: masks_of_def map_of_eq_None_iff flip: set_map)
  then show ?thesis using None by (simp add: take_index_def claims_ok_def claim_def)
next
  case (Some w)
  have ts: "at_Story a \<in> set ts" using m Some map_of_some [of m ts] by (auto simp: masks_of_def)
  have b: "bit w k \<longleftrightarrow> k \<in> occupied L (at_Story a)" for k using m Some by (simp add: masks_of_def)
  have hit: "w AND index_mask (at_Index a) \<noteq> 0 \<longleftrightarrow> \<not> claims_ok ts (L @ [claim a])"
    using L ts in_occupied [of "at_Index a" L "at_Story a"]
    by (auto simp: overlaps b claims_ok_def claim_def)
  show ?thesis
  proof (cases "w AND index_mask (at_Index a) \<noteq> 0")
    case True
    then show ?thesis using hit by (simp add: take_index_def Some)
  next
    case False
    have "masks_of ts (L @ [claim a]) (AList.update (at_Story a) (w OR index_mask (at_Index a)) m)"
      using m b ts
      by (auto simp: masks_of_def claim_def occupied_snoc update_conv' bit_or_iff bit_index_mask AList.update_keys
          split: if_splits)
    then show ?thesis using False hit by (simp add: take_index_def Some)
  qed
qed

lemma claims_ok_prefix: "claims_ok ts (L @ K) \<Longrightarrow> claims_ok ts L"
  by (auto simp: claims_ok_def)

section \<open>The loops of Validate\<close>

text \<open>
  A loop succeeds exactly when what it checks holds; on success the masks hold the claims of the
  actors it has seen.
\<close>

definition settles :: "bool \<Rightarrow> token list \<Rightarrow> claims \<Rightarrow> string + story_masks \<Rightarrow> bool" where
  "settles good ts L r = (case r of Inl _ \<Rightarrow> \<not> (good \<and> claims_ok ts L)
     | Inr m \<Rightarrow> good \<and> claims_ok ts L \<and> masks_of ts L m)"

lemma settles_error: "\<not> good \<or> \<not> claims_ok ts L \<Longrightarrow> settles good ts L (Inl e)"
  by (auto simp: settles_def)

lemma settles_step:
  assumes "masks_of ts L m" and "claims_ok ts L"
    and "\<And>m'. claims_ok ts (L @ [claim a]) \<Longrightarrow> masks_of ts (L @ [claim a]) m' \<Longrightarrow>
      settles good ts (L @ claim a # K) (f m')"
  shows "settles good ts (L @ claim a # K) (case take_index a m of Inl e \<Rightarrow> Inl e | Inr m' \<Rightarrow> f m')"
proof (cases "take_index a m")
  case (Inl e)
  then have "\<not> claims_ok ts (L @ [claim a])" using take_index_masks [OF assms(1,2), of a] by simp
  then have "\<not> claims_ok ts (L @ claim a # K)" using claims_ok_prefix [of ts "L @ [claim a]" K] by auto
  then show ?thesis by (simp add: Inl settles_error)
next
  case (Inr m')
  then show ?thesis using take_index_masks [OF assms(1,2), of a] assms(3) by simp
qed

definition tokens_ok :: "token list \<Rightarrow> token list \<Rightarrow> bool" where
  "tokens_ok seen ks \<longleftrightarrow> 0 \<notin> set ks \<and> distinct ks \<and> set ks \<inter> set seen = {}"

lemma tokens_ok_simps [simp]:
  "tokens_ok seen []" "tokens_ok seen (k # ks) \<longleftrightarrow> k \<noteq> 0 \<and> k \<notin> set seen \<and> tokens_ok (k # seen) ks"
  by (auto simp: tokens_ok_def)

lemma settles_cong: "(claims_ok ts L \<Longrightarrow> good = good') \<Longrightarrow> settles good ts L r = settles good' ts L r"
  by (auto simp: settles_def split: sum.split)

lemma check_locals_settles:
  assumes "masks_of ts L m" and "claims_ok ts L"
  shows "settles (tokens_ok seen (map at_Token as)) ts (L @ map claim as) (check_locals as seen m)"
  using assms
proof (induction as arbitrary: seen L m)
  case (Cons a as)
  show ?case
  proof (cases "at_Token a = 0 \<or> at_Token a \<in> set seen")
    case True
    then show ?thesis by (auto intro!: settles_error)
  next
    case False
    have "settles (tokens_ok (at_Token a # seen) (map at_Token as)) ts (L @ claim a # map claim as)
      (case take_index a m of Inl e \<Rightarrow> Inl e | Inr m' \<Rightarrow> check_locals as (at_Token a # seen) m')"
    proof (rule settles_step [OF Cons.prems])
      fix m' assume "claims_ok ts (L @ [claim a])" "masks_of ts (L @ [claim a]) m'"
      from Cons.IH [OF this(2,1), of "at_Token a # seen"]
      show "settles (tokens_ok (at_Token a # seen) (map at_Token as)) ts (L @ claim a # map claim as)
        (check_locals as (at_Token a # seen) m')" by simp
    qed
    then show ?thesis using False by simp
  qed
qed (simp add: settles_def)

definition remote_complete :: "ClientActor \<Rightarrow> bool" where
  "remote_complete c \<longleftrightarrow> at_Config (ca_Actor c) \<noteq> None \<and> ca_Channel c \<noteq> None"

abbreviation actor_tokens :: "ClientActor list \<Rightarrow> token list" where
  "actor_tokens cs \<equiv> map (\<lambda>c. at_Token (ca_Actor c)) cs"

abbreviation actor_claims :: "ClientActor list \<Rightarrow> claims" where
  "actor_claims cs \<equiv> map (\<lambda>c. claim (ca_Actor c)) cs"

lemma check_remotes_settles:
  assumes "masks_of ts L m" and "claims_ok ts L"
  shows "settles (tokens_ok seen (actor_tokens cs) \<and> (\<forall>c \<in> set cs. remote_complete c)) ts
    (L @ actor_claims cs) (check_remotes cs seen m)"
  using assms
proof (induction cs arbitrary: seen L m)
  case (Cons c cs)
  let ?a = "ca_Actor c"
  show ?case
  proof (cases "at_Token ?a = 0 \<or> at_Token ?a \<in> set seen \<or> \<not> remote_complete c")
    case True
    then show ?thesis by (auto intro!: settles_error simp: remote_complete_def Let_def)
  next
    case False
    have "settles (tokens_ok (at_Token ?a # seen) (actor_tokens cs) \<and> (\<forall>c \<in> set cs. remote_complete c)) ts
      (L @ claim ?a # actor_claims cs)
      (case take_index ?a m of Inl e \<Rightarrow> Inl e | Inr m' \<Rightarrow> check_remotes cs (at_Token ?a # seen) m')"
    proof (rule settles_step [OF Cons.prems])
      fix m' assume "claims_ok ts (L @ [claim ?a])" "masks_of ts (L @ [claim ?a]) m'"
      from Cons.IH [OF this(2,1), of "at_Token ?a # seen"]
      show "settles (tokens_ok (at_Token ?a # seen) (actor_tokens cs) \<and> (\<forall>c \<in> set cs. remote_complete c)) ts
        (L @ claim ?a # actor_claims cs) (check_remotes cs (at_Token ?a # seen) m')" by simp
    qed
    then show ?thesis using False by (auto simp: remote_complete_def Let_def)
  qed
qed (simp add: settles_def)

definition client_ok :: "Client \<Rightarrow> bool" where
  "client_ok c \<longleftrightarrow> tokens_ok [] (actor_tokens (cl_Actors c)) \<and> (\<forall>a \<in> set (cl_Actors c). remote_complete a)"

lemma check_clients_settles:
  assumes "masks_of ts L m" and "claims_ok ts L"
  shows "settles (tokens_ok seen (map cl_Token cs) \<and> (\<forall>c \<in> set cs. client_ok c)) ts
    (L @ concat (map (\<lambda>c. actor_claims (cl_Actors c)) cs)) (check_clients cs seen m)"
  using assms
proof (induction cs arbitrary: seen L m)
  case (Cons c cs)
  let ?L = "L @ actor_claims (cl_Actors c)" and ?K = "concat (map (\<lambda>c. actor_claims (cl_Actors c)) cs)"
  let ?g = "tokens_ok (cl_Token c # seen) (map cl_Token cs) \<and> (\<forall>c \<in> set cs. client_ok c)"
  show ?case
  proof (cases "cl_Token c = 0 \<or> cl_Token c \<in> set seen")
    case True
    then show ?thesis by (auto intro!: settles_error)
  next
    case False
    note r = check_remotes_settles [OF Cons.prems, of "[]" "cl_Actors c", folded client_ok_def]
    have "settles (client_ok c \<and> ?g) ts (?L @ ?K)
      (case check_remotes (cl_Actors c) [] m of Inl e \<Rightarrow> Inl e
       | Inr m' \<Rightarrow> check_clients cs (cl_Token c # seen) m')"
    proof (cases "check_remotes (cl_Actors c) [] m")
      case (Inl e)
      then have "\<not> (client_ok c \<and> claims_ok ts ?L)" using r by (simp add: settles_def)
      then have "\<not> client_ok c \<or> \<not> claims_ok ts (?L @ ?K)" using claims_ok_prefix by blast
      then show ?thesis using Inl by (auto intro!: settles_error)
    next
      case (Inr m')
      then have "client_ok c" "claims_ok ts ?L" "masks_of ts ?L m'" using r by (simp_all add: settles_def)
      with Cons.IH [OF this(3,2), of "cl_Token c # seen"] Inr show ?thesis by simp
    qed
    then show ?thesis using False by (simp add: conj_ac)
  qed
qed (simp add: settles_def)

section \<open>What Validate accepts\<close>

lemma check_stories_spec:
  assumes "masks_of ts [] m" and "distinct ts"
  shows "case check_stories ys m of
      Inl _ \<Rightarrow> \<not> (tokens_ok ts (map st_Token ys) \<and> (\<forall>y \<in> set ys. st_Channel y \<noteq> None))
    | Inr m' \<Rightarrow> tokens_ok ts (map st_Token ys) \<and> (\<forall>y \<in> set ys. st_Channel y \<noteq> None) \<and>
        masks_of (ts @ map st_Token ys) [] m'"
  using assms
proof (induction ys arbitrary: ts m)
  case (Cons y ys)
  have dup: "map_of m (st_Token y) \<noteq> None \<longleftrightarrow> st_Token y \<in> set ts"
    using Cons.prems(1) map_of_some [of m ts "st_Token y"] by (simp add: masks_of_def)
  have t: "tokens_ok (st_Token y # ts) ks = tokens_ok (ts @ [st_Token y]) ks" for ks
    by (auto simp: tokens_ok_def)
  show ?case
  proof (cases "st_Token y = 0 \<or> st_Channel y = None \<or> st_Token y \<in> set ts")
    case True
    then show ?thesis using dup by auto
  next
    case False
    have "masks_of (ts @ [st_Token y]) [] (m @ [(st_Token y, 0)])"
      using Cons.prems(1) by (auto simp: masks_of_def map_add_def occupied_def split: option.splits if_splits)
    from Cons.IH [OF this] False Cons.prems(2) dup show ?thesis
      by (auto simp: t split: sum.splits)
  qed
qed simp

text \<open>The indices below 64 that a list of claims has for a story.\<close>

definition indices :: "claims \<Rightarrow> token \<Rightarrow> nat list" where
  "indices L t = map (\<lambda>c. unat (snd c)) (filter (\<lambda>c. fst c = t \<and> unat (snd c) < 64) L)"

definition gapless :: "claims \<Rightarrow> token \<Rightarrow> bool" where
  "gapless L t \<longleftrightarrow> indices L t \<noteq> [] \<and> set (indices L t) = {0..<length (indices L t)}"

lemma occupied_indices: "occupied L t = set (indices L t)"
  by (force simp: occupied_def indices_def)

lemma indices_distinct:
  assumes "claims_ok ts L"
  shows "distinct (indices L t)"
proof -
  let ?P = "\<lambda>c. fst c = t \<and> unat (snd c) < 64"
  have "distinct (filter (\<lambda>c. fst c = t) (filter (\<lambda>c. unat (snd c) < 64) L))"
    using assms by (simp only: claims_ok_def distinct_filter)
  then have d: "distinct (filter ?P L)" by (simp add: conj_commute)
  have "inj_on (\<lambda>c. unat (snd c)) (set (filter ?P L))"
    by (auto simp: inj_on_def word_unat_eq_iff)
  then show ?thesis unfolding indices_def using d by (simp add: distinct_map)
qed

lemma mask_full_iff:
  assumes "\<And>k. bit w k \<longleftrightarrow> k \<in> S" and "S \<subseteq> {0..<64}"
  shows "mask_full w \<longleftrightarrow> S \<noteq> {} \<and> S = {0..<card S}"
proof -
  have fin: "finite S" using assms(2) finite_subset by blast
  have "set (filter (bit w) [0..<64]) = S" using assms by auto
  then have ones: "OnesCount w = card S"
    unfolding OnesCount_def using distinct_card [of "filter (bit w) [0..<64]"] by simp
  have zero: "w = 0 \<longleftrightarrow> S = {}"
    using assms(1) by (metis bit_eqI bit_0_eq bot_apply bot_bool_def empty_iff equals0I)
  have le: "card S \<le> 64" using card_mono [OF _ assms(2)] by simp
  have m: "push_bit (card S) 1 - 1 = (mask (card S) :: 64 word)"
    by (simp add: mask_eq_exp_minus_1 push_bit_eq_mult)
  have "w = mask (card S) \<longleftrightarrow> S = {0..<card S}"
  proof
    assume "w = mask (card S)"
    then show "S = {0..<card S}" using assms(1) le by (auto simp: bit_mask_iff simp flip: assms(1))
  next
    assume S: "S = {0..<card S}"
    show "w = mask (card S)"
    proof (rule bit_eqI)
      fix k assume "possible_bit TYPE(64 word) k"
      then show "bit w k \<longleftrightarrow> bit (mask (card S) :: 64 word) k"
        using assms(1) S by (auto simp: bit_mask_iff)
    qed
  qed
  then show ?thesis unfolding mask_full_def ones m zero by simp
qed

lemma all_full:
  assumes "masks_of ts L m" and "claims_ok ts L" and "distinct ts"
  shows "(\<forall>(t, w) \<in> set m. mask_full w) \<longleftrightarrow> (\<forall>t \<in> set ts. gapless L t)"
proof -
  have ts: "map fst m = ts" using assms(1) by (simp add: masks_of_def)
  have one: "mask_full w \<longleftrightarrow> gapless L t" if "(t, w) \<in> set m" for t w
  proof -
    have "map_of m t = Some w" using that assms(3) ts by simp
    then have "bit w k \<longleftrightarrow> k \<in> set (indices L t)" for k
      using assms(1) by (simp add: masks_of_def occupied_indices)
    moreover have "set (indices L t) \<subseteq> {0..<64}" by (auto simp: indices_def)
    ultimately show ?thesis
      using distinct_card [OF indices_distinct [OF assms(2)]]
      by (simp add: mask_full_iff gapless_def)
  qed
  have "(\<forall>(t, w) \<in> set m. mask_full w) \<longleftrightarrow> (\<forall>p \<in> set m. gapless L (fst p))"
    using one by (metis (mono_tags, lifting) case_prod_beta prod.collapse)
  then show ?thesis by (simp flip: ts)
qed

definition session_claims :: "Session \<Rightarrow> claims" where
  "session_claims s = map claim (ss_LocalActors s) @
     concat (map (\<lambda>c. actor_claims (cl_Actors c)) (ss_Clients s))"

definition session_valid :: "Session \<Rightarrow> bool" where
  "session_valid s \<longleftrightarrow> ss_Token s \<noteq> 0 \<and> 1 \<le> length (ss_Clients s) \<and> length (ss_Clients s) \<le> 64 \<and>
     1 \<le> length (ss_Stories s) \<and> length (ss_Stories s) \<le> 64 \<and>
     tokens_ok [] (map st_Token (ss_Stories s)) \<and> (\<forall>y \<in> set (ss_Stories s). st_Channel y \<noteq> None) \<and>
     tokens_ok [] (map at_Token (ss_LocalActors s)) \<and>
     tokens_ok [] (map cl_Token (ss_Clients s)) \<and> (\<forall>c \<in> set (ss_Clients s). client_ok c) \<and>
     claims_ok (map st_Token (ss_Stories s)) (session_claims s) \<and>
     (\<forall>y \<in> set (ss_Stories s). gapless (session_claims s) (st_Token y))"

lemma Session_Validate_spec: "Session_Validate s = None \<longleftrightarrow> session_valid s"
proof -
  let ?ts = "map st_Token (ss_Stories s)"
  let ?LL = "map claim (ss_LocalActors s)"
  have m0: "masks_of [] [] []" "distinct []" by (simp_all add: masks_of_def)
  note st = check_stories_spec [OF m0, of "ss_Stories s", simplified]
  show ?thesis
  proof (cases "check_stories (ss_Stories s) []")
    case (Inl e)
    then show ?thesis using st by (auto simp: Session_Validate_def session_valid_def)
  next
    case (Inr m0)
    have s0: "tokens_ok [] ?ts" "\<forall>y \<in> set (ss_Stories s). st_Channel y \<noteq> None" "masks_of ?ts [] m0"
      using st Inr by simp_all
    have d: "distinct ?ts" using s0(1) by (simp add: tokens_ok_def)
    have c0: "claims_ok ?ts []" by (simp add: claims_ok_def)
    note lo = check_locals_settles [OF s0(3) c0, of "[]" "ss_LocalActors s", simplified]
    show ?thesis
    proof (cases "check_locals (ss_LocalActors s) [] m0")
      case L: (Inl e)
      then have "\<not> (tokens_ok [] (map at_Token (ss_LocalActors s)) \<and> claims_ok ?ts ?LL)"
        using lo by (simp add: settles_def)
      then have "\<not> session_valid s"
        using claims_ok_prefix by (fastforce simp: session_valid_def session_claims_def)
      then show ?thesis using Inr L by (auto simp: Session_Validate_def)
    next
      case R: (Inr m1)
      have s1: "tokens_ok [] (map at_Token (ss_LocalActors s))" "claims_ok ?ts ?LL" "masks_of ?ts ?LL m1"
        using lo R by (simp_all add: settles_def)
      note cl = check_clients_settles [OF s1(3,2), of "[]" "ss_Clients s", folded session_claims_def]
      show ?thesis
      proof (cases "check_clients (ss_Clients s) [] m1")
        case C: (Inl e)
        then show ?thesis using Inr R cl
          by (auto simp: Session_Validate_def session_valid_def settles_def)
      next
        case D: (Inr m2)
        have s2: "tokens_ok [] (map cl_Token (ss_Clients s))" "\<forall>c \<in> set (ss_Clients s). client_ok c"
          "claims_ok ?ts (session_claims s)" "masks_of ?ts (session_claims s) m2"
          using cl D by (simp_all add: settles_def)
        have "Session_Validate s = None \<longleftrightarrow> ss_Token s \<noteq> 0 \<and> 1 \<le> length (ss_Clients s) \<and>
            length (ss_Clients s) \<le> 64 \<and> 1 \<le> length (ss_Stories s) \<and> length (ss_Stories s) \<le> 64 \<and>
            (\<forall>(t, w) \<in> set m2. mask_full w)"
          using Inr R D by (auto simp: Session_Validate_def Suc_le_eq)
        then show ?thesis
          using s0(1,2) s1(1) s2 all_full [OF s2(4,3) d] by (auto simp: session_valid_def)
      qed
    qed
  qed
qed

text \<open>
  C22. \<open>Validate\<close> accepts a session exactly when its tokens are there and unique, its channels and
  configurations are there, it has 1 to 64 clients and stories, every actor belongs to one of its
  stories, and in every story the indices below 64 are those from 0 on, each taken once and none left
  out. Indices from 64 on are not looked at.
\<close>

theorem Validate_exact: "Session_Validate s = None \<longleftrightarrow> session_valid s"
  by (rule Session_Validate_spec)

section \<open>The session of a lobby\<close>

text \<open>
  The claims and stories that the loop over the slots makes of the slots' story tokens, from the prev
  story seen and the index reached.
\<close>

fun number :: "token \<Rightarrow> byte \<Rightarrow> token list \<Rightarrow> claims" where
  "number prev k [] = []"
| "number prev k (t # ts) =
     (if t \<noteq> prev then (t, 0) # number t 1 ts else (t, k) # number t (k + 1) ts)"

fun new_stories :: "token \<Rightarrow> token list \<Rightarrow> token list" where
  "new_stories prev [] = []"
| "new_stories prev (t # ts) = (if t \<noteq> prev then t # new_stories t ts else new_stories t ts)"

abbreviation remote_claims :: "Client list \<Rightarrow> claims" where
  "remote_claims cs \<equiv> concat (map (\<lambda>c. actor_claims (cl_Actors c)) cs)"

abbreviation remote_tokens :: "Client list \<Rightarrow> token list" where
  "remote_tokens cs \<equiv> concat (map (\<lambda>c. actor_tokens (cl_Actors c)) cs)"

abbreviation remote_configs :: "Client list \<Rightarrow> byte list option list" where
  "remote_configs cs \<equiv> concat (map (\<lambda>c. map (\<lambda>a. at_Config (ca_Actor a)) (cl_Actors c)) cs)"

definition client_tokens :: "Client list \<Rightarrow> token list" where
  "client_tokens cs = map cl_Token cs"

lemma mset_concat_update:
  assumes "i < length cs" and "mset (g c') = add_mset x (mset (g (cs ! i)))"
  shows "mset (concat (map g (cs[i := c']))) = add_mset x (mset (concat (map g cs)))"
proof -
  have s: "cs = take i cs @ cs ! i # drop (Suc i) cs" using assms(1) by (simp add: id_take_nth_drop [symmetric])
  have u: "cs[i := c'] = take i cs @ c' # drop (Suc i) cs" using assms(1) by (simp add: upd_conv_take_nth_drop)
  have "mset (concat (map g cs)) =
    mset (concat (map g (take i cs))) + mset (g (cs ! i)) + mset (concat (map g (drop (Suc i) cs)))"
    by (subst s) simp
  then show ?thesis unfolding u using assms(2) by simp
qed

lemma add_remote_spec:
  shows "client_tokens (add_remote sl k cs) =
      (if ls_ClientToken sl \<in> set (client_tokens cs) then client_tokens cs
       else client_tokens cs @ [ls_ClientToken sl])"
    and "mset (remote_claims (add_remote sl k cs)) = add_mset (ls_StoryToken sl, k) (mset (remote_claims cs))"
    and "mset (remote_tokens (add_remote sl k cs)) = add_mset (ls_ActorToken sl) (mset (remote_tokens cs))"
    and "mset (remote_configs (add_remote sl k cs)) = add_mset (ls_Config sl) (mset (remote_configs cs))"
proof -
  let ?ca = "\<lparr>ca_Actor = slot_Actor sl k, ca_Channel = None\<rparr>"
  define cs' where "cs' = (if ls_ClientToken sl \<in> set (client_tokens cs) then cs
    else cs @ [\<lparr>cl_Token = ls_ClientToken sl, cl_Actors = []\<rparr>])"
  have c': "client_tokens cs' = (if ls_ClientToken sl \<in> set (client_tokens cs) then client_tokens cs
       else client_tokens cs @ [ls_ClientToken sl])" "remote_claims cs' = remote_claims cs"
    "remote_tokens cs' = remote_tokens cs" "remote_configs cs' = remote_configs cs"
    by (auto simp: cs'_def client_tokens_def)
  have mem: "(\<exists>c \<in> set cs. cl_Token c = ls_ClientToken sl) \<longleftrightarrow> ls_ClientToken sl \<in> set (client_tokens cs)" for cs
    by (auto simp: client_tokens_def image_iff) metis
  have "\<exists>c \<in> set cs'. cl_Token c = ls_ClientToken sl" using c'(1) by (simp add: mem)
  then obtain i where i: "first_idx (\<lambda>c. cl_Token c = ls_ClientToken sl) cs' = Some i"
    using first_idx_None [of "\<lambda>c. cl_Token c = ls_ClientToken sl" cs'] by (cases "first_idx (\<lambda>c. cl_Token c = ls_ClientToken sl) cs'") auto
  then have l: "i < length cs'" using first_idx_Some by blast
  let ?c = "(cs' ! i)\<lparr>cl_Actors := cl_Actors (cs' ! i) @ [?ca]\<rparr>"
  have r: "add_remote sl k cs = cs'[i := ?c]"
    using i by (simp add: add_remote_def cs'_def mem Let_def)
  have "client_tokens (cs'[i := ?c]) = client_tokens cs'"
    using l by (simp add: client_tokens_def map_update list_update_same_conv)
  then show "client_tokens (add_remote sl k cs) =
      (if ls_ClientToken sl \<in> set (client_tokens cs) then client_tokens cs
       else client_tokens cs @ [ls_ClientToken sl])" by (simp add: r c'(1))
  show "mset (remote_claims (add_remote sl k cs)) = add_mset (ls_StoryToken sl, k) (mset (remote_claims cs))"
    unfolding r c'(2) [symmetric]
    by (rule mset_concat_update [OF l]) (simp add: claim_def slot_Actor_def)
  show "mset (remote_tokens (add_remote sl k cs)) = add_mset (ls_ActorToken sl) (mset (remote_tokens cs))"
    unfolding r c'(3) [symmetric]
    by (rule mset_concat_update [OF l]) (simp add: slot_Actor_def)
  show "mset (remote_configs (add_remote sl k cs)) = add_mset (ls_Config sl) (mset (remote_configs cs))"
    unfolding r c'(4) [symmetric]
    by (rule mset_concat_update [OF l]) (simp add: slot_Actor_def)
qed

definition taken :: "LobbySlot \<Rightarrow> bool" where
  "taken sl \<longleftrightarrow> isLocal sl \<or> isRemote sl"

text \<open>What the loop adds to the session.\<close>

lemma slots_fold:
  assumes "\<forall>sl \<in> set sls. taken sl"
    and "foldl (\<lambda>st sl. session_slot sl st) (s, k, prev) sls = (s', k', prev')"
  shows "ss_Token s' = ss_Token s \<and>
    map st_Token (ss_Stories s') = map st_Token (ss_Stories s) @ new_stories prev (map ls_StoryToken sls) \<and>
    mset (session_claims s') = mset (session_claims s) + mset (number prev k (map ls_StoryToken sls)) \<and>
    map at_Token (ss_LocalActors s') = map at_Token (ss_LocalActors s) @ map ls_ActorToken (filter isLocal sls) \<and>
    mset (remote_tokens (ss_Clients s')) =
      mset (remote_tokens (ss_Clients s)) + mset (map ls_ActorToken (filter isRemote sls)) \<and>
    mset (remote_configs (ss_Clients s')) =
      mset (remote_configs (ss_Clients s)) + mset (map ls_Config (filter isRemote sls)) \<and>
    (distinct (client_tokens (ss_Clients s)) \<longrightarrow> distinct (client_tokens (ss_Clients s'))) \<and>
    set (client_tokens (ss_Clients s')) =
      set (client_tokens (ss_Clients s)) \<union> ls_ClientToken ` set (filter isRemote sls)"
  using assms
proof (induction sls arbitrary: s k prev)
  case (Cons sl sls)
  obtain s1 k1 prev1 where one: "session_slot sl (s, k, prev) = (s1, k1, prev1)" by (metis prod_cases3)
  let ?k = "if ls_StoryToken sl \<noteq> prev then 0 else k"
  have k1: "k1 = ?k + 1" "prev1 = ls_StoryToken sl"
    using one by (auto simp: session_slot_def Let_def split: if_splits)
  have ex: "isLocal sl \<Longrightarrow> \<not> isRemote sl" by (rule kinds_exclusive(3))
  have s1: "ss_Token s1 = ss_Token s"
    "map st_Token (ss_Stories s1) = map st_Token (ss_Stories s) @ (if ls_StoryToken sl \<noteq> prev then [ls_StoryToken sl] else [])"
    "ss_LocalActors s1 = ss_LocalActors s @ (if isLocal sl then [slot_Actor sl ?k] else [])"
    "ss_Clients s1 = (if isRemote sl then add_remote sl ?k (ss_Clients s) else ss_Clients s)"
    using one ex Cons.prems(1) by (auto simp: session_slot_def Let_def taken_def split: if_splits)
  have c: "mset (session_claims s1) = add_mset (ls_StoryToken sl, ?k) (mset (session_claims s))"
  proof (cases "isLocal sl")
    case True
    then show ?thesis using ex unfolding session_claims_def s1(3,4) by (simp add: claim_def slot_Actor_def)
  next
    case False
    then have "isRemote sl" using Cons.prems(1) by (simp add: taken_def)
    then show ?thesis using False unfolding session_claims_def s1(3,4) by (simp add: add_remote_spec(2))
  qed
  have "foldl (\<lambda>st sl. session_slot sl st) (s1, k1, prev1) sls = (s', k', prev')"
    using Cons.prems(2) one by simp
  from Cons.IH [OF _ this] Cons.prems(1)
  show ?case
    using ex Cons.prems(1) unfolding s1 c k1
    by (auto simp: add_remote_spec taken_def slot_Actor_def)
qed auto

lemma number_fst: "map fst (number prev k ts) = ts"
  by (induction ts arbitrary: prev k) auto

lemma new_stories_cover: "t \<in> set ts \<Longrightarrow> t = prev \<or> t \<in> set (new_stories prev ts)"
  by (induction ts arbitrary: prev) auto

lemma new_stories_sub: "set (new_stories prev ts) \<subseteq> set ts"
  by (induction ts arbitrary: prev) auto

lemma number_indices:
  assumes "distinct (prev # new_stories prev ts)" and "\<forall>u. count_list ts u \<le> 64"
    and "unat k + count_list ts prev \<le> 64"
  shows "indices (number prev k ts) u =
    (if u = prev then [unat k..<unat k + count_list ts u] else [0..<count_list ts u])"
  using assms
proof (induction ts arbitrary: prev k)
  case (Cons t ts)
  have le: "count_list ts u \<le> 64" for u using Cons.prems(2) by (metis (full_types) count_list.simps(2) add_leD1 le_add1 le_trans)
  show ?case
  proof (cases "t = prev")
    case True
    have k: "unat k + 1 + count_list ts prev \<le> 64" using Cons.prems(3) True by simp
    then have "unat (k + 1) = unat k + 1" by (simp add: unat_word_ariths)
    with k Cons.IH [of prev "k + 1"] Cons.prems(1) le show ?thesis
      by (auto simp: True indices_def upt_conv_Cons)
  next
    case False
    have d: "distinct (t # new_stories t ts)" "prev \<notin> set (t # new_stories t ts)"
      using Cons.prems(1) False by auto
    then have "prev \<notin> set ts" using new_stories_cover by fastforce
    then have z: "count_list ts prev = 0" by simp
    have "unat (1 :: byte) + count_list ts t \<le> 64" using Cons.prems(2) [rule_format, of t] by simp
    from Cons.IH [OF d(1) _ this] le False z show ?thesis
      by (auto simp: indices_def upt_conv_Cons)
  qed
qed (simp add: indices_def)

lemma indices_mset: "mset L = mset K \<Longrightarrow> mset (indices L t) = mset (indices K t)"
  by (simp add: indices_def mset_filter)

lemma claims_ok_mset: "mset L = mset K \<Longrightarrow> claims_ok ts L = claims_ok ts K"
proof -
  assume m: "mset L = mset K"
  have "mset (filter (\<lambda>c. unat (snd c) < 64) L) = mset (filter (\<lambda>c. unat (snd c) < 64) K)"
    using m by (simp add: mset_filter)
  from mset_eq_imp_distinct_iff [OF this] show ?thesis
    using mset_eq_setD [OF m] by (simp add: claims_ok_def)
qed

lemma gapless_mset: "mset L = mset K \<Longrightarrow> gapless L t = gapless K t"
  using indices_mset [of L K t] by (metis gapless_def mset_eq_setD mset_eq_length mset_zero_iff)

lemma number_claims_ok:
  assumes "\<And>u. distinct (indices L u)" and "set (map fst L) \<subseteq> set ts"
  shows "claims_ok ts L"
proof -
  have "distinct (filter (\<lambda>c. unat (snd c) < 64) L)"
    using assms(1)
  proof (induction L)
    case (Cons c L)
    have "distinct (indices L u)" for u
      using Cons.prems [of u] by (auto simp: indices_def split: if_splits)
    then have IH: "distinct (filter (\<lambda>c. unat (snd c) < 64) L)" by (rule Cons.IH)
    have "c \<notin> set L" if "unat (snd c) < 64"
      using Cons.prems [of "fst c"] that by (auto simp: indices_def)
    then show ?case using IH by simp
  qed simp
  then show ?thesis using assms(2) by (auto simp: claims_ok_def)
qed

text \<open>What the caller does with the session of a lobby: it gives every story and remote actor a channel.\<close>

definition connect :: "(token \<Rightarrow> nat) \<Rightarrow> (token \<Rightarrow> nat) \<Rightarrow> Session \<Rightarrow> Session" where
  "connect f g s =
     s\<lparr>ss_Stories := map (\<lambda>y. y\<lparr>st_Channel := Some (f (st_Token y))\<rparr>) (ss_Stories s),
       ss_Clients := map (\<lambda>c. c\<lparr>cl_Actors := map (\<lambda>a. a\<lparr>ca_Channel := Some (g (at_Token (ca_Actor a)))\<rparr>)
         (cl_Actors c)\<rparr>) (ss_Clients s)\<rparr>"

lemma connect_simps:
  "ss_Token (connect f g s) = ss_Token s" "map st_Token (ss_Stories (connect f g s)) = map st_Token (ss_Stories s)"
  "length (ss_Stories (connect f g s)) = length (ss_Stories s)"
  "\<forall>y \<in> set (ss_Stories (connect f g s)). st_Channel y \<noteq> None"
  "ss_LocalActors (connect f g s) = ss_LocalActors s" "length (ss_Clients (connect f g s)) = length (ss_Clients s)"
  "map cl_Token (ss_Clients (connect f g s)) = client_tokens (ss_Clients s)"
  "session_claims (connect f g s) = session_claims s"
  by (auto simp: connect_def comp_def session_claims_def client_tokens_def)

lemma distinct_concat_each: "distinct (concat (map f xs)) \<Longrightarrow> x \<in> set xs \<Longrightarrow> distinct (f x)"
  by (induction xs) auto

lemma connect_clients:
  assumes "tokens_ok [] (remote_tokens (ss_Clients s))" and "None \<notin> set (remote_configs (ss_Clients s))"
  shows "\<forall>c \<in> set (ss_Clients (connect f g s)). client_ok c"
proof
  fix c assume "c \<in> set (ss_Clients (connect f g s))"
  then obtain d where d: "d \<in> set (ss_Clients s)" "c = d\<lparr>cl_Actors := map (\<lambda>a. a\<lparr>ca_Channel :=
      Some (g (at_Token (ca_Actor a)))\<rparr>) (cl_Actors d)\<rparr>"
    by (auto simp: connect_def)
  have "distinct (actor_tokens (cl_Actors d))"
    using assms(1) d(1) distinct_concat_each [of "\<lambda>c. actor_tokens (cl_Actors c)" "ss_Clients s" d]
    by (simp add: tokens_ok_def)
  moreover have "0 \<notin> set (actor_tokens (cl_Actors d))" using assms(1) d(1) by (auto simp: tokens_ok_def)
  moreover have "\<forall>a \<in> set (cl_Actors d). at_Config (ca_Actor a) \<noteq> None" using assms(2) d(1) by force
  ultimately show "client_ok c"
    by (auto simp: client_ok_def tokens_ok_def remote_complete_def d(2) comp_def)
qed

text \<open>
  The slots of a lobby that the session's limits allow for: the slots of a story stand together, every
  story has at most 64 of them, and there are at most 64 stories and clients; players have nonzero
  tokens, and remote ones a configuration.
\<close>

definition slots_fit :: "LobbySlot list \<Rightarrow> bool" where
  "slots_fit sls \<longleftrightarrow>
     0 \<notin> set (map ls_StoryToken sls) \<and> distinct (new_stories 0 (map ls_StoryToken sls)) \<and>
     (\<forall>t. count_list (map ls_StoryToken sls) t \<le> 64) \<and> length (new_stories 0 (map ls_StoryToken sls)) \<le> 64 \<and>
     (\<forall>sl \<in> set sls. ls_ActorToken sl \<noteq> 0) \<and>
     (\<forall>sl \<in> set sls. isRemote sl \<longrightarrow> ls_ClientToken sl \<noteq> 0 \<and> ls_Config sl \<noteq> None) \<and>
     card (ls_ClientToken ` set (filter isRemote sls)) \<le> 64 \<and> (\<exists>sl \<in> set sls. isRemote sl)"

lemma distinct_filter_map: "distinct (map f xs) \<Longrightarrow> distinct (map f (filter P xs))"
  by (induction xs) auto

lemma full_lobby_slots:
  assumes "lobby_ok s" and "lb_state s \<noteq> StateActive" and "\<forall>sl \<in> set (lb_slots s). ls_ActorToken sl \<noteq> 0"
  shows "\<forall>sl \<in> set (lb_slots s). taken sl" and "tokens_ok [] (map ls_ActorToken (lb_slots s))"
proof -
  show "\<forall>sl \<in> set (lb_slots s). taken sl"
    using assms(1,2) by (auto simp: lobby_ok_def state_ok_def slot_ok_def taken_def)
  have "distinct (map ls_ActorToken (lb_slots s))"
    using assms(1,3) unfolding lobby_ok_def actors_apart_def distinct_conv_nth by (metis length_map nth_map nth_mem)
  then show "tokens_ok [] (map ls_ActorToken (lb_slots s))" using assms(3) by (auto simp: tokens_ok_def)
qed

lemma slots_claims:
  assumes "slots_fit sls"
  shows "claims_ok (new_stories 0 (map ls_StoryToken sls)) (number 0 0 (map ls_StoryToken sls))"
    and "\<forall>t \<in> set (new_stories 0 (map ls_StoryToken sls)). gapless (number 0 0 (map ls_StoryToken sls)) t"
    and "tokens_ok [] (new_stories 0 (map ls_StoryToken sls))" and "1 \<le> length (new_stories 0 (map ls_StoryToken sls))"
proof -
  let ?ts = "map ls_StoryToken sls"
  have fit: "0 \<notin> set ?ts" "distinct (new_stories 0 ?ts)" "\<forall>t. count_list ?ts t \<le> 64" "\<exists>sl \<in> set sls. isRemote sl"
    using assms by (simp_all add: slots_fit_def)
  have d0: "distinct (0 # new_stories 0 ?ts)" using fit(1,2) new_stories_sub [of 0 ?ts] by auto
  have c0: "unat (0 :: byte) + count_list ?ts 0 \<le> 64" using fit(1) by simp
  have idx: "indices (number 0 0 ?ts) u = [0..<count_list ?ts u]" for u
    using number_indices [OF d0 fit(3) c0, of u] fit(1) by auto
  have cover: "set ?ts \<subseteq> set (new_stories 0 ?ts)" using new_stories_cover fit(1) by fastforce
  show "claims_ok (new_stories 0 ?ts) (number 0 0 ?ts)"
    by (rule number_claims_ok) (use cover in \<open>simp_all only: idx distinct_upt number_fst\<close>)
  show "\<forall>t \<in> set (new_stories 0 ?ts). gapless (number 0 0 ?ts) t"
  proof
    fix t assume "t \<in> set (new_stories 0 ?ts)"
    then have "t \<in> set ?ts" using new_stories_sub by blast
    then have "0 < count_list ?ts t" by (simp add: count_list_0_iff zero_less_iff_neq_zero)
    then show "gapless (number 0 0 ?ts) t" unfolding gapless_def idx by simp
  qed
  show "tokens_ok [] (new_stories 0 ?ts)" using d0 by (simp add: tokens_ok_def)
  have "?ts \<noteq> []" using fit(4) by auto
  then have "new_stories 0 ?ts \<noteq> []" using cover by auto
  then show "1 \<le> length (new_stories 0 ?ts)" by (simp add: Suc_le_eq)
qed

lemma lobby_session_validates:
  assumes "lobby_ok s" and "lb_state s \<noteq> StateActive" and "slots_fit (lb_slots s)" and "token \<noteq> 0"
  shows "Session_Validate (connect f g (lobbyToSession token name def (lb_slots s))) = None"
proof -
  let ?sls = "lb_slots s" and ?ts = "map ls_StoryToken (lb_slots s)"
  define n where "n = lobbyToSession token name def ?sls"
  have fit: "0 \<notin> set ?ts" "distinct (new_stories 0 ?ts)" "\<forall>t. count_list ?ts t \<le> 64"
    "length (new_stories 0 ?ts) \<le> 64" "\<forall>sl \<in> set ?sls. ls_ActorToken sl \<noteq> 0"
    "\<forall>sl \<in> set ?sls. isRemote sl \<longrightarrow> ls_ClientToken sl \<noteq> 0 \<and> ls_Config sl \<noteq> None"
    "card (ls_ClientToken ` set (filter isRemote ?sls)) \<le> 64" "\<exists>sl \<in> set ?sls. isRemote sl"
    using assms(3) by (simp_all add: slots_fit_def)
  note full = full_lobby_slots [OF assms(1,2) fit(5)]
  let ?s0 = "\<lparr>ss_Token = token, ss_Name = name, ss_Def = def, ss_LocalActors = [], ss_Clients = [],
         ss_Stories = []\<rparr> :: Session"
  obtain k prev where "foldl (\<lambda>st sl. session_slot sl st) (?s0, 0, 0) ?sls = (n, k, prev)"
    by (cases "foldl (\<lambda>st sl. session_slot sl st) (?s0, 0, 0) ?sls") (simp add: n_def lobbyToSession_def)
  note N = slots_fold [OF full(1) this]
  have N1: "ss_Token n = token" "map st_Token (ss_Stories n) = new_stories 0 ?ts"
    "mset (session_claims n) = mset (number 0 0 ?ts)"
    "map at_Token (ss_LocalActors n) = map ls_ActorToken (filter isLocal ?sls)"
    "mset (remote_tokens (ss_Clients n)) = mset (map ls_ActorToken (filter isRemote ?sls))"
    "mset (remote_configs (ss_Clients n)) = mset (map ls_Config (filter isRemote ?sls))"
    "distinct (client_tokens (ss_Clients n))"
    "set (client_tokens (ss_Clients n)) = ls_ClientToken ` set (filter isRemote ?sls)"
    using N by (simp_all add: session_claims_def client_tokens_def)
  note sc = slots_claims [OF assms(3)]
  have claims: "claims_ok (new_stories 0 ?ts) (session_claims n)"
    unfolding claims_ok_mset [OF N1(3)] by (rule sc(1))
  have gap: "gapless (session_claims n) t" if "t \<in> set (new_stories 0 ?ts)" for t
    using sc(2) that gapless_mset [OF N1(3)] by simp
  have len: "length (ss_Clients n) = card (ls_ClientToken ` set (filter isRemote ?sls))"
    using distinct_card [OF N1(7)] N1(8) by (simp add: client_tokens_def)
  have "0 < card (ls_ClientToken ` set (filter isRemote ?sls))" using fit(8) by (auto simp: card_gt_0_iff)
  then have clients: "1 \<le> length (ss_Clients n)" "length (ss_Clients n) \<le> 64" using len fit(7) by auto
  have tok: "tokens_ok [] (map ls_ActorToken (filter P ?sls))" for P
    using full(2) distinct_filter_map [of ls_ActorToken ?sls P] by (auto simp: tokens_ok_def)
  have rt: "tokens_ok [] (remote_tokens (ss_Clients n))"
    using tok [of isRemote] mset_eq_setD [OF N1(5)] mset_eq_imp_distinct_iff [OF N1(5)]
    by (simp only: tokens_ok_def list.set(1) Int_empty_right simp_thms)
  have rc: "None \<notin> set (remote_configs (ss_Clients n))"
    using fit(6) unfolding mset_eq_setD [OF N1(6)] by force
  have ct: "tokens_ok [] (client_tokens (ss_Clients n))" using N1(7,8) fit(6) by (auto simp: tokens_ok_def)
  have st: "length (ss_Stories n) = length (new_stories 0 ?ts)" using N1(2) by (metis length_map)
  have "session_valid (connect f g n)"
    unfolding session_valid_def connect_simps N1(1,2,4) st
    using assms(4) clients fit(4) sc(3,4) tok [of isLocal] ct connect_clients [OF rt rc] claims gap N1(2) connect_simps(2,4)
    by auto (metis imageI set_map)
  then show ?thesis by (simp add: Session_Validate_spec n_def)
qed

text \<open>
  The session of any reachable full lobby whose slots respect the session's limits passes the
  validation once the caller has given its stories and remote actors their channels.
\<close>

theorem lobby_session_valid:
  assumes "lobby_ok s" and "lb_state s \<noteq> StateActive" and "slots_fit (lb_slots s)" and "token \<noteq> 0"
  shows "Session_Validate (connect f g (lobbyToSession token name def (lb_slots s))) = None"
  by (rule lobby_session_validates [OF assms])

theorem lobby_session_valid_witness:
  "Session_Validate (connect (\<lambda>_. 0) (\<lambda>_. 1) (lobbyToSession 1 [76] []
     (lb_slots (fst (turn 4 sample_join (fst (turn 3 (JoinReq 3 0 0 [66]) sample_lobby))))))) = None"
proof -
  let ?s = "fst (turn 4 sample_join (fst (turn 3 (JoinReq 3 0 0 [66]) sample_lobby)))"
  have ok: "lobby_ok ?s"
    by (intro turn_ok new_lobby_ok(1) [OF sample_lobby_new])
  have st: "lb_state ?s \<noteq> StateActive" by code_simp
  have sl: "lb_slots ?s =
    [\<lparr>ls_StoryToken = 5, ls_Availability = SlotLocal0, ls_ClientToken = 0, ls_ActorToken = 3, ls_Name = [66],
      ls_Config = None\<rparr>,
     \<lparr>ls_StoryToken = 5, ls_Availability = SlotRemote, ls_ClientToken = 9, ls_ActorToken = 7, ls_Name = [65],
      ls_Config = Some []\<rparr>]"
    by code_simp
  have r: "\<not> isRemote (lb_slots ?s ! 0)" "isRemote (lb_slots ?s ! 1)" by code_simp+
  have "count_list [5, 5 :: token] t \<le> 64" for t by simp
  then have "slots_fit (lb_slots ?s)" using r by (simp add: sl slots_fit_def)
  from lobby_session_valid [OF ok st this, of 1] show ?thesis by simp
qed

end
