(* ===== verification/RecentBuf.thy ===== *)
theory RecentBuf
  imports Streams
begin

text \<open>
  \<open>sequence/recent.go\<close>: \<open>Recent\<close>, a ring buffer of the most recent entries of a stream. An entry
  removed from the middle leaves a hole (an entry with number \<open>SequenceNone\<close>); holes at either end
  of the window are trimmed.

  All loops of the file walk the window: \<open>n\<close> counts down from \<open>size\<close> while \<open>idx\<close> moves up from
  the tail or down from the head and wraps at the ends of the array. They are \<open>for_up\<close> and
  \<open>for_down\<close> here, with the loop body as an argument; the body says whether to leave the loop.
  Indices are in range by \<open>recent_ok\<close>; the one access that can panic, \<open>Push\<close> on a buffer of
  capacity 0, returns the panic.
\<close>

section \<open>The buffer\<close>

record recentEntry =
  re_entry :: Entry
  cumulativeDelay :: duration

record Recent =
  rc_head :: int
  rc_size :: int
  rc_holes :: int
  rc_maxTotalDelay :: duration
  rc_maxTotalByteSize :: int
  rc_entries :: "recentEntry list"

definition zero_Entry :: Entry where
  "zero_Entry = \<lparr>Seq = 0, Delay = 0, Payload = []\<rparr>"

definition zero_recentEntry :: recentEntry where
  "zero_recentEntry = \<lparr>re_entry = zero_Entry, cumulativeDelay = 0\<rparr>"

abbreviation rseq :: "recentEntry \<Rightarrow> int" where
  "rseq w \<equiv> Seq (re_entry w)"

definition NewRecent :: "int \<Rightarrow> Recent go" where
  "NewRecent capacity =
     (if capacity < 0 then Inl ''makeslice: len out of range''
      else Inr \<lparr>rc_head = 0, rc_size = 0, rc_holes = 0, rc_maxTotalDelay = 0,
        rc_maxTotalByteSize = 0, rc_entries = replicate (nat capacity) zero_recentEntry\<rparr>)"

abbreviation rcap :: "Recent \<Rightarrow> int" where
  "rcap r \<equiv> int (length (rc_entries r))"

definition rc_tail :: "Recent \<Rightarrow> int" where
  "rc_tail r =
     (let tail = rc_head r - rc_size r + 1 in if tail < 0 then tail + rcap r else tail)"

section \<open>Loops over the window\<close>

definition wrap_up :: "int \<Rightarrow> int \<Rightarrow> int" where
  "wrap_up cap idx = (if idx + 1 = cap then 0 else idx + 1)"

definition wrap_down :: "int \<Rightarrow> int \<Rightarrow> int" where
  "wrap_down cap idx = (if idx = 0 then cap - 1 else idx - 1)"

fun for_up :: "int \<Rightarrow> nat \<Rightarrow> int \<Rightarrow> (int \<Rightarrow> 's \<Rightarrow> bool \<times> 's) \<Rightarrow> 's \<Rightarrow> 's" where
  "for_up cap 0 idx body st = st"
| "for_up cap (Suc n) idx body st =
     (let (stop, st') = body idx st
      in if stop then st' else for_up cap n (wrap_up cap idx) body st')"

fun for_down :: "int \<Rightarrow> nat \<Rightarrow> int \<Rightarrow> (int \<Rightarrow> 's \<Rightarrow> bool \<times> 's) \<Rightarrow> 's \<Rightarrow> 's" where
  "for_down cap 0 idx body st = st"
| "for_down cap (Suc n) idx body st =
     (let (stop, st') = body idx st
      in if stop then st' else for_down cap n (wrap_down cap idx) body st')"

section \<open>Operations\<close>

definition incCumulativeDelay :: "duration \<Rightarrow> Recent \<Rightarrow> Recent" where
  "incCumulativeDelay d r =
     r\<lparr>rc_entries := for_up (rcap r) (nat (rc_size r)) (rc_tail r)
        (\<lambda>idx es. (False,
           let w = es ! nat idx
           in if rseq w \<noteq> SequenceNone
              then es[nat idx := w\<lparr>cumulativeDelay := i64 (cumulativeDelay w + d)\<rparr>] else es))
        (rc_entries r)\<rparr>"

definition trimHead :: "Recent \<Rightarrow> Recent" where
  "trimHead r =
     for_down (rcap r) (nat (rc_size r)) (rc_head r)
       (\<lambda>idx s. if rseq (rc_entries s ! nat idx) \<noteq> SequenceNone then (True, s)
          else let h = rc_head s - 1
               in (False, s\<lparr>rc_holes := rc_holes s - 1, rc_size := rc_size s - 1,
                    rc_head := (if h < 0 then h + rcap s else h)\<rparr>))
       r"

definition trimTail :: "Recent \<Rightarrow> Recent" where
  "trimTail r =
     (if rc_holes r = 0 then r
      else for_up (rcap r) (nat (rc_size r)) (rc_tail r)
        (\<lambda>idx s. if rseq (rc_entries s ! nat idx) \<noteq> SequenceNone then (True, s)
           else (False, s\<lparr>rc_holes := rc_holes s - 1, rc_size := rc_size s - 1\<rparr>))
        r)"

definition Recent_Push :: "Entry \<Rightarrow> Recent \<Rightarrow> Recent go" where
  "Recent_Push e r0 =
     (let r1 = incCumulativeDelay (Delay e) r0;
          r2 = (if rc_size r1 < rcap r1 then r1\<lparr>rc_size := rc_size r1 + 1\<rparr> else r1);
          h = (if rc_head r2 + 1 = rcap r2 then 0 else rc_head r2 + 1)
      in if h < rcap r2 then
           Inr (trimTail (r2\<lparr>rc_head := h,
             rc_entries := (rc_entries r2)[nat h := \<lparr>re_entry = e, cumulativeDelay = 0\<rparr>]\<rparr>))
         else Inl ''index out of range'')"

definition Recent_Pop :: "Recent \<Rightarrow> Recent \<times> Entry \<times> bool" where
  "Recent_Pop r =
     (if rc_size r = 0 then (r, zero_Entry, False)
      else let e = re_entry (rc_entries r ! nat (rc_tail r))
      in (trimTail (r\<lparr>rc_size := rc_size r - 1\<rparr>), e, True))"

definition Recent_Remove :: "int \<Rightarrow> Recent \<Rightarrow> Recent \<times> Entry \<times> bool" where
  "Recent_Remove sq r =
     (let (r', e, found) =
        for_down (rcap r) (nat (rc_size r)) (rc_head r)
          (\<lambda>idx (s, e, f).
             if rseq (rc_entries s ! nat idx) = sq then
               (True, s\<lparr>rc_entries := (rc_entries s)[nat idx := zero_recentEntry],
                        rc_holes := rc_holes s + 1\<rparr>,
                re_entry (rc_entries s ! nat idx), True)
             else (False, s, e, f))
          (r, zero_Entry, False)
      in if \<not> found then (r', e, found) else (trimTail (trimHead r'), e, found))"

definition Recent_RemoveFn :: "(int \<Rightarrow> bool) \<Rightarrow> Recent \<Rightarrow> Recent" where
  "Recent_RemoveFn shouldRemove r =
     (let r' = for_down (rcap r) (nat (rc_size r)) (rc_head r)
        (\<lambda>idx s. (False,
           let sq = rseq (rc_entries s ! nat idx)
           in if sq \<noteq> SequenceNone \<and> shouldRemove sq then
                s\<lparr>rc_entries := (rc_entries s)[nat idx := zero_recentEntry],
                  rc_holes := rc_holes s + 1\<rparr>
              else s)) r
      in if rc_holes r' > 0 then r' else trimTail (trimHead r'))"

definition Recent_LastSeq :: "Recent \<Rightarrow> int" where
  "Recent_LastSeq r =
     (if rc_size r = 0 then SequenceNone else rseq (rc_entries r ! nat (rc_head r)))"

definition Recent_Len :: "Recent \<Rightarrow> int" where
  "Recent_Len r =
     (if rc_holes r = 0 then rc_size r
      else for_down (rcap r) (nat (rc_size r)) (rc_head r)
        (\<lambda>idx l. (False, if rseq (rc_entries r ! nat idx) \<noteq> SequenceNone then l + 1 else l)) 0)"

text \<open>\<open>Recent\<close>: the loop's state is the collected slice and the total payload size so far.\<close>

definition Recent_Recent :: "Recent \<Rightarrow> Entry list" where
  "Recent_Recent r =
     rev (fst (for_down (rcap r) (nat (rc_size r)) (rc_head r)
       (\<lambda>idx (acc, currSize).
          let w = rc_entries r ! nat idx
          in if rseq w \<noteq> SequenceNone then
               let currDelay = cumulativeDelay w;
                   currSize' = i64 (currSize + int (length (Payload (re_entry w))))
               in if (rc_maxTotalDelay r > 0 \<and> currDelay > rc_maxTotalDelay r) \<or>
                     (rc_maxTotalByteSize r > 0 \<and> currSize' > rc_maxTotalByteSize r)
                  then (True, acc, currSize')
                  else (False, acc @ [re_entry w], currSize')
             else (False, acc, currSize))
       ([], 0)))"

definition SetRecentTotalDelayLimit :: "duration \<Rightarrow> Recent \<Rightarrow> Recent" where
  "SetRecentTotalDelayLimit dur r = r\<lparr>rc_maxTotalDelay := dur\<rparr>"

definition SetRecentTotalByteSizeLimit :: "int \<Rightarrow> Recent \<Rightarrow> Recent" where
  "SetRecentTotalByteSizeLimit n r = r\<lparr>rc_maxTotalByteSize := n\<rparr>"

definition Recent_Iterate :: "(Entry \<Rightarrow> 's \<Rightarrow> bool \<times> 's) \<Rightarrow> Recent \<Rightarrow> 's \<Rightarrow> 's" where
  "Recent_Iterate fn r st =
     for_up (rcap r) (nat (rc_size r)) (rc_tail r)
       (\<lambda>idx s.
          let w = rc_entries r ! nat idx
          in if rseq w \<noteq> SequenceNone then
               let (go_on, s') = fn (re_entry w) s in (\<not> go_on, s')
             else (False, s))
       st"

definition Recent_Clear :: "Recent \<Rightarrow> Recent" where
  "Recent_Clear r = r\<lparr>rc_size := 0, rc_holes := 0\<rparr>"

section \<open>The loops as runs over the window\<close>

text \<open>\<open>run_over\<close> is a loop over a list of indices; both loops are one.\<close>

fun run_over :: "('i \<Rightarrow> 's \<Rightarrow> bool \<times> 's) \<Rightarrow> 'i list \<Rightarrow> 's \<Rightarrow> 's" where
  "run_over body [] st = st"
| "run_over body (i # is) st =
     (let (stop, st') = body i st in if stop then st' else run_over body is st')"

definition up_from :: "int \<Rightarrow> int \<Rightarrow> nat \<Rightarrow> int list" where
  "up_from cap p n = map (\<lambda>j. (p + int j) mod cap) [0..<n]"

definition down_from :: "int \<Rightarrow> int \<Rightarrow> nat \<Rightarrow> int list" where
  "down_from cap p n = map (\<lambda>j. (p - int j) mod cap) [0..<n]"

lemma up_from_Suc: "up_from cap p (Suc n) = p mod cap # up_from cap (p + 1) n"
  by (simp add: up_from_def upt_conv_Cons map_Suc_upt [symmetric] algebra_simps del: upt_Suc)

lemma down_from_Suc: "down_from cap p (Suc n) = p mod cap # down_from cap (p - 1) n"
  by (simp add: down_from_def upt_conv_Cons map_Suc_upt [symmetric] algebra_simps del: upt_Suc)

lemma up_from_0 [simp]: "up_from cap p 0 = []"
  by (simp add: up_from_def)

lemma down_from_0 [simp]: "down_from cap p 0 = []"
  by (simp add: down_from_def)

lemma wrap_up_mod:
  assumes "0 < cap"
  shows "wrap_up cap (p mod cap) = (p + 1) mod cap"
proof (cases "p mod cap + 1 = cap")
  case True
  have "(p + 1) mod cap = (p mod cap + 1) mod cap" by (simp only: mod_add_left_eq)
  also have "\<dots> = 0" using True by (simp only: mod_self)
  finally show ?thesis using True by (simp add: wrap_up_def)
next
  case False
  moreover have "p mod cap < cap" "0 \<le> p mod cap" using assms by auto
  ultimately have "(p mod cap + 1) mod cap = p mod cap + 1" by (intro mod_pos_pos_trivial) auto
  then show ?thesis using False by (simp add: wrap_up_def mod_add_left_eq)
qed

lemma wrap_down_mod:
  assumes "0 < cap"
  shows "wrap_down cap (p mod cap) = (p - 1) mod cap"
proof (cases "p mod cap = 0")
  case True
  have "(p - 1) mod cap = (p mod cap - 1) mod cap" by (simp add: mod_diff_left_eq)
  also have "\<dots> = cap - 1" using True assms by (simp add: zmod_minus1)
  finally show ?thesis using True by (simp add: wrap_down_def)
next
  case False
  moreover have "p mod cap < cap" "0 \<le> p mod cap" using assms by auto
  ultimately have "(p mod cap - 1) mod cap = p mod cap - 1" by (intro mod_pos_pos_trivial) auto
  then show ?thesis using False by (simp add: wrap_down_def mod_diff_left_eq)
qed

lemma for_up_run:
  assumes "0 < cap"
  shows "for_up cap n (p mod cap) body st = run_over body (up_from cap p n) st"
  using assms
  by (induction n arbitrary: p st) (simp_all add: up_from_Suc wrap_up_mod split: prod.split)

lemma for_down_run:
  assumes "0 < cap"
  shows "for_down cap n (p mod cap) body st = run_over body (down_from cap p n) st"
  using assms
  by (induction n arbitrary: p st) (simp_all add: down_from_Suc wrap_down_mod split: prod.split)

lemma down_rev_up: "down_from cap p n = rev (up_from cap (p - int n + 1) n)"
  by (rule nth_equalityI) (simp_all add: up_from_def down_from_def rev_nth algebra_simps)

lemma up_from_bound:
  assumes "0 < cap" and "i \<in> set (up_from cap p n)"
  shows "0 \<le> i \<and> i < cap"
  using assms by (auto simp: up_from_def)

lemma up_from_distinct:
  assumes "0 < cap" and "int n \<le> cap"
  shows "distinct (up_from cap p n)"
proof -
  have "inj_on (\<lambda>j. (p + int j) mod cap) {0..<n}"
  proof (rule inj_onI)
    fix a b assume ab: "a \<in> {0..<n}" "b \<in> {0..<n}" and "(p + int a) mod cap = (p + int b) mod cap"
    then have "cap dvd int a - int b" by (metis mod_eq_dvd_iff add_diff_cancel_left)
    moreover have "\<bar>int a - int b\<bar> < cap" using ab assms by auto
    ultimately show "a = b" using zdvd_imp_le [of cap "\<bar>int a - int b\<bar>"] by fastforce
  qed
  then show ?thesis by (simp add: up_from_def distinct_map)
qed

section \<open>The window\<close>

text \<open>
  The entries of the buffer from the tail to the head, and those of them that are not holes, with
  the delay accumulated since each was pushed.
\<close>

definition window_idx :: "Recent \<Rightarrow> int list" where
  "window_idx r = up_from (rcap r) (rc_head r - rc_size r + 1) (nat (rc_size r))"

definition window :: "Recent \<Rightarrow> recentEntry list" where
  "window r = map (\<lambda>i. rc_entries r ! nat i) (window_idx r)"

definition hole :: "recentEntry \<Rightarrow> bool" where
  "hole w \<longleftrightarrow> rseq w = SequenceNone"

definition live :: "Recent \<Rightarrow> recentEntry list" where
  "live r = filter (\<lambda>w. \<not> hole w) (window r)"

definition recent_ok :: "Recent \<Rightarrow> bool" where
  "recent_ok r \<longleftrightarrow> 0 < rcap r \<and> 0 \<le> rc_head r \<and> rc_head r < rcap r \<and>
     0 \<le> rc_size r \<and> rc_size r \<le> rcap r \<and>
     int (length (filter hole (window r))) \<le> rc_holes r"

lemma window_length [simp]: "length (window r) = nat (rc_size r)"
  by (simp add: window_def window_idx_def up_from_def)

lemma rc_tail_mod:
  assumes "recent_ok r" and "rc_size r \<noteq> 0"
  shows "rc_tail r = (rc_head r - rc_size r + 1) mod rcap r"
proof (cases "rc_head r - rc_size r + 1 < 0")
  case True
  have "(rc_head r - rc_size r + 1) mod rcap r = (rc_head r - rc_size r + 1 + rcap r) mod rcap r"
    by simp
  also have "\<dots> = rc_head r - rc_size r + 1 + rcap r"
    using True assms by (intro mod_pos_pos_trivial) (auto simp: recent_ok_def)
  finally show ?thesis using True by (simp add: rc_tail_def)
next
  case False
  then show ?thesis using assms by (auto simp: rc_tail_def recent_ok_def)
qed

lemma window_up:
  assumes "recent_ok r"
  shows "for_up (rcap r) (nat (rc_size r)) (rc_tail r) body st = run_over body (window_idx r) st"
proof (cases "rc_size r = 0")
  case True
  then show ?thesis by (simp add: window_idx_def)
next
  case False
  then show ?thesis using assms
    by (simp add: rc_tail_mod for_up_run window_idx_def recent_ok_def)
qed

lemma window_down:
  assumes "recent_ok r"
  shows "for_down (rcap r) (nat (rc_size r)) (rc_head r) body st =
    run_over body (rev (window_idx r)) st"
  using assms for_down_run [of "rcap r" "nat (rc_size r)" "rc_head r" body st]
  by (simp add: recent_ok_def window_idx_def down_rev_up)

lemma window_idx_bound: "0 < rcap r \<Longrightarrow> i \<in> set (window_idx r) \<Longrightarrow> 0 \<le> i \<and> i < rcap r"
  using up_from_bound by (fastforce simp: window_idx_def)

lemma window_idx_distinct: "recent_ok r \<Longrightarrow> distinct (window_idx r)"
  by (simp add: window_idx_def recent_ok_def up_from_distinct)


lemma run_over_read: "run_over (\<lambda>i. g (f i)) is s = run_over g (map f is) s"
  by (induction "is" arbitrary: s) (auto split: prod.split)

lemma run_over_True:
  "run_over (\<lambda>i s. (False, f i s)) is s = foldl (\<lambda>s i. f i s) s is"
  by (induction "is" arbitrary: s) auto

lemma foldl_update_pointwise:
  assumes "distinct (map nat is)" and "\<And>i. i \<in> set is \<Longrightarrow> nat i < length es"
  shows "foldl (\<lambda>es i. es[nat i := f (es ! nat i)]) es is =
    map (\<lambda>k. if k \<in> nat ` set is then f (es ! k) else es ! k) [0..<length es]"
  using assms
proof (induction "is" arbitrary: es)
  case Nil
  then show ?case by (simp add: map_nth)
next
  case (Cons i "is")
  have "foldl (\<lambda>es i. es[nat i := f (es ! nat i)]) es (i # is) =
      foldl (\<lambda>es i. es[nat i := f (es ! nat i)]) (es[nat i := f (es ! nat i)]) is" by simp
  also have "\<dots> = map (\<lambda>k. if k \<in> nat ` set is then f (es[nat i := f (es ! nat i)] ! k)
      else es[nat i := f (es ! nat i)] ! k) [0..<length es]"
    using Cons.prems by (subst Cons.IH) auto
  also have "\<dots> = map (\<lambda>k. if k \<in> nat ` set (i # is) then f (es ! k) else es ! k) [0..<length es]"
    using Cons.prems by (auto simp: nth_list_update)
  finally show ?case .
qed

lemma window_nat_distinct:
  assumes "recent_ok r"
  shows "distinct (map nat (window_idx r))"
proof -
  have "inj_on nat (set (window_idx r))"
  proof (rule inj_onI)
    fix a b assume "a \<in> set (window_idx r)" "b \<in> set (window_idx r)" "nat a = nat b"
    then show "a = b" using assms window_idx_bound [of r a] window_idx_bound [of r b]
      by (auto simp: recent_ok_def eq_nat_nat_iff)
  qed
  then show ?thesis by (simp add: distinct_map window_idx_distinct [OF assms])
qed

lemma window_map_update:
  assumes "recent_ok r"
  shows "map (\<lambda>i. foldl (\<lambda>es i. es[nat i := f (es ! nat i)]) (rc_entries r) (window_idx r) ! nat i)
     (window_idx r) = map f (window r)"
    and "length (foldl (\<lambda>es i. es[nat i := f (es ! nat i)]) (rc_entries r) (window_idx r)) =
      length (rc_entries r)"
proof -
  have b: "nat i < length (rc_entries r)" if "i \<in> set (window_idx r)" for i
    using assms window_idx_bound [of r i] that by (simp add: recent_ok_def nat_less_iff)
  note u = foldl_update_pointwise [OF window_nat_distinct [OF assms] b]
  show "map (\<lambda>i. foldl (\<lambda>es i. es[nat i := f (es ! nat i)]) (rc_entries r) (window_idx r) ! nat i)
     (window_idx r) = map f (window r)"
    using b by (simp add: u window_def)
  show "length (foldl (\<lambda>es i. es[nat i := f (es ! nat i)]) (rc_entries r) (window_idx r)) =
      length (rc_entries r)" by (simp add: u)
qed

section \<open>Trimming\<close>

lemma trim_up_run:
  "run_over (\<lambda>idx s. if rseq (rc_entries s ! nat idx) \<noteq> SequenceNone then (True, s)
       else (False, s\<lparr>rc_holes := rc_holes s - 1, rc_size := rc_size s - 1\<rparr>)) is r =
   (let k = length (takeWhile hole (map (\<lambda>i. rc_entries r ! nat i) is))
    in r\<lparr>rc_holes := rc_holes r - int k, rc_size := rc_size r - int k\<rparr>)"
  by (induction "is" arbitrary: r) (auto simp: Let_def hole_def)

lemma mod_cap_shift: "(a + c - b) mod c = (a - b) mod (c :: int)"
  using mod_add_self2 [of "a - b" c] by (simp add: algebra_simps)

lemma trim_down_run:
  assumes "0 \<le> rc_head r" and "rc_head r < rcap r"
  shows "run_over (\<lambda>idx s. if rseq (rc_entries s ! nat idx) \<noteq> SequenceNone then (True, s)
          else let h = rc_head s - 1
               in (False, s\<lparr>rc_holes := rc_holes s - 1, rc_size := rc_size s - 1,
                    rc_head := (if h < 0 then h + rcap s else h)\<rparr>)) is r =
   (let k = length (takeWhile hole (map (\<lambda>i. rc_entries r ! nat i) is))
    in r\<lparr>rc_holes := rc_holes r - int k, rc_size := rc_size r - int k,
         rc_head := (rc_head r - int k) mod rcap r\<rparr>)"
  using assms
proof (induction "is" arbitrary: r)
  case (Cons i "is")
  have m: "(if rc_head r - 1 < 0 then rc_head r - 1 + rcap r else rc_head r - 1) =
      (rc_head r - 1) mod rcap r"
  proof (cases "rc_head r = 0")
    case True
    then show ?thesis using wrap_down_mod [of "rcap r" "rc_head r"] Cons.prems
      by (simp add: wrap_down_def)
  next
    case False
    then show ?thesis using Cons.prems by simp
  qed
  have "0 \<le> (rc_head r - 1) mod rcap r" "(rc_head r - 1) mod rcap r < rcap r"
    by (rule pos_mod_sign, use Cons.prems in linarith, rule pos_mod_bound, use Cons.prems in linarith)
  then show ?case
    using Cons.prems
    by (simp add: Let_def hole_def m Cons.IH mod_diff_left_eq mod_cap_shift algebra_simps del: of_nat_mod)
qed (simp add: Let_def)

lemma window_drop:
  assumes "int k \<le> rc_size r"
  shows "window (r\<lparr>rc_holes := h, rc_size := rc_size r - int k\<rparr>) = drop k (window r)"
  using assms
  by (intro nth_equalityI)
    (auto simp: window_def window_idx_def up_from_def nat_diff_distrib algebra_simps)

lemma window_take:
  assumes "int k \<le> rc_size r" and "0 < rcap r"
  shows "window (r\<lparr>rc_holes := h, rc_size := rc_size r - int k,
    rc_head := (rc_head r - int k) mod rcap r\<rparr>) = take (nat (rc_size r) - k) (window r)"
proof (rule nth_equalityI)
  fix j assume "j < length (window (r\<lparr>rc_holes := h, rc_size := rc_size r - int k,
    rc_head := (rc_head r - int k) mod rcap r\<rparr>))"
  then have j: "int j < rc_size r - int k" by simp
  have "((rc_head r - int k) mod rcap r - (rc_size r - int k) + 1 + int j) mod rcap r =
     ((rc_head r - int k) mod rcap r + (1 + int j - (rc_size r - int k))) mod rcap r"
    by (simp only: algebra_simps)
  also have "\<dots> = (rc_head r - rc_size r + 1 + int j) mod rcap r"
    by (subst mod_add_left_eq) (simp add: algebra_simps)
  finally show "window (r\<lparr>rc_holes := h, rc_size := rc_size r - int k,
      rc_head := (rc_head r - int k) mod rcap r\<rparr>) ! j = take (nat (rc_size r) - k) (window r) ! j"
    using j assms by (simp add: window_def window_idx_def up_from_def)
qed (use assms in \<open>auto simp: nat_diff_distrib\<close>)

lemma takeWhile_hole_length: "length (takeWhile hole ws) \<le> length (filter hole ws)"
  by (induction ws) auto

lemma filter_hole_drop:
  "length (filter hole (drop (length (takeWhile hole ws)) ws)) =
   length (filter hole ws) - length (takeWhile hole ws)"
  by (induction ws) auto

lemma live_drop:
  "filter (\<lambda>w. \<not> hole w) (drop (length (takeWhile hole ws)) ws) = filter (\<lambda>w. \<not> hole w) ws"
  by (induction ws) auto

lemma trimTail_eq:
  assumes "recent_ok r"
  shows "trimTail r = (let k = length (takeWhile hole (window r))
    in r\<lparr>rc_holes := rc_holes r - int k, rc_size := rc_size r - int k\<rparr>)"
proof (cases "rc_holes r = 0")
  case True
  then have "filter hole (window r) = []" using assms by (simp add: recent_ok_def)
  then have "takeWhile hole (window r) = []"
    by (metis le_zero_eq length_0_conv takeWhile_hole_length)
  then show ?thesis using True by (simp add: trimTail_def)
next
  case False
  then show ?thesis
    unfolding trimTail_def by (simp add: window_up [OF assms] trim_up_run window_def)
qed


lemma trimTail_spec:
  assumes "recent_ok r"
  shows "recent_ok (trimTail r)" and "live (trimTail r) = live r"
    and "window (trimTail r) = dropWhile hole (window r)"
    and "rcap (trimTail r) = rcap r"
    and "rc_maxTotalDelay (trimTail r) = rc_maxTotalDelay r"
    and "rc_maxTotalByteSize (trimTail r) = rc_maxTotalByteSize r"
proof -
  let ?k = "length (takeWhile hole (window r))"
  have le: "?k \<le> length (filter hole (window r))" "?k \<le> length (window r)"
    by (rule takeWhile_hole_length, rule length_takeWhile_le)
  then have k: "int ?k \<le> rc_size r" "int ?k \<le> rc_holes r"
    using assms by (auto simp: recent_ok_def)
  show w: "window (trimTail r) = dropWhile hole (window r)"
    by (simp add: trimTail_eq [OF assms] Let_def window_drop k dropWhile_eq_drop)
  then show "live (trimTail r) = live r"
    by (simp add: live_def dropWhile_eq_drop live_drop)
  show "recent_ok (trimTail r)"
    using assms k le w
    by (auto simp: recent_ok_def trimTail_eq [OF assms] Let_def dropWhile_eq_drop filter_hole_drop)
qed (simp_all add: trimTail_eq [OF assms] Let_def)

lemma trimHead_spec:
  assumes "recent_ok r"
  shows "recent_ok (trimHead r)" and "live (trimHead r) = live r"
    and "window (trimHead r) = rev (dropWhile hole (rev (window r)))"
    and "rcap (trimHead r) = rcap r"
    and "rc_maxTotalDelay (trimHead r) = rc_maxTotalDelay r"
    and "rc_maxTotalByteSize (trimHead r) = rc_maxTotalByteSize r"
proof -
  let ?k = "length (takeWhile hole (rev (window r)))"
  have "?k \<le> length (filter hole (rev (window r)))"
    by (rule takeWhile_hole_length)
  moreover have "?k \<le> length (rev (window r))" by (rule length_takeWhile_le)
  ultimately have le: "?k \<le> length (filter hole (window r))" "?k \<le> length (window r)"
    by (simp_all add: rev_filter [symmetric])
  then have k: "int ?k \<le> rc_size r" "int ?k \<le> rc_holes r"
    using assms by (auto simp: recent_ok_def)
  have h: "0 \<le> rc_head r" "rc_head r < rcap r" "0 < rcap r" using assms by (auto simp: recent_ok_def)
  have eq: "trimHead r = r\<lparr>rc_holes := rc_holes r - int ?k, rc_size := rc_size r - int ?k,
      rc_head := (rc_head r - int ?k) mod rcap r\<rparr>"
    unfolding trimHead_def window_down [OF assms] trim_down_run [OF h(1,2)]
    by (simp add: window_def rev_map Let_def)
  have w: "window (trimHead r) = take (nat (rc_size r) - ?k) (window r)"
    unfolding eq by (rule window_take [OF k(1) h(3)])
  then show w': "window (trimHead r) = rev (dropWhile hole (rev (window r)))"
    by (simp add: dropWhile_eq_drop drop_rev)
  show "live (trimHead r) = live r"
    by (simp add: live_def w' dropWhile_eq_drop rev_filter [symmetric] live_drop)
  have "length (filter hole (window (trimHead r))) = length (filter hole (window r)) - ?k"
    using filter_hole_drop [of "rev (window r)"]
    by (simp add: w' dropWhile_eq_drop rev_filter [symmetric])
  then show "recent_ok (trimHead r)"
    using assms k le by (auto simp: recent_ok_def eq)
  show "rcap (trimHead r) = rcap r" "rc_maxTotalDelay (trimHead r) = rc_maxTotalDelay r"
    "rc_maxTotalByteSize (trimHead r) = rc_maxTotalByteSize r"
    by (simp_all add: eq)
qed
section \<open>Operations on the window\<close>

lemma window_empty: "window r = [] \<longleftrightarrow> rc_size r \<le> 0"
  by (metis window_length length_0_conv nat_0_iff)

definition aged :: "duration \<Rightarrow> recentEntry \<Rightarrow> recentEntry" where
  "aged d w = w\<lparr>cumulativeDelay := i64 (cumulativeDelay w + d)\<rparr>"

definition inc_hole :: "duration \<Rightarrow> recentEntry \<Rightarrow> recentEntry" where
  "inc_hole d w = (if hole w then w else aged d w)"

lemma hole_inc [simp]: "hole (inc_hole d w) = hole w"
  by (simp add: inc_hole_def hole_def aged_def)

lemma filter_inc_hole:
  "filter (\<lambda>w. \<not> hole w) (map (inc_hole d) ws) = map (aged d) (filter (\<lambda>w. \<not> hole w) ws)"
  by (induction ws) (auto simp: inc_hole_def aged_def hole_def)

lemma filter_hole_inc: "length (filter hole (map (inc_hole d) ws)) = length (filter hole ws)"
  by (induction ws) auto

lemma window_idx_cong:
  "length es = length (rc_entries r) \<Longrightarrow> window_idx (r\<lparr>rc_entries := es\<rparr>) = window_idx r"
  by (simp add: window_idx_def)

lemma incCumulativeDelay_spec:
  assumes "recent_ok r"
  shows "recent_ok (incCumulativeDelay d r)"
    and "window (incCumulativeDelay d r) = map (inc_hole d) (window r)"
    and "rcap (incCumulativeDelay d r) = rcap r"
    and "rc_size (incCumulativeDelay d r) = rc_size r"
    and "rc_head (incCumulativeDelay d r) = rc_head r"
    and "rc_maxTotalDelay (incCumulativeDelay d r) = rc_maxTotalDelay r"
    and "rc_maxTotalByteSize (incCumulativeDelay d r) = rc_maxTotalByteSize r"
    and "rc_holes (incCumulativeDelay d r) = rc_holes r"
proof -
  let ?es = "foldl (\<lambda>es i. es[nat i := inc_hole d (es ! nat i)]) (rc_entries r) (window_idx r)"
  have body: "(let w = es ! nat idx in if rseq w \<noteq> SequenceNone
      then es[nat idx := w\<lparr>cumulativeDelay := i64 (cumulativeDelay w + d)\<rparr>] else es) =
    es[nat idx := inc_hole d (es ! nat idx)]" for es idx
    by (simp add: Let_def inc_hole_def hole_def aged_def)
  have eq: "incCumulativeDelay d r = r\<lparr>rc_entries := ?es\<rparr>"
    unfolding incCumulativeDelay_def window_up [OF assms] body run_over_True ..
  have len: "length ?es = length (rc_entries r)"
    by (rule window_map_update(2) [OF assms])
  have "window_idx (r\<lparr>rc_entries := ?es\<rparr>) = window_idx r"
    by (rule window_idx_cong [OF len])
  then show w: "window (incCumulativeDelay d r) = map (inc_hole d) (window r)"
    unfolding eq using window_map_update(1) [OF assms, of "inc_hole d"] by (simp add: window_def)
  show "rcap (incCumulativeDelay d r) = rcap r"
    by (simp add: eq len)
  show "recent_ok (incCumulativeDelay d r)"
    unfolding recent_ok_def w filter_hole_inc using assms by (auto simp: recent_ok_def eq len)
qed (simp_all add: incCumulativeDelay_def)

lemma up_from_last: "up_from cap p (Suc n) = up_from cap p n @ [(p + int n) mod cap]"
  by (simp add: up_from_def)

definition put_head :: "recentEntry \<Rightarrow> Recent \<Rightarrow> Recent" where
  "put_head w r =
     (let h = (rc_head r + 1) mod rcap r
      in r\<lparr>rc_size := min (rc_size r + 1) (rcap r), rc_head := h,
           rc_entries := (rc_entries r)[nat h := w]\<rparr>)"

lemma put_head_spec:
  assumes ok: "recent_ok r" and w: "\<not> hole w"
  shows "window (put_head w r) =
      (if rc_size r < rcap r then window r else tl (window r)) @ [w]"
    and "recent_ok (put_head w r)"
proof -
  let ?h = "(rc_head r + 1) mod rcap r" and ?r = "put_head w r"
  have c: "0 < rcap r" using ok by (simp only: recent_ok_def)
  have h: "0 \<le> ?h" "?h < rcap r" "nat ?h < length (rc_entries r)"
    using pos_mod_sign [OF c] pos_mod_bound [OF c, of "rc_head r + 1"]
    by (auto simp: nat_less_iff)
  let ?old = "if rc_size r < rcap r then window_idx r else tl (window_idx r)"
  have sz: "0 \<le> rc_size r" "rc_size r \<le> rcap r" using ok by (auto simp: recent_ok_def)
  have idx: "window_idx ?r = ?old @ [?h]"
  proof (cases "rc_size r < rcap r")
    case True
    then have "nat (rc_size r + 1) = Suc (nat (rc_size r))" using sz by auto
    moreover have "(?h - (rc_size r + 1) + 1 + int j) mod rcap r =
        (rc_head r - rc_size r + 1 + int j) mod rcap r" for j
    proof -
      have "(?h - (rc_size r + 1) + 1 + int j) mod rcap r = (?h + (int j - rc_size r)) mod rcap r"
        by (simp add: algebra_simps)
      also have "\<dots> = (rc_head r + 1 + (int j - rc_size r)) mod rcap r"
        by (rule mod_add_left_eq)
      finally show ?thesis by (simp add: algebra_simps)
    qed
    ultimately show ?thesis using True sz
      by (simp add: window_idx_def put_head_def up_from_def Let_def)
  next
    case False
    then have full: "rc_size r = rcap r" using sz by simp
    obtain n where n: "nat (rcap r) = Suc n" using c by (metis gr0_implies_Suc zero_less_nat_eq)
    then have n': "rcap r = int n + 1" by simp
    have "(?h - rcap r + 1 + int j) mod rcap r = (rc_head r + 2 + int j) mod rcap r" for j
    proof -
      have "(?h - rcap r + 1 + int j) mod rcap r = (?h + (int j + 1) - rcap r) mod rcap r"
        by (simp add: algebra_simps)
      also have "\<dots> = (rc_head r + 1 + (int j + 1)) mod rcap r"
        by (simp only: minus_mod_self2 mod_add_left_eq)
      finally show ?thesis by (simp add: algebra_simps)
    qed
    moreover have "nat (1 + int n) = Suc n" by simp
    ultimately have "window_idx ?r = up_from (rcap r) (rc_head r + 2) (Suc n)"
      using full n by (simp add: window_idx_def put_head_def Let_def up_from_def del: upt_Suc)
    moreover have "tl (window_idx r) = up_from (rcap r) (rc_head r + 2) n"
    proof -
      have "window_idx r = up_from (rcap r) (rc_head r - rcap r + 1) (Suc n)"
        by (simp only: window_idx_def full n)
      then have "tl (window_idx r) = up_from (rcap r) (rc_head r - rcap r + 1 + 1) n"
        by (simp only: up_from_Suc list.sel)
      also have "\<dots> = up_from (rcap r) (rc_head r + 2) n"
        using mod_add_self2 [of _ "rcap r"] unfolding up_from_def
        by (intro map_cong refl) (metis (no_types) diff_add_cancel add.assoc add.commute one_add_one mod_add_self2)
      finally show ?thesis .
    qed
    moreover have "(rc_head r + 2 + int n) mod rcap r = ?h"
      using mod_add_self2 [of "rc_head r + 1" "rcap r"] by (simp add: n' algebra_simps)
    ultimately show ?thesis using False by (simp only: up_from_last if_False)
  qed
  have "int (nat (min (rc_size r + 1) (rcap r))) \<le> rcap r" using sz by auto
  then have "distinct (window_idx ?r)"
    unfolding window_idx_def by (intro up_from_distinct) (use c sz in \<open>auto simp: put_head_def Let_def\<close>)
  then have d: "?h \<notin> set ?old" unfolding idx by simp
  have old: "set ?old \<subseteq> set (window_idx r)" by (cases "window_idx r") auto
  have other: "(rc_entries r)[nat ?h := w] ! nat i = rc_entries r ! nat i" if "i \<in> set ?old" for i
  proof -
    have "i \<noteq> ?h" "0 \<le> i" using that d old window_idx_bound [OF c] by blast+
    then show ?thesis using h(1) by (simp add: eq_nat_nat_iff)
  qed
  show win: "window ?r = (if rc_size r < rcap r then window r else tl (window r)) @ [w]"
  proof -
    have e: "rc_entries ?r = (rc_entries r)[nat ?h := w]" by (simp add: put_head_def Let_def)
    have "window ?r = map (\<lambda>i. (rc_entries r)[nat ?h := w] ! nat i) ?old @ [w]"
      unfolding window_def idx e using h(3) by simp
    also have "map (\<lambda>i. (rc_entries r)[nat ?h := w] ! nat i) ?old =
        map (\<lambda>i. rc_entries r ! nat i) ?old"
      by (rule map_cong [OF refl other])
    finally show ?thesis by (simp add: window_def map_tl)
  qed
  have "length (filter hole (tl ws)) \<le> length (filter hole ws)" for ws by (cases ws) auto
  then have "length (filter hole (window ?r)) \<le> length (filter hole (window r))"
    using w by (auto simp: win)
  then show "recent_ok ?r"
    using ok h sz c by (auto simp: recent_ok_def put_head_def Let_def)
qed

definition trimmed :: "Recent \<Rightarrow> bool" where
  "trimmed r \<longleftrightarrow> window r \<noteq> [] \<longrightarrow> \<not> hole (hd (window r)) \<and> \<not> hole (last (window r))"

lemma place_eq_put_head:
  assumes ok: "recent_ok q"
  shows "(let r2 = (if rc_size q < rcap q then q\<lparr>rc_size := rc_size q + 1\<rparr> else q);
          h = (if rc_head r2 + 1 = rcap r2 then 0 else rc_head r2 + 1)
      in if h < rcap r2 then
           Inr (trimTail (r2\<lparr>rc_head := h, rc_entries := (rc_entries r2)[nat h := w]\<rparr>))
         else Inl msg) = Inr (trimTail (put_head w q))"
proof -
  have c: "0 < rcap q" using ok by (simp only: recent_ok_def)
  define h where "h = (rc_head q + 1) mod rcap q"
  have h: "(if rc_head q + 1 = rcap q then 0 else rc_head q + 1) = h" "h < rcap q"
    using wrap_up_mod [OF c, of "rc_head q"] ok pos_mod_bound [OF c, of "rc_head q + 1"]
    by (simp_all add: wrap_up_def recent_ok_def h_def)
  have q: "q\<lparr>rc_size := rc_size q\<rparr> = q" by (cases q) simp
  have p: "put_head w q = q\<lparr>rc_size := min (rc_size q + 1) (rcap q), rc_head := h,
      rc_entries := (rc_entries q)[nat h := w]\<rparr>"
    by (simp add: put_head_def h_def Let_def)
  have size: "(if rc_size q < rcap q then q\<lparr>rc_size := rc_size q + 1\<rparr> else q) =
      q\<lparr>rc_size := min (rc_size q + 1) (rcap q)\<rparr>"
    using ok q by (auto simp: recent_ok_def min_def)
  show ?thesis
  proof (cases "rc_head q + 1 = rcap q")
    case True
    then have "h = 0" using h by simp
    then show ?thesis using True c unfolding size Let_def p by simp
  next
    case False
    then have "h = rc_head q + 1" using h by simp
    then show ?thesis using False h(2) unfolding size Let_def p by simp
  qed
qed

lemma Recent_Push_eq:
  assumes ok: "recent_ok r"
  shows "Recent_Push e r =
    Inr (trimTail (put_head \<lparr>re_entry = e, cumulativeDelay = 0\<rparr> (incCumulativeDelay (Delay e) r)))"
  using place_eq_put_head [OF incCumulativeDelay_spec(1) [OF ok]]
  unfolding Recent_Push_def by (simp add: Let_def split del: if_split)

lemma trimTail_trimmed:
  assumes "recent_ok r" and "window r \<noteq> [] \<Longrightarrow> \<not> hole (last (window r))"
  shows "trimmed (trimTail r)"
proof -
  have w: "window (trimTail r) = dropWhile hole (window r)" by (rule trimTail_spec [OF assms(1)])
  have "\<not> hole (hd (dropWhile hole (window r)))" if "dropWhile hole (window r) \<noteq> []"
    using that by (rule hd_dropWhile)
  moreover have "last (dropWhile hole (window r)) = last (window r)"
    if "dropWhile hole (window r) \<noteq> []"
    using that by (simp add: dropWhile_eq_drop last_drop)
  moreover have "window r \<noteq> []" if "dropWhile hole (window r) \<noteq> []" using that by auto
  ultimately show ?thesis using assms(2) by (auto simp: trimmed_def w)
qed

lemma Recent_Push_spec:
  assumes ok: "recent_ok r" and e: "Seq e \<noteq> SequenceNone"
  shows "\<exists>r'. Recent_Push e r = Inr r' \<and> recent_ok r' \<and> trimmed r' \<and>
    live r' = map (aged (Delay e)) (if rc_size r < rcap r \<or> hole (hd (window r)) then live r
      else tl (live r)) @ [\<lparr>re_entry = e, cumulativeDelay = 0\<rparr>]"
proof -
  let ?q = "incCumulativeDelay (Delay e) r" and ?w = "\<lparr>re_entry = e, cumulativeDelay = 0\<rparr>"
  note q = incCumulativeDelay_spec [OF ok, of "Delay e"]
  have w: "\<not> hole ?w" using e by (simp add: hole_def)
  note p = put_head_spec [OF q(1) w] and t = trimTail_spec [OF put_head_spec(2) [OF q(1) w]]
  have "trimmed (trimTail (put_head ?w ?q))"
    by (rule trimTail_trimmed [OF p(2)]) (simp add: p(1) w)
  moreover have "live (trimTail (put_head ?w ?q)) =
      map (aged (Delay e)) (if rc_size r < rcap r \<or> hole (hd (window r)) then live r
        else tl (live r)) @ [?w]"
  proof (cases "rc_size r < rcap r")
    case True
    then show ?thesis unfolding t(2)
      by (simp add: live_def p(1) q w filter_inc_hole)
  next
    case False
    then have "window r \<noteq> []" using ok by (auto simp: recent_ok_def window_empty)
    then obtain a ws where a: "window r = a # ws" by (cases "window r") auto
    show ?thesis using False unfolding t(2) by (simp add: live_def p(1) q w a filter_inc_hole)
  qed
  ultimately show ?thesis using Recent_Push_eq [OF ok] t(1) by blast
qed

text \<open>
  \<open>Push\<close> of a numbered entry never panics on a well-formed buffer: it adds the entry's delay to
  the accumulated delay of every entry kept, appends the entry, and gives up the oldest one exactly
  when the window already takes the whole array and starts with an entry; the new buffer is
  well-formed and has no hole at either end.
\<close>

theorem Push_appends:
  assumes "recent_ok r" and "Seq e \<noteq> SequenceNone"
  shows "\<exists>r'. Recent_Push e r = Inr r' \<and> recent_ok r' \<and> trimmed r' \<and>
    live r' = map (aged (Delay e)) (if rc_size r < rcap r \<or> hole (hd (window r)) then live r
      else tl (live r)) @ [\<lparr>re_entry = e, cumulativeDelay = 0\<rparr>]"
  by (rule Recent_Push_spec [OF assms])

lemma Pop_takes_oldest:
  assumes ok: "recent_ok r" and tr: "trimmed r"
  shows "case Recent_Pop r of (r', e, found) \<Rightarrow> recent_ok r' \<and> trimmed r' \<and>
    (found \<longleftrightarrow> live r \<noteq> []) \<and> live r' = tl (live r) \<and>
    e = (if found then re_entry (hd (live r)) else zero_Entry)"
proof (cases "rc_size r = 0")
  case True
  then have "window r = []" by (simp add: window_empty)
  then show ?thesis using True ok tr by (simp add: Recent_Pop_def live_def)
next
  case False
  let ?r = "r\<lparr>rc_size := rc_size r - 1\<rparr>"
  have sz: "1 \<le> rc_size r" using False ok by (simp add: recent_ok_def)
  have "r\<lparr>rc_holes := rc_holes r, rc_size := rc_size r - int 1\<rparr> = ?r" by (cases r) simp
  then have w: "window ?r = drop 1 (window r)"
    using window_drop [of 1 r "rc_holes r"] sz by simp
  obtain a ws where a: "window r = a # ws" using sz window_empty [of r] by (cases "window r") auto
  have na: "\<not> hole a" using tr by (simp add: trimmed_def a)
  have "length (filter hole (window ?r)) \<le> length (filter hole (window r))"
    by (simp add: w a)
  then have ok': "recent_ok ?r" using ok sz by (auto simp: recent_ok_def)
  note t = trimTail_spec [OF ok'] 
  have tr': "trimmed (trimTail ?r)"
    by (rule trimTail_trimmed [OF ok']) (use tr in \<open>simp add: w a trimmed_def split: if_splits\<close>)
  have "rc_entries r ! nat (rc_tail r) = a"
  proof -
    have "window_idx r = rc_tail r # tl (window_idx r)"
    proof -
      obtain n where "nat (rc_size r) = Suc n" using sz by (metis One_nat_def Suc_le_D nat_mono nat_1)
      then show ?thesis using rc_tail_mod [OF ok False] by (simp add: window_idx_def up_from_Suc)
    qed
    then show ?thesis using a unfolding window_def by (metis list.sel(1) list.simps(9))
  qed
  then show ?thesis
    using False t tr' na by (simp add: Recent_Pop_def live_def w a)
qed

lemma trimmed_LastSeq:
  assumes ok: "recent_ok r" and tr: "trimmed r"
  shows "Recent_LastSeq r = (if live r = [] then SequenceNone else rseq (last (live r)))"
proof (cases "rc_size r = 0")
  case True
  then have "window r = []" by (simp add: window_empty)
  then show ?thesis using True by (simp add: Recent_LastSeq_def live_def)
next
  case False
  then have "0 < nat (rc_size r)" using ok by (auto simp: recent_ok_def)
  then obtain n where n: "nat (rc_size r) = Suc n" by (metis gr0_implies_Suc)
  then have "rc_size r = int n + 1" by simp
  then have "window_idx r = up_from (rcap r) (rc_head r - int n) n @ [rc_head r mod rcap r]"
    using n by (simp add: window_idx_def up_from_last)
  moreover have "rc_head r mod rcap r = rc_head r" using ok by (simp add: recent_ok_def)
  ultimately obtain ws where w: "window r = ws @ [rc_entries r ! nat (rc_head r)]"
    by (simp add: window_def)
  then have "\<not> hole (rc_entries r ! nat (rc_head r))" using tr by (simp add: trimmed_def)
  then show ?thesis using False by (simp add: Recent_LastSeq_def live_def w)
qed

lemma Recent_Len_live:
  assumes ok: "recent_ok r"
  shows "Recent_Len r = int (length (live r))"
proof (cases "rc_holes r = 0")
  case True
  then have "\<forall>w \<in> set (window r). \<not> hole w" using ok by (auto simp: recent_ok_def filter_empty_conv)
  then have "live r = window r" by (simp add: live_def)
  then show ?thesis using True ok by (simp add: Recent_Len_def recent_ok_def)
next
  case False
  have "run_over (\<lambda>w l. (False, if rseq w \<noteq> SequenceNone then l + 1 else l)) ws l =
      l + int (length (filter (\<lambda>w. \<not> hole w) ws))" for ws and l :: int
    by (induction ws arbitrary: l) (auto simp: hole_def)
  then show ?thesis
    using False run_over_read [of "\<lambda>w l. (False, if rseq w \<noteq> SequenceNone then l + 1 else l)"
        "\<lambda>i. rc_entries r ! nat i" "rev (window_idx r)" "0 :: int"]
    by (simp add: Recent_Len_def window_down [OF ok] live_def window_def rev_filter [symmetric]
        flip: rev_map)
qed

section \<open>Removal\<close>

lemma remove_run:
  "run_over (\<lambda>idx (s, e, f).
       if rseq (rc_entries s ! nat idx) = sq then
         (True, s\<lparr>rc_entries := (rc_entries s)[nat idx := zero_recentEntry],
                  rc_holes := rc_holes s + 1\<rparr>, re_entry (rc_entries s ! nat idx), True)
       else (False, s, e, f)) is (r, e0, False) =
   (case find (\<lambda>i. rseq (rc_entries r ! nat i) = sq) is of
      None \<Rightarrow> (r, e0, False)
    | Some i \<Rightarrow> (r\<lparr>rc_entries := (rc_entries r)[nat i := zero_recentEntry],
        rc_holes := rc_holes r + 1\<rparr>, re_entry (rc_entries r ! nat i), True))"
  by (induction "is") auto

lemma find_SomeD: "find P xs = Some x \<Longrightarrow> x \<in> set xs \<and> P x"
  by (induction xs) (auto split: if_splits)

lemma filter_neq_split:
  assumes "distinct (map f (xs @ y # ys))"
  shows "filter (\<lambda>w. f w \<noteq> f y) (xs @ y # ys) = xs @ ys"
proof -
  have "\<forall>w \<in> set xs. f w \<noteq> f y" "\<forall>w \<in> set ys. f w \<noteq> f y"
    using assms by (auto simp: image_iff)
  then show ?thesis by (simp add: filter_True)
qed

lemma window_idx_eq:
  "rcap q = rcap r \<Longrightarrow> rc_head q = rc_head r \<Longrightarrow> rc_size q = rc_size r \<Longrightarrow>
   window_idx q = window_idx r"
  by (simp add: window_idx_def)

lemma hole_zero [simp]: "hole zero_recentEntry"
  by (simp add: hole_def zero_recentEntry_def zero_Entry_def SequenceNone_def)

lemma trimmed_trim:
  assumes "recent_ok r"
  shows "trimmed (trimTail (trimHead r))"
proof (rule trimTail_trimmed)
  show "recent_ok (trimHead r)" by (rule trimHead_spec(1) [OF assms])
  let ?ws = "dropWhile hole (rev (window r))"
  assume "window (trimHead r) \<noteq> []"
  then have "?ws \<noteq> []" by (simp add: trimHead_spec(3) [OF assms])
  then have "\<not> hole (hd ?ws)" by (rule hd_dropWhile)
  then show "\<not> hole (last (window (trimHead r)))"
    using \<open>?ws \<noteq> []\<close> by (simp add: trimHead_spec(3) [OF assms] last_rev)
qed

lemma punch_window:
  assumes ok: "recent_ok r" and idx: "window_idx r = is1 @ i # is2"
    and nh: "\<not> hole (rc_entries r ! nat i)"
  defines "q \<equiv> r\<lparr>rc_entries := (rc_entries r)[nat i := zero_recentEntry], rc_holes := rc_holes r + 1\<rparr>"
  shows "window q = map (\<lambda>i. rc_entries r ! nat i) is1 @ zero_recentEntry #
      map (\<lambda>i. rc_entries r ! nat i) is2" and "recent_ok q"
proof -
  have c: "0 < rcap r" using ok by (simp only: recent_ok_def)
  have other: "(rc_entries r)[nat i := zero_recentEntry] ! nat j = rc_entries r ! nat j"
    if "j \<in> set is1 \<union> set is2" for j
  proof -
    have "nat i \<noteq> nat j" using window_nat_distinct [OF ok] that by (auto simp: idx)
    then show ?thesis by simp
  qed
  have "0 \<le> i \<and> i < rcap r" by (rule window_idx_bound [OF c]) (simp add: idx)
  then have i: "nat i < length (rc_entries r)" by (simp add: nat_less_iff)
  have wi: "window_idx q = window_idx r" by (simp add: window_idx_def q_def)
  show w: "window q = map (\<lambda>i. rc_entries r ! nat i) is1 @ zero_recentEntry #
      map (\<lambda>i. rc_entries r ! nat i) is2"
    unfolding window_def wi idx using other i by (simp add: q_def)
  have "window r = map (\<lambda>i. rc_entries r ! nat i) is1 @ (rc_entries r ! nat i) #
      map (\<lambda>i. rc_entries r ! nat i) is2"
    by (simp add: window_def idx)
  then have "length (filter hole (window q)) = length (filter hole (window r)) + 1"
    using nh by (simp add: w)
  then show "recent_ok q"
    using ok by (simp add: recent_ok_def q_def)
qed

text \<open>
  On a trimmed buffer with distinct numbers, \<open>Remove\<close> finds a number exactly if an entry has it,
  returns that entry, keeps all others in order, and trims the holes at both ends.
\<close>

theorem Remove_takes_out:
  assumes ok: "recent_ok r" and tr: "trimmed r" and sq: "sq \<noteq> SequenceNone"
    and d: "distinct (map rseq (live r))"
  shows "case Recent_Remove sq r of (r', e, found) \<Rightarrow> recent_ok r' \<and> trimmed r' \<and>
    (found \<longleftrightarrow> sq \<in> set (map rseq (live r))) \<and>
    live r' = filter (\<lambda>w. rseq w \<noteq> sq) (live r) \<and>
    (if found then Seq e = sq \<and> e \<in> set (map re_entry (live r)) else e = zero_Entry)"
proof (cases "find (\<lambda>i. rseq (rc_entries r ! nat i) = sq) (rev (window_idx r))")
  case None
  then have n: "\<forall>w \<in> set (window r). rseq w \<noteq> sq" by (simp add: find_None_iff window_def)
  then have "filter (\<lambda>w. rseq w \<noteq> sq) (live r) = live r"
    by (auto simp: live_def filter_filter intro!: filter_cong)
  moreover have "sq \<notin> set (map rseq (live r))" using n by (auto simp: live_def)
  ultimately show ?thesis
    using None ok tr by (simp add: Recent_Remove_def window_down [OF ok] remove_run)
next
  case (Some i)
  let ?e = "rc_entries r ! nat i"
  let ?q = "r\<lparr>rc_entries := (rc_entries r)[nat i := zero_recentEntry], rc_holes := rc_holes r + 1\<rparr>"
  from Some have i: "i \<in> set (window_idx r)" "rseq ?e = sq"
    by (auto dest!: find_SomeD)
  then have nh: "\<not> hole ?e" using sq by (simp add: hole_def)
  obtain is1 is2 where idx: "window_idx r = is1 @ i # is2" using i(1) by (meson split_list)
  note p = punch_window [OF ok idx nh] 
  have w: "window r = map (\<lambda>i. rc_entries r ! nat i) is1 @ ?e # map (\<lambda>i. rc_entries r ! nat i) is2"
    by (simp add: window_def idx)
  let ?l = "\<lambda>is. filter (\<lambda>w. \<not> hole w) (map (\<lambda>i. rc_entries r ! nat i) is)"
  have l: "live r = ?l is1 @ ?e # ?l is2" using nh by (simp add: live_def w)
  have lq: "live ?q = ?l is1 @ ?l is2" by (simp add: live_def p(1))
  have f: "filter (\<lambda>w. rseq w \<noteq> sq) (live r) = live ?q"
    using filter_neq_split [of rseq "?l is1" ?e "?l is2"] d unfolding l lq i(2) by blast
  note h = trimHead_spec [OF p(2)] and t = trimTail_spec [OF trimHead_spec(1) [OF p(2)]]
  have "Recent_Remove sq r = (trimTail (trimHead ?q), re_entry ?e, True)"
    by (simp add: Recent_Remove_def window_down [OF ok] remove_run Some)
  moreover have "?e \<in> set (live r)" by (simp add: l)
  ultimately show ?thesis
    using i(2) h(2) t(1,2) f trimmed_trim [OF p(2)] by auto
qed

definition punched :: "(int \<Rightarrow> bool) \<Rightarrow> recentEntry \<Rightarrow> recentEntry" where
  "punched P w = (if \<not> hole w \<and> P (rseq w) then zero_recentEntry else w)"

lemma punch_all:
  defines "body P s idx \<equiv> let sq = rseq (rc_entries s ! nat idx)
           in if sq \<noteq> SequenceNone \<and> P sq then
                s\<lparr>rc_entries := (rc_entries s)[nat idx := zero_recentEntry],
                  rc_holes := rc_holes s + 1\<rparr>
              else s"
  assumes "distinct (map nat is)"
  shows "foldl (body P) r is =
    r\<lparr>rc_entries := foldl (\<lambda>es i. es[nat i := punched P (es ! nat i)]) (rc_entries r) is,
      rc_holes := rc_holes r +
        int (length (filter (\<lambda>w. \<not> hole w \<and> P (rseq w)) (map (\<lambda>i. rc_entries r ! nat i) is)))\<rparr>"
  using assms(2)
proof (induction "is" arbitrary: r)
  case (Cons i "is")
  let ?w = "rc_entries r ! nat i" and ?es = "(rc_entries r)[nat i := punched P (rc_entries r ! nat i)]"
  let ?c = "\<not> hole ?w \<and> P (rseq ?w)"
  have m: "map (\<lambda>j. ?es ! nat j) is = map (\<lambda>j. rc_entries r ! nat j) is"
    using Cons.prems by (intro map_cong refl) (auto intro!: nth_list_update_neq)
  have b: "body P r i = r\<lparr>rc_entries := ?es, rc_holes := rc_holes r + (if ?c then 1 else 0)\<rparr>"
  proof (cases ?c)
    case True
    then show ?thesis by (simp add: body_def hole_def punched_def)
  next
    case False
    then have "?es = rc_entries r" by (auto simp: punched_def)
    then show ?thesis using False by (auto simp: body_def hole_def Let_def)
  qed
  show ?case
    unfolding foldl_Cons b using Cons.prems by (simp add: Cons.IH m del: filter_map map_eq_conv)
qed simp

lemma count_punched:
  "length (filter hole (map (punched P) ws)) =
   length (filter hole ws) + length (filter (\<lambda>w. \<not> hole w \<and> P (rseq w)) ws)"
  by (induction ws) (auto simp: punched_def)

lemma live_punched:
  "filter (\<lambda>w. \<not> hole w) (map (punched P) ws) =
   filter (\<lambda>w. \<not> P (rseq w)) (filter (\<lambda>w. \<not> hole w) ws)"
  by (induction ws) (auto simp: punched_def)

lemma trim_limits:
  assumes "recent_ok r"
  shows "rc_maxTotalDelay (trimTail (trimHead r)) = rc_maxTotalDelay r"
    and "rc_maxTotalByteSize (trimTail (trimHead r)) = rc_maxTotalByteSize r"
proof -
  have "rc_maxTotalDelay (trimTail q) = rc_maxTotalDelay q \<and> rc_maxTotalByteSize (trimTail q) = rc_maxTotalByteSize q"
    if "recent_ok q" for q using trimTail_eq [OF that] by (simp add: Let_def)
  moreover have "rc_maxTotalDelay (trimHead r) = rc_maxTotalDelay r \<and> rc_maxTotalByteSize (trimHead r) = rc_maxTotalByteSize r"
  proof -
    have "rc_maxTotalDelay (run_over f is s) = rc_maxTotalDelay s \<and>
        rc_maxTotalByteSize (run_over f is s) = rc_maxTotalByteSize s"
      if "\<And>i s. rc_maxTotalDelay (snd (f i s)) = rc_maxTotalDelay s \<and>
        rc_maxTotalByteSize (snd (f i s)) = rc_maxTotalByteSize s"
      for f :: "int \<Rightarrow> Recent \<Rightarrow> bool \<times> Recent" and "is" s
      using that by (induction "is" arbitrary: s) (auto simp: case_prod_unfold Let_def)
    then show ?thesis unfolding trimHead_def window_down [OF assms] by (simp add: Let_def)
  qed
  ultimately show "rc_maxTotalDelay (trimTail (trimHead r)) = rc_maxTotalDelay r"
    "rc_maxTotalByteSize (trimTail (trimHead r)) = rc_maxTotalByteSize r"
    using trimHead_spec(1) [OF assms] by simp_all
qed

lemma RemoveFn_punches:
  assumes ok: "recent_ok r"
  shows "recent_ok (Recent_RemoveFn P r)" and "window (Recent_RemoveFn P r) = map (punched P) (window r)"
    and "live (Recent_RemoveFn P r) = filter (\<lambda>w. \<not> P (rseq w)) (live r)"
    and "rcap (Recent_RemoveFn P r) = rcap r"
    and "rc_maxTotalDelay (Recent_RemoveFn P r) = rc_maxTotalDelay r"
    and "rc_maxTotalByteSize (Recent_RemoveFn P r) = rc_maxTotalByteSize r"
proof -
  let ?is = "rev (window_idx r)"
  let ?es = "foldl (\<lambda>es i. es[nat i := punched P (es ! nat i)]) (rc_entries r) ?is"
  let ?q = "r\<lparr>rc_entries := ?es, rc_holes := rc_holes r +
    int (length (filter (\<lambda>w. \<not> hole w \<and> P (rseq w)) (rev (window r))))\<rparr>"
  have c: "0 < rcap r" using ok by (simp only: recent_ok_def)
  have d: "distinct (map nat ?is)" using window_nat_distinct [OF ok] by (simp add: rev_map [symmetric])
  have b: "nat i < length (rc_entries r)" if "i \<in> set ?is" for i
    using window_idx_bound [OF c, of i] that by (simp add: nat_less_iff)
  have es: "?es = map (\<lambda>k. if k \<in> nat ` set ?is then punched P (rc_entries r ! k)
      else rc_entries r ! k) [0..<length (rc_entries r)]"
    by (rule foldl_update_pointwise [OF d b])
  have len: "length ?es = length (rc_entries r)" by (simp add: es)
  have "window_idx ?q = window_idx r" by (rule window_idx_eq) (simp_all add: len)
  then have w: "window ?q = map (punched P) (window r)"
    using b by (simp add: window_def es)
  have okq: "recent_ok ?q"
    using ok unfolding recent_ok_def w count_punched by (simp add: len rev_filter [symmetric])
  have eq: "Recent_RemoveFn P r = (if rc_holes ?q > 0 then ?q else trimTail (trimHead ?q))"
    unfolding Recent_RemoveFn_def window_down [OF ok] run_over_True punch_all [OF d]
    by (simp add: window_def rev_map Let_def)
  define q where "q = ?q"
  have q: "recent_ok q" "window q = map (punched P) (window r)" "live q = filter (\<lambda>w. \<not> P (rseq w)) (live r)"
    "rcap q = rcap r" "rc_maxTotalDelay q = rc_maxTotalDelay r" "rc_maxTotalByteSize q = rc_maxTotalByteSize r"
    using okq w len by (simp_all add: q_def live_def live_punched)
  have r: "Recent_RemoveFn P r = (if rc_holes q > 0 then q else trimTail (trimHead q))"
    using eq by (simp only: q_def)
  have same: "window (trimTail (trimHead q)) = window q" if "\<not> rc_holes q > 0"
  proof -
    have "int (length (filter hole (window q))) \<le> rc_holes q" using q(1) unfolding recent_ok_def by blast
    then have "int (length (filter hole (window q))) \<le> 0" using that by linarith
    then have "filter hole (window q) = []" by (simp only: of_nat_le_0_iff length_0_conv)
    then have n: "\<forall>w \<in> set (window q). \<not> hole w" unfolding filter_empty_conv by blast
    have drop: "dropWhile hole ws = ws" if "\<forall>w \<in> set ws. \<not> hole w" for ws
      using that by (cases ws) simp_all
    have "window (trimHead q) = window q"
      unfolding trimHead_spec(3) [OF q(1)] using drop [of "rev (window q)"] n by simp
    then show ?thesis unfolding trimTail_spec(3) [OF trimHead_spec(1) [OF q(1)]] using drop n by simp
  qed
  note h = trimHead_spec [OF q(1)] and t = trimTail_spec [OF trimHead_spec(1) [OF q(1)]]
    and lim = trim_limits [OF q(1)]
  show "recent_ok (Recent_RemoveFn P r)" using q(1) t(1) by (simp add: r)
  show "window (Recent_RemoveFn P r) = map (punched P) (window r)" using q(2) same by (simp add: r)
  show "live (Recent_RemoveFn P r) = filter (\<lambda>w. \<not> P (rseq w)) (live r)" using q(3) h(2) t(2) by (simp add: r)
  show "rcap (Recent_RemoveFn P r) = rcap r" using q(4) h(4) t(4) by (simp add: r)
  show "rc_maxTotalDelay (Recent_RemoveFn P r) = rc_maxTotalDelay r" using q(5) lim by (simp add: r)
  show "rc_maxTotalByteSize (Recent_RemoveFn P r) = rc_maxTotalByteSize r" using q(6) lim by (simp add: r)
qed

text \<open>
  \<open>RemoveFn\<close> keeps exactly the entries the predicate does not ask to remove, in order, and the
  buffer stays well-formed (but not trimmed).
\<close>

theorem RemoveFn_filters:
  assumes ok: "recent_ok r"
  shows "recent_ok (Recent_RemoveFn P r) \<and>
    live (Recent_RemoveFn P r) = filter (\<lambda>w. \<not> P (rseq w)) (live r)"
  using RemoveFn_punches [OF ok] by simp

section \<open>Reading the buffer\<close>

lemma up_reading:
  assumes "recent_ok r"
  shows "for_up (rcap r) (nat (rc_size r)) (rc_tail r) (\<lambda>idx. g (rc_entries r ! nat idx)) st =
    run_over g (window r) st"
  unfolding window_up [OF assms] window_def by (rule run_over_read)

lemma down_reading:
  assumes "recent_ok r"
  shows "for_down (rcap r) (nat (rc_size r)) (rc_head r) (\<lambda>idx. g (rc_entries r ! nat idx)) st =
    run_over g (rev (window r)) st"
  unfolding window_down [OF assms] window_def rev_map by (rule run_over_read)

fun visit :: "('e \<Rightarrow> 's \<Rightarrow> bool \<times> 's) \<Rightarrow> 'e list \<Rightarrow> 's \<Rightarrow> 's" where
  "visit fn [] st = st"
| "visit fn (x # xs) st = (let (go_on, st') = fn x st in if go_on then visit fn xs st' else st')"

lemma Recent_Iterate_visits:
  assumes "recent_ok r"
  shows "Recent_Iterate fn r st = visit fn (map re_entry (live r)) st"
proof -
  let ?g = "\<lambda>w s. if rseq w \<noteq> SequenceNone
    then case fn (re_entry w) s of (go_on, s') \<Rightarrow> (\<not> go_on, s') else (False, s)"
  have "run_over ?g ws st = visit fn (map re_entry (filter (\<lambda>w. \<not> hole w) ws)) st" for ws
    by (induction ws arbitrary: st) (auto simp: hole_def split: prod.split)
  moreover have "Recent_Iterate fn r st = run_over ?g (window r) st"
    unfolding Recent_Iterate_def Let_def by (rule up_reading [OF assms])
  ultimately show ?thesis by (simp add: live_def)
qed

text \<open>
  The entries of a list that fit the two limits, from its first on, \<open>n\<close> payload bytes being taken
  already.
\<close>

fun fitting :: "duration \<Rightarrow> int \<Rightarrow> int \<Rightarrow> recentEntry list \<Rightarrow> recentEntry list" where
  "fitting maxDelay maxBytes n [] = []"
| "fitting maxDelay maxBytes n (w # ws) =
     (let n' = n + int (length (Payload (re_entry w)))
      in if (maxDelay > 0 \<and> cumulativeDelay w > maxDelay) \<or> (maxBytes > 0 \<and> n' > maxBytes) then []
         else w # fitting maxDelay maxBytes n' ws)"

abbreviation payload_bytes :: "recentEntry list \<Rightarrow> int" where
  "payload_bytes ws \<equiv> int (sum_list (map (\<lambda>w. length (Payload (re_entry w))) ws))"

lemma Recent_Recent_fitting:
  assumes ok: "recent_ok r" and small: "payload_bytes (live r) < int_lim"
  shows "Recent_Recent r =
    map re_entry (rev (fitting (rc_maxTotalDelay r) (rc_maxTotalByteSize r) 0 (rev (live r))))"
proof -
  let ?d = "rc_maxTotalDelay r" and ?b = "rc_maxTotalByteSize r"
  let ?g = "\<lambda>w (acc, currSize). if rseq w \<noteq> SequenceNone then
               let currDelay = cumulativeDelay w;
                   currSize' = i64 (currSize + int (length (Payload (re_entry w))))
               in if (?d > 0 \<and> currDelay > ?d) \<or> (?b > 0 \<and> currSize' > ?b)
                  then (True, acc, currSize')
                  else (False, acc @ [re_entry w], currSize')
             else (False, acc, currSize)"
  have "fst (run_over ?g ws (acc, n)) =
      acc @ map re_entry (fitting ?d ?b n (filter (\<lambda>w. \<not> hole w) ws))"
    if "0 \<le> n" "n + payload_bytes (filter (\<lambda>w. \<not> hole w) ws) < int_lim" for ws acc n
    using that
  proof (induction ws arbitrary: acc n)
    case (Cons w ws)
    then show ?case
      by (cases "hole w") (simp_all add: hole_def Let_def go_wrap)
  qed simp
  moreover have "filter (\<lambda>w. \<not> hole w) (rev (window r)) = rev (live r)"
    by (simp add: live_def rev_filter)
  moreover have "payload_bytes (rev (live r)) = payload_bytes (live r)"
    by (simp add: rev_map [symmetric] sum_list_rev)
  ultimately have "fst (run_over ?g (rev (window r)) ([], 0)) =
      map re_entry (fitting ?d ?b 0 (rev (live r)))"
    using small by simp
  then show ?thesis
    using down_reading [OF ok, of ?g "([], 0)"] unfolding Recent_Recent_def
    by (simp add: Let_def rev_map)
qed

lemma fitting_prefix:
  shows "\<exists>k. fitting d b n ws = take k ws \<and> k \<le> length ws \<and>
    (d > 0 \<longrightarrow> (\<forall>w \<in> set (take k ws). cumulativeDelay w \<le> d)) \<and>
    (b > 0 \<longrightarrow> k > 0 \<longrightarrow> n + payload_bytes (take k ws) \<le> b) \<and>
    (k < length ws \<longrightarrow> (d > 0 \<and> cumulativeDelay (ws ! k) > d) \<or>
      (b > 0 \<and> n + payload_bytes (take (Suc k) ws) > b))"
proof (induction ws arbitrary: n)
  case (Cons w ws)
  let ?n = "n + int (length (Payload (re_entry w)))"
  show ?case
  proof (cases "(d > 0 \<and> cumulativeDelay w > d) \<or> (b > 0 \<and> ?n > b)")
    case True
    then show ?thesis by (intro exI [of _ 0]) auto
  next
    case False
    from Cons.IH [of ?n] obtain k where
      "fitting d b ?n ws = take k ws" "k \<le> length ws"
      "d > 0 \<longrightarrow> (\<forall>w \<in> set (take k ws). cumulativeDelay w \<le> d)"
      "b > 0 \<longrightarrow> k > 0 \<longrightarrow> ?n + payload_bytes (take k ws) \<le> b"
      "k < length ws \<longrightarrow> (d > 0 \<and> cumulativeDelay (ws ! k) > d) \<or>
        (b > 0 \<and> ?n + payload_bytes (take (Suc k) ws) > b)"
      by blast
    then show ?thesis using False
      by (intro exI [of _ "Suc k"]) (cases k; auto)
  qed
qed simp

text \<open>
  \<open>Recent\<close> returns the longest run of newest entries, oldest first, that respects both limits:
  every entry of it is younger than the delay limit, their payloads fit the byte limit, and the
  entry before the run breaks one of the two.
\<close>

theorem Recent_newest_within_limits:
  assumes ok: "recent_ok r" and small: "payload_bytes (live r) < int_lim"
  shows "\<exists>old new. live r = old @ new \<and> Recent_Recent r = map re_entry new \<and>
    (rc_maxTotalDelay r > 0 \<longrightarrow> (\<forall>w \<in> set new. cumulativeDelay w \<le> rc_maxTotalDelay r)) \<and>
    (rc_maxTotalByteSize r > 0 \<longrightarrow> payload_bytes new \<le> rc_maxTotalByteSize r) \<and>
    (old \<noteq> [] \<longrightarrow>
      (rc_maxTotalDelay r > 0 \<and> cumulativeDelay (last old) > rc_maxTotalDelay r) \<or>
      (rc_maxTotalByteSize r > 0 \<and> payload_bytes (last old # new) > rc_maxTotalByteSize r))"
proof -
  let ?d = "rc_maxTotalDelay r" and ?b = "rc_maxTotalByteSize r" and ?ws = "rev (live r)"
  obtain k where k: "fitting ?d ?b 0 ?ws = take k ?ws" "k \<le> length ?ws"
      "?d > 0 \<longrightarrow> (\<forall>w \<in> set (take k ?ws). cumulativeDelay w \<le> ?d)"
      "?b > 0 \<longrightarrow> k > 0 \<longrightarrow> 0 + payload_bytes (take k ?ws) \<le> ?b"
      "k < length ?ws \<longrightarrow> (?d > 0 \<and> cumulativeDelay (?ws ! k) > ?d) \<or>
        (?b > 0 \<and> 0 + payload_bytes (take (Suc k) ?ws) > ?b)"
    using fitting_prefix [of ?d ?b 0 ?ws] by blast
  define new where "new = rev (take k ?ws)"
  define old where "old = rev (drop k ?ws)"
  have split: "live r = old @ new"
    unfolding old_def new_def by (metis append_take_drop_id rev_append rev_rev_ident)
  have bytes: "payload_bytes (rev xs) = payload_bytes xs" for xs
    by (simp add: rev_map [symmetric] sum_list_rev)
  have new': "take k ?ws = rev new" by (simp add: new_def)
  have "old \<noteq> [] \<Longrightarrow> k < length ?ws \<and> last old = ?ws ! k \<and> rev (last old # new) = rev new @ [?ws ! k]"
    by (auto simp: old_def last_rev hd_drop_conv_nth)
  then have o: "k < length ?ws \<and> last old = ?ws ! k \<and> take (Suc k) ?ws = rev (last old # new)"
    if "old \<noteq> []"
    using that by (auto simp: take_Suc_conv_app_nth new')
  have "Recent_Recent r = map re_entry new"
    by (simp add: Recent_Recent_fitting [OF ok small] k(1) new_def)
  moreover have "?d > 0 \<longrightarrow> (\<forall>w \<in> set new. cumulativeDelay w \<le> ?d)" using k(3) new' by simp
  moreover have "?b > 0 \<longrightarrow> payload_bytes new \<le> ?b"
    using k(4) bytes [of new] unfolding new' by (cases "k = 0") (auto simp: new_def)
  moreover have "(?d > 0 \<and> cumulativeDelay (last old) > ?d) \<or>
      (?b > 0 \<and> payload_bytes (last old # new) > ?b)" if "old \<noteq> []"
    using o [OF that] k(5) bytes [of "last old # new"] by auto
  ultimately show ?thesis using split by blast
qed

lemma NewRecent_ok:
  assumes "0 < cap"
  shows "\<exists>r. NewRecent cap = Inr r \<and> recent_ok r \<and> trimmed r \<and> live r = []"
proof -
  let ?r = "\<lparr>rc_head = 0, rc_size = 0, rc_holes = 0, rc_maxTotalDelay = 0,
        rc_maxTotalByteSize = 0, rc_entries = replicate (nat cap) zero_recentEntry\<rparr>"
  have "window ?r = []" by (simp add: window_empty)
  then show ?thesis using assms
    by (auto simp: NewRecent_def recent_ok_def trimmed_def live_def)
qed

lemma Recent_Clear_ok:
  assumes "recent_ok r"
  shows "recent_ok (Recent_Clear r) \<and> trimmed (Recent_Clear r) \<and> live (Recent_Clear r) = []"
proof -
  have "window (Recent_Clear r) = []" by (simp add: window_empty Recent_Clear_def)
  then show ?thesis using assms
    by (auto simp: recent_ok_def trimmed_def live_def Recent_Clear_def)
qed

section \<open>Witnesses\<close>

definition sample_recent :: Recent where
  "sample_recent = \<lparr>rc_head = 0, rc_size = 3, rc_holes = 1, rc_maxTotalDelay = 0,
     rc_maxTotalByteSize = 3, rc_entries =
      [\<lparr>re_entry = \<lparr>Seq = 3, Delay = 5, Payload = [7, 8]\<rparr>, cumulativeDelay = 0\<rparr>,
       \<lparr>re_entry = \<lparr>Seq = 1, Delay = 5, Payload = [9, 9]\<rparr>, cumulativeDelay = 10\<rparr>,
       zero_recentEntry]\<rparr>"

lemma sample_window: "window sample_recent =
   [\<lparr>re_entry = \<lparr>Seq = 1, Delay = 5, Payload = [9, 9]\<rparr>, cumulativeDelay = 10\<rparr>,
       zero_recentEntry,
       \<lparr>re_entry = \<lparr>Seq = 3, Delay = 5, Payload = [7, 8]\<rparr>, cumulativeDelay = 0\<rparr>]"
  by (simp add: window_def window_idx_def up_from_def sample_recent_def upt_rec numeral_2_eq_2)

lemma sample_recent_ok: "recent_ok sample_recent" "trimmed sample_recent"
  by (simp_all add: recent_ok_def trimmed_def sample_window)
    (simp_all add: sample_recent_def hole_def SequenceNone_def zero_recentEntry_def zero_Entry_def)

lemma sample_live: "live sample_recent =
   [\<lparr>re_entry = \<lparr>Seq = 1, Delay = 5, Payload = [9, 9]\<rparr>, cumulativeDelay = 10\<rparr>,
    \<lparr>re_entry = \<lparr>Seq = 3, Delay = 5, Payload = [7, 8]\<rparr>, cumulativeDelay = 0\<rparr>]"
  by (simp add: live_def sample_window hole_def SequenceNone_def zero_recentEntry_def zero_Entry_def)

theorem Push_appends_witness:
  "\<exists>r'. Recent_Push \<lparr>Seq = 4, Delay = 2, Payload = []\<rparr> sample_recent = Inr r' \<and> recent_ok r' \<and>
     map rseq (live r') = [3, 4]"
  using Push_appends [OF sample_recent_ok(1), of "\<lparr>Seq = 4, Delay = 2, Payload = []\<rparr>"]
  by (auto simp: SequenceNone_def sample_live sample_window aged_def hole_def)
    (auto simp: sample_recent_def)

theorem Remove_takes_out_witness:
  "fst (snd (Recent_Remove 3 sample_recent)) = \<lparr>Seq = 3, Delay = 5, Payload = [7, 8]\<rparr> \<and>
   map rseq (live (fst (Recent_Remove 3 sample_recent))) = [1]"
  using Remove_takes_out [OF sample_recent_ok, of 3]
  by (auto simp: SequenceNone_def sample_live split: prod.splits if_splits)

theorem RemoveFn_filters_witness:
  "map rseq (live (Recent_RemoveFn (\<lambda>sq. sq = 1) sample_recent)) = [3]"
  using RemoveFn_filters [OF sample_recent_ok(1), of "\<lambda>sq. sq = 1"]
  by (simp add: sample_live)

theorem Recent_newest_within_limits_witness:
  "Recent_Recent sample_recent = [\<lparr>Seq = 3, Delay = 5, Payload = [7, 8]\<rparr>]"
proof -
  have "payload_bytes (live sample_recent) < int_lim" by (simp add: sample_live)
  note t = Recent_newest_within_limits [OF sample_recent_ok(1) this]
  have m: "rc_maxTotalDelay sample_recent = 0" "rc_maxTotalByteSize sample_recent = 3"
    by (simp_all add: sample_recent_def)
  from t obtain old new where "live sample_recent = old @ new"
    "Recent_Recent sample_recent = map re_entry new" "payload_bytes new \<le> 3"
    "old \<noteq> [] \<longrightarrow> payload_bytes (last old # new) > 3"
    unfolding m by auto
  then show ?thesis
    by (auto simp: sample_live append_eq_Cons_conv Cons_eq_append_conv)
qed

text \<open>
  \<open>RemoveFn\<close> trims only when no hole is left: on a buffer holding entries 1 and 2, removing 2 by
  predicate leaves one entry but \<open>LastSeq\<close> answers \<open>SequenceNone\<close>, and removing 1 makes the next
  \<open>Pop\<close> return a zero entry as found, with the entry 2 still in the buffer.
\<close>

theorem RemoveFn_leaves_holes:
  "case NewRecent 4 of Inl _ \<Rightarrow> False | Inr r0 \<Rightarrow>
   case Recent_Push \<lparr>Seq = 1, Delay = 0, Payload = [1]\<rparr> r0 of Inl _ \<Rightarrow> False | Inr r1 \<Rightarrow>
   case Recent_Push \<lparr>Seq = 2, Delay = 0, Payload = [2]\<rparr> r1 of Inl _ \<Rightarrow> False | Inr r2 \<Rightarrow>
     (let r = Recent_RemoveFn (\<lambda>sq. sq = 2) r2
      in Recent_Len r = 1 \<and> Recent_LastSeq r = SequenceNone) \<and>
     (let r = Recent_RemoveFn (\<lambda>sq. sq = 1) r2
      in Recent_Len r = 1 \<and> snd (Recent_Pop r) = (zero_Entry, True))"
  by code_simp

end
