(* ===== verification/Histories.thy ===== *)
theory Histories
  imports RecentBuf
begin

text \<open>
  \<open>sequence/history.go\<close>, \<open>history_create.go\<close>, \<open>enumerator.go\<close> and \<open>story.go\<close>: \<open>History\<close>, the log a
  server keeps of every story so that it can resend any part of it, the enumerator that numbers
  new entries, and \<open>PushAll\<close>.

  The doubly linked list of nodes is the list of the nodes from head to tail; a node keeps its
  array and the two indices. A nested loop that can be left as a whole is \<open>for_each\<close>, whose result
  says whether it was left. \<open>Push\<close> drops old entries in loops that end only because the totals are
  the sums over the entries; they are \<open>pop_while\<close>, with \<open>None\<close> for a loop that does not end.
  \<open>slices.BinarySearchFunc\<close> is Go's library routine.
\<close>

section \<open>State\<close>

definition historyNodeSize :: int where
  "historyNodeSize = 1024"

record historyNode =
  hn_data :: "Entry list"
  hn_headIdx :: int
  hn_tailIdx :: int

record History =
  currEntryCount :: int
  currTotalDelay :: duration
  currTotalByteSize :: int
  maxEntryCount :: int
  maxTotalDelay :: duration
  maxTotalByteSize :: int
  maxRecentEntryCount :: int
  maxRecentTotalDelay :: duration
  maxRecentTotalByteSize :: int
  h_lastSeq :: int
  h_nodes :: "historyNode list"

definition zero_History :: History where
  "zero_History = \<lparr>currEntryCount = 0, currTotalDelay = 0, currTotalByteSize = 0,
     maxEntryCount = 0, maxTotalDelay = 0, maxTotalByteSize = 0,
     maxRecentEntryCount = 0, maxRecentTotalDelay = 0, maxRecentTotalByteSize = 0,
     h_lastSeq = 0, h_nodes = []\<rparr>"

definition zero_historyNode :: historyNode where
  "zero_historyNode = \<lparr>hn_data = replicate (nat historyNodeSize) zero_Entry,
     hn_headIdx = 0, hn_tailIdx = 0\<rparr>"

definition History_Option :: "(History \<Rightarrow> History) list \<Rightarrow> History \<Rightarrow> History" where
  "History_Option opts h = foldl (\<lambda>h opt. opt h) h opts"

definition NewHistory :: "(History \<Rightarrow> History) list \<Rightarrow> History" where
  "NewHistory options = History_Option options zero_History"

definition WithMaxEntryCount :: "int \<Rightarrow> History \<Rightarrow> History" where
  "WithMaxEntryCount n s = s\<lparr>maxEntryCount := (if n < 0 then 0 else n)\<rparr>"

definition WithMaxTotalDelay :: "duration \<Rightarrow> History \<Rightarrow> History" where
  "WithMaxTotalDelay dur s = s\<lparr>maxTotalDelay := (if dur < 0 then 0 else dur)\<rparr>"

definition WithMaxTotalByteSize :: "int \<Rightarrow> History \<Rightarrow> History" where
  "WithMaxTotalByteSize n s = s\<lparr>maxTotalByteSize := (if n < 0 then 0 else n)\<rparr>"

definition SetHistoryRecentEntryCountLimit :: "int \<Rightarrow> History \<Rightarrow> History" where
  "SetHistoryRecentEntryCountLimit n h = h\<lparr>maxRecentEntryCount := n\<rparr>"

definition SetHistoryRecentTotalDelayLimit :: "duration \<Rightarrow> History \<Rightarrow> History" where
  "SetHistoryRecentTotalDelayLimit dur h = h\<lparr>maxRecentTotalDelay := dur\<rparr>"

definition SetHistoryRecentTotalByteSizeLimit :: "int \<Rightarrow> History \<Rightarrow> History" where
  "SetHistoryRecentTotalByteSizeLimit n h = h\<lparr>maxRecentTotalByteSize := n\<rparr>"

section \<open>Push and Pop\<close>

definition node_put :: "Entry \<Rightarrow> historyNode \<Rightarrow> historyNode" where
  "node_put e n = n\<lparr>hn_data := (hn_data n)[nat (hn_tailIdx n) := e], hn_tailIdx := hn_tailIdx n + 1\<rparr>"

definition History_push :: "Entry \<Rightarrow> History \<Rightarrow> History" where
  "History_push e h =
     (if Seq e \<le> h_lastSeq h then h
      else
        let ns = (if h_nodes h = [] then [zero_historyNode]
                  else if hn_tailIdx (last (h_nodes h)) \<ge> historyNodeSize
                  then h_nodes h @ [zero_historyNode]
                  else h_nodes h)
        in h\<lparr>h_nodes := butlast ns @ [node_put e (last ns)],
             currEntryCount := i64 (currEntryCount h + 1),
             currTotalDelay := i64 (currTotalDelay h + Delay e),
             currTotalByteSize := i64 (currTotalByteSize h + int (length (Payload e))),
             h_lastSeq := Seq e\<rparr>)"

definition History_Pop :: "History \<Rightarrow> History \<times> Entry \<times> bool" where
  "History_Pop h =
     (case h_nodes h of
        [] \<Rightarrow> (h, zero_Entry, False)
      | n # ns \<Rightarrow>
          let e = hn_data n ! nat (hn_headIdx n);
              n' = n\<lparr>hn_headIdx := hn_headIdx n + 1\<rparr>;
              nodes' = (if hn_headIdx n' = hn_tailIdx n' then ns else n' # ns)
          in (h\<lparr>h_nodes := nodes',
                currEntryCount := i64 (currEntryCount h - 1),
                currTotalDelay := i64 (currTotalDelay h - Delay e),
                currTotalByteSize := i64 (currTotalByteSize h - int (length (Payload e)))\<rparr>,
              e, True))"

partial_function (option) pop_while :: "(History \<Rightarrow> bool) \<Rightarrow> History \<Rightarrow> History option" where
  "pop_while c h = (if c h then pop_while c (fst (History_Pop h)) else Some h)"

declare pop_while.simps [code]

definition History_Push :: "Entry \<Rightarrow> History \<Rightarrow> History option" where
  "History_Push e h0 =
     (let h1 = History_push e h0;
          h2 = (if maxEntryCount h1 \<noteq> 0 \<and> currEntryCount h1 > maxEntryCount h1
                then fst (History_Pop h1) else h1)
      in case (if maxTotalDelay h2 \<noteq> 0
               then pop_while (\<lambda>h. currTotalDelay h > maxTotalDelay h) h2 else Some h2) of
           None \<Rightarrow> None
         | Some h3 \<Rightarrow>
             (if maxTotalByteSize h3 \<noteq> 0
              then pop_while (\<lambda>h. currTotalByteSize h > maxTotalByteSize h) h3 else Some h3))"

section \<open>Reading\<close>

definition History_LastSeq :: "History \<Rightarrow> int" where
  "History_LastSeq h = h_lastSeq h"

definition History_Len :: "History \<Rightarrow> int" where
  "History_Len h = currEntryCount h"

definition History_Delay :: "History \<Rightarrow> duration" where
  "History_Delay h = currTotalDelay h"

definition History_Size :: "History \<Rightarrow> int" where
  "History_Size h = currTotalByteSize h"

fun for_each :: "('i \<Rightarrow> 's \<Rightarrow> bool \<times> 's) \<Rightarrow> 'i list \<Rightarrow> 's \<Rightarrow> bool \<times> 's" where
  "for_each body [] st = (False, st)"
| "for_each body (i # is) st =
     (let (stop, st') = body i st in if stop then (True, st') else for_each body is st')"

text \<open>
  \<open>RecentX\<close>: the state of the loop is the slice, the total delay, the total size and the number of
  entries still allowed; the inner index runs from \<open>tailIdx - 1\<close> down to \<open>headIdx\<close>.
\<close>

definition RecentX :: "int \<Rightarrow> duration \<Rightarrow> int \<Rightarrow> History \<Rightarrow> Entry list go" where
  "RecentX limitEntries0 limitDur limitSize h =
     (let limitEntries =
        (if limitEntries0 = 0 \<or> limitEntries0 > currEntryCount h then currEntryCount h
         else limitEntries0)
      in if limitEntries = 0 then Inr []
         else if limitEntries < 0 then Inl ''makeslice: cap out of range''
         else
           let (_, entries, _) =
             for_each (\<lambda>curr.
               for_each (\<lambda>idx (entries, dur, size, left).
                 let entry = hn_data curr ! nat idx
                 in if limitDur \<noteq> 0 \<and> i64 (dur + Delay entry) > limitDur then
                      (True, entries, dur, size, left)
                    else if limitSize \<noteq> 0 \<and> i64 (size + int (length (Payload entry))) > limitSize then
                      (True, entries, dur, size, left)
                    else
                      (i64 (left - 1) = 0, entries @ [entry], i64 (dur + Delay entry),
                       i64 (size + int (length (Payload entry))), i64 (left - 1)))
                 (rev [hn_headIdx curr..hn_tailIdx curr - 1]))
               (rev (h_nodes h)) ([], 0, 0, limitEntries)
           in Inr (rev entries))"

definition History_Recent :: "History \<Rightarrow> Entry list go" where
  "History_Recent h =
     RecentX (maxRecentEntryCount h) (maxRecentTotalDelay h) (maxRecentTotalByteSize h) h"

definition History_Iterate :: "(Entry \<Rightarrow> 's \<Rightarrow> bool \<times> 's) \<Rightarrow> History \<Rightarrow> 's \<Rightarrow> 's" where
  "History_Iterate fn h st =
     snd (for_each (\<lambda>curr.
       for_each (\<lambda>idx s. let (go_on, s') = fn (hn_data curr ! nat idx) s in (\<not> go_on, s'))
         [hn_headIdx curr..hn_tailIdx curr - 1])
       (h_nodes h) st)"

text \<open>\<open>slices.BinarySearchFunc\<close>: the smallest index at which \<open>cmp\<close> is not negative.\<close>

function bs_loop :: "('e \<Rightarrow> int) \<Rightarrow> 'e list \<Rightarrow> int \<Rightarrow> int \<Rightarrow> int" where
  "bs_loop cmp xs i j =
     (if i < j then
        let h = (i + j) div 2
        in if cmp (xs ! nat h) < 0 then bs_loop cmp xs (h + 1) j else bs_loop cmp xs i h
      else i)"
  by pat_completeness auto
termination by (relation "measure (\<lambda>(_, _, i, j). nat (j - i))") (auto simp: Let_def)

definition BinarySearchFunc :: "('e \<Rightarrow> int) \<Rightarrow> 'e list \<Rightarrow> int" where
  "BinarySearchFunc cmp xs = bs_loop cmp xs 0 (int (length xs))"

definition node_slice :: "historyNode \<Rightarrow> Entry list" where
  "node_slice n = take (nat (hn_tailIdx n - hn_headIdx n)) (drop (nat (hn_headIdx n)) (hn_data n))"

text \<open>
  \<open>IterateRange\<close>: the inner loop's state also says whether the callback asked to stop, which
  leaves both loops; a number outside the range only ends the inner one.
\<close>

definition IterateRange :: "Range \<Rightarrow> (Entry \<Rightarrow> 's \<Rightarrow> bool \<times> 's) \<Rightarrow> History \<Rightarrow> 's \<Rightarrow> 's" where
  "IterateRange r fn h st =
     (let rFrom = From r; rTo = To r
      in snd (for_each (\<lambda>curr s.
           if Seq (hn_data curr ! nat (hn_tailIdx curr - 1)) < rFrom then (False, s)
           else if Seq (hn_data curr ! nat (hn_headIdx curr)) > rTo then (True, s)
           else
             let idxStart = hn_headIdx curr + BinarySearchFunc
                   (\<lambda>e. i64 (i64 (Seq e) - i64 (rng_seq r))) (node_slice curr);
                 (_, returned, s') =
                   for_each (\<lambda>idx (_, s).
                     let e = hn_data curr ! nat idx
                     in if Seq e < rFrom \<or> Seq e > rTo then (True, False, s)
                        else let (go_on, s') = fn e s in (\<not> go_on, \<not> go_on, s'))
                   [idxStart..hn_tailIdx curr - 1] (False, s)
             in (returned, s'))
           (h_nodes h) st))"

definition History_GetRange :: "Range \<Rightarrow> History \<Rightarrow> Entry list" where
  "History_GetRange r h = IterateRange r (\<lambda>e entries. (True, entries @ [e])) h []"

section \<open>Enumerator and PushAll\<close>

record Enumerator =
  en_lastAt :: time
  en_lastSeq :: int

definition zero_Enumerator :: Enumerator where
  "zero_Enumerator = \<lparr>en_lastAt = 0, en_lastSeq = 0\<rparr>"

definition Enumerator_Push :: "time \<Rightarrow> byte list \<Rightarrow> Enumerator \<Rightarrow> Enumerator \<times> Entry" where
  "Enumerator_Push now payload e =
     (let delay = (if \<not> time_IsZero (en_lastAt e) then time_Sub now (en_lastAt e) else 0);
          e' = \<lparr>en_lastAt = now, en_lastSeq = u64 (en_lastSeq e + 1)\<rparr>
      in (e', \<lparr>Seq = en_lastSeq e', Delay = delay, Payload = payload\<rparr>))"

fun PushAll :: "(Entry \<Rightarrow> 's \<Rightarrow> 's option) \<Rightarrow> Entry list \<Rightarrow> 's \<Rightarrow> 's option" where
  "PushAll pushes [] story = Some story"
| "PushAll pushes (e # es) story =
     (case pushes e story of None \<Rightarrow> None | Some story' \<Rightarrow> PushAll pushes es story')"

section \<open>The contents of a history\<close>

definition node_entries :: "historyNode \<Rightarrow> Entry list" where
  "node_entries n = map (\<lambda>i. hn_data n ! nat i) [hn_headIdx n..hn_tailIdx n - 1]"

definition contents :: "History \<Rightarrow> Entry list" where
  "contents h = concat (map node_entries (h_nodes h))"

definition node_ok :: "historyNode \<Rightarrow> bool" where
  "node_ok n \<longleftrightarrow> int (length (hn_data n)) = historyNodeSize \<and> 0 \<le> hn_headIdx n \<and>
     hn_headIdx n < hn_tailIdx n \<and> hn_tailIdx n \<le> historyNodeSize"

definition total_delay :: "Entry list \<Rightarrow> duration" where
  "total_delay es = i64 (sum_list (map Delay es))"

definition total_bytes :: "Entry list \<Rightarrow> int" where
  "total_bytes es = i64 (sum_list (map (\<lambda>e. int (length (Payload e))) es))"

definition history_ok :: "History \<Rightarrow> bool" where
  "history_ok h \<longleftrightarrow> (\<forall>n \<in> set (h_nodes h). node_ok n) \<and>
     currEntryCount h = i64 (int (length (contents h))) \<and>
     currTotalDelay h = total_delay (contents h) \<and>
     currTotalByteSize h = total_bytes (contents h) \<and>
     0 \<le> maxEntryCount h \<and> 0 \<le> maxTotalDelay h \<and> 0 \<le> maxTotalByteSize h \<and>
     0 \<le> h_lastSeq h \<and> sorted_wrt (<) (map Seq (contents h)) \<and>
     (\<forall>e \<in> set (contents h). 0 < Seq e \<and> Seq e \<le> h_lastSeq h)"

text \<open>What no operation but the setters changes.\<close>

definition same_limits :: "History \<Rightarrow> History \<Rightarrow> bool" where
  "same_limits h h' \<longleftrightarrow> maxEntryCount h' = maxEntryCount h \<and> maxTotalDelay h' = maxTotalDelay h \<and>
     maxTotalByteSize h' = maxTotalByteSize h \<and> maxRecentEntryCount h' = maxRecentEntryCount h \<and>
     maxRecentTotalDelay h' = maxRecentTotalDelay h \<and>
     maxRecentTotalByteSize h' = maxRecentTotalByteSize h"

lemma same_limits_refl [simp]: "same_limits h h"
  by (simp add: same_limits_def)

lemma same_limits_trans: "same_limits a b \<Longrightarrow> same_limits b c \<Longrightarrow> same_limits a c"
  by (simp add: same_limits_def)

lemma i64_cong_add: "i64 x = i64 y \<Longrightarrow> i64 (x + z) = i64 (y + z)"
  by (metis i64_i64_add)

lemma i64_add_right: "i64 (x + i64 y) = i64 (x + y)"
  using i64_i64_add [of y x] by (simp add: add.commute)

lemma i64_i64_diff: "i64 (i64 x - y) = i64 (x - y)"
  using i64_i64_add [of x "- y"] by simp

lemma node_entries_pop:
  assumes "node_ok n"
  shows "node_entries n = hn_data n ! nat (hn_headIdx n) #
    node_entries (n\<lparr>hn_headIdx := hn_headIdx n + 1\<rparr>)"
  using assms by (simp add: node_entries_def node_ok_def upto_rec1)

lemma node_entries_empty: "hn_headIdx n = hn_tailIdx n \<Longrightarrow> node_entries n = []"
  by (simp add: node_entries_def)

lemma node_entries_put:
  assumes "int (length (hn_data n)) = historyNodeSize" "0 \<le> hn_headIdx n"
    "hn_headIdx n \<le> hn_tailIdx n" "hn_tailIdx n < historyNodeSize"
  shows "node_entries (node_put e n) = node_entries n @ [e]" and "node_ok (node_put e n)"
proof -
  have "[hn_headIdx n..hn_tailIdx n] = [hn_headIdx n..hn_tailIdx n - 1] @ [hn_tailIdx n]"
    using assms by (intro upto_rec2) simp
  moreover have "nat (hn_tailIdx n) < length (hn_data n)" using assms by (simp add: nat_less_iff)
  moreover have "(hn_data n)[nat (hn_tailIdx n) := e] ! nat i = hn_data n ! nat i"
    if "i \<in> set [hn_headIdx n..hn_tailIdx n - 1]" for i
    using that assms by (intro nth_list_update_neq) (auto simp: eq_nat_nat_iff)
  ultimately show "node_entries (node_put e n) = node_entries n @ [e]"
    by (simp add: node_entries_def node_put_def)
  show "node_ok (node_put e n)" using assms by (simp add: node_ok_def node_put_def)
qed

lemma contents_Nil:
  assumes "history_ok h"
  shows "contents h = [] \<longleftrightarrow> h_nodes h = []"
  using assms node_entries_pop by (cases "h_nodes h") (auto simp: contents_def history_ok_def)

lemma History_Pop_spec:
  assumes ok: "history_ok h"
  shows "case contents h of
      [] \<Rightarrow> History_Pop h = (h, zero_Entry, False)
    | e # es \<Rightarrow> \<exists>h'. History_Pop h = (h', e, True) \<and> history_ok h' \<and> contents h' = es \<and>
        same_limits h h' \<and> h_lastSeq h' = h_lastSeq h"
proof (cases "h_nodes h")
  case Nil
  then show ?thesis by (simp add: contents_def History_Pop_def)
next
  case (Cons n ns)
  then have n: "node_ok n" using ok by (simp add: history_ok_def)
  let ?e = "hn_data n ! nat (hn_headIdx n)" and ?n = "n\<lparr>hn_headIdx := hn_headIdx n + 1\<rparr>"
  let ?nodes = "if hn_headIdx ?n = hn_tailIdx ?n then ns else ?n # ns"
  define h' where "h' = fst (History_Pop h)"
  have pop: "History_Pop h = (h', ?e, True)" and nodes: "h_nodes h' = ?nodes"
    by (simp_all add: h'_def History_Pop_def Cons Let_def)
  have c: "contents h = ?e # contents h'"
    using node_entries_pop [OF n] node_entries_empty [of ?n]
    by (auto simp: contents_def nodes Cons)
  have "\<forall>m \<in> set ?nodes. node_ok m"
    using ok Cons n by (auto simp: history_ok_def node_ok_def)
  moreover have "currEntryCount h' = i64 (currEntryCount h - 1)"
    "currTotalDelay h' = i64 (currTotalDelay h - Delay ?e)"
    "currTotalByteSize h' = i64 (currTotalByteSize h - int (length (Payload ?e)))"
    "maxEntryCount h' = maxEntryCount h" "maxTotalDelay h' = maxTotalDelay h"
    "maxTotalByteSize h' = maxTotalByteSize h" "h_lastSeq h' = h_lastSeq h"
    by (simp_all add: h'_def History_Pop_def Cons Let_def)
  ultimately have "history_ok h'"
    using ok nodes unfolding history_ok_def c
    by (auto simp: total_delay_def total_bytes_def i64_i64_diff)
  moreover have "same_limits h h' \<and> h_lastSeq h' = h_lastSeq h"
    by (simp add: same_limits_def h'_def History_Pop_def Cons Let_def)
  ultimately show ?thesis by (simp add: c pop)
qed

lemma concat_butlast: "ns \<noteq> [] \<Longrightarrow> concat (map f (butlast ns)) @ f (last ns) = concat (map f ns)"
  by (induction ns rule: rev_induct) auto

lemma History_push_spec:
  assumes ok: "history_ok h" and s: "h_lastSeq h < Seq e"
  shows "history_ok (History_push e h) \<and> contents (History_push e h) = contents h @ [e] \<and>
    same_limits h (History_push e h) \<and> h_lastSeq (History_push e h) = Seq e"
proof -
  define ns where "ns = (if h_nodes h = [] then [zero_historyNode]
    else if hn_tailIdx (last (h_nodes h)) \<ge> historyNodeSize then h_nodes h @ [zero_historyNode]
    else h_nodes h)"
  have all: "\<forall>n \<in> set (h_nodes h). node_ok n" using ok by (simp add: history_ok_def)
  have z: "node_entries zero_historyNode = []"
    by (simp add: node_entries_def zero_historyNode_def)
  have l: "int (length (hn_data (last ns))) = historyNodeSize \<and> 0 \<le> hn_headIdx (last ns) \<and>
     hn_headIdx (last ns) \<le> hn_tailIdx (last ns) \<and> hn_tailIdx (last ns) < historyNodeSize"
  proof (cases "h_nodes h = [] \<or> hn_tailIdx (last (h_nodes h)) \<ge> historyNodeSize")
    case True
    then have "last ns = zero_historyNode" by (auto simp: ns_def)
    then show ?thesis by (simp add: zero_historyNode_def historyNodeSize_def)
  next
    case False
    then have "node_ok (last (h_nodes h))" using all last_in_set by blast
    then show ?thesis using False by (simp add: node_ok_def ns_def)
  qed
  have bl: "\<forall>n \<in> set (butlast ns). node_ok n"
    using all by (auto simp: ns_def dest: in_set_butlastD)
  have ne: "ns \<noteq> []" by (simp add: ns_def)
  have old: "concat (map node_entries (butlast ns)) @ node_entries (last ns) = contents h"
  proof -
    have "concat (map node_entries ns) = contents h" by (simp add: contents_def z ns_def)
    then show ?thesis using concat_butlast [OF ne, of node_entries] by simp
  qed
  note put = node_entries_put [of "last ns" e]
  have nodes: "h_nodes (History_push e h) = butlast ns @ [node_put e (last ns)]"
    using s by (simp add: History_push_def Let_def ns_def)
  have c: "contents (History_push e h) = contents h @ [e]"
    using put l old by (simp add: contents_def [of "History_push e h"] nodes)
  have "\<forall>n \<in> set (h_nodes (History_push e h)). node_ok n"
    unfolding nodes using put l bl by auto
  moreover have "currEntryCount (History_push e h) = i64 (int (length (contents h @ [e])))"
    "currTotalDelay (History_push e h) = total_delay (contents h @ [e])"
    "currTotalByteSize (History_push e h) = total_bytes (contents h @ [e])"
    using s ok by (simp_all add: History_push_def Let_def history_ok_def total_delay_def
        total_bytes_def i64_add_right i64_i64_add algebra_simps)
  moreover have "sorted_wrt (<) (map Seq (contents h @ [e]))"
    "\<forall>x \<in> set (contents h @ [e]). 0 < Seq x \<and> Seq x \<le> Seq e"
    using ok s by (auto simp: history_ok_def sorted_wrt_append)
  moreover have "same_limits h (History_push e h)" "h_lastSeq (History_push e h) = Seq e"
    using s by (simp_all add: History_push_def Let_def same_limits_def)
  ultimately show ?thesis
    using ok s unfolding c by (simp add: history_ok_def c same_limits_def)
qed

text \<open>The shortest prefix is given up after which the rest passes the test.\<close>

fun drop_until :: "('e list \<Rightarrow> bool) \<Rightarrow> 'e list \<Rightarrow> 'e list" where
  "drop_until P [] = []"
| "drop_until P (x # xs) = (if P (x # xs) then x # xs else drop_until P xs)"

lemma drop_until_suffix: "\<exists>k. drop_until P xs = drop k xs"
proof (induction xs)
  case (Cons x xs)
  then obtain k where "drop_until P xs = drop k xs" by blast
  then show ?case by (cases "P (x # xs)") (auto intro: exI [of _ 0] exI [of _ "Suc k"])
qed simp

lemma drop_until_test: "P [] \<Longrightarrow> P (drop_until P xs)"
  by (induction xs) auto

lemma drop_until_id: "P xs \<Longrightarrow> drop_until P xs = xs"
  by (cases xs) auto

lemma drop_until_least: "drop_until P xs = drop k xs \<Longrightarrow> k \<le> length xs \<Longrightarrow> j < k \<Longrightarrow> \<not> P (drop j xs)"
proof (induction xs arbitrary: k j)
  case (Cons x xs)
  show ?case
  proof (cases "P (x # xs)")
    case True
    then have "length (x # xs) = length (drop k (x # xs))" using Cons.prems by simp
    then show ?thesis using Cons.prems by simp
  next
    case False
    then show ?thesis using Cons by (cases k; cases j) auto
  qed
qed simp

lemma pop_while_spec:
  assumes "history_ok h" and "P []"
    and "\<And>g. history_ok g \<Longrightarrow> same_limits h g \<Longrightarrow> c g \<longleftrightarrow> \<not> P (contents g)"
  shows "\<exists>h'. pop_while c h = Some h' \<and> history_ok h' \<and> contents h' = drop_until P (contents h) \<and>
    same_limits h h' \<and> h_lastSeq h' = h_lastSeq h"
  using assms
proof (induction "contents h" arbitrary: h)
  case Nil
  then show ?case by (subst pop_while.simps) auto
next
  case (Cons e es)
  show ?case
  proof (cases "P (contents h)")
    case True
    then show ?thesis using Cons.prems drop_until_id [of P "contents h"]
      by (subst pop_while.simps) auto
  next
    case False
    obtain h1 where h1: "History_Pop h = (h1, e, True)" "history_ok h1" "contents h1 = es"
        "same_limits h h1" "h_lastSeq h1 = h_lastSeq h"
      using History_Pop_spec [OF Cons.prems(1)] by (auto simp: Cons.hyps(2) [symmetric])
    have "\<exists>h'. pop_while c h1 = Some h' \<and> history_ok h' \<and> contents h' = drop_until P (contents h1) \<and>
        same_limits h1 h' \<and> h_lastSeq h' = h_lastSeq h1"
      by (rule Cons.hyps(1)) (use h1 Cons.prems same_limits_trans in blast)+
    moreover have "pop_while c h = pop_while c h1"
      using Cons.prems(1,3) False h1(1) by (subst pop_while.simps) simp
    moreover have "drop_until P (contents h) = drop_until P (contents h1)"
      using False h1(3) by (simp add: Cons.hyps(2) [symmetric])
    ultimately show ?thesis using h1 same_limits_trans by metis
  qed
qed

section \<open>Limits\<close>

text \<open>
  A suffix of the log that respects limits on the number of its entries, their total delay and
  their total size; 0 is no limit.
\<close>

definition within :: "int \<Rightarrow> duration \<Rightarrow> int \<Rightarrow> Entry list \<Rightarrow> bool" where
  "within n d b es \<longleftrightarrow> (n = 0 \<or> int (length es) \<le> n) \<and> (d = 0 \<or> total_delay es \<le> d) \<and>
     (b = 0 \<or> total_bytes es \<le> b)"

text \<open>No total overflows and no delay is negative.\<close>

definition tame :: "Entry list \<Rightarrow> bool" where
  "tame es \<longleftrightarrow> (\<forall>e \<in> set es. 0 \<le> Delay e) \<and> int (length es) < int_lim \<and>
     sum_list (map Delay es) < int_lim \<and>
     sum_list (map (\<lambda>e. int (length (Payload e))) es) < int_lim"

lemma sum_list_nonneg_map: "(\<And>x. x \<in> set xs \<Longrightarrow> 0 \<le> f x) \<Longrightarrow> 0 \<le> sum_list (map f xs :: int list)"
  by (induction xs) auto

lemma tame_tl: "tame (e # es) \<Longrightarrow> tame es"
  by (auto simp: tame_def)

lemma tame_drop: "tame (xs @ ys) \<Longrightarrow> tame ys"
  by (induction xs) (auto dest: tame_tl)

lemma tame_totals:
  assumes "tame es"
  shows "total_delay es = sum_list (map Delay es)"
    and "total_bytes es = sum_list (map (\<lambda>e. int (length (Payload e))) es)"
    and "0 \<le> sum_list (map Delay es)" and "0 \<le> sum_list (map (\<lambda>e. int (length (Payload e))) es)"
proof -
  show d: "0 \<le> sum_list (map Delay es)" "0 \<le> sum_list (map (\<lambda>e. int (length (Payload e))) es)"
    using assms by (auto simp: tame_def intro!: sum_list_nonneg_map)
  then show "total_delay es = sum_list (map Delay es)"
    "total_bytes es = sum_list (map (\<lambda>e. int (length (Payload e))) es)"
    using assms by (auto simp: total_delay_def total_bytes_def tame_def intro!: i64_id)
qed

lemma within_tl:
  assumes "tame (e # es)" and "within n d b (e # es)"
  shows "within n d b es"
  using assms tame_totals [OF assms(1)] tame_totals [OF tame_tl [OF assms(1)]]
  by (auto simp: within_def tame_def)

lemma within_suffix: "tame (xs @ ys) \<Longrightarrow> within n d b (xs @ ys) \<Longrightarrow> within n d b ys"
  by (induction xs) (auto dest: within_tl tame_tl)

lemma within_Nil: "0 \<le> n \<Longrightarrow> 0 \<le> d \<Longrightarrow> 0 \<le> b \<Longrightarrow> within n d b []"
  by (simp add: within_def total_delay_def total_bytes_def)

lemma drop_until_cong:
  "(\<And>xs ys. zs = xs @ ys \<Longrightarrow> ys \<noteq> [] \<Longrightarrow> P ys = Q ys) \<Longrightarrow> drop_until P zs = drop_until Q zs"
proof (induction zs)
  case (Cons z zs)
  have "drop_until P zs = drop_until Q zs"
    by (rule Cons.IH) (use Cons.prems [of "z # _"] in auto)
  then show ?case using Cons.prems [of "[]" "z # zs"] by simp
qed simp

text \<open>Dropping for one limit and then for another is dropping for both, if going on never breaks the first.\<close>

lemma drop_until_both:
  assumes "\<And>y ys. S (y # ys) \<Longrightarrow> S ys" and "\<And>y ys. S (y # ys) \<Longrightarrow> P (y # ys) \<Longrightarrow> P ys"
    and "S xs"
  shows "drop_until Q (drop_until P xs) = drop_until (\<lambda>ys. P ys \<and> Q ys) xs"
  using assms(3)
proof (induction xs)
  case (Cons x xs)
  have "drop_until Q ys = drop_until (\<lambda>ys. P ys \<and> Q ys) ys" if "S ys" "P ys" for ys
    using that by (induction ys) (auto dest: assms(1,2))
  then show ?case using Cons assms(1,2) [of x xs] by auto
qed simp

lemma drop_until_at:
  assumes "tame (zs @ ys)" and "ys = [] \<or> within n d b ys"
    and "zs = [] \<or> \<not> within n d b (last zs # ys)"
  shows "drop_until (within n d b) (zs @ ys) = ys"
  using assms
proof (induction zs)
  case Nil
  then show ?case by (cases ys) auto
next
  case (Cons z zs)
  have "\<not> within n d b (z # zs @ ys)"
  proof (cases "zs = []")
    case False
    then have "z # zs @ ys = (z # butlast zs) @ (last zs # ys)" by simp
    moreover have "\<not> within n d b (last zs # ys)" using Cons.prems(3) False by simp
    ultimately show ?thesis using within_suffix Cons.prems(1) by (metis append_Cons)
  qed (use Cons.prems in simp)
  moreover have "drop_until (within n d b) (zs @ ys) = ys"
    using Cons.prems tame_tl by (intro Cons.IH) (auto split: if_splits)
  ultimately show ?case by simp
qed

definition history_fits :: "History \<Rightarrow> Entry list \<Rightarrow> bool" where
  "history_fits h = within (maxEntryCount h) (maxTotalDelay h) (maxTotalByteSize h)"

lemma History_Push_newest:
  assumes ok: "history_ok h" and tame: "tame (contents h @ [e])"
    and fits: "maxEntryCount h = 0 \<or> int (length (contents h)) \<le> maxEntryCount h"
    and new: "h_lastSeq h < Seq e"
  shows "\<exists>h'. History_Push e h = Some h' \<and> history_ok h' \<and> same_limits h h' \<and>
    h_lastSeq h' = Seq e \<and> contents h' = drop_until (history_fits h) (contents h @ [e]) \<and>
    history_fits h (contents h')"
proof -
  let ?xs = "contents h @ [e]"
  let ?n = "maxEntryCount h" and ?d = "maxTotalDelay h" and ?b = "maxTotalByteSize h"
  define h1 where "h1 = History_push e h"
  have h1: "history_ok h1" "contents h1 = ?xs" "same_limits h h1" "h_lastSeq h1 = Seq e"
    using History_push_spec [OF ok new] by (auto simp: h1_def)
  have count: "currEntryCount h1 = int (length ?xs)"
    using h1(1) tame unfolding history_ok_def h1(2) tame_def by (simp add: i64_id)
  define h2 where "h2 = (if maxEntryCount h1 \<noteq> 0 \<and> currEntryCount h1 > maxEntryCount h1
                then fst (History_Pop h1) else h1)"
  let ?N = "\<lambda>ys. ?n = 0 \<or> int (length ys) \<le> ?n"
  have h2: "history_ok h2 \<and> contents h2 = drop_until ?N ?xs \<and> same_limits h h2 \<and> h_lastSeq h2 = Seq e"
  proof (cases "maxEntryCount h1 \<noteq> 0 \<and> currEntryCount h1 > maxEntryCount h1")
    case True
    then have n: "?n \<noteq> 0" "int (length ?xs) > ?n" "0 < ?n" "int (length (tl ?xs)) \<le> ?n"
      using h1(3) fits ok count by (auto simp: same_limits_def history_ok_def)
    then obtain x xs where x: "?xs = x # xs" by (cases ?xs) auto
    have "drop_until ?N ?xs = xs" unfolding x using n x by (cases xs) auto
    then show ?thesis using History_Pop_spec [OF h1(1)] True h1 same_limits_trans
      unfolding h1(2) x h2_def by fastforce
  next
    case False
    then have "?N ?xs" using count h1(3) by (auto simp: same_limits_def)
    then have "drop_until ?N ?xs = ?xs" by (rule drop_until_id)
    then show ?thesis using False h1 by (auto simp: h2_def)
  qed
  let ?D = "\<lambda>ys. ?d = 0 \<or> total_delay ys \<le> ?d" and ?B = "\<lambda>ys. ?b = 0 \<or> total_bytes ys \<le> ?b"
  have lim: "0 \<le> ?n" "0 \<le> ?d" "0 \<le> ?b" using ok by (auto simp: history_ok_def)
  have "\<exists>h3. (if maxTotalDelay h2 \<noteq> 0
               then pop_while (\<lambda>h. currTotalDelay h > maxTotalDelay h) h2 else Some h2) = Some h3 \<and>
    history_ok h3 \<and> contents h3 = drop_until ?D (contents h2) \<and> same_limits h2 h3 \<and>
    h_lastSeq h3 = h_lastSeq h2"
  proof (cases "?d = 0")
    case True
    then show ?thesis using h2 by (auto simp: same_limits_def drop_until_id)
  next
    case False
    have "\<exists>h3. pop_while (\<lambda>h. currTotalDelay h > maxTotalDelay h) h2 = Some h3 \<and> history_ok h3 \<and>
      contents h3 = drop_until ?D (contents h2) \<and> same_limits h2 h3 \<and> h_lastSeq h3 = h_lastSeq h2"
      by (rule pop_while_spec) (use h2 lim False in
          \<open>auto simp: history_ok_def same_limits_def total_delay_def\<close>)
    then show ?thesis using False h2 by (auto simp: same_limits_def)
  qed
  then obtain h3 where h3: "(if maxTotalDelay h2 \<noteq> 0
      then pop_while (\<lambda>h. currTotalDelay h > maxTotalDelay h) h2 else Some h2) = Some h3"
    "history_ok h3" "contents h3 = drop_until ?D (contents h2)" "same_limits h2 h3"
    "h_lastSeq h3 = h_lastSeq h2" by blast
  have "\<exists>h4. (if maxTotalByteSize h3 \<noteq> 0
              then pop_while (\<lambda>h. currTotalByteSize h > maxTotalByteSize h) h3 else Some h3) = Some h4 \<and>
    history_ok h4 \<and> contents h4 = drop_until ?B (contents h3) \<and> same_limits h3 h4 \<and>
    h_lastSeq h4 = h_lastSeq h3"
  proof (cases "?b = 0")
    case True
    then show ?thesis using h2 h3 by (auto simp: same_limits_def drop_until_id)
  next
    case False
    have "\<exists>h4. pop_while (\<lambda>h. currTotalByteSize h > maxTotalByteSize h) h3 = Some h4 \<and> history_ok h4 \<and>
      contents h4 = drop_until ?B (contents h3) \<and> same_limits h3 h4 \<and> h_lastSeq h4 = h_lastSeq h3"
      by (rule pop_while_spec) (use h2 h3 lim False in
          \<open>auto simp: history_ok_def same_limits_def total_bytes_def\<close>)
    then show ?thesis using False h2 h3 by (auto simp: same_limits_def)
  qed
  then obtain h4 where h4: "(if maxTotalByteSize h3 \<noteq> 0
      then pop_while (\<lambda>h. currTotalByteSize h > maxTotalByteSize h) h3 else Some h3) = Some h4"
    "history_ok h4" "contents h4 = drop_until ?B (contents h3)" "same_limits h3 h4"
    "h_lastSeq h4 = h_lastSeq h3" by blast
  have push: "History_Push e h = Some h4"
    using h3(1) h4(1) unfolding History_Push_def Let_def h1_def [symmetric] h2_def [symmetric] by simp
  have D: "\<And>y ys. tame (y # ys) \<Longrightarrow> ?N (y # ys) \<and> ?D (y # ys) \<Longrightarrow> ?N ys \<and> ?D ys"
    using within_tl [of _ _ ?n ?d 0] by (auto simp: within_def)
  have "contents h4 = drop_until ?B (drop_until ?D (drop_until ?N ?xs))"
    using h2 h3 h4 by simp
  also have "drop_until ?D (drop_until ?N ?xs) = drop_until (\<lambda>ys. ?N ys \<and> ?D ys) ?xs"
    by (rule drop_until_both [where S = tame]) (use tame tame_tl in auto)
  also have "drop_until ?B \<dots> = drop_until (\<lambda>ys. (?N ys \<and> ?D ys) \<and> ?B ys) ?xs"
    by (rule drop_until_both [where S = tame, OF tame_tl D]) (use tame in auto)
  also have "\<dots> = drop_until (history_fits h) ?xs"
    by (rule drop_until_cong) (auto simp: history_fits_def within_def)
  finally have c: "contents h4 = drop_until (history_fits h) ?xs" .
  have "history_fits h (contents h4)"
    unfolding c by (rule drop_until_test) (simp add: history_fits_def within_Nil lim)
  then show ?thesis using push h2 h3 h4 c same_limits_trans by metis
qed

text \<open>
  C27. \<open>Push\<close> of a newer entry to a history always returns: the log is then the longest suffix of the
  old log with the entry appended that respects the limits on count, total delay and total size
  (the shortest prefix is given up), and the totals, the node structure and the order of the
  numbers stay right.
\<close>

theorem History_Push_keeps_newest:
  assumes "history_ok h" and "tame (contents h @ [e])"
    and "maxEntryCount h = 0 \<or> int (length (contents h)) \<le> maxEntryCount h"
    and "h_lastSeq h < Seq e"
  shows "\<exists>h'. History_Push e h = Some h' \<and> history_ok h' \<and> same_limits h h' \<and>
    h_lastSeq h' = Seq e \<and> contents h' = drop_until (history_fits h) (contents h @ [e]) \<and>
    history_fits h (contents h')"
  by (rule History_Push_newest [OF assms])

section \<open>Reading a history\<close>

lemma for_each_map: "for_each (\<lambda>i. g (f i)) is = for_each g (map f is)"
proof
  show "for_each (\<lambda>i. g (f i)) is st = for_each g (map f is) st" for st
    by (induction "is" arbitrary: st) (auto split: prod.split)
qed

lemma for_each_append:
  "for_each g (xs @ ys) st =
   (let (stop, st') = for_each g xs st in if stop then (True, st') else for_each g ys st')"
  by (induction xs arbitrary: st) (auto split: prod.split)

lemma for_each_concat: "for_each (\<lambda>n. for_each g (f n)) ns st = for_each g (concat (map f ns)) st"
  by (induction ns arbitrary: st) (auto simp: for_each_append split: prod.split)

lemma for_each_visit:
  "snd (for_each (\<lambda>e s. let (go_on, s') = fn e s in (\<not> go_on, s')) es st) = visit fn es st"
  by (induction es arbitrary: st) (auto split: prod.split)

lemma History_Iterate_visits: "History_Iterate fn h st = visit fn (contents h) st"
proof -
  have "for_each (\<lambda>curr. for_each (\<lambda>idx s. let (go_on, s') = fn (hn_data curr ! nat idx) s in (\<not> go_on, s'))
         [hn_headIdx curr..hn_tailIdx curr - 1]) (h_nodes h) st =
    for_each (\<lambda>curr. for_each (\<lambda>e s. let (go_on, s') = fn e s in (\<not> go_on, s')) (node_entries curr))
      (h_nodes h) st"
    by (simp only: node_entries_def for_each_map [symmetric])
  then show ?thesis
    unfolding History_Iterate_def by (simp only: for_each_concat for_each_visit contents_def)
qed

text \<open>The body of \<open>RecentX\<close> over a list of entries, newest first.\<close>

definition recent_body :: "duration \<Rightarrow> int \<Rightarrow> Entry \<Rightarrow> Entry list \<times> duration \<times> int \<times> int
    \<Rightarrow> bool \<times> Entry list \<times> duration \<times> int \<times> int" where
  "recent_body d b entry = (\<lambda>(entries, dur, size, left).
     if d \<noteq> 0 \<and> i64 (dur + Delay entry) > d then (True, entries, dur, size, left)
     else if b \<noteq> 0 \<and> i64 (size + int (length (Payload entry))) > b then (True, entries, dur, size, left)
     else (i64 (left - 1) = 0, entries @ [entry], i64 (dur + Delay entry),
           i64 (size + int (length (Payload entry))), i64 (left - 1)))"

lemma total_Cons:
  "total_delay (e # es) = i64 (total_delay es + Delay e)"
  "total_bytes (e # es) = i64 (total_bytes es + int (length (Payload e)))"
  by (simp_all add: total_delay_def total_bytes_def i64_i64_add)
    (simp_all only: add.commute)

lemma recent_loop:
  assumes "tame (xs @ ys)" and "0 < n" and "ys = [] \<or> within n d b ys"
    and "int (length ys) < n" and "n < int_lim"
  shows "fst (snd (for_each (recent_body d b) (rev xs)
      (rev ys, total_delay ys, total_bytes ys, n - int (length ys)))) =
    rev (drop_until (within n d b) (xs @ ys))"
  using assms
proof (induction xs arbitrary: ys rule: rev_induct)
  case Nil
  then show ?case using drop_until_at [of "[]" ys n d b] by simp
next
  case (snoc x xs)
  have t: "tame (x # ys)" using snoc.prems(1) tame_drop [of xs "x # ys"] by simp
  let ?stop = "(d \<noteq> 0 \<and> total_delay (x # ys) > d) \<or> (b \<noteq> 0 \<and> total_bytes (x # ys) > b)"
  have left: "i64 (n - int (length ys) - 1) = n - int (length (x # ys))"
    using snoc.prems by (simp add: i64_id)
  have body: "recent_body d b x (rev ys, total_delay ys, total_bytes ys, n - int (length ys)) =
    (if ?stop then (True, rev ys, total_delay ys, total_bytes ys, n - int (length ys))
     else (n - int (length (x # ys)) = 0, rev (x # ys), total_delay (x # ys), total_bytes (x # ys),
       n - int (length (x # ys))))"
    unfolding recent_body_def total_Cons left [symmetric] by simp
  show ?case
  proof (cases ?stop)
    case True
    then have "drop_until (within n d b) ((xs @ [x]) @ ys) = ys"
      using snoc.prems by (intro drop_until_at) (auto simp: within_def)
    moreover have "recent_body d b x (rev ys, total_delay ys, total_bytes ys, n - int (length ys)) =
      (True, rev ys, total_delay ys, total_bytes ys, n - int (length ys))"
      unfolding body using True by simp
    ultimately show ?thesis by simp
  next
    case False
    then have w: "within n d b (x # ys)" using snoc.prems by (auto simp: within_def)
    show ?thesis
    proof (cases "n - int (length (x # ys)) = 0")
      case True
      then have "drop_until (within n d b) (xs @ x # ys) = x # ys"
        using snoc.prems w by (intro drop_until_at) (auto simp: within_def)
      moreover have "recent_body d b x (rev ys, total_delay ys, total_bytes ys, n - int (length ys)) =
        (True, rev (x # ys), total_delay (x # ys), total_bytes (x # ys), n - int (length (x # ys)))"
        unfolding body using True False by auto
      ultimately show ?thesis by simp
    next
      case len: False
      have "fst (snd (for_each (recent_body d b) (rev xs) (rev (x # ys), total_delay (x # ys),
          total_bytes (x # ys), n - int (length (x # ys))))) =
        rev (drop_until (within n d b) (xs @ x # ys))"
        by (rule snoc.IH) (use snoc.prems w len in auto)
      moreover have "recent_body d b x (rev ys, total_delay ys, total_bytes ys, n - int (length ys)) =
        (False, rev (x # ys), total_delay (x # ys), total_bytes (x # ys), n - int (length (x # ys)))"
        unfolding body using len False by auto
      ultimately show ?thesis by simp
    qed
  qed
qed

lemma RecentX_newest:
  assumes ok: "history_ok h" and tame: "tame (contents h)" and n: "0 \<le> n"
  shows "RecentX n d b h = Inr (drop_until (within n d b) (contents h))"
proof -
  let ?N = "if n = 0 \<or> n > currEntryCount h then currEntryCount h else n"
  have count: "currEntryCount h = int (length (contents h))"
    using ok tame by (simp add: history_ok_def tame_def i64_id)
  show ?thesis
  proof (cases "contents h = []")
    case True
    then show ?thesis using count n by (simp add: RecentX_def)
  next
    case False
    then have N: "0 < ?N" using count n by auto
    have lim: "int (length (contents h)) < int_lim" using tame by (simp add: tame_def)
    have "for_each (\<lambda>curr. for_each (\<lambda>idx (entries, dur, size, left).
                 let entry = hn_data curr ! nat idx
                 in if d \<noteq> 0 \<and> i64 (dur + Delay entry) > d then (True, entries, dur, size, left)
                    else if b \<noteq> 0 \<and> i64 (size + int (length (Payload entry))) > b then
                      (True, entries, dur, size, left)
                    else
                      (i64 (left - 1) = 0, entries @ [entry], i64 (dur + Delay entry),
                       i64 (size + int (length (Payload entry))), i64 (left - 1)))
                 (rev [hn_headIdx curr..hn_tailIdx curr - 1])) (rev (h_nodes h)) st =
      for_each (recent_body d b) (rev (contents h)) st" for st
      unfolding contents_def rev_concat rev_map map_map comp_def [of rev] node_entries_def
        for_each_concat [symmetric] for_each_map [symmetric] recent_body_def Let_def
      by (rule refl)
    note loop = this [of "([], 0, 0, ?N)"]
    have "drop_until (within ?N d b) (contents h) = drop_until (within n d b) (contents h)"
      by (rule drop_until_cong) (use count n in \<open>auto simp: within_def\<close>)
    moreover have "fst (snd (for_each (recent_body d b) (rev (contents h)) ([], 0, 0, ?N))) =
        rev (drop_until (within ?N d b) (contents h))"
      using recent_loop [of "contents h" "[]" ?N d b] tame N lim count n
      by (simp add: total_delay_def total_bytes_def split: if_splits)
    ultimately show ?thesis
      using N unfolding RecentX_def Let_def loop [unfolded Let_def]
      by (auto split: prod.split)
  qed
qed

text \<open>
  \<open>RecentX\<close>, which walks the nodes backwards and stops at the first entry that breaks a limit,
  returns the longest suffix of the log within the three limits, oldest first (0 is no limit).
\<close>

theorem RecentX_newest_within:
  assumes "history_ok h" and "tame (contents h)" and "0 \<le> n"
  shows "RecentX n d b h = Inr (drop_until (within n d b) (contents h))"
  by (rule RecentX_newest [OF assms])

section \<open>Ranges of a history\<close>

lemma bs_loop_spec:
  assumes "\<And>n. n < length xs \<Longrightarrow> cmp (xs ! n) < 0 \<longleftrightarrow> int n < k"
    and "0 \<le> i" "i \<le> k" "k \<le> j" "j \<le> int (length xs)"
  shows "bs_loop cmp xs i j = k"
  using assms
proof (induction cmp xs i j rule: bs_loop.induct)
  case (1 cmp xs i j)
  show ?case
  proof (cases "i < j")
    case False
    then show ?thesis using 1 by (subst bs_loop.simps) simp
  next
    case True
    define h where "h = (i + j) div 2"
    have h: "i \<le> h" "h < j" "nat h < length xs" "int (nat h) = h"
      using True "1.prems" by (auto simp: h_def nat_less_iff)
    show ?thesis
    proof (cases "cmp (xs ! nat h) < 0")
      case True
      then have "bs_loop cmp xs (h + 1) j = k"
        using "1.IH"(1) [OF \<open>i < j\<close> h_def] "1.prems" h by simp
      then show ?thesis using True \<open>i < j\<close> by (subst bs_loop.simps) (simp add: h_def Let_def)
    next
      case False
      then have "bs_loop cmp xs i h = k"
        using "1.IH"(2) [OF \<open>i < j\<close> h_def] "1.prems" h by simp
      then show ?thesis using False \<open>i < j\<close> by (subst bs_loop.simps) (simp add: h_def Let_def)
    qed
  qed
qed

lemma takeWhile_sorted_nth:
  assumes "sorted_wrt (<) (map f xs)" and "n < length xs"
  shows "(f (xs ! n) < (v :: int)) \<longleftrightarrow> n < length (takeWhile (\<lambda>x. f x < v) xs)"
  using assms
proof (induction xs arbitrary: n)
  case (Cons a xs)
  show ?case
  proof (cases n)
    case (Suc m)
    then have "f a < f (xs ! m)" using Cons.prems by simp
    moreover have "f (xs ! m) < v \<longleftrightarrow> m < length (takeWhile (\<lambda>x. f x < v) xs)"
      using Cons Suc by simp
    ultimately show ?thesis using Suc by (cases "f a < v") auto
  qed simp
qed simp

lemma BinarySearchFunc_spec:
  assumes "sorted_wrt (<) (map Seq es)" and "\<forall>e \<in> set es. 0 \<le> Seq e \<and> Seq e < int_lim"
    and "0 \<le> v" "v < int_lim"
  shows "BinarySearchFunc (\<lambda>e. i64 (i64 (Seq e) - i64 v)) es =
    int (length (takeWhile (\<lambda>e. Seq e < v) es))"
proof -
  have "i64 (i64 (Seq (es ! n)) - i64 v) < 0 \<longleftrightarrow> int n < int (length (takeWhile (\<lambda>e. Seq e < v) es))"
    if "n < length es" for n
  proof -
    have "0 \<le> Seq (es ! n)" "Seq (es ! n) < int_lim" using assms(2) that by auto
    then have "i64 (i64 (Seq (es ! n)) - i64 v) = Seq (es ! n) - v"
      using assms(3,4) by (simp add: i64_id)
    then show ?thesis using takeWhile_sorted_nth [OF assms(1) that, of v] by simp
  qed
  then show ?thesis unfolding BinarySearchFunc_def
    by (intro bs_loop_spec) (auto simp: length_takeWhile_le)
qed

definition visitor :: "(Entry \<Rightarrow> 's \<Rightarrow> bool \<times> 's) \<Rightarrow> Entry \<Rightarrow> 's \<Rightarrow> bool \<times> 's" where
  "visitor fn = (\<lambda>e s. let (go_on, s') = fn e s in (\<not> go_on, s'))"

definition range_body ::
  "int \<Rightarrow> int \<Rightarrow> (Entry \<Rightarrow> 's \<Rightarrow> bool \<times> 's) \<Rightarrow> Entry \<Rightarrow> bool \<times> 's \<Rightarrow> bool \<times> bool \<times> 's" where
  "range_body lo hi fn = (\<lambda>e (_, s). if Seq e < lo \<or> Seq e > hi then (True, False, s)
     else let (go_on, s') = fn e s in (\<not> go_on, \<not> go_on, s'))"

lemma range_body_loop:
  assumes "sorted_wrt (<) (map Seq es)" and "\<forall>e \<in> set es. lo \<le> Seq e"
  shows "snd (for_each (range_body lo hi fn) es (False, s)) =
    for_each (visitor fn) (filter (\<lambda>e. lo \<le> Seq e \<and> Seq e \<le> hi) es) s"
  using assms
proof (induction es arbitrary: s)
  case (Cons e es)
  show ?case
  proof (cases "Seq e \<le> hi")
    case True
    then show ?thesis using Cons by (auto simp: range_body_def visitor_def split: prod.split)
  next
    case False
    then have "\<forall>x \<in> set es. \<not> Seq x \<le> hi" using Cons.prems by fastforce
    then have "filter (\<lambda>e. lo \<le> Seq e \<and> Seq e \<le> hi) es = []" by (simp add: filter_empty_conv)
    then show ?thesis using False by (simp add: range_body_def)
  qed
qed simp

lemma node_slice_entries:
  assumes "node_ok n"
  shows "node_slice n = node_entries n"
  using assms
  by (intro nth_equalityI)
    (auto simp: node_slice_def node_entries_def node_ok_def nat_add_distrib)

lemma node_entries_from:
  assumes "node_ok n" and "0 \<le> k"
  shows "map (\<lambda>i. hn_data n ! nat i) [hn_headIdx n + k..hn_tailIdx n - 1] =
    drop (nat k) (node_entries n)"
  using assms
  by (intro nth_equalityI) (auto simp: node_entries_def add.assoc)

lemma node_entries_ends:
  assumes "node_ok n"
  shows "node_entries n \<noteq> []" and "hn_data n ! nat (hn_headIdx n) = hd (node_entries n)"
    and "hn_data n ! nat (hn_tailIdx n - 1) = last (node_entries n)"
proof -
  show ne: "node_entries n \<noteq> []" using node_entries_pop [OF assms] by simp
  show "hn_data n ! nat (hn_headIdx n) = hd (node_entries n)"
    by (subst node_entries_pop [OF assms]) simp
  have "[hn_headIdx n..hn_tailIdx n - 1] = [hn_headIdx n..hn_tailIdx n - 1 - 1] @ [hn_tailIdx n - 1]"
    using assms by (intro upto_rec2) (simp add: node_ok_def)
  then show "hn_data n ! nat (hn_tailIdx n - 1) = last (node_entries n)"
    by (simp add: node_entries_def)
qed

lemma sorted_hd_last:
  assumes "sorted_wrt (<) (map f xs)" and "x \<in> set xs"
  shows "f (hd xs) \<le> (f x :: int)" and "f x \<le> f (last xs)"
proof -
  obtain n where n: "n < length xs" "x = xs ! n" using assms(2) by (auto simp: in_set_conv_nth)
  have "sorted (map f xs)" using assms(1) strict_sorted_imp_sorted by blast
  then have m: "f (xs ! i) \<le> f (xs ! j)" if "i \<le> j" "j < length xs" for i j
    using sorted_nth_mono [of "map f xs" i j] that by simp
  show "f (hd xs) \<le> f x" using m [of 0 n] n by (cases xs) auto
  show "f x \<le> f (last xs)" using m [of n "length xs - 1"] n by (cases xs) (auto simp: last_conv_nth)
qed

lemma IterateRange_visits:
  fixes st :: 's
  assumes ok: "history_ok h" and lim: "h_lastSeq h < int_lim"
    and r: "0 \<le> rng_seq r" "rng_seq r < int_lim"
  shows "IterateRange r fn h st =
    visit fn (filter (\<lambda>e. From r \<le> Seq e \<and> Seq e \<le> To r) (contents h)) st"
proof -
  let ?in = "\<lambda>e. From r \<le> Seq e \<and> Seq e \<le> To r"
  let ?body = "\<lambda>curr s.
           if Seq (hn_data curr ! nat (hn_tailIdx curr - 1)) < From r then (False, s)
           else if Seq (hn_data curr ! nat (hn_headIdx curr)) > To r then (True, s)
           else
             let idxStart = hn_headIdx curr + BinarySearchFunc
                   (\<lambda>e. i64 (i64 (Seq e) - i64 (rng_seq r))) (node_slice curr);
                 (_, returned, s') =
                   for_each (\<lambda>idx (_, s).
                     let e = hn_data curr ! nat idx
                     in if Seq e < From r \<or> Seq e > To r then (True, False, s)
                        else let (go_on, s') = fn e s in (\<not> go_on, \<not> go_on, s'))
                   [idxStart..hn_tailIdx curr - 1] (False, s)
             in (returned, s')"
  have "snd (for_each ?body ns st) =
      snd (for_each (visitor fn) (filter ?in (concat (map node_entries ns))) st)"
    if "\<forall>n \<in> set ns. node_ok n" "sorted_wrt (<) (map Seq (concat (map node_entries ns)))"
      "\<forall>e \<in> set (concat (map node_entries ns)). 0 \<le> Seq e \<and> Seq e < int_lim" for ns
    using that
  proof (induction ns arbitrary: st)
    case (Cons n ns)
    let ?es = "node_entries n"
    have n: "node_ok n" using Cons.prems(1) by simp
    have s: "sorted_wrt (<) (map Seq ?es)" using Cons.prems(2) by (simp add: sorted_wrt_append)
    note ends = node_entries_ends [OF n] and hl = sorted_hd_last [OF s]
    have IH: "snd (for_each ?body ns st) =
      snd (for_each (visitor fn) (filter ?in (concat (map node_entries ns))) st)" for st
      using Cons by (simp add: sorted_wrt_append)
    consider (before) "Seq (last ?es) < From r"
      | (behind) "\<not> Seq (last ?es) < From r" "Seq (hd ?es) > To r"
      | (overlap) "\<not> Seq (last ?es) < From r" "\<not> Seq (hd ?es) > To r" by blast
    then show ?case
    proof cases
      case before
      then have "filter ?in ?es = []" using hl(2) by (fastforce simp: filter_empty_conv)
      then show ?thesis using before IH by (simp add: ends)
    next
      case behind
      have "Seq (hd ?es) \<le> Seq e" if "e \<in> set (concat (map node_entries (n # ns)))" for e
        using sorted_hd_last(1) [OF Cons.prems(2) that] ends(1) by simp
      then have "filter ?in (concat (map node_entries (n # ns))) = []"
        using behind by (fastforce simp: filter_empty_conv)
      then show ?thesis using behind by (simp add: ends del: concat.simps list.map)
    next
      case overlap
      let ?k = "length (takeWhile (\<lambda>e. Seq e < rng_seq r) ?es)"
      have k: "BinarySearchFunc (\<lambda>e. i64 (i64 (Seq e) - i64 (rng_seq r))) (node_slice n) = int ?k"
        unfolding node_slice_entries [OF n]
        by (rule BinarySearchFunc_spec [OF s]) (use Cons.prems(3) r in auto)
      have d: "drop ?k ?es = dropWhile (\<lambda>e. Seq e < rng_seq r) ?es"
        by (simp add: dropWhile_eq_drop)
      have ge: "\<forall>e \<in> set (drop ?k ?es). From r \<le> Seq e"
        using takeWhile_sorted_nth [OF s, of _ "rng_seq r"]
        by (auto simp: in_set_conv_nth From_def not_less [symmetric])
      have sd: "sorted_wrt (<) (map Seq (drop ?k ?es))"
        using s by (metis drop_map sorted_wrt_drop)
      have f: "filter ?in (drop ?k ?es) = filter ?in ?es"
        unfolding d by (subst (2) takeWhile_dropWhile_id [of "\<lambda>e. Seq e < rng_seq r" ?es, symmetric])
          (auto simp: From_def filter_empty_conv dest: set_takeWhileD simp del: takeWhile_dropWhile_id)
      have inner: "snd (for_each (\<lambda>idx (_, s).
                     let e = hn_data n ! nat idx
                     in if Seq e < From r \<or> Seq e > To r then (True, False, s)
                        else let (go_on, s') = fn e s in (\<not> go_on, \<not> go_on, s'))
                   [hn_headIdx n + int ?k..hn_tailIdx n - 1] (False, st)) =
         for_each (visitor fn) (filter ?in ?es) st"
        using range_body_loop [OF sd ge, of "To r" fn st] f
        unfolding for_each_map [where f = "\<lambda>i. hn_data n ! nat i" and g = "range_body (From r) (To r) fn",
            unfolded range_body_def Let_def] range_body_def Let_def
        by (simp add: node_entries_from [OF n])
      obtain a b c where abc: "for_each (visitor fn) (filter ?in ?es) st = (b, c)" by fastforce
      have "\<exists>z. p = (z, b, c)" if "snd p = (b, c)" for p :: "bool \<times> bool \<times> 's"
        using that by (cases p) auto
      from this [OF inner [unfolded abc]]
      have "?body n st = (b, c)"
        using overlap by (auto simp: ends k)
      then show ?thesis using IH abc by (simp add: for_each_append)
    qed
  qed simp
  then show ?thesis
    using ok lim unfolding IterateRange_def Let_def
    by (fastforce simp: history_ok_def contents_def visitor_def simp flip: for_each_visit)
qed

lemma visit_collect: "visit (\<lambda>e acc. (True, acc @ [e])) es acc = acc @ es"
  by (induction es arbitrary: acc) auto

text \<open>
  \<open>IterateRange\<close> calls its callback on exactly the logged entries of the range, in order, until
  the callback asks to stop, although it skips whole nodes and finds its start in a node by binary
  search; \<open>GetRange\<close> returns exactly those entries.
\<close>

theorem ranges_of_history:
  assumes "history_ok h" and "h_lastSeq h < int_lim" and "0 \<le> rng_seq r" and "rng_seq r < int_lim"
  shows "IterateRange r fn h st =
      visit fn (filter (\<lambda>e. From r \<le> Seq e \<and> Seq e \<le> To r) (contents h)) st \<and>
    History_GetRange r h = filter (\<lambda>e. From r \<le> Seq e \<and> Seq e \<le> To r) (contents h)"
  by (simp add: History_GetRange_def IterateRange_visits [OF assms] visit_collect)

section \<open>Logs\<close>

text \<open>
  What \<open>PushAll\<close> needs of a \<open>Pusher\<close>: pushing an entry newer than the last one succeeds, and
  the new view is a suffix of the old one with the entry appended. \<open>good\<close> is what the log asks of
  the entries it is to hold.
\<close>

locale story_log =
  fixes put :: "Entry \<Rightarrow> 's \<Rightarrow> 's option"
    and view :: "'s \<Rightarrow> Entry list"
    and last_seq :: "'s \<Rightarrow> int"
    and ok :: "'s \<Rightarrow> bool"
    and good :: "Entry list \<Rightarrow> bool"
  assumes good_suffix: "good (xs @ ys) \<Longrightarrow> good ys"
    and good_prefix: "good (xs @ ys) \<Longrightarrow> good xs"
    and put_view: "ok s \<Longrightarrow> good (view s @ [e]) \<Longrightarrow> last_seq s < Seq e \<Longrightarrow>
      \<exists>s' k. put e s = Some s' \<and> ok s' \<and> last_seq s' = Seq e \<and> view s' = drop k (view s @ [e])"
begin

lemma PushAll_suffix:
  assumes "ok s" and "good (view s @ es)" and "sorted_wrt (<) (last_seq s # map Seq es)"
  shows "\<exists>s' k. PushAll put es s = Some s' \<and> ok s' \<and>
    last_seq s' = last (last_seq s # map Seq es) \<and> view s' = drop k (view s @ es)"
  using assms
proof (induction es arbitrary: s)
  case Nil
  then show ?case by (auto intro: exI [of _ 0])
next
  case (Cons e es)
  have "good (view s @ [e])" using good_prefix [of "view s @ [e]" es] Cons.prems(2) by simp
  moreover have "last_seq s < Seq e" using Cons.prems(3) by simp
  ultimately obtain s1 k where s1: "put e s = Some s1" "ok s1" "last_seq s1 = Seq e"
      "view s1 = drop k (view s @ [e])"
    using put_view Cons.prems(1) by blast
  have split: "view s @ e # es = take k (view s @ [e]) @ (view s1 @ es)"
    by (simp only: s1(4) append_assoc [symmetric] append_take_drop_id) simp
  then have "good (view s1 @ es)" using good_suffix Cons.prems(2) by metis
  then obtain s' j where s': "PushAll put es s1 = Some s'" "ok s'"
      "last_seq s' = last (last_seq s1 # map Seq es)" "view s' = drop j (view s1 @ es)"
    using Cons.IH [OF s1(2)] Cons.prems(3) s1(3) by auto
  have "view s' = drop (length (take k (view s @ [e])) + j) (view s @ e # es)"
    unfolding split s'(4) by simp
  then show ?case using s1 s' by (intro exI [of _ s'] exI) auto
qed

end

lemma tame_prefix:
  assumes "tame (xs @ ys)"
  shows "tame xs"
proof -
  have "tame ys" using assms by (rule tame_drop)
  then have "0 \<le> sum_list (map Delay ys)" "0 \<le> sum_list (map (\<lambda>e. int (length (Payload e))) ys)"
    by (rule tame_totals)+
  then show ?thesis using assms by (auto simp: tame_def)
qed

definition history_log_ok :: "History \<Rightarrow> bool" where
  "history_log_ok h \<longleftrightarrow> history_ok h \<and>
     (maxEntryCount h = 0 \<or> int (length (contents h)) \<le> maxEntryCount h)"

definition recent_log_ok :: "Recent \<Rightarrow> bool" where
  "recent_log_ok r \<longleftrightarrow> recent_ok r \<and> trimmed r \<and> (\<forall>w \<in> set (live r). 0 < rseq w)"

definition recent_put :: "Entry \<Rightarrow> Recent \<Rightarrow> Recent option" where
  "recent_put e r = (case Recent_Push e r of Inl _ \<Rightarrow> None | Inr r' \<Rightarrow> Some r')"

interpretation history_log: story_log History_Push contents h_lastSeq history_log_ok tame
proof
  show "tame (xs @ ys) \<Longrightarrow> tame ys" for xs ys by (rule tame_drop)
  show "tame (xs @ ys) \<Longrightarrow> tame xs" for xs ys by (rule tame_prefix)
  fix h e assume h: "history_log_ok h" "tame (contents h @ [e])" "h_lastSeq h < Seq e"
  then obtain h' where h': "History_Push e h = Some h'" "history_ok h'" "same_limits h h'"
      "h_lastSeq h' = Seq e" "contents h' = drop_until (history_fits h) (contents h @ [e])"
      "history_fits h (contents h')"
    using History_Push_newest [of h e] by (auto simp: history_log_ok_def)
  obtain k where "drop_until (history_fits h) (contents h @ [e]) = drop k (contents h @ [e])"
    using drop_until_suffix by blast
  moreover have "history_log_ok h'"
    using h' by (auto simp: history_log_ok_def history_fits_def within_def same_limits_def)
  ultimately show "\<exists>s' k. History_Push e h = Some s' \<and> history_log_ok s' \<and> h_lastSeq s' = Seq e \<and>
      contents s' = drop k (contents h @ [e])"
    using h' by auto
qed

interpretation recent_log: story_log recent_put "\<lambda>r. map re_entry (live r)" Recent_LastSeq
  recent_log_ok "\<lambda>_. True"
proof
  fix r and e :: Entry
  assume r: "recent_log_ok r" and new: "Recent_LastSeq r < Seq e"
  then have ok: "recent_ok r" "trimmed r" "\<forall>w \<in> set (live r). 0 < rseq w"
    by (auto simp: recent_log_ok_def)
  have "0 \<le> Recent_LastSeq r"
    using ok(3) by (cases "live r = []") (auto simp: trimmed_LastSeq [OF ok(1,2)] SequenceNone_def less_imp_le)
  then have pos: "0 < Seq e" using new by simp
  let ?w = "\<lparr>re_entry = e, cumulativeDelay = 0\<rparr>"
  obtain r' where r': "Recent_Push e r = Inr r'" "recent_ok r'" "trimmed r'"
      "live r' = map (aged (Delay e)) (if rc_size r < rcap r \<or> hole (hd (window r)) then live r
        else tl (live r)) @ [?w]"
    using Recent_Push_spec [OF ok(1), of e] pos by (auto simp: SequenceNone_def)
  have aged: "re_entry (aged d w) = re_entry w" for d w by (simp add: aged_def)
  have "\<exists>k. live r' = map (aged (Delay e)) (drop k (live r)) @ [?w] \<and> k \<le> length (live r)"
  proof (cases "live r = [] \<or> rc_size r < rcap r \<or> hole (hd (window r))")
    case True
    then show ?thesis using r'(4) by (auto intro: exI [of _ 0])
  next
    case False
    then show ?thesis using r'(4)
      by (auto simp: drop_Suc simp del: One_nat_def intro!: exI [of _ "Suc 0"] Suc_leI)
  qed
  then obtain k where k: "live r' = map (aged (Delay e)) (drop k (live r)) @ [?w]"
    "k \<le> length (live r)" by blast
  have "map re_entry (live r') = drop k (map re_entry (live r) @ [e])"
    using k(2) by (simp add: k(1) aged comp_def drop_map)
  moreover have "\<forall>w \<in> set (live r'). 0 < rseq w"
    using ok(3) pos by (auto simp: k(1) aged dest: in_set_dropD)
  moreover have "Recent_LastSeq r' = Seq e"
    by (simp add: trimmed_LastSeq [OF r'(2,3)] k(1))
  ultimately show "\<exists>s' k. recent_put e r = Some s' \<and> recent_log_ok s' \<and> Recent_LastSeq s' = Seq e \<and>
      map re_entry (live s') = drop k (map re_entry (live r) @ [e])"
    using r' by (auto simp: recent_put_def recent_log_ok_def)
qed auto

text \<open>
  \<open>PushAll\<close> of entries with increasing numbers newer than the log's last one succeeds on both
  implementations of a story, keeps their invariants, and leaves the log with a suffix of the old
  entries followed by the new ones; the last number pushed is the log's last number.
\<close>

theorem PushAll_logs:
  "(history_log_ok h \<and> tame (contents h @ es) \<and> sorted_wrt (<) (h_lastSeq h # map Seq es) \<longrightarrow>
     (\<exists>h' k. PushAll History_Push es h = Some h' \<and> history_log_ok h' \<and>
        h_lastSeq h' = last (h_lastSeq h # map Seq es) \<and> contents h' = drop k (contents h @ es))) \<and>
   (recent_log_ok r \<and> sorted_wrt (<) (Recent_LastSeq r # map Seq es) \<longrightarrow>
     (\<exists>r' k. PushAll recent_put es r = Some r' \<and> recent_log_ok r' \<and>
        Recent_LastSeq r' = last (Recent_LastSeq r # map Seq es) \<and>
        map re_entry (live r') = drop k (map re_entry (live r) @ es)))"
  using history_log.PushAll_suffix recent_log.PushAll_suffix by blast

section \<open>Numbering\<close>

fun enumerate_all :: "(time \<times> byte list) list \<Rightarrow> Enumerator \<Rightarrow> Enumerator \<times> Entry list" where
  "enumerate_all [] en = (en, [])"
| "enumerate_all ((now, payload) # ps) en =
     (let (en1, e) = Enumerator_Push now payload en;
          (en2, es) = enumerate_all ps en1
      in (en2, e # es))"

lemma enumerate_all_numbers:
  assumes "0 \<le> en_lastSeq en" and "en_lastSeq en + int (length ps) < int_lim"
  shows "map Seq (snd (enumerate_all ps en)) = [en_lastSeq en + 1..en_lastSeq en + int (length ps)] \<and>
    map Payload (snd (enumerate_all ps en)) = map snd ps \<and>
    en_lastSeq (fst (enumerate_all ps en)) = en_lastSeq en + int (length ps)"
  using assms
proof (induction ps en rule: enumerate_all.induct)
  case (2 now payload ps en)
  let ?en = "fst (Enumerator_Push now payload en)"
  have s: "en_lastSeq ?en = en_lastSeq en + 1"
    using "2.prems" by (simp add: Enumerator_Push_def Let_def u64_id)
  have "[en_lastSeq en + 1..en_lastSeq en + int (length ((now, payload) # ps))] =
      (en_lastSeq en + 1) # [en_lastSeq en + 1 + 1..en_lastSeq en + 1 + int (length ps)]"
    by (subst upto_rec1) (simp_all add: algebra_simps)
  moreover have "map Seq (snd (enumerate_all ps ?en)) =
      [en_lastSeq ?en + 1..en_lastSeq ?en + int (length ps)] \<and>
    map Payload (snd (enumerate_all ps ?en)) = map snd ps \<and>
    en_lastSeq (fst (enumerate_all ps ?en)) = en_lastSeq ?en + int (length ps)"
    using "2.IH" [OF refl prod.collapse] "2.prems" s by simp
  ultimately show ?case
    using "2.prems" s by (auto simp: Enumerator_Push_def Let_def u64_id split: prod.splits)
qed simp

section \<open>Witnesses\<close>

definition sample_history :: History where
  "sample_history =
     History_push \<lparr>Seq = 2, Delay = 5, Payload = [9, 9]\<rparr>
       (History_push \<lparr>Seq = 1, Delay = 0, Payload = [7]\<rparr>
         (NewHistory [WithMaxEntryCount 2, WithMaxTotalByteSize 4]))"

lemma new_history: "history_ok (NewHistory [WithMaxEntryCount 2, WithMaxTotalByteSize 4])"
  "contents (NewHistory [WithMaxEntryCount 2, WithMaxTotalByteSize 4]) = []"
  "h_lastSeq (NewHistory [WithMaxEntryCount 2, WithMaxTotalByteSize 4]) = 0"
  "maxEntryCount (NewHistory [WithMaxEntryCount 2, WithMaxTotalByteSize 4]) = 2"
  "maxTotalDelay (NewHistory [WithMaxEntryCount 2, WithMaxTotalByteSize 4]) = 0"
  "maxTotalByteSize (NewHistory [WithMaxEntryCount 2, WithMaxTotalByteSize 4]) = 4"
  by (simp_all add: NewHistory_def History_Option_def WithMaxEntryCount_def WithMaxTotalByteSize_def
      zero_History_def history_ok_def contents_def total_delay_def total_bytes_def)

lemma sample_history_facts:
  "history_ok sample_history" "h_lastSeq sample_history = 2"
  "contents sample_history =
     [\<lparr>Seq = 1, Delay = 0, Payload = [7]\<rparr>, \<lparr>Seq = 2, Delay = 5, Payload = [9, 9]\<rparr>]"
  "maxEntryCount sample_history = 2" "maxTotalDelay sample_history = 0"
  "maxTotalByteSize sample_history = 4"
proof -
  let ?h0 = "NewHistory [WithMaxEntryCount 2, WithMaxTotalByteSize 4]"
  let ?h1 = "History_push \<lparr>Seq = 1, Delay = 0, Payload = [7]\<rparr> ?h0"
  have 1: "history_ok ?h1 \<and> contents ?h1 = [\<lparr>Seq = 1, Delay = 0, Payload = [7]\<rparr>] \<and>
      same_limits ?h0 ?h1 \<and> h_lastSeq ?h1 = 1"
    using History_push_spec [OF new_history(1), of "\<lparr>Seq = 1, Delay = 0, Payload = [7]\<rparr>"]
    by (simp add: new_history)
  note 2 = History_push_spec [of ?h1 "\<lparr>Seq = 2, Delay = 5, Payload = [9, 9]\<rparr>"]
  show "history_ok sample_history" "h_lastSeq sample_history = 2"
    "contents sample_history =
     [\<lparr>Seq = 1, Delay = 0, Payload = [7]\<rparr>, \<lparr>Seq = 2, Delay = 5, Payload = [9, 9]\<rparr>]"
    "maxEntryCount sample_history = 2" "maxTotalDelay sample_history = 0"
    "maxTotalByteSize sample_history = 4"
    using 1 2 by (auto simp: sample_history_def same_limits_def new_history)
qed

theorem History_Push_keeps_newest_witness:
  "\<exists>h'. History_Push \<lparr>Seq = 3, Delay = 1, Payload = [1, 2, 3]\<rparr> sample_history = Some h' \<and>
     map Seq (contents h') = [3]"
proof -
  have "tame (contents sample_history @ [\<lparr>Seq = 3, Delay = 1, Payload = [1, 2, 3]\<rparr>])"
    by (simp add: sample_history_facts tame_def)
  from History_Push_keeps_newest [OF sample_history_facts(1) this] show ?thesis
    by (auto simp: sample_history_facts history_fits_def within_def total_bytes_def i64_id)
qed

theorem RecentX_newest_within_witness:
  "RecentX 0 0 2 sample_history = Inr [\<lparr>Seq = 2, Delay = 5, Payload = [9, 9]\<rparr>]"
  using RecentX_newest_within [OF sample_history_facts(1), of 0 0 2]
  by (simp add: sample_history_facts tame_def within_def total_bytes_def i64_id)

theorem ranges_of_history_witness:
  "History_GetRange \<lparr>rng_seq = 2, rng_len = 3\<rparr> sample_history = [\<lparr>Seq = 2, Delay = 5, Payload = [9, 9]\<rparr>]"
  using ranges_of_history [OF sample_history_facts(1), of "\<lparr>rng_seq = 2, rng_len = 3\<rparr>"
      "\<lambda>_ s. (True, s)" "()"]
  by (simp add: sample_history_facts From_def To_def u64_def)

theorem PushAll_logs_witness:
  "\<exists>h' k. PushAll History_Push [\<lparr>Seq = 3, Delay = 1, Payload = []\<rparr>, \<lparr>Seq = 5, Delay = 1, Payload = []\<rparr>]
      sample_history = Some h' \<and> h_lastSeq h' = 5 \<and>
     map Seq (contents h') = drop k [1, 2, 3, 5]"
proof -
  let ?es = "[\<lparr>Seq = 3, Delay = 1, Payload = []\<rparr>, \<lparr>Seq = 5, Delay = 1, Payload = []\<rparr>] :: Entry list"
  have "history_log_ok sample_history" by (simp add: history_log_ok_def sample_history_facts)
  moreover have "tame (contents sample_history @ ?es)" by (simp add: sample_history_facts tame_def)
  moreover have "sorted_wrt (<) (h_lastSeq sample_history # map Seq ?es)"
    by (simp add: sample_history_facts)
  ultimately obtain h' k where "PushAll History_Push ?es sample_history = Some h'"
    "h_lastSeq h' = last (h_lastSeq sample_history # map Seq ?es)"
    "contents h' = drop k (contents sample_history @ ?es)"
    using PushAll_logs [of sample_history ?es, THEN conjunct1] by blast
  then show ?thesis
    by (auto simp: sample_history_facts simp flip: drop_map simp del: PushAll.simps
        intro!: exI [of _ h'] exI [of _ k])
qed

end
