(* ===== verification/Engines.thy ===== *)
theory Engines
  imports Streams
begin

text \<open>
  \<open>sequence/engine.go\<close>: one step of a receiver. The newly arrived entries are pushed to the
  stream and the set of missing sequence numbers, from which the other side is asked to resend,
  is brought up to date. \<open>missing\<close> is \<open>None\<close> for the nil pointer; \<open>RangeInclusive\<close> can panic,
  so the step returns a panic or its results.
\<close>

section \<open>The engine\<close>

definition missing_settled :: "Stream \<Rightarrow> RangeSet \<Rightarrow> RangeSet go" where
  "missing_settled s m =
     (if lastSeq s > SequenceFirst then
        (case RangeInclusive SequenceFirst (lastSeq s) of
           Inl e \<Rightarrow> Inl e
         | Inr q \<Rightarrow> Inr (fst (Subtract m q)))
      else Inr m)"

definition engine ::
  "Entry list \<Rightarrow> Stream \<Rightarrow> RangeSet option \<Rightarrow> time
   \<Rightarrow> (Stream \<times> RangeSet option \<times> Entry list \<times> Range list) go" where
  "engine feed stream missing now =
     (let (stream', entries) = push now feed stream
      in case missing of
           None \<Rightarrow> Inr (stream', None, entries, [])
         | Some m \<Rightarrow>
             (case missing_settled stream' m of
                Inl e \<Rightarrow> Inl e
              | Inr m1 \<Rightarrow>
                  let m2 = foldl (\<lambda>t e. fst (rs_Remove t (Seq e))) m1 feed;
                      (m3, newly) =
                        foldl (\<lambda>(t, n) r. let (t', added) = Union_Range t r
                                           in (t', UnionRangeSet n added))
                          (m2, []) (GetMissing 0 stream')
                  in Inr (stream', Some m3, entries, AsSlice newly)))"

section \<open>Lemmas\<close>

text \<open>The stream and the set of missing numbers agree: what is missing is what is in the gaps.\<close>

definition engine_ok :: "Stream \<Rightarrow> RangeSet \<Rightarrow> bool" where
  "engine_ok s m \<longleftrightarrow> stream_ok s \<and> rs_ok m \<and> seqs m = gaps s"

lemma missing_settled_spec:
  assumes "stream_ok s" and "rs_ok m"
  shows "\<exists>m1. missing_settled s m = Inr m1 \<and> rs_ok m1
    \<and> seqs m1 = (if lastSeq s > 1 then seqs m - {1..lastSeq s} else seqs m)"
proof -
  have l: "0 \<le> lastSeq s" "lastSeq s < int_lim" using assms(1) by (auto simp: stream_ok_def loop_ok_def)
  show ?thesis
  proof (cases "lastSeq s > 1")
    case True
    let ?q = "\<lparr>rng_seq = 1, rng_len = lastSeq s\<rparr>"
    have "RangeInclusive 1 (lastSeq s) = Inr ?q"
      using True l by (simp add: RangeInclusive_def RangeLenUnsafe_def go_wrap)
    moreover have "range_ok ?q" "seqs_of ?q = {1..lastSeq s}"
      using True l by (auto simp: range_ok_def seqs_of_def)
    ultimately show ?thesis
      using True range_set.subtract [OF assms(2)] by (simp add: missing_settled_def SequenceFirst_def)
  next
    case False
    then show ?thesis using assms(2) by (simp add: missing_settled_def SequenceFirst_def)
  qed
qed

text \<open>A number that stays missing is still in a gap afterwards.\<close>

lemma gaps_persist:
  assumes "stream_ok s" and "delivers (set es) s s' r" and "feed_ok es"
    and "x \<in> gaps s" and "x \<notin> Seq ` set es" and "lastSeq s' > 1 \<Longrightarrow> lastSeq s' < x"
  shows "x \<in> gaps s'"
proof -
  note d = assms(2) [unfolded delivers_def]
  obtain y where y: "lastSeq s < x" "y \<in> ahead_seqs s" "x < y" "x \<notin> ahead_seqs s"
    using assms(4) by (auto simp: gaps_def)
  have l: "0 \<le> lastSeq s" "lastSeq s \<le> lastSeq s'"
    using assms(1) d in_order_le by (auto simp: stream_ok_def loop_ok_def)
  have "lastSeq s' < x"
  proof (rule ccontr)
    assume n: "\<not> lastSeq s' < x"
    then have "\<not> lastSeq s' > 1" using assms(6) by blast
    with n have one: "lastSeq s = 0" "lastSeq s' = 1" "x = 1" using y(1) l by linarith+
    then obtain e where e: "e \<in> set r" "Seq e = 1"
      using d by (cases r rule: rev_cases) (auto simp: in_order_def)
    then obtain f where "f \<in> set es \<union> waiting s" "Seq f = 1"
      using d unfolding list_all_iff known_def by (metis e)
    then show False using assms(5) y(4) one by (auto simp: ahead_seqs_def)
  qed
  moreover have "y \<in> ahead_seqs s'"
  proof -
    have "y \<in> received s'" using d y(2) by (auto simp: received_def)
    then show ?thesis using y(3) \<open>lastSeq s' < x\<close> by (auto simp: received_def)
  qed
  moreover have "x \<notin> ahead_seqs s'"
    using d assms(5) y(4) by (fastforce simp: ahead_seqs_def)
  ultimately show ?thesis using y(3) by (auto simp: gaps_def)
qed

lemma engine_spec:
  assumes "engine_ok s m" and "feed_ok feed"
  shows "\<exists>s' m' out newly. engine feed s (Some m) now = Inr (s', Some m', out, newly)
    \<and> push now feed s = (s', out) \<and> engine_ok s' m'
    \<and> rs_ok newly \<and> gaps s' - gaps s \<subseteq> seqs newly \<and> seqs newly \<subseteq> gaps s'"
proof -
  have s: "stream_ok s" and m: "rs_ok m" "seqs m = gaps s" using assms(1) by (auto simp: engine_ok_def)
  obtain s' out where p: "push now feed s = (s', out)" by fastforce
  have s': "stream_ok s'" and d: "delivers (set feed) s s' out"
    using push_delivers [OF s assms(2) p] by auto
  obtain m1 where m1: "missing_settled s' m = Inr m1" "rs_ok m1"
    "seqs m1 = (if lastSeq s' > 1 then seqs m - {1..lastSeq s'} else seqs m)"
    using missing_settled_spec [OF s' m(1)] by blast
  define m2 where "m2 = foldl (\<lambda>t e. fst (rs_Remove t (Seq e))) m1 feed"
  have m2: "rs_ok m2" "seqs m2 = seqs m1 - Seq ` set feed"
    using range_set.remove_many [OF m1(2)] by (auto simp: m2_def)
  obtain m3 newly where f: "foldl (\<lambda>(t, n) r. let (t', added) = Union_Range t r
      in (t', UnionRangeSet n added)) (m2, []) (GetMissing 0 s') = (m3, newly)"
    by fastforce
  have G: "rs_ok (GetMissing 0 s')" "seqs (GetMissing 0 s') = gaps s'"
    using GetMissing_all_spec [OF s'] by auto
  have U: "rs_ok m3" "rs_ok newly" "seqs m3 = seqs m2 \<union> gaps s'" "seqs newly = gaps s' - seqs m2"
    using range_set.union_many [OF m2(1) rs_ok_Nil rs_ok_imp_ranges [OF G(1)] f] G(2) by auto
  have "seqs m2 \<subseteq> gaps s'"
  proof
    fix x
    assume x: "x \<in> seqs m2"
    then have "x \<in> gaps s" "x \<notin> Seq ` set feed" "lastSeq s' > 1 \<Longrightarrow> lastSeq s' < x"
      using m2(2) m1(3) m(2) rs_ok_seqs_range [OF m(1), of x] by (auto split: if_splits)
    then show "x \<in> gaps s'" by (rule gaps_persist [OF s d assms(2)])
  qed
  moreover have "seqs m2 \<subseteq> gaps s" using m2(2) m1(3) m(2) by (auto split: if_splits)
  moreover have "engine feed s (Some m) now = Inr (s', Some m3, out, newly)"
    using p m1(1) f by (simp add: engine_def m2_def [symmetric] AsSlice_def)
  ultimately show ?thesis using s' p U by (auto simp: engine_ok_def)
qed


text \<open>A receiver that handles one feed after the other with the same missing set.\<close>

fun run_engine ::
  "(time \<times> Entry list) list \<Rightarrow> Stream \<Rightarrow> RangeSet \<Rightarrow> (Stream \<times> RangeSet \<times> Entry list) go" where
  "run_engine [] s m = Inr (s, m, [])"
| "run_engine ((now, feed) # fs) s m =
     (case engine feed s (Some m) now of
        Inl e \<Rightarrow> Inl e
      | Inr (s', m', out, newly) \<Rightarrow>
          (case run_engine fs s' (the m') of
             Inl e \<Rightarrow> Inl e
           | Inr (s'', m'', out') \<Rightarrow> Inr (s'', m'', out @ out')))"

lemma run_engine_spec:
  assumes "engine_ok s m" and "\<forall>(now, es)\<in>set fs. feed_ok es"
  shows "\<exists>s' m' out. run_engine fs s m = Inr (s', m', out)
    \<and> run_push fs s = (s', out) \<and> engine_ok s' m'"
  using assms
proof (induction fs arbitrary: s m)
  case (Cons f fs)
  obtain now feed where f: "f = (now, feed)" by fastforce
  have "feed_ok feed" and fs: "\<forall>(now, es)\<in>set fs. feed_ok es" using Cons.prems(2) f by auto
  from engine_spec [OF Cons.prems(1) this(1)]
  obtain s1 m1 out newly where e: "engine feed s (Some m) now = Inr (s1, Some m1, out, newly)"
    "push now feed s = (s1, out)" "engine_ok s1 m1"
    by blast
  from Cons.IH [OF e(3) fs]
  obtain s2 m2 out2 where r: "run_engine fs s1 m1 = Inr (s2, m2, out2)"
    "run_push fs s1 = (s2, out2)" "engine_ok s2 m2"
    by blast
  show ?case using e r f by simp
qed simp

section \<open>Properties\<close>

text \<open>
  One step of the engine on a stream whose missing set agrees with its gaps never panics,
  returns what \<open>push\<close> delivers, and leaves a missing set that agrees with the gaps again: the
  numbers to ask for are exactly those below a waiting entry that have not arrived. The ranges it
  returns as newly missing are in gaps now and hold every number that was in no gap before.
\<close>

theorem engine_missing_exact:
  assumes "engine_ok s m" and "feed_ok feed"
  shows "\<exists>s' m' out newly. engine feed s (Some m) now = Inr (s', Some m', out, newly)
    \<and> push now feed s = (s', out) \<and> engine_ok s' m'
    \<and> rs_ok newly \<and> gaps s' - gaps s \<subseteq> seqs newly \<and> seqs newly \<subseteq> gaps s'"
  by (rule engine_spec [OF assms])

lemma engine_ok_zero: "engine_ok zero_Stream []"
  by (simp add: engine_ok_def gaps_def ahead_seqs_def zero_Stream_def stream_ok_zero [unfolded zero_Stream_def])

theorem engine_missing_exact_witness:
  "engine_ok zero_Stream [] \<and> feed_ok [sample_entry 4]
   \<and> engine [sample_entry 4] zero_Stream (Some []) 9 =
     Inr (zero_Stream\<lparr>lastTime := 9, ahead := [\<lparr>node_entry = sample_entry 4, node_time = 9\<rparr>],
            aheadSize := 1\<rparr>, Some [\<lparr>rng_seq = 1, rng_len = 3\<rparr>], [], [\<lparr>rng_seq = 1, rng_len = 3\<rparr>])
   \<and> seqs [\<lparr>rng_seq = 1, rng_len = 3\<rparr>]
     = gaps (zero_Stream\<lparr>lastTime := 9, ahead := [\<lparr>node_entry = sample_entry 4, node_time = 9\<rparr>],
            aheadSize := 1\<rparr>)"
proof -
  let ?s = "zero_Stream\<lparr>lastTime := 9, ahead := [\<lparr>node_entry = sample_entry 4, node_time = 9\<rparr>],
    aheadSize := 1\<rparr>"
  have f: "feed_ok [sample_entry 4]" by (simp add: sample_entry_def)
  have e: "engine [sample_entry 4] zero_Stream (Some []) 9 =
     Inr (?s, Some [\<lparr>rng_seq = 1, rng_len = 3\<rparr>], [], [\<lparr>rng_seq = 1, rng_len = 3\<rparr>])"
    by (simp add: engine_def missing_settled_def push_def zero_Stream_def sample_entry_def
        time_IsZero_def time_Sub_def pushAhead_def GetMissing_def Union_Range_def rs_union_def
        report_def union_nil_def UnionRangeSet_def AsSlice_def SequenceFirst_def u64_def i64_def)
  have "engine_ok ?s [\<lparr>rng_seq = 1, rng_len = 3\<rparr>]"
    using engine_missing_exact [OF engine_ok_zero f, of 9] e by auto
  then show ?thesis using e f engine_ok_zero by (simp add: engine_ok_def)
qed

text \<open>
  A receiver that starts fresh and handles any sequence of feeds through the engine never
  panics, delivers exactly what the stream alone would, and its missing set always holds exactly
  the gaps of its stream, as a well-formed range set.
\<close>

theorem receiver_tracks_gaps:
  assumes "\<forall>(now, es)\<in>set fs. feed_ok es"
  shows "\<exists>s' m' out. run_engine fs zero_Stream [] = Inr (s', m', out)
    \<and> run_push fs zero_Stream = (s', out) \<and> stream_ok s' \<and> rs_ok m' \<and> seqs m' = gaps s'"
  using run_engine_spec [OF engine_ok_zero assms] by (auto simp: engine_ok_def)

theorem receiver_tracks_gaps_witness:
  "\<exists>s' m' out. run_engine [(1, [sample_entry 3]), (2, [sample_entry 1])] zero_Stream [] = Inr (s', m', out)
    \<and> run_push [(1, [sample_entry 3]), (2, [sample_entry 1])] zero_Stream = (s', out)
    \<and> stream_ok s' \<and> rs_ok m' \<and> seqs m' = gaps s'"
  by (rule receiver_tracks_gaps) (simp add: sample_entry_def)

end
