(* ===== verification/Services.thy ===== *)
theory Services
  imports Validity Histories Engines
begin

text \<open>
  \<open>udpstar/server/service_client.go\<close>, \<open>service_session.go\<close> and their data (\<open>data_actor.go\<close>,
  \<open>data_story.go\<close>, \<open>data_latency.go\<close>): a running session on the server. The session's goroutine handles
  one event at a time (a tick, a story entry, a request for missing entries), the client services
  handle the packets that arrive and the messages that leave. Each such step is an operation on the
  explicit state; the messages that leave are in its result, with their destinations. A client
  service holds its session's token for the pointer to the session. Time is an argument. The
  operations are those of a session that has not ended: the \<open>doneCh\<close> channels are open.
\<close>

section \<open>State\<close>

datatype SessionState =
    SessionStateNew | SessionStateActive | SessionStateDegraded | SessionStateNotInSync
  | SessionStateDone

text \<open>The states are numbered by \<open>iota\<close> in the order of the constants.\<close>

definition state_rank :: "SessionState \<Rightarrow> nat" where
  "state_rank st =
     (case st of SessionStateNew \<Rightarrow> 0 | SessionStateActive \<Rightarrow> 1 | SessionStateDegraded \<Rightarrow> 2
      | SessionStateNotInSync \<Rightarrow> 3 | SessionStateDone \<Rightarrow> 4)"

lemma state_rank_inj: "state_rank a = state_rank b \<Longrightarrow> a = b"
  by (cases a; cases b) (simp_all add: state_rank_def)

instantiation SessionState :: linorder
begin

definition less_eq_SessionState :: "SessionState \<Rightarrow> SessionState \<Rightarrow> bool" where
  "less_eq_SessionState a b \<longleftrightarrow> state_rank a \<le> state_rank b"

definition less_SessionState :: "SessionState \<Rightarrow> SessionState \<Rightarrow> bool" where
  "less_SessionState a b \<longleftrightarrow> state_rank a < state_rank b"

instance
  by standard (auto simp: less_eq_SessionState_def less_SessionState_def intro: state_rank_inj)

end

lemmas state_order = less_eq_SessionState_def less_SessionState_def state_rank_def

record localActorData =
  ld_Actor :: Actor
  ld_Enum :: Enumerator

record remoteActorData =
  rd_Actor :: ClientActor
  rd_Stream :: Stream
  rd_Missing :: RangeSet

record storyData =
  sd_Story :: Story
  sd_Enum :: Enumerator
  sd_History :: History

text \<open>\<open>udpstar.LatencyActor\<close> has the fields of \<open>LatencyReportActor\<close>, to which the code converts it.\<close>

type_synonym LatencyActor = LatencyReportActor

record latencyData =
  lt_latencies :: "LatencyActor list"
  lt_actorPosMap :: "((token \<times> token) \<times> byte) list"

record clientStatePackage =
  cp_State :: ClientState
  cp_Latency :: duration

record clientService =
  cs_Token :: token
  cs_Session :: token
  cs_data :: ClientData
  cs_remoteActors :: "remoteActorData list"
  cs_state :: ClientState

record sessionService =
  sv_Token :: token
  sv_clients :: "clientService list"
  sv_stories :: "storyData list"
  sv_localActors :: "localActorData list"
  sv_latencyData :: latencyData
  sv_controller :: bool
  sv_state :: SessionState

definition ActionBufferCapacity :: int where
  "ActionBufferCapacity = 32"

definition ActionExpireDuration :: duration where
  "ActionExpireDuration = 3 * ns_Second"

text \<open>A message to a client, with the address it goes to.\<close>

type_synonym outgoing = "StoryServerMessage \<times> UDPAddr"

section \<open>Actors and stories\<close>

definition newLocalActorData :: "Actor \<Rightarrow> localActorData" where
  "newLocalActorData a = \<lparr>ld_Actor = a, ld_Enum = zero_Enumerator\<rparr>"

definition newStoryData :: "Story \<Rightarrow> storyData" where
  "newStoryData y = \<lparr>sd_Story = y, sd_Enum = zero_Enumerator, sd_History = zero_History\<rparr>"

text \<open>An option of \<open>NewStream\<close> that fails panics; the only one used here cannot fail.\<close>

definition newRemoteActorData :: "ClientActor \<Rightarrow> remoteActorData go" where
  "newRemoteActorData a =
     go_bind (NewStream [WithMaxWait ActionExpireDuration]) (\<lambda>st.
       Inr \<lparr>rd_Actor = a, rd_Stream = st, rd_Missing = []\<rparr>)"

section \<open>Latency data\<close>

text \<open>
  The position of an actor is counted in a byte, over all stories; the actors are told apart by the
  tokens of story and actor.
\<close>

definition story_keys :: "token \<Rightarrow> StoryActorInfo list \<Rightarrow> (token \<times> token) list" where
  "story_keys story as = map (\<lambda>a. (story, sa_Token a)) as"

definition add_positions :: "(token \<times> token) list \<Rightarrow> ((token \<times> token) \<times> byte) list \<times> byte
    \<Rightarrow> ((token \<times> token) \<times> byte) list \<times> byte" where
  "add_positions ks st = foldl (\<lambda>(m, c) k. (AList.update k c m, c + 1)) st ks"

fun story_positions :: "Session \<Rightarrow> Story list \<Rightarrow> ((token \<times> token) \<times> byte) list \<times> byte
    \<Rightarrow> string + ((token \<times> token) \<times> byte) list \<times> byte" where
  "story_positions s [] st = Inr st"
| "story_positions s (y # ys) st =
     (case StoryActors (st_Token y) s of
        Inl e \<Rightarrow> Inl e
      | Inr as \<Rightarrow> story_positions s ys (add_positions (story_keys (st_Token y) as) st))"

definition pos_of :: "token \<Rightarrow> token \<Rightarrow> ((token \<times> token) \<times> byte) list \<Rightarrow> nat" where
  "pos_of story actor m = (case map_of m (story, actor) of None \<Rightarrow> 0 | Some p \<Rightarrow> unat p)"

definition put_latency :: "nat \<Rightarrow> LatencyActor \<Rightarrow> LatencyActor list \<Rightarrow> LatencyActor list go" where
  "put_latency k l ls = (if k < length ls then Inr (ls[k := l]) else Inl ''index out of range'')"

fun put_locals :: "((token \<times> token) \<times> byte) list \<Rightarrow> Actor list \<Rightarrow> LatencyActor list
    \<Rightarrow> LatencyActor list go" where
  "put_locals m [] ls = Inr ls"
| "put_locals m (a # as) ls =
     go_bind (put_latency (pos_of (at_Story a) (at_Token a) m)
         \<lparr>la_Name = at_Name a, la_State = ClientStateLocal, la_Latency = 0\<rparr> ls)
       (put_locals m as)"

text \<open>An error inside, a panic outside.\<close>

definition makeLatencyData :: "Session \<Rightarrow> (string + latencyData) go" where
  "makeLatencyData s =
     (case story_positions s (ss_Stories s) ([], 0) of
        Inl e \<Rightarrow> Inr (Inl e)
      | Inr (m, _) \<Rightarrow>
          go_bind (put_locals m (ss_LocalActors s)
              (replicate (length m) \<lparr>la_Name = [], la_State = 0, la_Latency = 0\<rparr>))
            (\<lambda>ls. Inr (Inr \<lparr>lt_latencies = ls, lt_actorPosMap = m\<rparr>)))"

definition UpdateClientActor :: "Actor \<Rightarrow> clientStatePackage \<Rightarrow> latencyData \<Rightarrow> latencyData go" where
  "UpdateClientActor a p l =
     go_bind (put_latency (pos_of (at_Story a) (at_Token a) (lt_actorPosMap l))
         \<lparr>la_Name = at_Name a, la_State = cp_State p, la_Latency = cp_Latency p\<rparr> (lt_latencies l))
       (\<lambda>ls. Inr (l\<lparr>lt_latencies := ls\<rparr>))"

definition latency_Count :: "latencyData \<Rightarrow> nat" where
  "latency_Count l = length (lt_actorPosMap l)"

section \<open>The client service\<close>

fun go_map :: "('a \<Rightarrow> 'b go) \<Rightarrow> 'a list \<Rightarrow> 'b list go" where
  "go_map f [] = Inr []"
| "go_map f (x # xs) = go_bind (f x) (\<lambda>y. go_bind (go_map f xs) (\<lambda>ys. Inr (y # ys)))"

definition newClientService :: "Client \<Rightarrow> token \<Rightarrow> ClientData \<Rightarrow> clientService go" where
  "newClientService c session data =
     go_bind (go_map newRemoteActorData (cl_Actors c)) (\<lambda>as.
       Inr \<lparr>cs_Token = cl_Token c, cs_Session = session, cs_data = data, cs_remoteActors = as,
            cs_state = ClientStateNew\<rparr>)"

text \<open>
  A message for the client, as \<open>Start\<close> handles it: a client that has not been heard of or has no
  address gets nothing. Building the packet can panic.
\<close>

definition client_send :: "StoryServerMessage \<Rightarrow> clientService \<Rightarrow> (byte list \<times> UDPAddr) list go" where
  "client_send msg c =
     (let addr = cd_Address (cs_data c)
      in if cs_state c = ClientStateNew \<or> udp_Port addr = 0 \<or> length (udp_IP addr) = 0 then Inr []
         else go_bind (StoryServer_Put msg []) (\<lambda>a. Inr [(a, addr)]))"

definition UpdateState :: "ClientData \<Rightarrow> clientService \<Rightarrow> clientService" where
  "UpdateState info c =
     c\<lparr>cs_data := info,
       cs_state := (if cd_Latency info > 50 * ns_Millisecond then ClientStateLagging
                    else ClientStateGood)\<rparr>"

definition GetState :: "time \<Rightarrow> clientService \<Rightarrow> clientStatePackage \<times> clientService" where
  "GetState now c =
     (let last = cd_LastMsgReceived (cs_data c);
          dur = time_Sub now last;
          st = (if time_IsZero last then cs_state c
                else if dur > 3 * ns_Second then ClientStateLost
                else if dur > 1200 * ns_Millisecond then ClientStateLagging
                else cs_state c)
      in (\<lparr>cp_State = st, cp_Latency = cd_Latency (cs_data c)\<rparr>, c\<lparr>cs_state := st\<rparr>))"

definition ErrUnknownRemoteActor :: string where
  "ErrUnknownRemoteActor = ''unknown remote actor''"

text \<open>The last \<open>n\<close> elements, for a positive \<open>n\<close>.\<close>

definition last_n :: "int \<Rightarrow> 'a list \<Rightarrow> 'a list" where
  "last_n n xs = (if int (length xs) > n then drop (length xs - nat n) xs else xs)"

text \<open>The answer to an action pack, the payloads put on the actor's channel, and the client.\<close>

definition HandleActionPack :: "time \<Rightarrow> ActionPack \<Rightarrow> clientService
    \<Rightarrow> ((string + ActionConfirm) \<times> (channel \<times> byte list) list \<times> clientService) go" where
  "HandleActionPack now msg c =
     (case first_idx (\<lambda>a. at_Token (ca_Actor (rd_Actor a)) = ap_ActorToken msg) (cs_remoteActors c) of
        None \<Rightarrow> Inr (Inl ErrUnknownRemoteActor, [], c)
      | Some i \<Rightarrow>
          let actor = cs_remoteActors c ! i
          in go_bind (engine (ap_Actions msg) (rd_Stream actor) (Some (rd_Missing actor)) now)
               (\<lambda>(st, m, actions, _).
                 let actor' = actor\<lparr>rd_Stream := st, rd_Missing := the m\<rparr>;
                     missing = last_n ActionBufferCapacity (AsSlice (the m))
                 in Inr (Inr \<lparr>ac_Header = \<lparr>shs_SessionToken = cs_Session c\<rparr>,
                          ac_ActorToken = at_Token (ca_Actor (rd_Actor actor)),
                          ac_LastSequence = Stream_Sequence st, ac_Missing = missing\<rparr>,
                      map (\<lambda>e. (ca_Channel (rd_Actor actor), Payload e)) actions,
                      c\<lparr>cs_remoteActors := (cs_remoteActors c)[i := actor']\<rparr>)))"

section \<open>The session service\<close>

definition client_data :: "token \<Rightarrow> (token \<times> ClientData) list \<Rightarrow> ClientData" where
  "client_data t m = (case map_of m t of None \<Rightarrow> ci_Data zero_clientInfo | Some d \<Rightarrow> d)"

definition newSessionService :: "Session \<Rightarrow> (token \<times> ClientData) list \<Rightarrow> bool
    \<Rightarrow> (string + sessionService) go" where
  "newSessionService session datas controller =
     (case Session_Validate session of
        Some e \<Rightarrow> Inr (Inl e)
      | None \<Rightarrow>
          go_bind (go_map (\<lambda>c. newClientService c (ss_Token session) (client_data (cl_Token c) datas))
              (ss_Clients session)) (\<lambda>clients.
          go_bind (makeLatencyData session) (\<lambda>r.
            case r of
              Inl e \<Rightarrow> Inr (Inl e)
            | Inr l \<Rightarrow> Inr (Inr \<lparr>sv_Token = ss_Token session, sv_clients = clients,
                sv_stories = map newStoryData (ss_Stories session),
                sv_localActors = map newLocalActorData (ss_LocalActors session),
                sv_latencyData = l, sv_controller = controller, sv_state = SessionStateNew\<rparr>))))"

definition ErrAlreadyStarted :: string where
  "ErrAlreadyStarted = ''already started''"

definition session_Start :: "sessionService \<Rightarrow> string option \<times> sessionService" where
  "session_Start s =
     (if sv_state s \<noteq> SessionStateNew then (Some ErrAlreadyStarted, s)
      else (None, s\<lparr>sv_state := SessionStateActive\<rparr>))"

subsection \<open>The tick\<close>

datatype control = Suspend | Resume

definition level :: "ClientState \<Rightarrow> SessionState \<Rightarrow> SessionState" where
  "level st new =
     (if st = ClientStateLagging then
        (if new \<noteq> SessionStateNotInSync then SessionStateDegraded else new)
      else if st = ClientStateLost then SessionStateNotInSync
      else new)"

fun update_actors :: "remoteActorData list \<Rightarrow> clientStatePackage \<Rightarrow> latencyData \<Rightarrow> latencyData go" where
  "update_actors [] p l = Inr l"
| "update_actors (a # as) p l =
     go_bind (UpdateClientActor (ca_Actor (rd_Actor a)) p l) (update_actors as p)"

text \<open>The loop over the clients: the clients with their states, the latencies and the new state.\<close>

fun update_clients :: "time \<Rightarrow> clientService list \<Rightarrow> latencyData \<Rightarrow> SessionState
    \<Rightarrow> (clientService list \<times> latencyData \<times> SessionState) go" where
  "update_clients now [] l new = Inr ([], l, new)"
| "update_clients now (c # cs) l new =
     (let (p, c') = GetState now c
      in go_bind (update_actors (cs_remoteActors c') p l) (\<lambda>l'.
         go_bind (update_clients now cs l' (level (cp_State p) new)) (\<lambda>(cs', l'', new').
           Inr (c' # cs', l'', new'))))"

definition control_call :: "bool \<Rightarrow> SessionState \<Rightarrow> SessionState \<Rightarrow> control list" where
  "control_call present old new =
     (if \<not> present then []
      else if old = SessionStateNotInSync \<and> new \<noteq> SessionStateNotInSync then [Resume]
      else if old \<noteq> SessionStateNotInSync \<and> new = SessionStateNotInSync then [Suspend]
      else [])"

definition session_updateState :: "time \<Rightarrow> sessionService
    \<Rightarrow> (LatencyReport option \<times> control list \<times> sessionService) go" where
  "session_updateState now s =
     (if sv_state s = SessionStateNew \<or> sv_state s = SessionStateDone then Inr (None, [], s)
      else go_bind (update_clients now (sv_clients s) (sv_latencyData s) SessionStateActive)
        (\<lambda>(cs, l, new).
          Inr (Some \<lparr>lr_Header = \<lparr>shs_SessionToken = sv_Token s\<rparr>, lr_Latencies = lt_latencies l\<rparr>,
               control_call (sv_controller s) (sv_state s) new,
               s\<lparr>sv_clients := cs, sv_latencyData := l, sv_state := new\<rparr>)))"

fun send_all :: "StoryServerMessage \<Rightarrow> clientService list \<Rightarrow> (byte list \<times> UDPAddr) list go" where
  "send_all msg [] = Inr []"
| "send_all msg (c # cs) =
     go_bind (client_send msg c) (\<lambda>p. go_bind (send_all msg cs) (\<lambda>ps. Inr (p @ ps)))"

definition session_tick :: "time \<Rightarrow> sessionService
    \<Rightarrow> (control list \<times> (byte list \<times> UDPAddr) list \<times> sessionService) go" where
  "session_tick now s =
     go_bind (session_updateState now s) (\<lambda>(report, calls, s').
       case report of
         None \<Rightarrow> Inr (calls, [], s')
       | Some r \<Rightarrow> go_bind (send_all (MLatencyReport r) (sv_clients s')) (\<lambda>ps. Inr (calls, ps, s')))"

subsection \<open>A story entry\<close>

text \<open>\<open>None\<close>: the history's \<open>Push\<close> does not return.\<close>

definition story_pack :: "token \<Rightarrow> token \<Rightarrow> Entry list \<Rightarrow> StoryPack" where
  "story_pack session story es =
     \<lparr>sp_Header = \<lparr>shs_SessionToken = session\<rparr>, sp_StoryToken = story, sp_Stories = es\<rparr>"

definition story_push :: "time \<Rightarrow> byte list \<Rightarrow> storyData \<Rightarrow> (Entry list go \<times> storyData) option" where
  "story_push now payload y =
     (let (en, e) = Enumerator_Push now payload (sd_Enum y)
      in case History_Push e (sd_History y) of
           None \<Rightarrow> None
         | Some h \<Rightarrow> Some (RecentX 0 0 (MaxMessageSize - 64) h, y\<lparr>sd_Enum := en, sd_History := h\<rparr>))"

definition session_entry :: "time \<Rightarrow> nat \<Rightarrow> byte list \<Rightarrow> sessionService
    \<Rightarrow> ((byte list \<times> UDPAddr) list \<times> sessionService) go option" where
  "session_entry now i payload s =
     (case story_push now payload (sv_stories s ! i) of
        None \<Rightarrow> None
      | Some (recent, y) \<Rightarrow>
          Some (go_bind recent (\<lambda>es.
            go_bind (send_all (MStoryPack (story_pack (sv_Token s) (st_Token (sd_Story y)) es)) (sv_clients s))
              (\<lambda>ps. Inr (ps, s\<lparr>sv_stories := (sv_stories s)[i := y]\<rparr>)))))"

subsection \<open>Missing entries\<close>

text \<open>
  The packs that answer a request, each at the moment it is handed over. The state of the loops is
  the slice of collected entries and the packs handed over so far.
\<close>

definition collect :: "token \<Rightarrow> token \<Rightarrow> Entry \<Rightarrow> Entry list \<times> StoryPack list
    \<Rightarrow> bool \<times> Entry list \<times> StoryPack list" where
  "collect session story entry = (\<lambda>(es, sent).
     (let full = story_pack session story (es @ [entry])
      in if StoryPack_Size full < MaxMessageSize then (True, es @ [entry], sent)
         else if length (es @ [entry]) = 1 then (True, [], sent @ [full])
         else (True, [entry], sent @ [story_pack session story es])))"

definition missing_packs :: "token \<Rightarrow> Range list \<Rightarrow> storyData \<Rightarrow> StoryPack list" where
  "missing_packs session missing y =
     (let story = st_Token (sd_Story y);
          (es, sent) = foldl (\<lambda>st r. IterateRange r (collect session story) (sd_History y) st) ([], []) missing
      in if length es > 0 then sent @ [story_pack session story es] else sent)"

definition ErrUnknownStory :: string where
  "ErrUnknownStory = ''unknown story''"

text \<open>The first pack is the answer; the others go out through the client service.\<close>

definition HandleStoryConfirm :: "clientService \<Rightarrow> StoryConfirm \<Rightarrow> sessionService
    \<Rightarrow> ((string + StoryPack option) \<times> (byte list \<times> UDPAddr) list) go" where
  "HandleStoryConfirm client msg s =
     (case first_idx (\<lambda>y. st_Token (sd_Story y) = sc_StoryToken msg) (sv_stories s) of
        None \<Rightarrow> Inr (Inl ErrUnknownStory, [])
      | Some i \<Rightarrow>
          if length (sc_Missing msg) = 0 then Inr (Inr None, [])
          else
            (case missing_packs (sv_Token s) (sc_Missing msg) (sv_stories s ! i) of
               [] \<Rightarrow> Inr (Inr None, [])
             | p # ps \<Rightarrow>
                 go_bind (go_map (\<lambda>m. client_send (MStoryPack m) client) ps) (\<lambda>outs.
                   Inr (Inr (Some p), concat outs))))"

section \<open>Packs of missing entries\<close>

abbreviation in_range :: "Range \<Rightarrow> Entry \<Rightarrow> bool" where
  "in_range r e \<equiv> From r \<le> Seq e \<and> Seq e \<le> To r"

definition asked :: "Range list \<Rightarrow> Entry list \<Rightarrow> Entry list" where
  "asked rs es = concat (map (\<lambda>r. filter (in_range r) es) rs)"

lemma pack_size:
  "StoryPack_Size (story_pack t y es) = 15 + sum_list (map (\<lambda>e. 13 + int (length (Payload e))) es)"
proof -
  have "foldl (\<lambda>size e. size + (1 + int (length (Payload e)) + 4 + 8)) n es =
    n + sum_list (map (\<lambda>e. 13 + int (length (Payload e))) es)" for n
    by (induction es arbitrary: n) simp_all
  then show ?thesis
    by (simp add: StoryPack_Size_def story_pack_def storySizeServerBase_def SizeOfPrefix_def
        sizeOfStoryHeaderServer_def SizeOfToken_def)
qed

lemma pack_simps [simp]:
  "sp_Stories (story_pack t y es) = es" "sp_StoryToken (story_pack t y es) = y"
  "shs_SessionToken (sp_Header (story_pack t y es)) = t"
  by (simp_all add: story_pack_def)

lemma visit_all:
  "(\<And>e st. fst (fn e st)) \<Longrightarrow> visit fn es st = foldl (\<lambda>st e. snd (fn e st)) st es"
  by (induction es arbitrary: st) (auto split: prod.split simp: prod.case_eq_if)

lemma collect_goes_on: "fst (collect t y e st)"
  by (cases st) (simp add: collect_def Let_def)

text \<open>
  What the loops keep: all entries so far are in the packs and the slice, every pack is full enough
  (the next entry did not fit) and none is too long.
\<close>

definition full_before :: "Entry list \<Rightarrow> Entry list \<Rightarrow> bool" where
  "full_before es next \<longleftrightarrow> MaxMessageSize \<le> StoryPack_Size (story_pack 0 0 (es @ [hd next]))"

definition pack_ok :: "token \<Rightarrow> token \<Rightarrow> StoryPack \<Rightarrow> bool" where
  "pack_ok t y p \<longleftrightarrow> p = story_pack t y (sp_Stories p) \<and> sp_Stories p \<noteq> [] \<and>
     StoryPack_Size p < MaxMessageSize"

definition collected :: "token \<Rightarrow> token \<Rightarrow> Entry list \<Rightarrow> Entry list \<times> StoryPack list \<Rightarrow> bool" where
  "collected t y E = (\<lambda>(es, sent). concat (map sp_Stories sent) @ es = E \<and> (sent \<noteq> [] \<longrightarrow> es \<noteq> []) \<and>
     (\<forall>p \<in> set sent. pack_ok t y p) \<and> StoryPack_Size (story_pack t y es) < MaxMessageSize \<and>
     successively full_before (map sp_Stories sent @ [es]))"

lemma collect_step:
  assumes c: "collected t y E (es, sent)" and e: "length (Payload e) \<le> 255"
  shows "collected t y (E @ [e]) (snd (collect t y e (es, sent)))"
proof (cases "StoryPack_Size (story_pack t y (es @ [e])) < MaxMessageSize")
  case True
  have "successively full_before (map sp_Stories sent @ [es @ [e]])"
    using c by (cases "sent = []") (auto simp: collected_def successively_append_iff full_before_def)
  then show ?thesis
    using c True by (auto simp: collected_def collect_def Let_def)
next
  case False
  have one: "StoryPack_Size (story_pack t y [e]) < MaxMessageSize"
    using e by (simp add: pack_size MaxMessageSize_def)
  with False have "es \<noteq> []" by (cases es) auto
  then have r: "snd (collect t y e (es, sent)) = ([e], sent @ [story_pack t y es])"
    using False by (simp add: collect_def Let_def)
  have "full_before es [e]" using False by (simp add: full_before_def pack_size not_less)
  then have "successively full_before (map sp_Stories (sent @ [story_pack t y es]) @ [[e]])"
    using c by (simp add: collected_def successively_append_iff)
  then show ?thesis
    using c one \<open>es \<noteq> []\<close> unfolding r by (auto simp: collected_def pack_ok_def)
qed

lemma collect_fold:
  assumes "collected t y E st" and "\<forall>e \<in> set es. length (Payload e) \<le> 255"
  shows "collected t y (E @ es) (foldl (\<lambda>st e. snd (collect t y e st)) st es)"
  using assms
proof (induction es arbitrary: E st)
  case (Cons e es)
  obtain a b where st: "st = (a, b)" by fastforce
  have "collected t y (E @ [e]) (snd (collect t y e st))"
    using collect_step [of t y E a b e] Cons.prems st by simp
  from Cons.IH [OF this] show ?case using Cons.prems by simp
qed simp

definition range_asked :: "Range \<Rightarrow> bool" where
  "range_asked r \<longleftrightarrow> 0 \<le> rng_seq r \<and> rng_seq r < int_lim"

lemma collect_ranges:
  assumes h: "history_ok h" "h_lastSeq h < int_lim" "\<forall>e \<in> set (contents h). length (Payload e) \<le> 255"
    and "\<forall>r \<in> set rs. range_asked r" and "collected t y E st"
  shows "collected t y (E @ asked rs (contents h))
    (foldl (\<lambda>st r. IterateRange r (collect t y) h st) st rs)"
  using assms(4,5)
proof (induction rs arbitrary: E st)
  case (Cons r rs)
  have "IterateRange r (collect t y) h st =
      foldl (\<lambda>st e. snd (collect t y e st)) st (filter (in_range r) (contents h))"
    using Cons.prems(1) visit_all [of "collect t y", OF collect_goes_on]
    by (simp add: range_asked_def IterateRange_visits [OF h(1,2)])
  moreover have "collected t y (E @ filter (in_range r) (contents h))
      (foldl (\<lambda>st e. snd (collect t y e st)) st (filter (in_range r) (contents h)))"
    using collect_fold [OF Cons.prems(2)] h(3) by simp
  ultimately have "collected t y (E @ filter (in_range r) (contents h)) (IterateRange r (collect t y) h st)"
    by simp
  from Cons.IH [OF _ this] show ?case using Cons.prems(1) by (simp add: asked_def)
qed (simp add: asked_def)

lemma pack_count:
  assumes "pack_ok t y p"
  shows "length (sp_Stories p) \<le> 255"
proof -
  have "13 * int (length es) \<le> sum_list (map (\<lambda>e. 13 + int (length (Payload e))) es)" for es
    by (induction es) simp_all
  from this [of "sp_Stories p"] show ?thesis
    using assms pack_size [of t y "sp_Stories p"] by (simp add: pack_ok_def MaxMessageSize_def)
qed

lemma pack_on_wire:
  assumes "pack_ok t y p" and "\<forall>e \<in> set (sp_Stories p). entry_valid e"
  shows "\<exists>bs. StoryPack_Put p [] = Inr bs \<and> int (length bs) < MaxMessageSize \<and>
    StoryParseServer bs = Inr (Some (MStoryPack p))"
proof -
  have "StoryPack_Size p < MaxMessageSize" using assms(1) by (simp add: pack_ok_def)
  moreover have "story_server_valid (MStoryPack p)"
    using assms(2) pack_count [OF assms(1)] by (simp add: lists_valid_def)
  ultimately show ?thesis using story_server_parse [of "MStoryPack p" "[]"] by auto
qed

lemma missing_packs_spec:
  assumes "history_ok (sd_History y)" and "h_lastSeq (sd_History y) < int_lim"
    and "\<forall>e \<in> set (contents (sd_History y)). length (Payload e) \<le> 255" and "\<forall>r \<in> set rs. range_asked r"
  shows "concat (map sp_Stories (missing_packs t rs y)) = asked rs (contents (sd_History y))"
    and "successively full_before (map sp_Stories (missing_packs t rs y))"
    and "\<forall>p \<in> set (missing_packs t rs y). pack_ok t (st_Token (sd_Story y)) p"
proof -
  let ?y = "st_Token (sd_Story y)"
  obtain es sent where f: "foldl (\<lambda>st r. IterateRange r (collect t ?y) (sd_History y) st) ([], []) rs = (es, sent)"
    by fastforce
  have "collected t ?y [] ([], [])"
    by (simp add: collected_def pack_size MaxMessageSize_def)
  then have c: "collected t ?y (asked rs (contents (sd_History y))) (es, sent)"
    using collect_ranges [OF assms(1,2,3,4)] by (fastforce simp: f)
  have ps: "missing_packs t rs y = (if es = [] then sent else sent @ [story_pack t ?y es])"
    using f by (simp add: missing_packs_def)
  show "concat (map sp_Stories (missing_packs t rs y)) = asked rs (contents (sd_History y))"
    and "successively full_before (map sp_Stories (missing_packs t rs y))"
    and "\<forall>p \<in> set (missing_packs t rs y). pack_ok t ?y p"
    using c unfolding ps by (auto simp: collected_def pack_ok_def successively_append_iff)
qed

lemma missing_packs_entries:
  assumes "history_ok (sd_History y)" and "h_lastSeq (sd_History y) < int_lim"
    and "\<forall>e \<in> set (contents (sd_History y)). length (Payload e) \<le> 255" and "\<forall>r \<in> set rs. range_asked r"
    and "p \<in> set (missing_packs t rs y)"
  shows "set (sp_Stories p) \<subseteq> set (contents (sd_History y))"
proof -
  have "set (sp_Stories p) \<subseteq> set (concat (map sp_Stories (missing_packs t rs y)))" using assms(5) by auto
  then show ?thesis unfolding missing_packs_spec(1) [OF assms(1-4)] by (auto simp: asked_def)
qed


section \<open>Pushing to a story\<close>

text \<open>
  A story's history has no limits and holds the entries numbered from 1 without a gap, the last number
  being the enumerator's.
\<close>

definition story_ok :: "storyData \<Rightarrow> bool" where
  "story_ok y \<longleftrightarrow> history_ok (sd_History y) \<and> same_limits zero_History (sd_History y) \<and>
     map Seq (contents (sd_History y)) = [1..h_lastSeq (sd_History y)] \<and>
     en_lastSeq (sd_Enum y) = h_lastSeq (sd_History y) \<and> h_lastSeq (sd_History y) < int_lim"

definition next_entry :: "time \<Rightarrow> byte list \<Rightarrow> storyData \<Rightarrow> Entry" where
  "next_entry now payload y = snd (Enumerator_Push now payload (sd_Enum y))"

abbreviation story_log :: "storyData \<Rightarrow> Entry list" where
  "story_log y \<equiv> contents (sd_History y)"

lemma zero_history_ok: "history_ok zero_History" "contents zero_History = []"
  by (simp_all add: history_ok_def zero_History_def contents_def total_delay_def total_bytes_def)

lemma new_story_ok: "story_ok (newStoryData y)"
  using zero_history_ok
  by (simp add: story_ok_def newStoryData_def zero_Enumerator_def) (simp add: zero_History_def)

lemma story_push_spec:
  assumes ok: "story_ok y" and tame: "tame (story_log y @ [next_entry now payload y])"
    and room: "h_lastSeq (sd_History y) + 1 < int_lim"
  obtains y' where "story_push now payload y =
      Some (Inr (drop_until (within 0 0 444) (story_log y @ [next_entry now payload y])), y')"
    "story_ok y'" "story_log y' = story_log y @ [next_entry now payload y]" "sd_Story y' = sd_Story y"
    "h_lastSeq (sd_History y') = h_lastSeq (sd_History y) + 1"
proof -
  let ?e = "next_entry now payload y" and ?h = "sd_History y"
  have h: "history_ok ?h" "same_limits zero_History ?h" "map Seq (contents ?h) = [1..h_lastSeq ?h]"
    "en_lastSeq (sd_Enum y) = h_lastSeq ?h"
    using ok by (simp_all add: story_ok_def)
  have l0: "0 \<le> h_lastSeq ?h" using h(1) by (simp add: history_ok_def)
  obtain en where p: "Enumerator_Push now payload (sd_Enum y) = (en, ?e)"
    by (cases "Enumerator_Push now payload (sd_Enum y)") (simp add: next_entry_def)
  have e: "Seq ?e = h_lastSeq ?h + 1" using h(4) l0 room
    by (simp add: next_entry_def Enumerator_Push_def Let_def u64_id)
  have en: "en_lastSeq en = h_lastSeq ?h + 1" using p h(4) l0 room
    by (auto simp: Enumerator_Push_def Let_def u64_id)
  have lim: "maxEntryCount ?h = 0" "maxTotalDelay ?h = 0" "maxTotalByteSize ?h = 0"
    using h(2) by (simp_all add: same_limits_def zero_History_def)
  have fits: "history_fits ?h = (\<lambda>_. True)"
    by (simp add: history_fits_def within_def lim fun_eq_iff)
  obtain h' where h': "History_Push ?e ?h = Some h'" "history_ok h'" "same_limits ?h h'"
      "h_lastSeq h' = Seq ?e" "contents h' = contents ?h @ [?e]"
    using History_Push_newest [OF h(1) tame] e lim by (auto simp: fits drop_until_id)
  have R: "RecentX 0 0 (MaxMessageSize - 64) h' = Inr (drop_until (within 0 0 444) (story_log y @ [?e]))"
    using RecentX_newest [OF h'(2)] h'(5) tame by (simp add: MaxMessageSize_def)
  let ?y = "y\<lparr>sd_Enum := en, sd_History := h'\<rparr>"
  have "story_push now payload y = Some (Inr (drop_until (within 0 0 444) (story_log y @ [?e])), ?y)"
    by (simp add: story_push_def p h'(1) R)
  moreover have "story_ok ?y"
    using h h' e en l0 room same_limits_trans
    by (auto simp: story_ok_def upto_rec2)
  ultimately show ?thesis using that [of ?y] h'(4,5) e by simp
qed

section \<open>Sending to the clients\<close>

definition reachable :: "clientService \<Rightarrow> bool" where
  "reachable c \<longleftrightarrow> cs_state c \<noteq> ClientStateNew \<and> udp_Port (cd_Address (cs_data c)) \<noteq> 0 \<and>
     udp_IP (cd_Address (cs_data c)) \<noteq> []"

lemma client_send_cases:
  "client_send msg c =
     (if reachable c then go_bind (StoryServer_Put msg []) (\<lambda>a. Inr [(a, cd_Address (cs_data c))])
      else Inr [])"
  by (auto simp: client_send_def reachable_def Let_def)

lemma send_all_reachable:
  "StoryServer_Put msg [] = Inr a \<Longrightarrow>
   send_all msg cs = Inr (map (\<lambda>c. (a, cd_Address (cs_data c))) (filter reachable cs))"
  by (induction cs) (simp_all add: client_send_cases)

lemma send_all_panics:
  "StoryServer_Put msg [] = Inl e \<Longrightarrow> \<exists>c \<in> set cs. reachable c \<Longrightarrow> send_all msg cs = Inl e"
proof (induction cs)
  case (Cons c cs)
  show ?case
  proof (cases "reachable c")
    case False
    then have "send_all msg cs = Inl e" using Cons by auto
    then show ?thesis using False by (simp add: client_send_cases)
  qed (simp add: client_send_cases Cons.prems(1))
qed simp

lemma suffix_within_444:
  assumes "\<forall>e \<in> set es. length (Payload e) \<le> 1" and "256 \<le> length es" and "tame es"
  shows "256 \<le> length (drop_until (within 0 0 444) es)"
proof -
  obtain k where k: "drop_until (within 0 0 444) es = drop k es" "k \<le> length es"
    using drop_until_suffix [of "within 0 0 444" es]
    by (metis drop_all le_cases length_drop order_refl)
  have bytes: "sum_list (map (\<lambda>e. int (length (Payload e))) xs) \<le> int (length xs)"
    if "\<forall>e \<in> set xs. length (Payload e) \<le> 1" for xs :: "Entry list"
    using that by (induction xs) auto
  have w: "within 0 0 444 (drop (length es - 256) es)"
  proof -
    let ?d = "drop (length es - 256) es"
    have t: "tame ?d" using tame_drop [of "take (length es - 256) es" ?d] assms(3) by simp
    have "sum_list (map (\<lambda>e. int (length (Payload e))) ?d) \<le> int (length ?d)"
      using bytes [of ?d] assms(1) by (auto dest: in_set_dropD)
    then show ?thesis using assms(2) tame_totals [OF t] by (simp add: within_def)
  qed
  have "k \<le> length es - 256"
  proof (rule ccontr)
    assume "\<not> k \<le> length es - 256"
    then have "length es - 256 < k" by simp
    from drop_until_least [OF k this] w show False by blast
  qed
  then show ?thesis using k assms(2) by simp
qed

text \<open>
  C33. A story of short entries brings the server down: once a story has 255 entries of at most one byte
  each, the next such entry is broadcast in a pack of more than 255 entries (the pack is limited by
  the bytes of the payloads only), and building it panics, as soon as one client is reachable.
\<close>

theorem short_entries_panic:
  assumes "story_ok (sv_stories s ! i)"
    and "tame (story_log (sv_stories s ! i) @ [next_entry now payload (sv_stories s ! i)])"
    and "h_lastSeq (sd_History (sv_stories s ! i)) + 1 < int_lim"
    and "255 \<le> length (story_log (sv_stories s ! i))"
    and "\<forall>e \<in> set (story_log (sv_stories s ! i)). length (Payload e) \<le> 1" and "length payload \<le> 1"
    and "\<exists>c \<in> set (sv_clients s). reachable c"
  shows "session_entry now i payload s = Some (Inl ''max len of sequence entry array is 255'')"
proof -
  let ?y = "sv_stories s ! i"
  let ?es = "story_log ?y @ [next_entry now payload ?y]"
  obtain y' where y': "story_push now payload ?y = Some (Inr (drop_until (within 0 0 444) ?es), y')"
    using story_push_spec [OF assms(1,2,3)] by metis
  have "Payload (next_entry now payload ?y) = payload"
    by (simp add: next_entry_def Enumerator_Push_def Let_def)
  then have "256 \<le> length (drop_until (within 0 0 444) ?es)"
    using assms(4,5,6) by (intro suffix_within_444 [OF _ _ assms(2)]) auto
  then have "StoryServer_Put (MStoryPack (story_pack t z (drop_until (within 0 0 444) ?es))) [] =
      Inl ''max len of sequence entry array is 255''" for t z
    by (simp add: StoryPack_Put_def PutEntries_def story_pack_def)
  from send_all_panics [OF this assms(7)] show ?thesis by (simp add: session_entry_def y')
qed

text \<open>A story of one-byte entries, all pushed at the same moment.\<close>

fun short_story :: "nat \<Rightarrow> storyData" where
  "short_story 0 = newStoryData \<lparr>st_Token = 5, st_Channel = Some 0\<rparr>"
| "short_story (Suc n) =
     (case story_push 0 [7] (short_story n) of None \<Rightarrow> short_story n | Some (_, y) \<Rightarrow> y)"

lemma sevens_tame:
  assumes "\<forall>e \<in> set es. Payload e = [7] \<and> Delay e = 0" and "int (length es) < int_lim"
  shows "tame es"
proof -
  have "sum_list (map Delay es) = 0 \<and> sum_list (map (\<lambda>e. int (length (Payload e))) es) = int (length es)"
    using assms(1) by (induction es) auto
  then show ?thesis using assms by (auto simp: tame_def)
qed

lemma short_story_facts:
  assumes "n < 1000"
  shows "story_ok (short_story n) \<and> length (story_log (short_story n)) = n \<and>
    h_lastSeq (sd_History (short_story n)) = int n \<and> en_lastAt (sd_Enum (short_story n)) = 0 \<and>
    (\<forall>e \<in> set (story_log (short_story n)). Payload e = [7] \<and> Delay e = 0)"
  using assms
proof (induction n)
  case 0
  show ?case using new_story_ok zero_history_ok(2)
    by (simp add: newStoryData_def zero_History_def zero_Enumerator_def)
next
  case (Suc n)
  let ?y = "short_story n" let ?e = "next_entry 0 [7] ?y"
  have IH: "story_ok ?y" "length (story_log ?y) = n" "h_lastSeq (sd_History ?y) = int n"
    "en_lastAt (sd_Enum ?y) = 0" "\<forall>e \<in> set (story_log ?y). Payload e = [7] \<and> Delay e = 0"
    using Suc by auto
  have e: "Payload ?e = [7]" "Delay ?e = 0"
    using IH(4) by (simp_all add: next_entry_def Enumerator_Push_def Let_def time_IsZero_def)
  have t: "tame (story_log ?y @ [?e])"
    using IH(2,5) e Suc.prems by (intro sevens_tame) auto
  have room: "h_lastSeq (sd_History ?y) + 1 < int_lim" using IH(3) Suc.prems by simp
  obtain r y' where y': "story_push 0 [7] ?y = Some (r, y')" "story_ok y'" "story_log y' = story_log ?y @ [?e]"
      "h_lastSeq (sd_History y') = int n + 1"
    using story_push_spec [OF IH(1) t room] IH(3) by metis
  have "en_lastAt (sd_Enum y') = 0"
    using y'(1) by (auto simp: story_push_def Enumerator_Push_def Let_def split: option.splits)
  then show ?case using y' IH(2,5) e by auto
qed

definition short_session :: sessionService where
  "short_session =
     \<lparr>sv_Token = 1,
      sv_clients = [\<lparr>cs_Token = 2, cs_Session = 1,
        cs_data = \<lparr>cd_LastMsgReceived = 0, cd_Address = \<lparr>udp_IP = [127, 0, 0, 1], udp_Port = 9, udp_Zone = []\<rparr>,
          cd_Latency = 0\<rparr>, cs_remoteActors = [], cs_state = ClientStateGood\<rparr>],
      sv_stories = [short_story 255], sv_localActors = [],
      sv_latencyData = \<lparr>lt_latencies = [], lt_actorPosMap = []\<rparr>, sv_controller = False,
      sv_state = SessionStateActive\<rparr>"

theorem short_entries_panic_witness:
  "session_entry 0 0 [7] short_session = Some (Inl ''max len of sequence entry array is 255'')"
proof -
  have f: "story_ok (short_story 255)" "length (story_log (short_story 255)) = 255"
    "h_lastSeq (sd_History (short_story 255)) = 255" "en_lastAt (sd_Enum (short_story 255)) = 0"
    "\<forall>e \<in> set (story_log (short_story 255)). Payload e = [7] \<and> Delay e = 0"
    using short_story_facts [of 255] by auto
  let ?e = "next_entry 0 [7] (short_story 255)"
  have e: "Payload ?e = [7]" "Delay ?e = 0"
    using f(4) by (simp_all add: next_entry_def Enumerator_Push_def Let_def time_IsZero_def)
  have t: "tame (story_log (short_story 255) @ [?e])"
    using f(2,5) e by (intro sevens_tame) auto
  have s: "sv_stories short_session ! 0 = short_story 255"
    "\<exists>c \<in> set (sv_clients short_session). reachable c"
    by (simp_all add: short_session_def reachable_def ClientStateGood_def ClientStateNew_def)
  show ?thesis
    by (rule short_entries_panic [of short_session 0 0 "[7]", unfolded s(1), OF f(1) t _ _ _ _ s(2)])
      (use f(2,3,5) in simp_all)
qed


end
