(* ===== verification/SessionRuns.thy ===== *)
theory SessionRuns
  imports Services
begin

text \<open>
  Running sessions: a validated session whose actors can be told apart starts without an error or a
  panic and keeps its invariant under all its events; what its ticks make of the clients' states, and
  when they suspend and resume the game.
\<close>

section \<open>Latency positions\<close>

definition positions_ok :: "((token \<times> token) \<times> byte) list \<times> byte \<Rightarrow> bool" where
  "positions_ok = (\<lambda>(m, c). distinct (map fst m) \<and> c = word_of_nat (length m) \<and>
     (\<forall>p \<in> set m. unat (snd p) < length m))"

lemma add_positions_spec:
  assumes "positions_ok st" and "distinct ks" and "set ks \<inter> set (map fst (fst st)) = {}"
  shows "positions_ok (add_positions ks st) \<and>
    map fst (fst (add_positions ks st)) = map fst (fst st) @ ks"
  using assms
proof (induction ks arbitrary: st)
  case (Cons k ks)
  obtain m c where st: "st = (m, c)" by fastforce
  have k: "k \<notin> set (map fst m)" using Cons.prems(3) st by auto
  have u: "AList.update k c m = m @ [(k, c)]" using k by (induction m) auto
  have m: "\<forall>p \<in> set m. unat (snd p) < length m" "distinct (map fst m)" "c = word_of_nat (length m)"
    using Cons.prems(1) st by (simp_all add: positions_ok_def)
  have "unat c \<le> length m" unfolding m(3) by (simp add: unat_of_nat)
  then have "positions_ok (m @ [(k, c)], c + 1)"
    using m k by (auto simp: positions_ok_def add.commute intro: less_SucI)
  from Cons.IH [OF this] Cons.prems(2,3) st show ?case
    by (auto simp: add_positions_def u)
qed (simp add: add_positions_def)

lemma story_positions_spec:
  assumes "positions_ok st"
    and "\<forall>y \<in> set ys. \<exists>as. StoryActors (st_Token y) s = Inr as \<and> distinct (map sa_Token as)"
    and "distinct (map st_Token ys)" and "\<forall>y \<in> set ys. \<forall>a. (st_Token y, a) \<notin> set (map fst (fst st))"
  shows "\<exists>st'. story_positions s ys st = Inr st' \<and> positions_ok st' \<and>
    set (map fst (fst st')) = set (map fst (fst st)) \<union>
      {(st_Token y, sa_Token a) | y a as. y \<in> set ys \<and> StoryActors (st_Token y) s = Inr as \<and> a \<in> set as}"
  using assms
proof (induction ys arbitrary: st)
  case (Cons y ys)
  obtain as where as: "StoryActors (st_Token y) s = Inr as" "distinct (map sa_Token as)"
    using Cons.prems(2) by auto
  let ?ks = "story_keys (st_Token y) as"
  have ks: "distinct ?ks" using as(2) by (auto simp: story_keys_def distinct_map inj_on_def)
  have "set ?ks \<inter> set (map fst (fst st)) = {}" using Cons.prems(4) by (auto simp: story_keys_def)
  from add_positions_spec [OF Cons.prems(1) ks this]
  have A: "positions_ok (add_positions ?ks st)" "map fst (fst (add_positions ?ks st)) = map fst (fst st) @ ?ks"
    by auto
  have "\<forall>z \<in> set ys. \<forall>a. (st_Token z, a) \<notin> set (map fst (fst (add_positions ?ks st)))"
    using Cons.prems(3,4) unfolding A(2) by (auto simp: story_keys_def) (metis image_eqI)
  from Cons.IH [OF A(1) _ _ this] Cons.prems(2,3)
  obtain st' where "story_positions s ys (add_positions ?ks st) = Inr st'" "positions_ok st'"
    "set (map fst (fst st')) = set (map fst (fst (add_positions ?ks st))) \<union>
      {(st_Token y, sa_Token a) | y a as. y \<in> set ys \<and> StoryActors (st_Token y) s = Inr as \<and> a \<in> set as}"
    by auto
  then show ?case using as(1) unfolding A(2) by (auto simp: story_keys_def)
qed simp

section \<open>The actors of a validated story\<close>

lemma map_enumerate_filter:
  "map (\<lambda>(k, a). f a) (filter (\<lambda>(k, a). P a) (enumerate n xs)) = map f (filter P xs)"
  by (induction xs arbitrary: n) auto

definition session_actors :: "Session \<Rightarrow> Actor list" where
  "session_actors s = ss_LocalActors s @ concat (map (\<lambda>c. map ca_Actor (cl_Actors c)) (ss_Clients s))"

definition story_actors :: "token \<Rightarrow> Session \<Rightarrow> Actor list" where
  "story_actors t s = filter (\<lambda>a. at_Story a = t) (session_actors s)"

definition story_infos :: "token \<Rightarrow> Session \<Rightarrow> StoryActorInfo list" where
  "story_infos t s = local_infos t s @ remote_infos t s"

lemma session_claims_actors: "session_claims s = map claim (session_actors s)"
  by (simp add: session_claims_def session_actors_def map_concat comp_def)

lemma infos_actors:
  assumes l: "\<And>k a. f \<lparr>sa_Token = at_Token a, sa_Name = at_Name a, sa_Config = at_Config a,
        sa_FieldActorIdx = at_Index a, sa_IsLocal = True, sa_LocalActorIdx = word_of_nat k,
        sa_ClientIdx = 0, sa_ClientActorIdx = 0\<rparr> = g a"
    and r: "\<And>c k a. f \<lparr>sa_Token = at_Token a, sa_Name = at_Name a, sa_Config = at_Config a,
           sa_FieldActorIdx = at_Index a, sa_IsLocal = False, sa_LocalActorIdx = 0,
           sa_ClientIdx = word_of_nat c, sa_ClientActorIdx = word_of_nat k\<rparr> = g a"
  shows "map f (story_infos t s) = map g (story_actors t s)"
proof -
  have L: "map f (local_infos t s) = map g (filter (\<lambda>a. at_Story a = t) (ss_LocalActors s))"
    using map_enumerate_filter [of g "\<lambda>a. at_Story a = t" 0 "ss_LocalActors s"]
    by (simp add: local_infos_def comp_def l case_prod_unfold)
  have one: "map f (map (\<lambda>(k, ca). let a = ca_Actor ca in
          \<lparr>sa_Token = at_Token a, sa_Name = at_Name a, sa_Config = at_Config a,
           sa_FieldActorIdx = at_Index a, sa_IsLocal = False, sa_LocalActorIdx = 0,
           sa_ClientIdx = word_of_nat c, sa_ClientActorIdx = word_of_nat k\<rparr>)
         (filter (\<lambda>(k, ca). at_Story (ca_Actor ca) = t) (enumerate 0 as))) =
       map g (filter (\<lambda>a. at_Story a = t) (map ca_Actor as))" for c as
    using map_enumerate_filter [of "\<lambda>ca. g (ca_Actor ca)" "\<lambda>ca. at_Story (ca_Actor ca) = t" 0 as]
    by (simp add: comp_def r case_prod_unfold Let_def filter_map)
  have "map f (concat (map (\<lambda>(c, cl).
       map (\<lambda>(k, ca). let a = ca_Actor ca in
          \<lparr>sa_Token = at_Token a, sa_Name = at_Name a, sa_Config = at_Config a,
           sa_FieldActorIdx = at_Index a, sa_IsLocal = False, sa_LocalActorIdx = 0,
           sa_ClientIdx = word_of_nat c, sa_ClientActorIdx = word_of_nat k\<rparr>)
         (filter (\<lambda>(k, ca). at_Story (ca_Actor ca) = t) (enumerate 0 (cl_Actors cl))))
       (enumerate n cs))) = map g (filter (\<lambda>a. at_Story a = t) (concat (map (\<lambda>c. map ca_Actor (cl_Actors c)) cs)))"
    for n cs
  proof (induction cs arbitrary: n)
    case (Cons c cs)
    show ?case unfolding enumerate_simps list.map prod.case concat.simps map_append filter_append one Cons.IH ..
  qed simp
  from this [of 0 "ss_Clients s"] show ?thesis
    unfolding story_infos_def map_append L story_actors_def session_actors_def filter_append remote_infos_def
    by (simp only:)
qed

lemma add_infos_spec:
  assumes "distinct (map fst m @ map sa_FieldActorIdx is)"
  shows "add_infos is m = Inr (rev (map (\<lambda>i. (sa_FieldActorIdx i, i)) is) @ m)"
  using assms
proof (induction "is" arbitrary: m)
  case (Cons i "is")
  have "map_of m (sa_FieldActorIdx i) = None" using Cons.prems by (auto simp: map_of_eq_None_iff)
  moreover have "distinct (map fst ((sa_FieldActorIdx i, i) # m) @ map sa_FieldActorIdx is)"
    using Cons.prems by auto
  ultimately show ?case using Cons.IH by simp
qed simp

lemma place_spec:
  fixes m :: "(byte \<times> 'b) list"
  assumes "distinct (map fst m)" and "\<forall>p \<in> set m. unat (fst p) < length xs"
  shows "length (foldl (\<lambda>as (idx, a). as[unat idx := a]) xs m) = length xs \<and>
    (\<forall>p \<in> set m. foldl (\<lambda>as (idx, a). as[unat idx := a]) xs m ! unat (fst p) = snd p) \<and>
    (\<forall>k. k \<notin> unat ` fst ` set m \<longrightarrow> foldl (\<lambda>as (idx, a). as[unat idx := a]) xs m ! k = xs ! k)"
  using assms
proof (induction m arbitrary: xs)
  case (Cons p m)
  obtain i a where p: "p = (i, a)" by fastforce
  have "unat i \<notin> unat ` fst ` set m" using Cons.prems(1) p by auto (metis fst_conv image_eqI word_unat_eq_iff)
  with Cons.IH [of "xs[unat i := a]"] Cons.prems p show ?case by auto
qed simp

lemma permuted:
  fixes xs ys :: "'a list"
  assumes "distinct (map f ys)" and "set (map f ys) = {0..<length xs}" and "\<forall>y \<in> set ys. xs ! f y = y"
  shows "mset xs = mset ys"
proof -
  have "mset (map f ys) = mset [0..<length xs]"
    using assms(1,2) by (intro set_eq_iff_mset_eq_distinct [THEN iffD1]) auto
  then have "mset (map ((!) xs) (map f ys)) = mset (map ((!) xs) [0..<length xs])"
    by (metis mset_map)
  moreover have "map ((!) xs) (map f ys) = ys" using assms(3) by (simp add: map_idI)
  ultimately show ?thesis by (simp only: map_nth)
qed

lemma story_actors_claims:
  assumes "\<forall>c \<in> set (session_claims s). unat (snd c) < 64"
  shows "indices (session_claims s) t = map (\<lambda>a. unat (at_Index a)) (story_actors t s)"
proof -
  have "\<forall>a \<in> set (session_actors s). unat (at_Index a) < 64"
    using assms by (auto simp: session_claims_actors claim_def)
  then have "filter (\<lambda>a. at_Story a = t \<and> unat (at_Index a) < 64) (session_actors s) = story_actors t s"
    unfolding story_actors_def by (intro filter_cong) auto
  then show ?thesis
    by (simp add: indices_def session_claims_actors filter_map comp_def claim_def)
qed

lemma StoryActors_spec:
  assumes v: "session_valid s" and small: "\<forall>c \<in> set (session_claims s). unat (snd c) < 64"
    and y: "y \<in> set (ss_Stories s)"
  shows "\<exists>as. StoryActors (st_Token y) s = Inr as \<and> mset as = mset (story_infos (st_Token y) s)"
proof -
  let ?t = "st_Token y" and ?is = "story_infos (st_Token y) s"
  have idx: "map (\<lambda>i. unat (sa_FieldActorIdx i)) ?is = indices (session_claims s) ?t"
    unfolding story_actors_claims [OF small] by (rule infos_actors) simp_all
  have d: "distinct (indices (session_claims s) ?t)"
    using v indices_distinct by (auto simp: session_valid_def)
  have g: "set (indices (session_claims s) ?t) = {0..<length ?is}"
    using v y length_map [of "\<lambda>i. unat (sa_FieldActorIdx i)" ?is] by (auto simp: session_valid_def gapless_def idx)
  have n: "length ?is \<le> 64"
  proof -
    have "set (indices (session_claims s) ?t) \<subseteq> {0..<64}" by (auto simp: indices_def)
    then show ?thesis unfolding g by auto
  qed
  have dw: "distinct (map sa_FieldActorIdx ?is)"
    using d unfolding idx [symmetric] by (auto simp: distinct_map inj_on_def)
  let ?m = "rev (map (\<lambda>i. (sa_FieldActorIdx i, i)) ?is)"
  have m: "add_infos ?is [] = Inr ?m" using add_infos_spec [of "[]" ?is] dw by simp
  have lt: "unat (sa_FieldActorIdx i) < length ?is" if "i \<in> set ?is" for i
  proof -
    have "unat (sa_FieldActorIdx i) \<in> set (indices (session_claims s) ?t)" using that unfolding idx [symmetric] by auto
    then show ?thesis unfolding g by simp
  qed
  have cnt: "unat (word_of_nat (length ?is) :: byte) = length ?is" using n by (simp add: unat_of_nat)
  define as where "as = foldl (\<lambda>as (idx, a). as[unat idx := a]) (replicate (length ?is) zero_StoryActorInfo) ?m"
  have dm: "distinct (map fst ?m)" using dw by (simp add: rev_map [symmetric] comp_def)
  have sm: "\<forall>p \<in> set ?m. unat (fst p) < length (replicate (length ?is) zero_StoryActorInfo)"
    using lt by auto
  have as: "length as = length ?is" "\<forall>i \<in> set ?is. as ! unat (sa_FieldActorIdx i) = i"
    using place_spec [OF dm sm] unfolding as_def by auto
  have "\<not> (\<exists>(idx, _) \<in> set ?m. idx \<ge> (word_of_nat (length ?is) :: byte))"
    using lt cnt by (auto simp: word_le_nat_alt not_le)
  then have "StoryActors ?t s = Inr as"
    unfolding StoryActors_def story_infos_def [symmetric] m by (simp add: as_def cnt Let_def)
  moreover have "mset as = mset ?is"
    by (rule permuted [of "\<lambda>i. unat (sa_FieldActorIdx i)"]) (use d g as in \<open>simp_all only: idx\<close>)
  ultimately show ?thesis by blast
qed

section \<open>A session that is up\<close>

definition latency_fits :: "latencyData \<Rightarrow> bool" where
  "latency_fits l \<longleftrightarrow> length (lt_latencies l) = length (lt_actorPosMap l) \<and>
     (\<forall>x \<in> set (lt_latencies l). length (la_Name x) \<le> 255)"

definition actor_placed :: "latencyData \<Rightarrow> Actor \<Rightarrow> bool" where
  "actor_placed l a \<longleftrightarrow> pos_of (at_Story a) (at_Token a) (lt_actorPosMap l) < length (lt_actorPosMap l) \<and>
     length (at_Name a) \<le> 255"

definition remote_ok :: "latencyData \<Rightarrow> remoteActorData \<Rightarrow> bool" where
  "remote_ok l r \<longleftrightarrow> actor_placed l (ca_Actor (rd_Actor r)) \<and> engine_ok (rd_Stream r) (rd_Missing r)"

definition session_ok :: "sessionService \<Rightarrow> bool" where
  "session_ok s \<longleftrightarrow> latency_fits (sv_latencyData s) \<and>
     (\<forall>c \<in> set (sv_clients s). cs_Session c = sv_Token s \<and>
        (\<forall>r \<in> set (cs_remoteActors c). remote_ok (sv_latencyData s) r)) \<and>
     (\<forall>y \<in> set (sv_stories s). story_ok y)"

lemma go_map_Inr: "(\<And>x. x \<in> set xs \<Longrightarrow> f x = Inr (h x)) \<Longrightarrow> go_map f xs = Inr (map h xs)"
  by (induction xs) auto

definition fresh_remote :: "ClientActor \<Rightarrow> remoteActorData" where
  "fresh_remote a = \<lparr>rd_Actor = a, rd_Stream = zero_Stream\<lparr>maxWaitTime := ActionExpireDuration\<rparr>,
     rd_Missing = []\<rparr>"

lemma newRemoteActorData_fresh: "newRemoteActorData a = Inr (fresh_remote a)"
  by (simp add: newRemoteActorData_def NewStream_def WithMaxWait_def fresh_remote_def)

lemma fresh_engine_ok: "engine_ok (zero_Stream\<lparr>maxWaitTime := d\<rparr>) []"
  using engine_ok_zero
  by (simp add: engine_ok_def gaps_def ahead_seqs_def stream_ok_def loop_ok_def hist_ok_def)

lemma newClientService_fresh:
  "newClientService c t d = Inr \<lparr>cs_Token = cl_Token c, cs_Session = t, cs_data = d,
     cs_remoteActors = map fresh_remote (cl_Actors c), cs_state = ClientStateNew\<rparr>"
  by (simp add: newClientService_def go_map_Inr [OF newRemoteActorData_fresh])

lemma put_locals_spec:
  assumes "\<forall>a \<in> set as. pos_of (at_Story a) (at_Token a) m < length ls \<and> length (at_Name a) \<le> 255"
    and "\<forall>x \<in> set ls. length (la_Name x) \<le> 255"
  shows "\<exists>ls'. put_locals m as ls = Inr ls' \<and> length ls' = length ls \<and>
    (\<forall>x \<in> set ls'. length (la_Name x) \<le> 255)"
  using assms
proof (induction as arbitrary: ls)
  case (Cons a as)
  let ?l = "\<lparr>la_Name = at_Name a, la_State = ClientStateLocal, la_Latency = 0\<rparr> :: LatencyReportActor"
  let ?ls = "ls[pos_of (at_Story a) (at_Token a) m := ?l]"
  have "\<forall>x \<in> set ?ls. length (la_Name x) \<le> 255"
    using Cons.prems by (auto dest!: set_update_subset_insert [THEN subsetD])
  from Cons.IH [OF _ this] Cons.prems(1) show ?case by (auto simp: put_latency_def)
qed simp

text \<open>
  What keeps a validated session from panicking: no story has two actors with the same token (the
  validation only compares the tokens of one client), no index is 64 or more, and the names fit in a
  string of the wire.
\<close>

definition actors_apart_in :: "Session \<Rightarrow> bool" where
  "actors_apart_in s \<longleftrightarrow> (\<forall>y \<in> set (ss_Stories s). distinct (map at_Token (story_actors (st_Token y) s))) \<and>
     (\<forall>a \<in> set (session_actors s). unat (at_Index a) < 64 \<and> length (at_Name a) \<le> 255)"

lemma story_key_covered:
  assumes "session_valid s" and "a \<in> set (session_actors s)"
  obtains y where "y \<in> set (ss_Stories s)" "st_Token y = at_Story a" "a \<in> set (story_actors (st_Token y) s)"
proof -
  have "claim a \<in> set (session_claims s)" using assms(2) by (simp add: session_claims_actors)
  then have "at_Story a \<in> set (map st_Token (ss_Stories s))"
    using assms(1) by (auto simp: session_valid_def claims_ok_def claim_def)
  then show ?thesis using that assms(2) by (auto simp: story_actors_def)
qed

lemma latency_data_up:
  assumes v: "session_valid s" and a: "actors_apart_in s"
  shows "\<exists>l. makeLatencyData s = Inr (Inr l) \<and> latency_fits l \<and> (\<forall>a \<in> set (session_actors s). actor_placed l a)"
proof -
  have small: "\<forall>c \<in> set (session_claims s). unat (snd c) < 64"
    using a by (auto simp: session_claims_actors claim_def actors_apart_in_def)
  have tok: "map sa_Token (story_infos t s) = map at_Token (story_actors t s)" for t
    by (rule infos_actors) simp_all
  have sa: "\<exists>as. StoryActors (st_Token y) s = Inr as \<and> mset (map sa_Token as) = mset (map at_Token (story_actors (st_Token y) s))"
    if "y \<in> set (ss_Stories s)" for y
    using StoryActors_spec [OF v small that] unfolding tok [symmetric] by (metis mset_map)
  have "\<forall>y \<in> set (ss_Stories s). \<exists>as. StoryActors (st_Token y) s = Inr as \<and> distinct (map sa_Token as)"
    using sa a mset_eq_imp_distinct_iff by (metis actors_apart_in_def)
  moreover have "positions_ok ([], 0)" by (simp add: positions_ok_def)
  moreover have "distinct (map st_Token (ss_Stories s))" using v by (simp add: session_valid_def tokens_ok_def)
  ultimately obtain m c where m: "story_positions s (ss_Stories s) ([], 0) = Inr (m, c)" "positions_ok (m, c)"
    "set (map fst m) = {(st_Token y, sa_Token a) | y a as. y \<in> set (ss_Stories s) \<and>
       StoryActors (st_Token y) s = Inr as \<and> a \<in> set as}"
    using story_positions_spec [of "([], 0)" "ss_Stories s" s] by fastforce
  have placed: "pos_of (at_Story a) (at_Token a) m < length m" if mem: "a \<in> set (session_actors s)" for a
  proof -
    obtain y where y: "y \<in> set (ss_Stories s)" "st_Token y = at_Story a" "a \<in> set (story_actors (st_Token y) s)"
      by (rule story_key_covered [OF v mem])
    obtain as where as: "StoryActors (st_Token y) s = Inr as"
        "mset (map sa_Token as) = mset (map at_Token (story_actors (st_Token y) s))"
      using sa [OF y(1)] by blast
    have "at_Token a \<in> set (map sa_Token as)" unfolding mset_eq_setD [OF as(2)] using y(3) by simp
    then have "(at_Story a, at_Token a) \<in> set (map fst m)" unfolding m(3) using y(1) as(1) by (auto simp: y(2) [symmetric])
    then obtain p where "map_of m (at_Story a, at_Token a) = Some p"
      using map_of_eq_None_iff [of m "(at_Story a, at_Token a)"] by (cases "map_of m (at_Story a, at_Token a)") auto
    then show ?thesis using m(2) by (auto simp: pos_of_def positions_ok_def dest!: map_of_SomeD)
  qed
  let ?ls = "replicate (length m) \<lparr>la_Name = [], la_State = 0, la_Latency = 0\<rparr> :: LatencyReportActor list"
  have names: "\<forall>a \<in> set (session_actors s). length (at_Name a) \<le> 255" using a by (simp add: actors_apart_in_def)
  have "\<forall>a \<in> set (ss_LocalActors s). pos_of (at_Story a) (at_Token a) m < length ?ls \<and> length (at_Name a) \<le> 255"
    using placed names by (auto simp: session_actors_def)
  then obtain ls where ls: "put_locals m (ss_LocalActors s) ?ls = Inr ls" "length ls = length ?ls"
      "\<forall>x \<in> set ls. length (la_Name x) \<le> 255"
    using put_locals_spec [of "ss_LocalActors s" m ?ls] by auto
  then show ?thesis
    using m(1) placed names by (auto simp: makeLatencyData_def latency_fits_def actor_placed_def)
qed

lemma session_up:
  assumes v: "Session_Validate s = None" and a: "actors_apart_in s"
  shows "\<exists>sv. newSessionService s datas ctl = Inr (Inr sv) \<and> session_ok sv \<and> sv_Token sv = ss_Token s \<and>
    map cs_Token (sv_clients sv) = map cl_Token (ss_Clients s) \<and>
    map (\<lambda>y. st_Token (sd_Story y)) (sv_stories sv) = map st_Token (ss_Stories s) \<and>
    sv_state sv = SessionStateNew"
proof -
  have valid: "session_valid s" using v by (simp add: Session_Validate_spec)
  obtain l where l: "makeLatencyData s = Inr (Inr l)" "latency_fits l" "\<forall>a \<in> set (session_actors s). actor_placed l a"
    using latency_data_up [OF valid a] by blast
  let ?c = "\<lambda>c. \<lparr>cs_Token = cl_Token c, cs_Session = ss_Token s, cs_data = client_data (cl_Token c) datas,
     cs_remoteActors = map fresh_remote (cl_Actors c), cs_state = ClientStateNew\<rparr>"
  have c: "go_map (\<lambda>c. newClientService c (ss_Token s) (client_data (cl_Token c) datas)) (ss_Clients s) =
      Inr (map ?c (ss_Clients s))"
    by (rule go_map_Inr) (rule newClientService_fresh)
  have r: "remote_ok l (fresh_remote r)" if "c \<in> set (ss_Clients s)" "r \<in> set (cl_Actors c)" for c r
    using l(3) that fresh_engine_ok by (auto simp: remote_ok_def fresh_remote_def session_actors_def)
  show ?thesis
    using l(2) r new_story_ok
    by (auto simp: newSessionService_def v c l(1) session_ok_def newStoryData_def)
qed

section \<open>Ticks\<close>

text \<open>How bad a client's state is for the session.\<close>

definition severity :: "ClientState \<Rightarrow> SessionState" where
  "severity st =
     (if st = ClientStateLagging then SessionStateDegraded
      else if st = ClientStateLost then SessionStateNotInSync
      else SessionStateActive)"

lemma level_severity: "SessionStateActive \<le> new \<Longrightarrow> new \<le> SessionStateNotInSync \<Longrightarrow> level st new = max new (severity st)"
  by (cases new) (auto simp: level_def severity_def max_def state_order)

lemma severity_range: "SessionStateActive \<le> severity st" "severity st \<le> SessionStateNotInSync"
  by (auto simp: severity_def state_order)

lemma levels_max:
  "SessionStateActive \<le> new \<Longrightarrow> new \<le> SessionStateNotInSync \<Longrightarrow>
   foldl (\<lambda>n st. level st n) new sts = Max (insert new (set (map severity sts)))"
proof (induction sts arbitrary: new)
  case (Cons st sts)
  let ?n = "max new (severity st)"
  have "?n \<le> SessionStateNotInSync" "SessionStateActive \<le> ?n"
    using Cons.prems severity_range [of st] by (auto simp: max_def)
  then have "foldl (\<lambda>n st. level st n) ?n sts = Max (insert ?n (set (map severity sts)))"
    by (intro Cons.IH)
  moreover have "Max (insert ?n (set (map severity sts))) = Max (insert new (insert (severity st) (set (map severity sts))))"
    by (cases "sts = []") (simp_all add: max.assoc)
  ultimately show ?case using Cons.prems by (simp add: level_severity)
qed simp

lemma UpdateClientActor_up:
  assumes "latency_fits l" and "actor_placed l a"
  shows "\<exists>l'. UpdateClientActor a p l = Inr l' \<and> latency_fits l' \<and> lt_actorPosMap l' = lt_actorPosMap l"
proof -
  let ?k = "pos_of (at_Story a) (at_Token a) (lt_actorPosMap l)"
  let ?x = "\<lparr>la_Name = at_Name a, la_State = cp_State p, la_Latency = cp_Latency p\<rparr> :: LatencyReportActor"
  have "\<forall>x \<in> set ((lt_latencies l)[?k := ?x]). length (la_Name x) \<le> 255"
    using assms by (auto simp: latency_fits_def actor_placed_def dest!: set_update_subset_insert [THEN subsetD])
  then show ?thesis
    using assms by (auto simp: UpdateClientActor_def put_latency_def latency_fits_def actor_placed_def)
qed

lemma update_actors_up:
  assumes "latency_fits l" and "\<forall>r \<in> set rs. actor_placed l (ca_Actor (rd_Actor r))"
  shows "\<exists>l'. update_actors rs p l = Inr l' \<and> latency_fits l' \<and> lt_actorPosMap l' = lt_actorPosMap l"
  using assms
proof (induction rs arbitrary: l)
  case (Cons r rs)
  obtain l1 where l1: "UpdateClientActor (ca_Actor (rd_Actor r)) p l = Inr l1" "latency_fits l1"
      "lt_actorPosMap l1 = lt_actorPosMap l"
    using UpdateClientActor_up [of l "ca_Actor (rd_Actor r)" p] Cons.prems by auto
  have "\<forall>r \<in> set rs. actor_placed l1 (ca_Actor (rd_Actor r))"
    using Cons.prems(2) l1(3) by (simp add: actor_placed_def)
  from Cons.IH [OF l1(2) this] l1 show ?case by auto
qed simp

abbreviation clients_placed :: "latencyData \<Rightarrow> clientService list \<Rightarrow> bool" where
  "clients_placed l cs \<equiv> \<forall>c \<in> set cs. \<forall>r \<in> set (cs_remoteActors c). actor_placed l (ca_Actor (rd_Actor r))"

lemma GetState_frame [simp]:
  "cs_remoteActors (snd (GetState now c)) = cs_remoteActors c" "cs_Session (snd (GetState now c)) = cs_Session c"
  "cs_Token (snd (GetState now c)) = cs_Token c" "cs_data (snd (GetState now c)) = cs_data c"
  by (simp_all add: GetState_def Let_def)

definition seen_state :: "time \<Rightarrow> clientService \<Rightarrow> ClientState" where
  "seen_state now c = cp_State (fst (GetState now c))"

lemma update_clients_up:
  assumes "latency_fits l" and "clients_placed l cs"
  shows "\<exists>l'. update_clients now cs l new = Inr (map (\<lambda>c. snd (GetState now c)) cs, l',
      foldl (\<lambda>n st. level st n) new (map (seen_state now) cs)) \<and>
    latency_fits l' \<and> lt_actorPosMap l' = lt_actorPosMap l"
  using assms
proof (induction cs arbitrary: l new)
  case (Cons c cs)
  define p where "p = fst (GetState now c)"
  have p: "cp_State p = seen_state now c" "GetState now c = (p, snd (GetState now c))"
    by (simp_all add: seen_state_def p_def)
  obtain l1 where l1: "update_actors (cs_remoteActors c) p l = Inr l1" "latency_fits l1"
      "lt_actorPosMap l1 = lt_actorPosMap l"
    using update_actors_up [of l "cs_remoteActors c" p] Cons.prems by auto
  have "clients_placed l1 cs" using Cons.prems(2) l1(3) by (simp add: actor_placed_def)
  from Cons.IH [OF l1(2) this, of "level (seen_state now c) new"]
  obtain l2 where l2: "update_clients now cs l1 (level (seen_state now c) new) =
      Inr (map (\<lambda>c. snd (GetState now c)) cs, l2,
        foldl (\<lambda>n st. level st n) (level (seen_state now c) new) (map (seen_state now) cs))"
      "latency_fits l2" "lt_actorPosMap l2 = lt_actorPosMap l1"
    by blast
  have "update_clients now (c # cs) l new = Inr (snd (GetState now c) # map (\<lambda>c. snd (GetState now c)) cs, l2,
        foldl (\<lambda>n st. level st n) (level (seen_state now c) new) (map (seen_state now) cs))"
    by (simp add: Let_def case_prod_unfold p_def [symmetric] l1(1) l2(1) p(1))
  then show ?case using l1 l2 by simp
qed simp

lemma put_each_Inr:
  assumes "\<And>x s. x \<in> set xs \<Longrightarrow> \<exists>s'. f x s = Inr s'"
  shows "\<exists>s'. put_each f xs s = Inr s'"
  using assms
proof (induction xs arbitrary: s)
  case (Cons x xs)
  obtain s1 where "f x s = Inr s1" using Cons.prems [of x s] by auto
  with Cons.IH [of s1] Cons.prems show ?case by auto
qed simp

lemma report_written:
  assumes "\<forall>x \<in> set (lr_Latencies r). length (la_Name x) \<le> 255"
  shows "\<exists>a. StoryServer_Put (MLatencyReport r) [] = Inr a"
proof -
  have "\<exists>s'. put_Latency x s = Inr s'" if "x \<in> set (lr_Latencies r)" for x s
    using assms that by (force simp: put_Latency_def PutStr_def)
  then show ?thesis using put_each_Inr [of "lr_Latencies r" put_Latency] by (simp add: LatencyReport_Put_def)
qed

text \<open>A tick of a running session, with what it leaves.\<close>

definition running :: "sessionService \<Rightarrow> bool" where
  "running s \<longleftrightarrow> SessionStateActive \<le> sv_state s \<and> sv_state s \<le> SessionStateNotInSync"

lemma tick_up:
  assumes ok: "session_ok s" and run: "running s"
  shows "\<exists>ps s'. session_tick now s = Inr (control_call (sv_controller s) (sv_state s) (sv_state s'), ps, s') \<and>
    session_ok s' \<and> sv_controller s' = sv_controller s \<and> sv_Token s' = sv_Token s \<and>
    sv_stories s' = sv_stories s \<and> sv_clients s' = map (\<lambda>c. snd (GetState now c)) (sv_clients s) \<and>
    sv_state s' = Max (insert SessionStateActive (set (map severity (map (seen_state now) (sv_clients s)))))"
proof -
  have st: "sv_state s \<noteq> SessionStateNew" "sv_state s \<noteq> SessionStateDone"
    using run by (auto simp: running_def state_order)
  have f: "latency_fits (sv_latencyData s)" and pl: "clients_placed (sv_latencyData s) (sv_clients s)"
    using ok by (auto simp: session_ok_def remote_ok_def)
  obtain l' where l': "update_clients now (sv_clients s) (sv_latencyData s) SessionStateActive =
      Inr (map (\<lambda>c. snd (GetState now c)) (sv_clients s), l',
        foldl (\<lambda>n st. level st n) SessionStateActive (map (seen_state now) (sv_clients s)))"
      "latency_fits l'" "lt_actorPosMap l' = lt_actorPosMap (sv_latencyData s)"
    using update_clients_up [OF f pl] by blast
  define new where "new = foldl (\<lambda>n st. level st n) SessionStateActive (map (seen_state now) (sv_clients s))"
  have new: "new = Max (insert SessionStateActive (set (map severity (map (seen_state now) (sv_clients s)))))"
    unfolding new_def by (rule levels_max) (simp_all add: state_order)
  define s' where "s' = s\<lparr>sv_clients := map (\<lambda>c. snd (GetState now c)) (sv_clients s), sv_latencyData := l',
      sv_state := new\<rparr>"
  define r where "r = \<lparr>lr_Header = \<lparr>shs_SessionToken = sv_Token s\<rparr>, lr_Latencies = lt_latencies l'\<rparr>"
  obtain a where a: "StoryServer_Put (MLatencyReport r) [] = Inr a"
    using report_written [of r] l'(2) by (auto simp: r_def latency_fits_def)
  have "session_updateState now s = Inr (Some r, control_call (sv_controller s) (sv_state s) new, s')"
    using st by (simp add: session_updateState_def l'(1) r_def s'_def new_def)
  moreover have "session_ok s'"
    using ok l'(2,3) by (auto simp: session_ok_def remote_ok_def actor_placed_def s'_def)
  ultimately show ?thesis
    using new by (auto simp: session_tick_def send_all_reachable [OF a] s'_def)
qed

section \<open>Runs of a session\<close>

datatype session_event =
    Tick time | Heard nat ClientData | Acted nat time ActionPack

fun handle_event :: "session_event \<Rightarrow> sessionService \<Rightarrow> (control list \<times> sessionService) go" where
  "handle_event (Tick now) s = go_bind (session_tick now s) (\<lambda>(calls, _, s'). Inr (calls, s'))"
| "handle_event (Heard k d) s =
     Inr ([], s\<lparr>sv_clients := (sv_clients s)[k := UpdateState d (sv_clients s ! k)]\<rparr>)"
| "handle_event (Acted k now m) s =
     go_bind (HandleActionPack now m (sv_clients s ! k)) (\<lambda>(_, _, c').
       Inr ([], s\<lparr>sv_clients := (sv_clients s)[k := c']\<rparr>))"

fun run_session :: "session_event list \<Rightarrow> sessionService \<Rightarrow> (control list \<times> sessionService) go" where
  "run_session [] s = Inr ([], s)"
| "run_session (e # es) s =
     go_bind (handle_event e s) (\<lambda>(calls, s1).
       go_bind (run_session es s1) (\<lambda>(calls', s2). Inr (calls @ calls', s2)))"

fun event_ok :: "nat \<Rightarrow> session_event \<Rightarrow> bool" where
  "event_ok n (Tick now) = True"
| "event_ok n (Heard k d) = (k < n)"
| "event_ok n (Acted k now m) = (k < n \<and> feed_ok (ap_Actions m))"

lemma session_ok_client:
  assumes "session_ok s" and "k < length (sv_clients s)" and "cs_Session c = sv_Token s"
    and "\<forall>r \<in> set (cs_remoteActors c). remote_ok (sv_latencyData s) r"
  shows "session_ok (s\<lparr>sv_clients := (sv_clients s)[k := c]\<rparr>)"
  using assms by (auto simp: session_ok_def dest!: set_update_subset_insert [THEN subsetD])

lemma HandleActionPack_up:
  assumes "\<forall>r \<in> set (cs_remoteActors c). remote_ok l r" and "feed_ok (ap_Actions m)"
  shows "\<exists>r out c'. HandleActionPack now m c = Inr (r, out, c') \<and> cs_Session c' = cs_Session c \<and>
    (\<forall>r \<in> set (cs_remoteActors c'). remote_ok l r)"
proof (cases "first_idx (\<lambda>a. at_Token (ca_Actor (rd_Actor a)) = ap_ActorToken m) (cs_remoteActors c)")
  case (Some i)
  let ?a = "cs_remoteActors c ! i"
  have i: "i < length (cs_remoteActors c)" using first_idx_Some [OF Some] by simp
  then have a: "remote_ok l ?a" using assms(1) by simp
  obtain st mi out nw where e: "engine (ap_Actions m) (rd_Stream ?a) (Some (rd_Missing ?a)) now = Inr (st, Some mi, out, nw)"
      "engine_ok st mi"
    using engine_spec [of "rd_Stream ?a" "rd_Missing ?a" "ap_Actions m" now] a assms(2) by (auto simp: remote_ok_def)
  have "\<forall>r \<in> set ((cs_remoteActors c)[i := ?a\<lparr>rd_Stream := st, rd_Missing := mi\<rparr>]). remote_ok l r"
    using assms(1) a e(2) by (auto simp: remote_ok_def dest!: set_update_subset_insert [THEN subsetD])
  then show ?thesis by (auto simp: HandleActionPack_def Some e(1) Let_def)
qed (use assms in \<open>simp add: HandleActionPack_def\<close>)

lemma event_up:
  assumes ok: "session_ok s" and run: "running s" and e: "event_ok (length (sv_clients s)) e"
  shows "\<exists>s'. handle_event e s = Inr (control_call (sv_controller s) (sv_state s) (sv_state s'), s') \<and>
    session_ok s' \<and> running s' \<and> sv_controller s' = sv_controller s \<and> length (sv_clients s') = length (sv_clients s)"
proof (cases e)
  case (Tick now)
  let ?M = "set (map severity (map (seen_state now) (sv_clients s)))"
  have "SessionStateActive \<le> Max (insert SessionStateActive ?M)" by simp
  moreover have "Max (insert SessionStateActive ?M) \<le> SessionStateNotInSync"
    using severity_range(2) by (auto simp: less_eq_SessionState_def [of SessionStateActive] state_rank_def)
  ultimately show ?thesis using tick_up [OF ok run, of now] Tick by (auto simp: running_def)
next
  case (Heard k d)
  have "session_ok (s\<lparr>sv_clients := (sv_clients s)[k := UpdateState d (sv_clients s ! k)]\<rparr>)"
    by (rule session_ok_client [OF ok]) (use ok e Heard in \<open>auto simp: session_ok_def UpdateState_def\<close>)
  then show ?thesis using run Heard by (simp add: running_def control_call_def)
next
  case (Acted k now m)
  have c: "cs_Session (sv_clients s ! k) = sv_Token s"
    "\<forall>r \<in> set (cs_remoteActors (sv_clients s ! k)). remote_ok (sv_latencyData s) r"
    using ok e Acted by (auto simp: session_ok_def)
  obtain r out c' where h: "HandleActionPack now m (sv_clients s ! k) = Inr (r, out, c')"
      "cs_Session c' = sv_Token s" "\<forall>r \<in> set (cs_remoteActors c'). remote_ok (sv_latencyData s) r"
    using HandleActionPack_up [OF c(2), of m now] e Acted c(1) by auto
  have "session_ok (s\<lparr>sv_clients := (sv_clients s)[k := c']\<rparr>)"
    by (rule session_ok_client [OF ok]) (use e Acted h in auto)
  then show ?thesis using run Acted h(1) by (simp add: running_def control_call_def)
qed

fun alternating :: "bool \<Rightarrow> control list \<Rightarrow> bool" where
  "alternating suspended [] = True"
| "alternating suspended (c # cs) =
     (c = (if suspended then Resume else Suspend) \<and> alternating (\<not> suspended) cs)"

lemma alternating_append:
  "alternating b (xs @ ys) = (alternating b xs \<and> alternating (if even (length xs) then b else \<not> b) ys)"
  by (induction xs arbitrary: b) auto

lemma control_call_cases:
  "alternating (old = SessionStateNotInSync) (control_call True old new)"
  "(if even (length (control_call True old new)) then old = SessionStateNotInSync
    else old \<noteq> SessionStateNotInSync) = (new = SessionStateNotInSync)"
  by (auto simp: control_call_def)

lemma run_session_up:
  assumes "session_ok s" and "running s" and "\<forall>e \<in> set es. event_ok (length (sv_clients s)) e"
  shows "\<exists>calls s'. run_session es s = Inr (calls, s') \<and> session_ok s' \<and> running s' \<and>
    (sv_controller s \<longrightarrow> alternating (sv_state s = SessionStateNotInSync) calls \<and>
       (if even (length calls) then sv_state s = SessionStateNotInSync else sv_state s \<noteq> SessionStateNotInSync) =
       (sv_state s' = SessionStateNotInSync)) \<and> (\<not> sv_controller s \<longrightarrow> calls = [])"
  using assms
proof (induction es arbitrary: s)
  case (Cons e es)
  let ?N = SessionStateNotInSync
  obtain s1 where s1: "handle_event e s = Inr (control_call (sv_controller s) (sv_state s) (sv_state s1), s1)"
      "session_ok s1" "running s1" "sv_controller s1 = sv_controller s" "length (sv_clients s1) = length (sv_clients s)"
    using event_up [OF Cons.prems(1,2)] Cons.prems(3) by auto
  have "\<forall>e \<in> set es. event_ok (length (sv_clients s1)) e" using Cons.prems(3) s1(5) by simp
  from Cons.IH [OF s1(2,3) this]
  obtain calls s2 where s2: "run_session es s1 = Inr (calls, s2)" "session_ok s2" "running s2"
      "sv_controller s \<longrightarrow> alternating (sv_state s1 = ?N) calls \<and>
       (if even (length calls) then sv_state s1 = ?N else sv_state s1 \<noteq> ?N) = (sv_state s2 = ?N)"
      "\<not> sv_controller s \<longrightarrow> calls = []"
    unfolding s1(4) by blast
  let ?c = "control_call (sv_controller s) (sv_state s) (sv_state s1)"
  have run: "run_session (e # es) s = Inr (?c @ calls, s2)" by (simp add: s1(1) s2(1))
  show ?case
  proof (cases "sv_controller s")
    case True
    have "alternating (sv_state s = ?N) (?c @ calls)"
      using s2(4) True control_call_cases [of "sv_state s" "sv_state s1"] by (simp add: alternating_append)
    moreover have "(if even (length (?c @ calls)) then sv_state s = ?N else sv_state s \<noteq> ?N) = (sv_state s2 = ?N)"
      using s2(4) True control_call_cases(2) [of "sv_state s" "sv_state s1"] by (auto split: if_splits)
    ultimately show ?thesis using True run s2(2,3) by blast
  next
    case False
    then show ?thesis using run s2 by (simp add: control_call_def)
  qed
qed simp

section \<open>Properties\<close>


text \<open>
  C30. The game is suspended and resumed in turn, whatever happens in the session: the first call is
  \<open>Suspend\<close> when the session was in sync, no two equal calls follow each other, and the last call tells
  whether the session is in sync now.
\<close>

theorem controller_alternates:
  assumes "session_ok s" and "running s" and "sv_controller s"
    and "\<forall>e \<in> set es. event_ok (length (sv_clients s)) e"
  shows "\<exists>calls s'. run_session es s = Inr (calls, s') \<and>
    alternating (sv_state s = SessionStateNotInSync) calls \<and>
    (calls \<noteq> [] \<longrightarrow> (last calls = Suspend \<longleftrightarrow> sv_state s' = SessionStateNotInSync))"
proof -
  obtain calls s' where r: "run_session es s = Inr (calls, s')" "alternating (sv_state s = SessionStateNotInSync) calls"
     "(if even (length calls) then sv_state s = SessionStateNotInSync else sv_state s \<noteq> SessionStateNotInSync) =
       (sv_state s' = SessionStateNotInSync)"
    using run_session_up [OF assms(1,2,4)] assms(3) by blast
  have "last cs = Suspend \<longleftrightarrow> (if even (length cs) then b else \<not> b)" if "alternating b cs" "cs \<noteq> []" for b cs
    using that
  proof (induction cs arbitrary: b)
    case (Cons c cs)
    have "alternating (\<not> b) cs" "c = (if b then Resume else Suspend)" using Cons.prems(1) by simp_all
    then show ?case using Cons.IH [of "\<not> b"] by (cases "cs = []") (cases b; simp)+
  qed simp
  then show ?thesis using r by blast
qed

text \<open>
  A tick sets the session's state to the worst its clients are in: lost when one has been silent for
  more than three seconds, degraded when one is lagging; a client nobody has heard of yet does not
  count. The game is suspended or resumed exactly when the session falls out of sync or is back.
\<close>

theorem tick_worst_client:
  assumes "session_ok s" and "running s"
  shows "\<exists>ps s'. session_tick now s = Inr (control_call (sv_controller s) (sv_state s) (sv_state s'), ps, s') \<and>
    sv_state s' = Max (insert SessionStateActive (set (map severity (map (seen_state now) (sv_clients s))))) \<and>
    (\<forall>c \<in> set (sv_clients s). cd_LastMsgReceived (cs_data c) \<noteq> 0 \<and>
       time_Sub now (cd_LastMsgReceived (cs_data c)) > 3 * ns_Second \<longrightarrow> sv_state s' = SessionStateNotInSync)"
proof -
  obtain ps s' where t: "session_tick now s = Inr (control_call (sv_controller s) (sv_state s) (sv_state s'), ps, s')"
      "sv_state s' = Max (insert SessionStateActive (set (map severity (map (seen_state now) (sv_clients s)))))"
    using tick_up [OF assms, of now] by blast
  have "sv_state s' = SessionStateNotInSync"
    if c: "c \<in> set (sv_clients s)" "cd_LastMsgReceived (cs_data c) \<noteq> 0"
      "time_Sub now (cd_LastMsgReceived (cs_data c)) > 3 * ns_Second" for c
  proof -
    have "seen_state now c = ClientStateLost"
      using c(2,3) by (simp add: seen_state_def GetState_def Let_def time_IsZero_def)
    then have "SessionStateNotInSync \<in> set (map severity (map (seen_state now) (sv_clients s)))"
      using c(1) by (force simp: severity_def ClientStateLost_def ClientStateLagging_def)
    then have "SessionStateNotInSync \<le> sv_state s'" unfolding t(2) by (intro Max_ge) auto
    moreover have "sv_state s' \<le> SessionStateNotInSync"
      unfolding t(2) using severity_range(2)
      by (auto simp: less_eq_SessionState_def [of SessionStateActive] state_rank_def)
    ultimately show ?thesis by (rule antisym [rotated])
  qed
  then show ?thesis using t by blast
qed

definition small_session :: sessionService where
  "small_session =
     \<lparr>sv_Token = 1,
      sv_clients = [\<lparr>cs_Token = 2, cs_Session = 1,
        cs_data = \<lparr>cd_LastMsgReceived = 1, cd_Address = zero_UDPAddr, cd_Latency = 0\<rparr>,
        cs_remoteActors = [], cs_state = ClientStateGood\<rparr>],
      sv_stories = [], sv_localActors = [], sv_latencyData = \<lparr>lt_latencies = [], lt_actorPosMap = []\<rparr>,
      sv_controller = True, sv_state = SessionStateActive\<rparr>"

lemma small_session_ok: "session_ok small_session" "running small_session" "sv_controller small_session"
  by (simp_all add: small_session_def session_ok_def latency_fits_def running_def state_order)

theorem controller_alternates_witness:
  "\<exists>s'. run_session [Tick 5000000000, Heard 0 \<lparr>cd_LastMsgReceived = 6000000000, cd_Address = zero_UDPAddr,
       cd_Latency = 0\<rparr>, Tick 6000000001] small_session = Inr ([Suspend, Resume], s') \<and>
     alternating False [Suspend, Resume] \<and> sv_state s' \<noteq> SessionStateNotInSync"
proof -
  let ?es = "[Tick 5000000000, Heard 0 \<lparr>cd_LastMsgReceived = 6000000000, cd_Address = zero_UDPAddr,
       cd_Latency = 0\<rparr>, Tick 6000000001]"
  have "(case run_session ?es small_session of Inl _ \<Rightarrow> False | Inr (calls, _) \<Rightarrow> calls = [Suspend, Resume])"
    by code_simp
  moreover have "\<forall>e \<in> set ?es. event_ok (length (sv_clients small_session)) e" by (simp add: small_session_def)
  ultimately show ?thesis
    using controller_alternates [OF small_session_ok, of ?es] by (auto simp: small_session_def)
qed

theorem tick_worst_client_witness:
  "\<exists>ps s'. session_tick 5000000000 small_session = Inr ([Suspend], ps, s') \<and> sv_state s' = SessionStateNotInSync"
  using tick_worst_client [OF small_session_ok(1,2), of 5000000000]
  by (auto simp: small_session_def time_Sub_def ns_Second_def control_call_def)

definition pair_session :: Session where
  "pair_session =
     \<lparr>ss_Token = 1, ss_Name = [], ss_Def = [],
      ss_LocalActors = [\<lparr>at_Token = 3, at_Name = [66], at_Config = None, at_Story = 5, at_Index = 0\<rparr>],
      ss_Clients = [\<lparr>cl_Token = 9, cl_Actors = [\<lparr>ca_Actor =
        \<lparr>at_Token = 7, at_Name = [65], at_Config = Some [], at_Story = 5, at_Index = 1\<rparr>, ca_Channel = Some 0\<rparr>]\<rparr>],
      ss_Stories = [\<lparr>st_Token = 5, st_Channel = Some 1\<rparr>]\<rparr>"


definition twin_session :: Session where
  "twin_session =
     \<lparr>ss_Token = 1, ss_Name = [], ss_Def = [],
      ss_LocalActors = [\<lparr>at_Token = 3, at_Name = [], at_Config = None, at_Story = 5, at_Index = 0\<rparr>],
      ss_Clients = [\<lparr>cl_Token = 9, cl_Actors = [\<lparr>ca_Actor =
        \<lparr>at_Token = 3, at_Name = [], at_Config = Some [], at_Story = 5, at_Index = 1\<rparr>, ca_Channel = Some 0\<rparr>]\<rparr>],
      ss_Stories = [\<lparr>st_Token = 5, st_Channel = Some 1\<rparr>]\<rparr>"


end
