(* ===== verification/Servers.thy ===== *)
theory Servers
  imports SessionRuns
begin

text \<open>
  \<open>udpstar/server/server.go\<close>: the server, which owns the running sessions and lobbies, gives every
  incoming packet to the one it is for, and starts and ends them. The maps of sessions and lobbies hold
  the services themselves; the map of clients, which holds pointers to the client services inside the
  sessions, is a map to the session's token and the client's index. A packet's handling, with the
  turns of the goroutines that it causes, is one operation; the mutex and the contexts are left out.
  A goroutine that has been told to stop removes its entry from the map later: \<open>sr_stopping\<close> holds
  the tokens of the lobbies whose goroutines have not done so yet.
\<close>

section \<open>State\<close>

record server =
  sr_broadcastAddr :: UDPAddr
  sr_clientMap :: "(token \<times> (token \<times> nat)) list"
  sr_sessionMap :: "(token \<times> sessionService) list"
  sr_lobbyMap :: "(token \<times> lobbyService) list"
  sr_stopping :: "token list"

definition NewServer :: "UDPAddr \<Rightarrow> server" where
  "NewServer addr = \<lparr>sr_broadcastAddr = addr, sr_clientMap = [], sr_sessionMap = [], sr_lobbyMap = [],
     sr_stopping = []\<rparr>"

definition ErrDuplicateSession :: string where
  "ErrDuplicateSession = ''duplicate session''"

definition ErrDuplicateClient :: string where
  "ErrDuplicateClient = ''duplicate client''"

definition ErrDuplicateLobby :: string where
  "ErrDuplicateLobby = ''duplicate lobby''"

section \<open>Sessions\<close>

definition session_at :: "server \<Rightarrow> token \<Rightarrow> sessionService option" where
  "session_at s t = map_of (sr_sessionMap s) t"

definition lobby_at :: "server \<Rightarrow> token \<Rightarrow> lobbyService option" where
  "lobby_at s t = map_of (sr_lobbyMap s) t"

definition client_at :: "server \<Rightarrow> token \<Rightarrow> (token \<times> nat) option" where
  "client_at s t = map_of (sr_clientMap s) t"

definition put_session :: "token \<Rightarrow> sessionService \<Rightarrow> server \<Rightarrow> server" where
  "put_session t v s = s\<lparr>sr_sessionMap := AList.update t v (sr_sessionMap s)\<rparr>"

definition put_lobby :: "token \<Rightarrow> lobbyService \<Rightarrow> server \<Rightarrow> server" where
  "put_lobby t v s = s\<lparr>sr_lobbyMap := AList.update t v (sr_lobbyMap s)\<rparr>"

definition add_clients :: "token \<Rightarrow> Client list \<Rightarrow> (token \<times> (token \<times> nat)) list
    \<Rightarrow> (token \<times> (token \<times> nat)) list" where
  "add_clients session cs m =
     foldl (\<lambda>m (i, c). AList.update (cl_Token c) (session, i) m) m (enumerate 0 cs)"

text \<open>An error or the server, inside a panic of \<open>newSessionService\<close>.\<close>

definition startSession :: "Session \<Rightarrow> (token \<times> ClientData) list \<Rightarrow> bool \<Rightarrow> server
    \<Rightarrow> (string option \<times> server) go" where
  "startSession session datas controller s =
     (if \<exists>c \<in> set (ss_Clients session). client_at s (cl_Token c) \<noteq> None then Inr (Some ErrDuplicateClient, s)
      else if session_at s (ss_Token session) \<noteq> None then Inr (Some ErrDuplicateSession, s)
      else go_bind (newSessionService session datas controller) (\<lambda>r.
        case r of
          Inl e \<Rightarrow> Inr (Some e, s)
        | Inr sv \<Rightarrow>
            let started = snd (session_Start sv)
            in Inr (None, put_session (ss_Token session) started
                 (s\<lparr>sr_clientMap := add_clients (ss_Token session) (ss_Clients session) (sr_clientMap s)\<rparr>))))"

definition StartSession :: "Session \<Rightarrow> (token \<times> ClientData) list \<Rightarrow> bool \<Rightarrow> server
    \<Rightarrow> (string option \<times> server) go" where
  "StartSession session datas controller s =
     (if lobby_at s (ss_Token session) \<noteq> None then Inr (Some ErrDuplicateSession, s)
      else startSession session datas controller s)"

text \<open>The end of a session's goroutine.\<close>

definition session_ends :: "token \<Rightarrow> server \<Rightarrow> server" where
  "session_ends t s =
     (case session_at s t of
        None \<Rightarrow> s
      | Some sv \<Rightarrow>
          s\<lparr>sr_clientMap := foldl (\<lambda>m c. AList.delete (cs_Token c) m) (sr_clientMap s) (sv_clients sv),
            sr_sessionMap := AList.delete (sv_Token sv) (sr_sessionMap s)\<rparr>)"

definition Latencies :: "token \<Rightarrow> server \<Rightarrow> LatencyActor list option" where
  "Latencies t s = map_option (\<lambda>sv. lt_latencies (sv_latencyData sv)) (session_at s t)"

section \<open>Lobbies\<close>

definition startLobby :: "LobbySetup \<Rightarrow> UDPAddr \<Rightarrow> server \<Rightarrow> string option \<times> server" where
  "startLobby setup addr s =
     (if lobby_at s (lsu_Token setup) \<noteq> None then (Some ErrDuplicateLobby, s)
      else if session_at s (lsu_Token setup) \<noteq> None then (Some ErrDuplicateLobby, s)
      else case newLobbyService setup addr of
          Inl e \<Rightarrow> (Some e, s)
        | Inr l \<Rightarrow> (None, put_lobby (lsu_Token setup) l s))"

definition StartLobbyNoBroadcast :: "LobbySetup \<Rightarrow> server \<Rightarrow> string option \<times> server" where
  "StartLobbyNoBroadcast setup s = startLobby setup zero_UDPAddr s"

definition StartLobby :: "LobbySetup \<Rightarrow> server \<Rightarrow> string option \<times> server" where
  "StartLobby setup s = startLobby setup (sr_broadcastAddr s) s"

text \<open>
  \<open>FinishLobby\<close> with the commands that the lobby handles while it waits. The lobby leaves the map at
  once; its goroutine, which has been cancelled, removes the token from the map once more when it ends.
\<close>

definition Server_FinishLobby :: "time \<Rightarrow> (time \<times> command) list list \<Rightarrow> token \<Rightarrow> server
    \<Rightarrow> (string + Session \<times> (token \<times> ClientData) list) \<times> server" where
  "Server_FinishLobby now waits t s =
     (case lobby_at s t of
        None \<Rightarrow> (Inl ErrUnknownLobby, s)
      | Some l \<Rightarrow>
          (case FinishLobby now waits l of
             (Inl e, l') \<Rightarrow> (Inl e, put_lobby t l' s)
           | (Inr r, l') \<Rightarrow>
               (Inr r, s\<lparr>sr_lobbyMap := AList.delete t (sr_lobbyMap s), sr_stopping := t # sr_stopping s\<rparr>)))"

text \<open>The end of a lobby's goroutine.\<close>

definition lobby_ends :: "token \<Rightarrow> server \<Rightarrow> server" where
  "lobby_ends t s =
     s\<lparr>sr_lobbyMap := AList.delete t (sr_lobbyMap s), sr_stopping := remove1 t (sr_stopping s)\<rparr>"

definition with_lobby :: "time \<Rightarrow> token \<Rightarrow> command \<Rightarrow> server \<Rightarrow> string option \<times> server" where
  "with_lobby now t c s =
     (case lobby_at s t of
        None \<Rightarrow> (Some ErrUnknownLobby, s)
      | Some l \<Rightarrow> (None, put_lobby t (fst (turn now c l)) s))"

definition GetLobby :: "time \<Rightarrow> token \<Rightarrow> int \<Rightarrow> server \<Rightarrow> string + Lobby option" where
  "GetLobby now t version s =
     (case lobby_at s t of
        None \<Rightarrow> Inl ErrUnknownLobby
      | Some l \<Rightarrow> (case snd (turn now (GetReq version) l) of GotLobby v \<Rightarrow> Inr (Some v) | _ \<Rightarrow> Inr None))"

definition Server_JoinLocal :: "time \<Rightarrow> token \<Rightarrow> token \<Rightarrow> byte \<Rightarrow> byte \<Rightarrow> gostring \<Rightarrow> server
    \<Rightarrow> string option \<times> server" where
  "Server_JoinLocal now t actor i l n s = with_lobby now t (JoinReq actor i l n) s"

definition Server_LeaveLocal :: "time \<Rightarrow> token \<Rightarrow> token \<Rightarrow> server \<Rightarrow> string option \<times> server" where
  "Server_LeaveLocal now t actor s = with_lobby now t (LeaveReq actor) s"

definition Server_RenameLobby :: "time \<Rightarrow> token \<Rightarrow> gostring \<Rightarrow> server \<Rightarrow> string option \<times> server" where
  "Server_RenameLobby now t n s = with_lobby now t (ChangeName n) s"

definition Server_Evict :: "time \<Rightarrow> token \<Rightarrow> token \<Rightarrow> server \<Rightarrow> string option \<times> server" where
  "Server_Evict now t actor s = with_lobby now t (EvictReq actor) s"

definition Server_EvictIdx :: "time \<Rightarrow> token \<Rightarrow> byte \<Rightarrow> server \<Rightarrow> string option \<times> server" where
  "Server_EvictIdx now t i s =
     (case lobby_at s t of
        None \<Rightarrow> (Some ErrUnknownLobby, s)
      | Some l \<Rightarrow>
          if unat i \<ge> length (lb_slots l) then (None, s)
          else if ls_Availability (lb_slots l ! unat i) = SlotAvailable then (None, s)
          else with_lobby now t (EvictReq (ls_ActorToken (lb_slots l ! unat i))) s)"

section \<open>Packets\<close>

text \<open>
  What the handling of a packet leaves besides the server: the bytes to answer with, the packets that
  the services send, and the payloads put on the actors' channels.
\<close>

record reaction =
  rx_response :: "byte list option"
  rx_sent :: "(byte list \<times> UDPAddr) list"
  rx_actions :: "(channel \<times> byte list) list"

definition no_reaction :: reaction where
  "no_reaction = \<lparr>rx_response = None, rx_sent = [], rx_actions = []\<rparr>"

definition handlePingMessage :: "Ping \<Rightarrow> byte list" where
  "handlePingMessage p = Pong_Put \<lparr>po_MessageID = pi_MessageID p, po_ClientTime = pi_ClientTime p\<rparr> []"

fun story_header :: "StoryClientMessage \<Rightarrow> StoryHeaderClient" where
  "story_header (MTestClient m) = tc_Header m"
| "story_header (MActionPack m) = ap_Header m"
| "story_header (MStoryConfirm m) = sc_Header m"

fun lobby_header :: "LobbyClientMessage \<Rightarrow> LobbyHeaderClient" where
  "lobby_header (MJoin m) = jo_Header m"
| "lobby_header (MLeave m) = le_Header m"
| "lobby_header (MRequest m) = re_Header m"

definition put_client :: "token \<Rightarrow> nat \<Rightarrow> clientService \<Rightarrow> sessionService \<Rightarrow> server \<Rightarrow> server" where
  "put_client t i c sv s = put_session t (sv\<lparr>sv_clients := (sv_clients sv)[i := c]\<rparr>) s"

fun handle_client_message :: "time \<Rightarrow> StoryClientMessage \<Rightarrow> token \<Rightarrow> nat \<Rightarrow> clientService \<Rightarrow> sessionService
    \<Rightarrow> server \<Rightarrow> (reaction \<times> server) go" where
  "handle_client_message now (MTestClient m) t i c sv s = Inr (no_reaction, put_client t i c sv s)"
| "handle_client_message now (MActionPack m) t i c sv s =
     go_bind (HandleActionPack now m c) (\<lambda>(r, out, c').
       case r of
         Inl e \<Rightarrow> Inr (no_reaction, put_client t i c' sv s)
       | Inr confirm \<Rightarrow>
           go_bind (ActionConfirm_Put confirm []) (\<lambda>a.
             Inr (\<lparr>rx_response = Some a, rx_sent = [], rx_actions = out\<rparr>, put_client t i c' sv s)))"
| "handle_client_message now (MStoryConfirm m) t i c sv s =
     go_bind (HandleStoryConfirm c m sv) (\<lambda>(r, sent).
       case r of
         Inl e \<Rightarrow> Inr (no_reaction, put_client t i c sv s)
       | Inr None \<Rightarrow> Inr (no_reaction, put_client t i c sv s)
       | Inr (Some p) \<Rightarrow>
           go_bind (StoryPack_Put p []) (\<lambda>a.
             Inr (\<lparr>rx_response = Some a, rx_sent = sent, rx_actions = []\<rparr>, put_client t i c sv s)))"

definition handleStoryMessage :: "time \<Rightarrow> StoryClientMessage \<Rightarrow> UDPAddr \<Rightarrow> server \<Rightarrow> (reaction \<times> server) go" where
  "handleStoryMessage now msg addr s =
     (case client_at s (shc_ClientToken (story_header msg)) of
        None \<Rightarrow> Inr (no_reaction, s)
      | Some (t, i) \<Rightarrow>
          (case session_at s t of
             None \<Rightarrow> Inr (no_reaction, s)
           | Some sv \<Rightarrow>
               let c = UpdateState \<lparr>cd_LastMsgReceived = now, cd_Address = addr,
                     cd_Latency = StoryGetLatency (story_header msg)\<rparr> (sv_clients sv ! i)
               in handle_client_message now msg t i c sv s))"

fun setup_packets :: "answer \<Rightarrow> packet list" where
  "setup_packets (Sent ps) = ps"
| "setup_packets _ = []"

definition handleLobby :: "time \<Rightarrow> LobbyClientMessage \<Rightarrow> UDPAddr \<Rightarrow> server \<Rightarrow> (reaction \<times> server) go" where
  "handleLobby now msg addr s =
     (let t = lhc_LobbyToken (lobby_header msg)
      in case lobby_at s t of
           None \<Rightarrow> Inr (no_reaction, s)
         | Some l \<Rightarrow>
             let (l', answer) = turn now (HandleClient msg addr) l
             in go_bind (go_map (\<lambda>(m, dst). go_bind (Setup_Put m []) (\<lambda>a. Inr (a, dst))) (setup_packets answer))
                  (\<lambda>sent. Inr (no_reaction\<lparr>rx_sent := sent\<rparr>, put_lobby t l' s)))"

definition HandleIncomingMessages :: "time \<Rightarrow> byte list \<Rightarrow> UDPAddr \<Rightarrow> server \<Rightarrow> (reaction \<times> server) go" where
  "HandleIncomingMessages now data addr s =
     (if length data = 0 then Inr (no_reaction, s)
      else
        let (ping, ok) = ParsePing data
        in if ok then Inr (no_reaction\<lparr>rx_response := Some (handlePingMessage ping)\<rparr>, s)
           else go_bind (StoryParseClient data) (\<lambda>story.
             case story of
               Some msg \<Rightarrow> handleStoryMessage now msg addr s
             | None \<Rightarrow>
                 (case LobbyParseClient data of
                    Some msg \<Rightarrow> handleLobby now msg addr s
                  | None \<Rightarrow> Inr (no_reaction, s))))"


section \<open>The maps of a server\<close>

lemma go_bind_Inr_iff: "go_bind r f = Inr y \<longleftrightarrow> (\<exists>x. r = Inr x \<and> f x = Inr y)"
  by (cases r) auto

lemma at_simps [simp]:
  "session_at (put_session t v s) u = (if u = t then Some v else session_at s u)"
  "lobby_at (put_session t v s) u = lobby_at s u"
  "client_at (put_session t v s) u = client_at s u"
  "session_at (put_lobby t l s) u = session_at s u"
  "lobby_at (put_lobby t l s) u = (if u = t then Some l else lobby_at s u)"
  "client_at (put_lobby t l s) u = client_at s u"
  by (auto simp: session_at_def lobby_at_def client_at_def put_session_def put_lobby_def update_conv')

lemma lobby_ends_at [simp]:
  "session_at (lobby_ends t s) u = session_at s u" "client_at (lobby_ends t s) u = client_at s u"
  "lobby_at (lobby_ends t s) u = (if u = t then None else lobby_at s u)"
  by (auto simp: session_at_def lobby_at_def client_at_def lobby_ends_def delete_conv')

lemma add_clients_at:
  assumes "distinct (map cl_Token cs)"
  shows "(k < length cs \<longrightarrow> map_of (add_clients t cs m) (cl_Token (cs ! k)) = Some (t, k)) \<and>
    (c \<notin> set (map cl_Token cs) \<longrightarrow> map_of (add_clients t cs m) c = map_of m c)"
proof -
  have "(k < length cs \<longrightarrow> map_of (foldl (\<lambda>m (i, c). AList.update (cl_Token c) (t, i) m) m (enumerate n cs))
        (cl_Token (cs ! k)) = Some (t, n + k)) \<and>
      (c \<notin> set (map cl_Token cs) \<longrightarrow>
        map_of (foldl (\<lambda>m (i, c). AList.update (cl_Token c) (t, i) m) m (enumerate n cs)) c = map_of m c)" for n k c
    using assms
  proof (induction cs arbitrary: n m k c)
    case (Cons x cs)
    let ?m = "AList.update (cl_Token x) (t, n) m"
    let ?f = "foldl (\<lambda>m (i, c). AList.update (cl_Token c) (t, i) m) ?m (enumerate (Suc n) cs)"
    have d: "distinct (map cl_Token cs)" "cl_Token x \<notin> set (map cl_Token cs)" using Cons.prems by auto
    have x: "map_of ?f (cl_Token x) = Some (t, n)"
      using Cons.IH [OF d(1), of 0 ?m "Suc n" "cl_Token x"] d(2) by (simp add: update_conv')
    show ?case
      using x Cons.IH [OF d(1), of "k - 1" ?m "Suc n" c] by (cases k) (auto simp: update_conv')
  qed simp
  from this [of k 0 c] show ?thesis by (simp add: add_clients_def)
qed

lemma deleted_keys: "map_of (foldl (\<lambda>m c. AList.delete (f c) m) m cs) k = (if k \<in> f ` set cs then None else map_of m k)"
  by (induction cs arbitrary: m) (auto simp: delete_conv')

section \<open>The server's invariant\<close>

text \<open>
  The clients of every session are in the map, each at its place, and lead nowhere else; no token names
  both a session and a lobby; the lobbies keep their own invariant.
\<close>

definition routes_ok :: "server \<Rightarrow> bool" where
  "routes_ok s \<longleftrightarrow>
     (\<forall>t sv. session_at s t = Some sv \<longrightarrow> sv_Token sv = t \<and> lobby_at s t = None \<and>
        (\<forall>i < length (sv_clients sv). client_at s (cs_Token (sv_clients sv ! i)) = Some (t, i))) \<and>
     (\<forall>k t i. client_at s k = Some (t, i) \<longrightarrow> (\<exists>sv. session_at s t = Some sv \<and>
        i < length (sv_clients sv) \<and> cs_Token (sv_clients sv ! i) = k)) \<and>
     (\<forall>t l. lobby_at s t = Some l \<longrightarrow> lobby_ok l)"

lemma new_routes: "routes_ok (NewServer addr)"
  by (simp add: routes_ok_def NewServer_def session_at_def client_at_def lobby_at_def)

lemma routes_session:
  assumes "routes_ok s" and "session_at s t = Some sv" and "sv_Token sv' = sv_Token sv"
    and "map cs_Token (sv_clients sv') = map cs_Token (sv_clients sv)"
  shows "routes_ok (put_session t sv' s)"
proof -
  have l: "length (sv_clients sv') = length (sv_clients sv)" using assms(4) by (metis length_map)
  have n: "cs_Token (sv_clients sv' ! i) = cs_Token (sv_clients sv ! i)" if "i < length (sv_clients sv)" for i
    using assms(4) that l by (metis nth_map)
  have s: "sv_Token sv = t" "lobby_at s t = None"
    "\<And>i. i < length (sv_clients sv) \<Longrightarrow> client_at s (cs_Token (sv_clients sv ! i)) = Some (t, i)"
    using assms(1,2) by (auto simp: routes_ok_def)
  have c: "\<exists>sw. session_at s u = Some sw \<and> i < length (sv_clients sw) \<and> cs_Token (sv_clients sw ! i) = k"
    if "client_at s k = Some (u, i)" for k u i
    using assms(1) that by (auto simp: routes_ok_def)
  have c': "i < length (sv_clients sv) \<and> cs_Token (sv_clients sv ! i) = k" if "client_at s k = Some (t, i)" for k i
    using c [OF that] assms(2) by simp
  show ?thesis
    using assms(1,3) s c' unfolding routes_ok_def
    by (auto simp: l n)
qed

lemma routes_lobby:
  assumes "routes_ok s" and "lobby_ok l" and "session_at s t = None"
  shows "routes_ok (put_lobby t l s)"
  using assms by (auto simp: routes_ok_def)

lemma routes_lobby_again:
  assumes "routes_ok s" and "lobby_at s t = Some l" and "lobby_ok l'"
  shows "routes_ok (put_lobby t l' s)"
proof (rule routes_lobby [OF assms(1,3)])
  show "session_at s t = None" using assms(1,2) by (cases "session_at s t") (auto simp: routes_ok_def)
qed

lemma routes_lobby_ends: "routes_ok s \<Longrightarrow> routes_ok (lobby_ends t s)"
  by (auto simp: routes_ok_def)

lemma routes_same: 
  assumes "routes_ok s" and "\<And>t. session_at s' t = session_at s t" and "\<And>t. client_at s' t = client_at s t"
    and "\<And>t. lobby_at s' t = lobby_at s t"
  shows "routes_ok s'"
  using assms by (simp add: routes_ok_def)

lemma newSessionService_shape:
  assumes "newSessionService session datas ctl = Inr (Inr sv)"
  shows "sv_Token sv = ss_Token session \<and> map cs_Token (sv_clients sv) = map cl_Token (ss_Clients session) \<and>
    distinct (map cl_Token (ss_Clients session))"
proof -
  have v: "Session_Validate session = None"
    using assms by (auto simp: newSessionService_def split: option.splits)
  then have d: "distinct (map cl_Token (ss_Clients session))"
    by (simp add: Session_Validate_spec session_valid_def tokens_ok_def)
  obtain r where r: "makeLatencyData session = Inr r"
    using assms by (cases "makeLatencyData session")
      (auto simp: newSessionService_def v go_map_Inr [OF newClientService_fresh])
  have "sv_Token sv = ss_Token session \<and> map cs_Token (sv_clients sv) = map cl_Token (ss_Clients session)"
    using assms by (cases r) (auto simp: newSessionService_def v r go_map_Inr [OF newClientService_fresh])
  then show ?thesis using d by simp
qed


lemma routes_start:
  assumes "routes_ok s" and "StartSession session datas ctl s = Inr (e, s')"
  shows "routes_ok s'"
proof (cases "s' = s")
  case False
  then have new: "\<forall>c \<in> set (ss_Clients session). client_at s (cl_Token c) = None"
      "session_at s (ss_Token session) = None" "lobby_at s (ss_Token session) = None"
    using assms(2) by (auto simp: StartSession_def startSession_def simp del: not_None_eq split: if_splits)
  have "startSession session datas ctl s = Inr (e, s')" using assms(2) new(3) by (simp add: StartSession_def)
  then obtain r where r: "newSessionService session datas ctl = Inr r"
    using new(1,2) by (cases "newSessionService session datas ctl") (simp_all add: startSession_def)
  obtain sv where sv: "r = Inr sv"
    using \<open>startSession session datas ctl s = Inr (e, s')\<close> new(1,2) False
    by (cases r) (simp_all add: startSession_def r)
  have s': "s' = put_session (ss_Token session) (snd (session_Start sv))
        (s\<lparr>sr_clientMap := add_clients (ss_Token session) (ss_Clients session) (sr_clientMap s)\<rparr>)"
    using \<open>startSession session datas ctl s = Inr (e, s')\<close> new(1,2)
    by (simp add: startSession_def r sv Let_def)
  let ?t = "ss_Token session" and ?cs = "ss_Clients session" and ?sv = "snd (session_Start sv)"
  note shape = newSessionService_shape [OF r [unfolded sv]]
  have d: "distinct (map cl_Token ?cs)" using shape by simp
  have l: "length (sv_clients sv) = length ?cs" using shape by (metis length_map)
  have tok: "cs_Token (sv_clients sv ! i) = cl_Token (?cs ! i)" if "i < length ?cs" for i
    using shape that l by (metis nth_map)
  have sv: "sv_Token ?sv = ?t" "sv_clients ?sv = sv_clients sv"
    using shape by (simp_all add: session_Start_def)
  have at: "session_at s' u = (if u = ?t then Some ?sv else session_at s u)" "lobby_at s' u = lobby_at s u"
    "client_at s' k = map_of (add_clients ?t ?cs (sr_clientMap s)) k" for u k
    by (simp_all add: s' client_at_def session_at_def lobby_at_def put_session_def update_conv')
  have mine: "client_at s' (cl_Token (?cs ! i)) = Some (?t, i)" if "i < length ?cs" for i
    using add_clients_at [OF d, of i ?t] that by (simp add: at)
  have others: "client_at s' k = client_at s k" if "k \<notin> set (map cl_Token ?cs)" for k
    using add_clients_at [OF d, of 0 ?t "sr_clientMap s" k] that by (simp add: at(3)) (simp add: client_at_def)
  have old: "client_at s' k = Some p" if "client_at s k = Some p" for k p
    using others [of k] that new(1) by force
  have behind: "\<exists>sw. session_at s' t = Some sw \<and> i < length (sv_clients sw) \<and> cs_Token (sv_clients sw ! i) = k"
    if c: "client_at s' k = Some (t, i)" for k t i
  proof (cases "k \<in> set (map cl_Token ?cs)")
    case True
    then obtain j where "j < length ?cs" "k = cl_Token (?cs ! j)" by (auto simp: in_set_conv_nth)
    then show ?thesis using c mine [of j] tok [of j] l by (auto simp: at sv)
  next
    case False
    then have "client_at s k = Some (t, i)" using c others by simp
    then obtain sw where "session_at s t = Some sw" "i < length (sv_clients sw)" "cs_Token (sv_clients sw ! i) = k"
      using assms(1) unfolding routes_ok_def by blast
    then show ?thesis using new(2) by (auto simp: at)
  qed
  have fwd: "sv_Token sw = t \<and> lobby_at s' t = None \<and>
      (\<forall>i < length (sv_clients sw). client_at s' (cs_Token (sv_clients sw ! i)) = Some (t, i))"
    if sw: "session_at s' t = Some sw" for t sw
  proof (cases "t = ?t")
    case True
    then show ?thesis using sw sv new(3) l tok mine by (auto simp: at)
  next
    case False
    then have "session_at s t = Some sw" using sw by (simp add: at)
    then show ?thesis using assms(1) old by (auto simp: routes_ok_def at)
  qed
  show ?thesis using fwd behind assms(1) by (simp add: routes_ok_def at(2))
qed (use assms in simp)

lemma routes_session_ends:
  assumes "routes_ok s"
  shows "routes_ok (session_ends t s)"
proof (cases "session_at s t")
  case (Some sv)
  have tok: "sv_Token sv = t" using assms Some by (simp add: routes_ok_def)
  let ?s = "session_ends t s"
  have at: "session_at ?s u = (if u = t then None else session_at s u)" "lobby_at ?s u = lobby_at s u"
    "client_at ?s k = (if k \<in> cs_Token ` set (sv_clients sv) then None else client_at s k)" for u k
    using tok Some by (auto simp: session_ends_def session_at_def lobby_at_def client_at_def delete_conv' deleted_keys)
  have mine: "client_at s (cs_Token (sv_clients sv ! i)) = Some (t, i)" if "i < length (sv_clients sv)" for i
    using assms Some that by (simp add: routes_ok_def)
  have only: "u = t" if "client_at s k = Some (u, i)" "k \<in> cs_Token ` set (sv_clients sv)" for k u i
    using that mine by (auto simp: in_set_conv_nth)
  have "sv_Token sw = u \<and> lobby_at ?s u = None \<and>
      (\<forall>i < length (sv_clients sw). client_at ?s (cs_Token (sv_clients sw ! i)) = Some (u, i))"
    if "session_at ?s u = Some sw" for u sw
  proof -
    have u: "u \<noteq> t" "session_at s u = Some sw" using that by (auto simp: at split: if_splits)
    then show ?thesis using assms only by (fastforce simp: routes_ok_def at)
  qed
  moreover have "\<exists>sw. session_at ?s u = Some sw \<and> i < length (sv_clients sw) \<and> cs_Token (sv_clients sw ! i) = k"
    if "client_at ?s k = Some (u, i)" for k u i
  proof -
    have c: "client_at s k = Some (u, i)" "k \<notin> cs_Token ` set (sv_clients sv)"
      using that by (auto simp: at split: if_splits)
    obtain sw where sw: "session_at s u = Some sw" "i < length (sv_clients sw)" "cs_Token (sv_clients sw ! i) = k"
      using assms c(1) unfolding routes_ok_def by blast
    have "u \<noteq> t" using sw c(2) Some by auto
    then show ?thesis using sw by (auto simp: at)
  qed
  ultimately show ?thesis using assms by (simp add: routes_ok_def at(2))
qed (use assms in \<open>simp add: session_ends_def\<close>)


section \<open>Runs of a server\<close>

definition server_tick :: "time \<Rightarrow> token \<Rightarrow> server \<Rightarrow> (control list \<times> server) go" where
  "server_tick now t s =
     (case session_at s t of
        None \<Rightarrow> Inr ([], s)
      | Some sv \<Rightarrow> go_bind (session_tick now sv) (\<lambda>(calls, _, sv'). Inr (calls, put_session t sv' s)))"

definition server_entry :: "time \<Rightarrow> token \<Rightarrow> nat \<Rightarrow> byte list \<Rightarrow> server \<Rightarrow> server go option" where
  "server_entry now t i payload s =
     (case session_at s t of
        None \<Rightarrow> Some (Inr s)
      | Some sv \<Rightarrow>
          map_option (\<lambda>r. go_bind r (\<lambda>(_, sv'). Inr (put_session t sv' s))) (session_entry now i payload sv))"

definition server_broadcast :: "time \<Rightarrow> token \<Rightarrow> server \<Rightarrow> server" where
  "server_broadcast now t s =
     (case lobby_at s t of None \<Rightarrow> s | Some l \<Rightarrow> put_lobby t (fst (broadcast_tick now l)) s)"

text \<open>Everything that can happen to a server, short of a panic.\<close>

inductive server_step :: "server \<Rightarrow> server \<Rightarrow> bool" where
  packet: "HandleIncomingMessages now data addr s = Inr (r, s') \<Longrightarrow> server_step s s'"
| session_starts: "StartSession session datas ctl s = Inr (e, s') \<Longrightarrow> server_step s s'"
| session_ends: "server_step s (session_ends t s)"
| tick: "server_tick now t s = Inr (calls, s') \<Longrightarrow> server_step s s'"
| entry: "server_entry now t i payload s = Some (Inr s') \<Longrightarrow> server_step s s'"
| lobby_starts: "server_step s (snd (startLobby setup addr s))"
| lobby_command: "server_step s (snd (with_lobby now t c s))"
| lobby_broadcast: "server_step s (server_broadcast now t s)"
| lobby_finish: "server_step s (snd (Server_FinishLobby now waits t s))"
| lobby_ends: "server_step s (lobby_ends t s)"

lemma update_clients_tokens:
  "update_clients now cs l new = Inr (cs', l', new') \<Longrightarrow> map cs_Token cs' = map cs_Token cs"
proof (induction cs arbitrary: l new cs' l' new')
  case (Cons c cs)
  obtain p c1 where g: "GetState now c = (p, c1)" by fastforce
  have "cs_Token c1 = cs_Token c" using GetState_frame(3) [of now c] g by simp
  then show ?case using Cons g by (auto simp: go_bind_Inr_iff)
qed simp

lemma session_tick_shape:
  assumes "session_tick now sv = Inr (calls, ps, sv')"
  shows "sv_Token sv' = sv_Token sv \<and> map cs_Token (sv_clients sv') = map cs_Token (sv_clients sv)"
proof -
  obtain rep where "session_updateState now sv = Inr (rep, calls, sv')"
    using assms by (auto simp: session_tick_def go_bind_Inr_iff split: option.split_asm)
  then show ?thesis
    by (auto simp: session_updateState_def go_bind_Inr_iff dest!: update_clients_tokens split: if_splits)
qed

lemma session_entry_shape:
  assumes "session_entry now i payload sv = Some (Inr (ps, sv'))"
  shows "sv_Token sv' = sv_Token sv \<and> sv_clients sv' = sv_clients sv"
  using assms by (auto simp: session_entry_def go_bind_Inr_iff split: option.split_asm prod.split_asm)

lemma finish_loop_ok: "lobby_ok s \<Longrightarrow> lobby_ok (snd (finish_loop sts expected now waits s))"
proof (induction sts expected now waits s rule: finish_loop.induct)
  case (2 st sts expected now waits s)
  obtain s1 ans where t: "turn now (FinishReq st expected) s = (s1, ans)" by fastforce
  have s1: "lobby_ok s1" using turn_ok [OF "2.prems", of now "FinishReq st expected"] t by simp
  have g: "lobby_ok (run_turns g s1)" for g
    unfolding run_turns_def by (rule foldl_invariant [of lobby_ok, OF s1]) (auto intro: turn_ok)
  show ?case
    using "2.IH" [OF t [symmetric]] s1 g
    by (auto simp: t split: answer.split sum.split list.split)
qed simp

lemma FinishLobby_ok: "lobby_ok s \<Longrightarrow> lobby_ok (snd (FinishLobby now waits s))"
proof -
  assume ok: "lobby_ok s"
  obtain s0 ans where t: "turn now (GetReq (- 1)) s = (s0, ans)" by fastforce
  have s0: "lobby_ok s0" using turn_ok [OF ok, of now "GetReq (- 1)"] t by simp
  show ?thesis
    using s0 finish_loop_ok [OF s0]
    by (auto simp: FinishLobby_def t simp del: finish_loop.simps split: answer.split sum.split prod.split)
      (metis snd_conv)+
qed


section \<open>What a packet can change\<close>

text \<open>A packet of a client of session \<open>t\<close> at place \<open>i\<close>.\<close>

definition session_reaction :: "StoryClientMessage \<Rightarrow> UDPAddr \<Rightarrow> server \<Rightarrow> reaction \<Rightarrow> server \<Rightarrow> bool" where
  "session_reaction m addr s r s' \<longleftrightarrow>
     (\<exists>t i sv c. client_at s (shc_ClientToken (story_header m)) = Some (t, i) \<and> session_at s t = Some sv \<and>
        s' = put_session t (sv\<lparr>sv_clients := (sv_clients sv)[i := c]\<rparr>) s \<and>
        cs_Token c = cs_Token (sv_clients sv ! i) \<and> cd_Address (cs_data c) = addr \<and>
        (\<forall>(_, dst) \<in> set (rx_sent r). dst = addr) \<and>
        (\<forall>(ch, _) \<in> set (rx_actions r). \<exists>a \<in> set (cs_remoteActors (sv_clients sv ! i)).
           ch = ca_Channel (rd_Actor a)))"

definition lobby_reaction :: "time \<Rightarrow> LobbyClientMessage \<Rightarrow> UDPAddr \<Rightarrow> server \<Rightarrow> reaction \<Rightarrow> server \<Rightarrow> bool" where
  "lobby_reaction now m addr s r s' \<longleftrightarrow>
     (\<exists>l. lobby_at s (lhc_LobbyToken (lobby_header m)) = Some l \<and>
        s' = put_lobby (lhc_LobbyToken (lobby_header m)) (fst (turn now (HandleClient m addr) l)) s \<and>
        rx_response r = None \<and> rx_actions r = [])"

lemma client_send_to: "client_send msg c = Inr ps \<Longrightarrow> (a, dst) \<in> set ps \<Longrightarrow> dst = cd_Address (cs_data c)"
  by (auto simp: client_send_def Let_def go_bind_Inr_iff split: if_splits)

lemma go_map_Inr_set: "go_map f xs = Inr ys \<Longrightarrow> y \<in> set ys \<Longrightarrow> \<exists>x \<in> set xs. f x = Inr y"
  by (induction xs arbitrary: ys) (auto simp: go_bind_Inr_iff)

lemma HandleStoryConfirm_to:
  assumes "HandleStoryConfirm c m sv = Inr (r, sent)" and "(a, dst) \<in> set sent"
  shows "dst = cd_Address (cs_data c)"
proof -
  have "\<exists>ps outs. sent = concat outs \<and> go_map (\<lambda>m. client_send (MStoryPack m) c) ps = Inr outs"
    using assms by (auto simp: HandleStoryConfirm_def go_bind_Inr_iff Let_def
        split: option.split_asm if_split_asm list.split_asm)
  then show ?thesis using assms(2) go_map_Inr_set client_send_to by fastforce
qed

lemma HandleActionPack_out:
  assumes "HandleActionPack now m c = Inr (r, out, c')"
  shows "cs_Token c' = cs_Token c \<and> cs_data c' = cs_data c \<and>
    (\<forall>(ch, _) \<in> set out. \<exists>a \<in> set (cs_remoteActors c). ch = ca_Channel (rd_Actor a))"
proof (cases "first_idx (\<lambda>a. at_Token (ca_Actor (rd_Actor a)) = ap_ActorToken m) (cs_remoteActors c)")
  case (Some i)
  have "i < length (cs_remoteActors c)" using first_idx_Some [OF Some] by simp
  then show ?thesis
    using assms by (auto simp: HandleActionPack_def Some Let_def go_bind_Inr_iff intro: nth_mem)
qed (use assms in \<open>auto simp: HandleActionPack_def\<close>)

lemma handle_client_reaction:
  assumes "handle_client_message now m t i c sv s = Inr (r, s')" and "cs_Token c = cs_Token (sv_clients sv ! i)"
    and "cd_Address (cs_data c) = addr" and "cs_remoteActors c = cs_remoteActors (sv_clients sv ! i)"
    and "client_at s (shc_ClientToken (story_header m)) = Some (t, i)" and "session_at s t = Some sv"
  shows "session_reaction m addr s r s'"
proof -
  have *: "session_reaction m addr s r (put_client t i c' sv s)"
    if "cs_Token c' = cs_Token c" "cs_data c' = cs_data c" "\<forall>(_, dst) \<in> set (rx_sent r). dst = addr"
      "\<forall>(ch, _) \<in> set (rx_actions r). \<exists>a \<in> set (cs_remoteActors c). ch = ca_Channel (rd_Actor a)" for r c'
    using that assms(2-6) unfolding session_reaction_def put_client_def by fastforce
  show ?thesis
  proof (cases m)
    case (MTestClient a)
    then show ?thesis using assms(1) * [of c no_reaction] by (auto simp: no_reaction_def)
  next
    case (MActionPack a)
    obtain q out c' where h: "HandleActionPack now a c = Inr (q, out, c')"
      using assms(1) MActionPack by (auto simp: go_bind_Inr_iff)
    note o = HandleActionPack_out [OF h]
    show ?thesis using assms(1) MActionPack h o * [of c' r]
      by (cases q) (auto simp: go_bind_Inr_iff no_reaction_def)
  next
    case (MStoryConfirm a)
    obtain q sent where h: "HandleStoryConfirm c a sv = Inr (q, sent)"
      using assms(1) MStoryConfirm by (auto simp: go_bind_Inr_iff)
    have o: "\<forall>(_, dst) \<in> set sent. dst = addr" using HandleStoryConfirm_to [OF h] assms(3) by auto
    show ?thesis using assms(1) MStoryConfirm h o * [of c r]
      by (cases q) (auto simp: go_bind_Inr_iff no_reaction_def split: option.split_asm)
  qed
qed

lemma packet_effect:
  assumes "HandleIncomingMessages now data addr s = Inr (r, s')"
  shows "(s' = s \<and> rx_sent r = [] \<and> rx_actions r = []) \<or>
    (\<exists>m. StoryParseClient data = Inr (Some m) \<and> session_reaction m addr s r s') \<or>
    (\<exists>m. StoryParseClient data = Inr None \<and> LobbyParseClient data = Some m \<and> lobby_reaction now m addr s r s')"
proof -
  consider (ping) p where "length data > 0" "ParsePing data = (p, True)" | (none) "length data = 0"
    | (other) p where "length data > 0" "ParsePing data = (p, False)"
    by (cases "ParsePing data") (metis gr0I)
  then show ?thesis
  proof cases
    case (other p)
    then obtain story where st: "StoryParseClient data = Inr story"
      using assms by (auto simp: HandleIncomingMessages_def go_bind_Inr_iff)
    show ?thesis
    proof (cases story)
      case (Some m)
      have h: "handleStoryMessage now m addr s = Inr (r, s')"
        using assms other st Some by (simp add: HandleIncomingMessages_def)
      show ?thesis
      proof (cases "client_at s (shc_ClientToken (story_header m))")
        case None
        then show ?thesis using h by (auto simp: handleStoryMessage_def no_reaction_def)
      next
        case c: (Some p)
        obtain t i where p: "p = (t, i)" by fastforce
        show ?thesis
        proof (cases "session_at s t")
          case None
          then show ?thesis using h c p by (auto simp: handleStoryMessage_def no_reaction_def)
        next
          case sv: (Some sv)
          let ?c = "UpdateState \<lparr>cd_LastMsgReceived = now, cd_Address = addr,
            cd_Latency = StoryGetLatency (story_header m)\<rparr> (sv_clients sv ! i)"
          have "handle_client_message now m t i ?c sv s = Inr (r, s')"
            using h c p sv by (simp add: handleStoryMessage_def)
          from handle_client_reaction [OF this, of addr] show ?thesis
            using st Some c p sv by (simp add: UpdateState_def)
        qed
      qed
    next
      case None
      show ?thesis
      proof (cases "LobbyParseClient data")
        case None
        then show ?thesis using assms other st \<open>story = None\<close>
          by (auto simp: HandleIncomingMessages_def no_reaction_def)
      next
        case (Some m)
        have h: "handleLobby now m addr s = Inr (r, s')"
          using assms other st None Some by (simp add: HandleIncomingMessages_def)
        then have "(s' = s \<and> rx_sent r = [] \<and> rx_actions r = []) \<or> lobby_reaction now m addr s r s'"
          by (auto simp: handleLobby_def no_reaction_def lobby_reaction_def Let_def go_bind_Inr_iff
              split: option.split_asm prod.split_asm)
        then show ?thesis using st None Some by auto
      qed
    qed
  qed (use assms in \<open>auto simp: HandleIncomingMessages_def no_reaction_def\<close>)
qed


section \<open>Preservation\<close>

lemma routes_reaction: "routes_ok s \<Longrightarrow> session_reaction m addr s r s' \<Longrightarrow> routes_ok s'"
  by (auto simp: session_reaction_def map_update list_update_same_conv intro!: routes_session)
    (metis length_map list_update_id map_update nth_map routes_ok_def)

lemma routes_lobby_reaction: "routes_ok s \<Longrightarrow> lobby_reaction now m addr s r s' \<Longrightarrow> routes_ok s'"
  by (auto simp: lobby_reaction_def intro!: routes_lobby_again turn_ok) (simp add: routes_ok_def)

lemma routes_step: "server_step s s' \<Longrightarrow> routes_ok s \<Longrightarrow> routes_ok s'"
proof (induction rule: server_step.induct)
  case (packet now data addr s r s')
  then show ?case using packet_effect [OF packet(1)] routes_reaction routes_lobby_reaction by blast
next
  case (session_starts session datas ctl s e s')
  then show ?case by (rule routes_start [rotated])
next
  case (session_ends s t)
  then show ?case by (rule routes_session_ends)
next
  case (tick now t s calls s')
  then show ?case
    by (auto simp: server_tick_def go_bind_Inr_iff dest!: session_tick_shape intro!: routes_session
        split: option.split_asm)
next
  case (entry now t i payload s s')
  then show ?case
    by (auto simp: server_entry_def go_bind_Inr_iff dest!: session_entry_shape intro!: routes_session
        split: option.split_asm)
next
  case (lobby_starts s su addr)
  then show ?case by (auto simp: startLobby_def split: sum.split intro!: routes_lobby dest: new_lobby_ok)
next
  case (lobby_command s now t c)
  then show ?case
    by (auto simp: with_lobby_def split: option.split intro!: routes_lobby_again turn_ok) (simp add: routes_ok_def)
next
  case (lobby_broadcast s now t)
  have "lobby_ok (fst (broadcast_tick now l))" if "lobby_at s t = Some l" for l
    using tick_ok [of l now] lobby_broadcast that by (auto simp: routes_ok_def)
  then show ?case using lobby_broadcast
    by (auto simp: server_broadcast_def split: option.split intro!: routes_lobby_again)
next
  case (lobby_finish s now waits t)
  have ok: "lobby_ok (snd (FinishLobby now waits l))" if "lobby_at s t = Some l" for l
    using lobby_finish that by (intro FinishLobby_ok) (auto simp: routes_ok_def)
  show ?case
  proof (cases "lobby_at s t")
    case (Some l)
    obtain r l' where f: "FinishLobby now waits l = (r, l')" by fastforce
    show ?thesis
    proof (cases r)
      case (Inl e)
      then show ?thesis using Some f ok [OF Some] lobby_finish
        by (auto simp: Server_FinishLobby_def intro!: routes_lobby_again)
    next
      case (Inr q)
      have s': "snd (Server_FinishLobby now waits t s) =
          s\<lparr>sr_lobbyMap := AList.delete t (sr_lobbyMap s), sr_stopping := t # sr_stopping s\<rparr>"
        by (simp add: Server_FinishLobby_def Some f Inr)
      show ?thesis unfolding s'
        by (rule routes_same [OF routes_lobby_ends [OF lobby_finish, of t]])
          (simp_all add: session_at_def client_at_def lobby_at_def lobby_ends_def)
    qed
  qed (use lobby_finish in \<open>simp add: Server_FinishLobby_def\<close>)
next
  case (lobby_ends s t)
  then show ?case by (rule routes_lobby_ends)
qed

lemma routes_run: "server_step\<^sup>*\<^sup>* s s' \<Longrightarrow> routes_ok s \<Longrightarrow> routes_ok s'"
  by (induction rule: rtranclp_induct) (auto dest: routes_step)


section \<open>Properties\<close>

text \<open>
  C20. In every state that a server can reach, whatever packets it gets and in whatever order sessions
  and lobbies are started and end, every client of every session is found under its token and leads to
  its own place in its own session, the map of clients has no other entries, and no token names both a
  session and a lobby; every lobby keeps its invariant.
\<close>

theorem server_routes:
  assumes "server_step\<^sup>*\<^sup>* (NewServer addr) s"
  shows "(\<forall>t sv. session_at s t = Some sv \<longrightarrow> sv_Token sv = t \<and> lobby_at s t = None \<and>
        (\<forall>i < length (sv_clients sv). client_at s (cs_Token (sv_clients sv ! i)) = Some (t, i))) \<and>
     (\<forall>k t i. client_at s k = Some (t, i) \<longrightarrow> (\<exists>sv. session_at s t = Some sv \<and>
        i < length (sv_clients sv) \<and> cs_Token (sv_clients sv ! i) = k)) \<and>
     (\<forall>t l. lobby_at s t = Some l \<longrightarrow> lobby_ok l)"
  using routes_run [OF assms new_routes] by (simp add: routes_ok_def)

text \<open>A server with one lobby, and a packet with which client 9 joins its second slot as actor 7.\<close>

definition lobby_server :: server where
  "lobby_server = snd (StartLobbyNoBroadcast sample_setup (NewServer zero_UDPAddr))"

definition join_packet :: "byte list" where
  "join_packet = [0x3C, 0x75, 0x2A, 0x3E, 2, 1, 1, 0, 0, 0, 9, 0, 0, 0, 0, 0, 0, 0, 7, 0, 0, 0, 1, 1, 65, 0]"

lemma lobby_server_at:
  "server_step\<^sup>*\<^sup>* (NewServer zero_UDPAddr) lobby_server" "sr_lobbyMap lobby_server = [(1, sample_lobby)]"
  "sr_sessionMap lobby_server = []" "sr_clientMap lobby_server = []"
  unfolding lobby_server_def StartLobbyNoBroadcast_def
  by (rule r_into_rtranclp, rule server_step.lobby_starts)
    (simp_all add: startLobby_def NewServer_def lobby_at_def session_at_def sample_lobby_new put_lobby_def,
     simp add: sample_setup_def)

lemma join_parsed:
  "snd (ParsePing join_packet) = False" "StoryParseClient join_packet = Inr None"
  "map_option (\<lambda>m. HandleClient m zero_UDPAddr) (LobbyParseClient join_packet) = Some sample_join"
  by code_simp+

lemma join_handled:
  "HandleIncomingMessages 4 join_packet zero_UDPAddr lobby_server =
     Inr (no_reaction, put_lobby 1 (fst (turn 4 sample_join sample_lobby)) lobby_server)"
proof -
  obtain m where m: "LobbyParseClient join_packet = Some m" "HandleClient m zero_UDPAddr = sample_join"
    using join_parsed(3) by auto
  have "lhc_LobbyToken (lobby_header m) = 1" using m(2) by (cases m) (simp_all add: sample_join_def)
  moreover have "setup_packets (snd (turn 4 sample_join sample_lobby)) = []" by code_simp
  moreover obtain p where "ParsePing join_packet = (p, False)"
    using join_parsed(1) by (cases "ParsePing join_packet") simp
  moreover have "join_packet \<noteq> []" by (simp add: join_packet_def)
  ultimately show ?thesis
    using join_parsed(2) m lobby_server_at(2)
    by (simp add: HandleIncomingMessages_def handleLobby_def lobby_at_def case_prod_unfold no_reaction_def)
qed

theorem server_routes_witness:
  "lobby_at (put_lobby 1 (fst (turn 4 sample_join sample_lobby)) lobby_server) 1 =
     Some (fst (turn 4 sample_join sample_lobby)) \<and>
   session_at (put_lobby 1 (fst (turn 4 sample_join sample_lobby)) lobby_server) 1 = None \<and>
   lobby_ok (fst (turn 4 sample_join sample_lobby))"
proof -
  let ?s = "put_lobby 1 (fst (turn 4 sample_join sample_lobby)) lobby_server"
  have "server_step\<^sup>*\<^sup>* (NewServer zero_UDPAddr) ?s"
    using lobby_server_at(1) server_step.packet [OF join_handled] by simp
  note r = server_routes [OF this]
  have "lobby_at ?s 1 = Some (fst (turn 4 sample_join sample_lobby))" by simp
  moreover have "session_at ?s 1 = None" using r calculation by (metis option.distinct(1) option.exhaust)
  ultimately show ?thesis using r by blast
qed



end
