(* ===== verification/Packets.thy ===== *)
theory Packets
  imports Servers
begin

text \<open>
  What packets from the network can do to a running server. The parsers bound what they read (sequence
  numbers and ranges fit into 32 bits, names into a byte's count), so that handling any packet at all
  does not panic, but for the one panic inside the parser of story confirmations.
\<close>

section \<open>What the readers read\<close>

definition seq32 :: "int \<Rightarrow> bool" where
  "seq32 q \<longleftrightarrow> 0 \<le> q \<and> q < 2 ^ 32"

lemma seq32_uint: "seq32 (uint (w :: 32 word))"
  using uint_range_size [of w] by (simp add: seq32_def word_size)

lemma seq32_0 [simp]: "seq32 0"
  by (simp add: seq32_def)

lemma GetSequence_seq32: "seq32 v \<Longrightarrow> seq32 (snd (GetSequence s v))"
  using seq32_uint by (simp add: GetSequence_def case_prod_unfold Let_def)

lemma GetEntry_seq32: "seq32 (Seq v) \<Longrightarrow> seq32 (Seq (snd (GetEntry s v)))"
  using GetSequence_seq32 by (simp add: GetEntry_def case_prod_unfold Let_def)

lemma get_each_all:
  assumes "get_each g vs s = Inr (s', vs')" and "\<forall>v \<in> set vs. P v"
    and "\<And>s v s' v'. P v \<Longrightarrow> g s v = Inr (s', v') \<Longrightarrow> P v'"
  shows "\<forall>v \<in> set vs'. P v"
  using assms(1,2)
proof (induction vs arbitrary: s s' vs')
  case (Cons v vs)
  then show ?case using assms(3) by (fastforce simp: go_bind_Inr_iff)
qed simp

lemma GetEntries_seq32:
  assumes "GetEntries s v = Inr (s', v')" and "\<forall>e \<in> set v. seq32 (Seq e)"
  shows "\<forall>e \<in> set v'. seq32 (Seq e)"
proof -
  have "\<forall>e \<in> set es. seq32 (Seq e)"
    if "get_each (\<lambda>s v. Inr (GetEntry s v)) (replicate n \<lparr>Seq = 0, Delay = 0, Payload = []\<rparr>) s1 = Inr (s2, es)"
    for n s1 s2 es
    by (rule get_each_all [OF that]) (use GetEntry_seq32 in \<open>auto simp: set_replicate_conv_if\<close>, metis snd_conv)
  then show ?thesis
    using assms by (auto simp: GetEntries_def go_bind_Inr_iff Let_def case_prod_unfold split: if_splits)
qed

lemma GetEntries_feed: "GetEntries s [] = Inr (s', v') \<Longrightarrow> feed_ok v'"
  using GetEntries_seq32 [of s "[]" s' v'] by (fastforce simp: feed_ok_def seq32_def)

lemma RangeInclusive_asked:
  assumes "RangeInclusive from to = Inr r" and "seq32 from" and "seq32 to"
  shows "range_asked r"
  using assms by (auto simp: RangeInclusive_def range_asked_def seq32_def RangeLenUnsafe_def Let_def split: if_splits)

lemma GetRanges_asked:
  assumes "GetRanges s v = Inr (s', v')" and "\<forall>r \<in> set v. range_asked r"
  shows "\<forall>r \<in> set v'. range_asked r"
proof -
  have "range_asked r" if "D_GetRange s v = Inr (s', r)" "range_asked v" for s v s' r
    using that GetSequence_seq32 [OF seq32_0]
    by (auto simp: D_GetRange_def go_bind_Inr_iff Let_def case_prod_unfold intro: RangeInclusive_asked split: if_splits)
  then have "\<forall>r \<in> set rs. range_asked r"
    if "get_each D_GetRange (replicate n \<lparr>rng_seq = 0, rng_len = 0\<rparr>) s1 = Inr (s2, rs)" for n s1 s2 rs
    by (intro get_each_all [OF that]) (auto simp: range_asked_def set_replicate_conv_if)
  then show ?thesis
    using assms by (auto simp: GetRanges_def go_bind_Inr_iff Let_def case_prod_unfold split: if_splits)
qed

lemma GetStr_255: "length v \<le> 255 \<Longrightarrow> length (snd (GetStr s v)) \<le> 255"
  using unsigned_less [of "d_buf s ! 0", where 'a = nat] by (auto simp: GetStr_def Let_def)

text \<open>Messages that the server's parsers accept.\<close>

fun story_read :: "StoryClientMessage \<Rightarrow> bool" where
  "story_read (MTestClient m) = True"
| "story_read (MActionPack m) = feed_ok (ap_Actions m)"
| "story_read (MStoryConfirm m) = (\<forall>r \<in> set (sc_Missing m). range_asked r)"

lemma go_parsed_Some: "go_parsed c r = Inr (Some m) \<Longrightarrow> \<exists>g. r = Inr g \<and> m = c (snd g)"
  by (auto simp: go_parsed_def parsed_def go_bind_Inr_iff split: option.split_asm prod.split_asm)

lemma story_parse_read:
  assumes "StoryParseClient buf = Inr (Some m)"
  shows "story_read m"
proof -
  have a: "feed_ok (ap_Actions (snd g))"
    if "ActionPack_Get buf \<lparr>ap_Header = zero_StoryHeaderClient, ap_ActorToken = 0, ap_Actions = []\<rparr> = Inr g" for g
    using that by (auto simp: ActionPack_Get_def go_bind_Inr_iff Let_def case_prod_unfold got_def invalid_def
        dest!: GetEntries_feed split: if_splits)
  have c: "\<forall>r \<in> set (sc_Missing (snd g)). range_asked r"
    if "StoryConfirm_Get buf \<lparr>sc_Header = zero_StoryHeaderClient, sc_StoryToken = 0, sc_LastSequence = 0,
        sc_Missing = []\<rparr> = Inr g" for g
    using that by (auto simp: StoryConfirm_Get_def go_bind_Inr_iff Let_def case_prod_unfold got_def invalid_def
        dest!: GetRanges_asked [of _ "[]", simplified] split: if_splits)
  show ?thesis
    using assms a c by (auto simp: StoryParseClient_def Let_def dest!: go_parsed_Some split: if_splits)
qed

lemma go_bind_Inl: "go_bind r f = Inl e \<Longrightarrow> r = Inl e \<or> (\<exists>x. r = Inr x \<and> f x = Inl e)"
  by (cases r) auto

lemma entries_never_panic: "GetEntries s v \<noteq> Inl e"
proof -
  have "get_each (\<lambda>s v. Inr (GetEntry s v)) vs s \<noteq> Inl e" for vs s
    by (induction vs arbitrary: s) (auto dest!: go_bind_Inl split: prod.split_asm)
  then show ?thesis
    by (auto simp: GetEntries_def Let_def case_prod_unfold dest!: go_bind_Inl split: if_splits)
qed

lemma story_parse_panics:
  assumes "StoryParseClient buf = Inl e"
  shows "buf ! 5 = TypeStory"
proof (rule ccontr)
  assume n: "buf ! 5 \<noteq> TypeStory"
  have "ActionPack_Get buf m \<noteq> Inl e" for m
    using entries_never_panic
    by (auto simp: ActionPack_Get_def Let_def case_prod_unfold dest!: go_bind_Inl split: if_splits)
  moreover have "TestClient_Get buf m \<noteq> Inl e" for m
    by (simp add: TestClient_Get_def Let_def case_prod_unfold)
  ultimately show False
    using assms n by (auto simp: StoryParseClient_def go_parsed_def Let_def dest!: go_bind_Inl split: if_splits)
qed

definition texts_fit :: "lobbyService \<Rightarrow> bool" where
  "texts_fit l \<longleftrightarrow> length (lb_name l) \<le> 255 \<and> length (lb_def l) \<le> 255 \<and>
     (\<forall>sl \<in> set (lb_slots l). length (ls_Name sl) \<le> 255)"

fun lobby_read :: "LobbyClientMessage \<Rightarrow> bool" where
  "lobby_read (MJoin m) = (length (jo_Name m) \<le> 255)"
| "lobby_read (MLeave m) = True"
| "lobby_read (MRequest m) = True"

lemma parsed_Some: "parsed c r = Some m \<Longrightarrow> m = c (snd r)"
  by (auto simp: parsed_def split: option.split_asm prod.split_asm)

lemma lobby_parse_read:
  assumes "LobbyParseClient buf = Some m"
  shows "lobby_read m"
proof -
  have "length (jo_Name (snd (Join_Get buf \<lparr>jo_Header = h, jo_ActorToken = 0, jo_Slot = 0, jo_Name = [],
      jo_Config = []\<rparr>))) \<le> 255" for h
    using GetStr_255 [of "[]"] by (simp add: Join_Get_def Let_def case_prod_unfold got_def invalid_def)
  then show ?thesis
    using assms by (auto simp: LobbyParseClient_def Let_def dest!: parsed_Some split: if_splits)
qed


section \<open>Packets for a lobby\<close>

lemma texts_simps [simp]:
  "texts_fit (set_client t i s) = texts_fit s" "texts_fit (s\<lparr>lb_state := st\<rparr>) = texts_fit s"
  "texts_fit (s\<lparr>lb_version := v\<rparr>) = texts_fit s" "texts_fit (updateState s) = texts_fit s"
  "texts_fit (s\<lparr>lb_clients := cs\<rparr>) = texts_fit s"
  by (simp_all add: texts_fit_def set_client_def updateState_def)

lemma texts_client_ops [simp]:
  "texts_fit (touchClient now t a d s) = texts_fit s" "texts_fit (incClient now t a d s) = texts_fit s"
  "texts_fit (decClient now t a d s) = texts_fit s" "texts_fit (decClientNoAddr t s) = texts_fit s"
  "texts_fit (zeroClient now t a d s) = texts_fit s" "texts_fit (updateClient now t a d s) = texts_fit s"
  by (simp_all add: touchClient_def incClient_def decClient_def decClientNoAddr_def zeroClient_def
      updateClient_def Let_def)

lemma slot_names [simp]:
  "ls_Name (slot_clear sl) = []" "ls_Name (slot_local a i n sl) = n" "ls_Name (slot_remote a c n g sl) = n"
  by (simp_all add: slot_clear_def slot_local_def slot_remote_def)

lemma texts_upd:
  assumes "texts_fit s" and "\<And>sl. length (ls_Name sl) \<le> 255 \<Longrightarrow> length (ls_Name (f sl)) \<le> 255"
  shows "texts_fit (upd_slot i f s)"
proof (cases "i < length (lb_slots s)")
  case True
  then show ?thesis using assms by (auto simp: texts_fit_def upd_slot_def dest!: set_update_subset_insert [THEN subsetD])
qed (use assms(1) in \<open>simp add: upd_slot_def texts_fit_def list_update_beyond\<close>)

lemma texts_clear_all: "texts_fit s \<Longrightarrow>
    texts_fit (s\<lparr>lb_slots := map (\<lambda>sl. if P sl then slot_clear sl else sl) (lb_slots s)\<rparr>)"
  by (auto simp: texts_fit_def)

lemma texts_evict: "texts_fit s \<Longrightarrow> texts_fit (snd (evictClient t s))"
  by (auto simp: evictClient_def texts_fit_def Let_def)

lemma texts_remoteJoin:
  assumes "texts_fit s" and "length (jo_Name m) \<le> 255"
  shows "texts_fit (snd (remoteJoin now m addr s))"
  unfolding remoteJoin_def using assms
  by (auto simp: Let_def intro!: texts_upd texts_evict split: option.split)

lemma texts_remoteLeave:
  assumes "texts_fit s"
  shows "texts_fit (snd (remoteLeave now m addr s))"
  unfolding remoteLeave_def using assms
  by (auto simp: Let_def intro!: texts_upd texts_clear_all split: option.split)

lemma texts_client_turn:
  assumes "texts_fit s" and "lobby_read m"
  shows "texts_fit (fst (turn now (HandleClient m addr) s))"
  using assms texts_remoteJoin texts_remoteLeave
  by (cases m) (auto simp: turn_def remoteRequest_def Let_def case_prod_unfold)

lemma put_each_fits: "\<forall>x \<in> set xs. \<forall>s. \<exists>s'. f x s = Inr s' \<Longrightarrow> \<exists>s'. put_each f xs s = Inr s'"
  by (rule put_each_Inr) blast

lemma setup_written:
  assumes "texts_fit s"
  shows "\<exists>a. Setup_Put (with_tokens f s (getSetupMessage s)) [] = Inr a"
proof -
  let ?m = "with_tokens f s (getSetupMessage s)"
  have n: "length (se_Name ?m) \<le> 255" "length (se_Def ?m) \<le> 255"
    using assms by (simp_all add: with_tokens_def getSetupMessage_def texts_fit_def)
  have "length (sl_Name x) \<le> 255" if "x \<in> set (se_Slots ?m)" for x
    using that assms by (auto simp: with_tokens_def getSetupMessage_def texts_fit_def zip_map2 dest!: set_zip_rightD)
  then have "\<exists>s'. put_each put_Slot (se_Slots ?m) s = Inr s'" for s
    by (intro put_each_Inr) (force simp: put_Slot_def PutStr_def)
  then show ?thesis
    using n by (auto simp: Setup_Put_def PutStr_def PutBytes_def) (metis go_bind.simps(2))
qed

lemma lobby_packet_up:
  assumes "texts_fit l" and "lobby_read m"
  shows "\<exists>sent. go_map (\<lambda>(m, dst). go_bind (Setup_Put m []) (\<lambda>a. Inr (a, dst)))
    (setup_packets (snd (turn now (HandleClient m addr) l))) = Inr sent"
proof (cases m)
  case (MRequest q)
  let ?l = "updateClient now (lhc_ClientToken (re_Header q)) addr (LobbyGetLatency (re_Header q)) l"
  have "\<exists>a. Setup_Put (with_tokens f ?l (getSetupMessage ?l)) [] = Inr a" for f
    using assms(1) by (intro setup_written) simp
  then show ?thesis using MRequest
    by (auto simp: turn_def remoteRequest_def Let_def) (metis go_bind.simps(2))
qed (auto simp: turn_def Let_def case_prod_unfold)


section \<open>Packets for a session\<close>

definition logs_fit :: "sessionService \<Rightarrow> bool" where
  "logs_fit sv \<longleftrightarrow> (\<forall>y \<in> set (sv_stories sv). \<forall>e \<in> set (story_log y). length (Payload e) \<le> 255)"

lemma pack_written:
  assumes "pack_ok t y p" and "\<forall>e \<in> set (sp_Stories p). length (Payload e) \<le> 255"
  shows "\<exists>a. StoryPack_Put p [] = Inr a"
proof -
  have "\<exists>s'. put_each PutEntry (sp_Stories p) s = Inr s'" for s
    using assms(2) by (intro put_each_Inr) (force simp: PutEntry_def PutBytes_def)
  then show ?thesis using pack_count [OF assms(1)] by (simp add: StoryPack_Put_def PutEntries_def)
qed

lemma missing_packs_written:
  assumes "story_ok y" and "\<forall>e \<in> set (story_log y). length (Payload e) \<le> 255" and "\<forall>r \<in> set rs. range_asked r"
    and "p \<in> set (missing_packs t rs y)"
  shows "\<exists>a. StoryPack_Put p [] = Inr a"
proof -
  have h: "history_ok (sd_History y)" "h_lastSeq (sd_History y) < int_lim"
    using assms(1) by (simp_all add: story_ok_def)
  show ?thesis
    using missing_packs_spec(3) [OF h assms(2,3)] missing_packs_entries [OF h assms(2,3,4)] assms(2,4)
    by (intro pack_written) blast+
qed

lemma go_map_total: "\<forall>x \<in> set xs. \<exists>y. f x = Inr y \<Longrightarrow> \<exists>ys. go_map f xs = Inr ys"
  by (induction xs) auto

lemma story_confirm_up:
  assumes ok: "session_ok sv" "logs_fit sv" and rs: "\<forall>r \<in> set (sc_Missing m). range_asked r"
  shows "\<exists>r sent. HandleStoryConfirm c m sv = Inr (r, sent) \<and>
    (\<forall>p. r = Inr (Some p) \<longrightarrow> (\<exists>a. StoryPack_Put p [] = Inr a))"
proof (cases "first_idx (\<lambda>y. st_Token (sd_Story y) = sc_StoryToken m) (sv_stories sv)")
  case (Some i)
  have "i < length (sv_stories sv)" using first_idx_Some [OF Some] by simp
  then have y: "sv_stories sv ! i \<in> set (sv_stories sv)" by simp
  let ?ps = "missing_packs (sv_Token sv) (sc_Missing m) (sv_stories sv ! i)"
  have w: "\<exists>a. StoryPack_Put p [] = Inr a" if "p \<in> set ?ps" for p
    using ok y by (intro missing_packs_written [OF _ _ rs that]) (auto simp: session_ok_def logs_fit_def)
  show ?thesis
  proof (cases ?ps)
    case (Cons p ps)
    have "\<exists>out. client_send (MStoryPack q) c = Inr out" if q: "q \<in> set ps" for q
    proof -
      obtain a where "StoryPack_Put q [] = Inr a" using w [of q] q Cons by auto
      then show ?thesis by (simp add: client_send_cases)
    qed
    then obtain outs where "go_map (\<lambda>m. client_send (MStoryPack m) c) ps = Inr outs"
      using go_map_total [of ps "\<lambda>m. client_send (MStoryPack m) c"] by blast
    moreover have "\<exists>a. StoryPack_Put p [] = Inr a" using w [of p] Cons by simp
    ultimately show ?thesis using Cons by (simp add: HandleStoryConfirm_def Some)
  qed (simp add: HandleStoryConfirm_def Some)
qed (simp add: HandleStoryConfirm_def)

lemma HandleActionPack_confirm:
  assumes "HandleActionPack now m c = Inr (Inr confirm, out, c')"
  shows "\<exists>a. ActionConfirm_Put confirm [] = Inr a"
proof -
  have "length (last_n 32 xs) \<le> 255" for xs :: "Range list" by (simp add: last_n_def)
  then have "length (ac_Missing confirm) \<le> 255"
    using assms
    by (auto simp: HandleActionPack_def ActionBufferCapacity_def Let_def go_bind_Inr_iff split: option.split_asm)
  then have "\<exists>s'. PutRanges (ac_Missing confirm) s = Inr s'" for s
    using put_each_Inr [of "ac_Missing confirm" "\<lambda>r s. Inr (PutRange r s)"] by (simp add: PutRanges_def)
  then show ?thesis by (simp add: ActionConfirm_Put_def)
qed

text \<open>A server in which no packet can cause a panic outside the parser.\<close>

definition server_up :: "server \<Rightarrow> bool" where
  "server_up s \<longleftrightarrow> routes_ok s \<and>
     (\<forall>t sv. session_at s t = Some sv \<longrightarrow> session_ok sv \<and> logs_fit sv) \<and>
     (\<forall>t l. lobby_at s t = Some l \<longrightarrow> texts_fit l)"

lemma client_packet_up:
  assumes sv: "session_ok sv" "logs_fit sv" and i: "i < length (sv_clients sv)" and m: "story_read m"
    and c: "cs_Session c = sv_Token sv" "cs_remoteActors c = cs_remoteActors (sv_clients sv ! i)"
  shows "\<exists>r c'. handle_client_message now m t i c sv s = Inr (r, put_client t i c' sv s) \<and>
    session_ok (sv\<lparr>sv_clients := (sv_clients sv)[i := c']\<rparr>)"
proof -
  have rem: "\<forall>r \<in> set (cs_remoteActors c). remote_ok (sv_latencyData sv) r"
    using sv(1) i nth_mem [OF i] unfolding c(2) session_ok_def by blast
  have up: "session_ok (sv\<lparr>sv_clients := (sv_clients sv)[i := c']\<rparr>)"
    if "cs_Session c' = cs_Session c" "\<forall>r \<in> set (cs_remoteActors c'). remote_ok (sv_latencyData sv) r" for c'
    using session_ok_client [OF sv(1) i, of c'] that c(1) by simp
  show ?thesis
  proof (cases m)
    case (MTestClient a)
    then show ?thesis using up [of c] rem by auto
  next
    case (MActionPack a)
    obtain q out c' where h: "HandleActionPack now a c = Inr (q, out, c')" "cs_Session c' = cs_Session c"
        "\<forall>r \<in> set (cs_remoteActors c'). remote_ok (sv_latencyData sv) r"
      using HandleActionPack_up [OF rem, of a now] m MActionPack by auto
    show ?thesis
    proof (cases q)
      case (Inr confirm)
      then obtain bs where "ActionConfirm_Put confirm [] = Inr bs" using HandleActionPack_confirm h(1) by blast
      then show ?thesis using MActionPack h(1) Inr up [OF h(2,3)] by auto
    qed (use MActionPack h up in auto)
  next
    case (MStoryConfirm a)
    obtain q sent where h: "HandleStoryConfirm c a sv = Inr (q, sent)"
        "\<forall>p. q = Inr (Some p) \<longrightarrow> (\<exists>a. StoryPack_Put p [] = Inr a)"
      using story_confirm_up [OF sv, of a c] m MStoryConfirm by auto
    consider (error) e where "q = Inl e" | (none) "q = Inr None" | (pack) p where "q = Inr (Some p)"
      by (metis obj_sumE option.exhaust)
    then show ?thesis
    proof cases
      case pack
      then obtain bs where "StoryPack_Put p [] = Inr bs" using h(2) by blast
      then show ?thesis using MStoryConfirm h(1) pack up [of c] rem by auto
    qed (use MStoryConfirm h(1) up [of c] rem in auto)
  qed
qed


section \<open>Any packet\<close>

lemma story_packet_up:
  assumes up: "server_up s" and m: "story_read m"
  shows "\<exists>r s'. handleStoryMessage now m addr s = Inr (r, s') \<and> server_up s'"
proof (cases "client_at s (shc_ClientToken (story_header m))")
  case None
  then show ?thesis using up by (simp add: handleStoryMessage_def)
next
  case (Some p)
  obtain t i where p: "p = (t, i)" by fastforce
  have r: "routes_ok s" using up by (simp add: server_up_def)
  have c: "client_at s (shc_ClientToken (story_header m)) = Some (t, i)" using Some p by simp
  obtain sv where sv: "session_at s t = Some sv" "i < length (sv_clients sv)"
    using r c unfolding routes_ok_def by blast
  have s: "session_ok sv" "logs_fit sv" using up sv(1) by (auto simp: server_up_def)
  let ?c = "UpdateState \<lparr>cd_LastMsgReceived = now, cd_Address = addr,
    cd_Latency = StoryGetLatency (story_header m)\<rparr> (sv_clients sv ! i)"
  have "cs_Session ?c = sv_Token sv" using s(1) sv(2) by (simp add: session_ok_def UpdateState_def)
  moreover have "cs_remoteActors ?c = cs_remoteActors (sv_clients sv ! i)" by (simp add: UpdateState_def)
  ultimately obtain r c' where h: "handle_client_message now m t i ?c sv s = Inr (r, put_client t i c' sv s)"
      "session_ok (sv\<lparr>sv_clients := (sv_clients sv)[i := c']\<rparr>)"
    using client_packet_up [OF s sv(2) m] by blast
  have "handle_client_message now m t i ?c sv s = handleStoryMessage now m addr s"
    by (simp add: handleStoryMessage_def c sv(1))
  then have e: "handleStoryMessage now m addr s = Inr (r, put_client t i c' sv s)" using h(1) by simp
  have "session_reaction m addr s r (put_client t i c' sv s)"
    using handle_client_reaction [OF h(1), of addr] c sv(1) by (simp add: UpdateState_def)
  then have "routes_ok (put_client t i c' sv s)"
    using routes_reaction \<open>routes_ok s\<close> by blast
  moreover have "logs_fit (sv\<lparr>sv_clients := (sv_clients sv)[i := c']\<rparr>)"
    using s(2) by (simp add: logs_fit_def)
  ultimately have "server_up (put_client t i c' sv s)"
    using up h(2) by (simp add: server_up_def put_client_def)
  then show ?thesis using e by blast
qed

lemma lobby_message_up:
  assumes up: "server_up s" and m: "lobby_read m"
  shows "\<exists>r s'. handleLobby now m addr s = Inr (r, s') \<and> server_up s'"
proof (cases "lobby_at s (lhc_LobbyToken (lobby_header m))")
  case None
  then show ?thesis using up by (simp add: handleLobby_def)
next
  case (Some l)
  let ?t = "lhc_LobbyToken (lobby_header m)" and ?l = "fst (turn now (HandleClient m addr) l)"
  have l: "lobby_ok l" "texts_fit l" "routes_ok s" using up Some by (auto simp: server_up_def routes_ok_def)
  obtain sent where "go_map (\<lambda>(m, dst). go_bind (Setup_Put m []) (\<lambda>a. Inr (a, dst)))
      (setup_packets (snd (turn now (HandleClient m addr) l))) = Inr sent"
    using lobby_packet_up [OF l(2) m] by blast
  then have "handleLobby now m addr s = Inr (no_reaction\<lparr>rx_sent := sent\<rparr>, put_lobby ?t ?l s)"
    by (simp add: handleLobby_def Some case_prod_unfold)
  moreover have "routes_ok (put_lobby ?t ?l s)"
    by (rule routes_lobby_again [OF l(3) Some turn_ok [OF l(1)]])
  then have "server_up (put_lobby ?t ?l s)"
    using up texts_client_turn [OF l(2) m, of now addr] by (auto simp: server_up_def)
  ultimately show ?thesis by blast
qed

text \<open>
  C16. No packet from the network brings a server down, whatever its bytes are and wherever it comes
  from, unless it is laid out as a story confirmation that makes the parser itself panic. In every
  other case the server answers or ignores it and keeps its invariant, so this holds for any number of
  packets in a row. What has to hold before is that the sessions are in order and that the texts and
  logged payloads that the game supplied fit the wire format.
\<close>

theorem only_bad_ranges_panic:
  assumes "server_up s"
  shows "(data ! 5 = TypeStory \<and> (\<exists>e. StoryParseClient data = Inl e)) \<or>
    (\<exists>r s'. HandleIncomingMessages now data addr s = Inr (r, s') \<and> server_up s')"
proof (cases "StoryParseClient data")
  case (Inl e)
  then show ?thesis using story_parse_panics by blast
next
  case (Inr story)
  obtain p ok where p: "ParsePing data = (p, ok)" by fastforce
  show ?thesis
  proof (cases "length data = 0 \<or> ok")
    case True
    then show ?thesis using assms p by (auto simp: HandleIncomingMessages_def)
  next
    case False
    show ?thesis
    proof (cases story)
      case (Some m)
      then have "HandleIncomingMessages now data addr s = handleStoryMessage now m addr s"
        using False p Inr by (simp add: HandleIncomingMessages_def)
      then show ?thesis using story_packet_up [OF assms story_parse_read] Inr Some by metis
    next
      case None
      show ?thesis
      proof (cases "LobbyParseClient data")
        case (Some m)
        then have "HandleIncomingMessages now data addr s = handleLobby now m addr s"
          using False p Inr None by (simp add: HandleIncomingMessages_def)
        then show ?thesis using lobby_message_up [OF assms lobby_parse_read [OF Some]] by metis
      qed (use False p Inr None assms in \<open>simp add: HandleIncomingMessages_def\<close>)
    qed
  qed
qed

text \<open>A server that runs the small session.\<close>

definition small_server :: server where
  "small_server = put_session 1 small_session
     ((NewServer zero_UDPAddr)\<lparr>sr_clientMap := [(2, (1, 0))]\<rparr>)"

lemma small_server_up: "server_up small_server"
  using small_session_ok(1)
  by (auto simp: server_up_def routes_ok_def small_server_def session_at_def client_at_def lobby_at_def
      put_session_def NewServer_def logs_fit_def) (auto simp: small_session_def)

text \<open>An action pack of its client for an actor that it does not have.\<close>

definition action_packet :: "byte list" where
  "action_packet = [0x3C, 0x75, 0x2A, 0x3E, 3, 1, 2, 0, 0, 0, 0, 0, 0, 0, 8, 0, 0, 0, 0]"

theorem only_bad_ranges_panic_witness:
  "\<exists>r s'. HandleIncomingMessages 4 action_packet zero_UDPAddr small_server = Inr (r, s') \<and> server_up s'"
proof -
  have "action_packet ! 5 \<noteq> TypeStory" by code_simp
  then show ?thesis using only_bad_ranges_panic [OF small_server_up, of action_packet 4 zero_UDPAddr] by blast
qed

end
