(* ===== verification/Handover.thy ===== *)
theory Handover
  imports Packets
begin

text \<open>
  From a lobby to its session, on one server: \<open>FinishLobby\<close>, the channels that the caller adds, and
  \<open>StartSession\<close>. A full lobby within the limits of sessions becomes a running session whose clients are
  the lobby's.
\<close>

section \<open>The actors of a lobby's session\<close>

lemma number_small:
  assumes "distinct (prev # new_stories prev ts)" and "\<forall>u. count_list ts u \<le> 64"
    and "unat k + count_list ts prev \<le> 64"
  shows "\<forall>c \<in> set (number prev k ts). unat (snd c) < 64"
  using assms
proof (induction ts arbitrary: prev k)
  case (Cons t ts)
  have le: "\<forall>u. count_list ts u \<le> 64"
    using Cons.prems(2) by (metis (full_types) count_list.simps(2) add_leD1 le_add1 le_trans)
  show ?case
  proof (cases "t = prev")
    case True
    have k: "unat k + 1 + count_list ts prev \<le> 64" using Cons.prems(3) True by simp
    then have "unat (k + 1) = unat k + 1" by (simp add: unat_word_ariths)
    with k Cons.IH [of prev "k + 1"] Cons.prems(1) le show ?thesis by (simp add: True)
  next
    case False
    have "distinct (t # new_stories t ts)" using Cons.prems(1) False by auto
    moreover have "unat (1 :: byte) + count_list ts t \<le> 64" using Cons.prems(2) [rule_format, of t] by simp
    ultimately have "\<forall>c \<in> set (number t 1 ts). unat (snd c) < 64" using le by (intro Cons.IH)
    then show ?thesis using False by simp
  qed
qed simp

definition from_slots :: "LobbySlot list \<Rightarrow> Session \<Rightarrow> bool" where
  "from_slots sls s \<longleftrightarrow> (\<forall>a \<in> set (session_actors s). \<exists>sl \<in> set sls. \<exists>k. a = slot_Actor sl k)"

lemma add_remote_actors:
  assumes "c \<in> set (add_remote sl k cs)" and "a \<in> set (cl_Actors c)"
  shows "ca_Actor a = slot_Actor sl k \<or> (\<exists>c \<in> set cs. a \<in> set (cl_Actors c))"
proof -
  let ?ca = "\<lparr>ca_Actor = slot_Actor sl k, ca_Channel = None\<rparr>"
  define cs' where "cs' = (if \<exists>c \<in> set cs. cl_Token c = ls_ClientToken sl then cs
    else cs @ [\<lparr>cl_Token = ls_ClientToken sl, cl_Actors = []\<rparr>])"
  have old: "\<exists>c \<in> set cs. a \<in> set (cl_Actors c)" if "c \<in> set cs'" "a \<in> set (cl_Actors c)" for c
    using that by (auto simp: cs'_def split: if_splits)
  show ?thesis
  proof (cases "first_idx (\<lambda>c. cl_Token c = ls_ClientToken sl) cs'")
    case None
    then show ?thesis using assms old by (auto simp: add_remote_def Let_def cs'_def [symmetric])
  next
    case (Some i)
    let ?c = "(cs' ! i)\<lparr>cl_Actors := cl_Actors (cs' ! i) @ [?ca]\<rparr>"
    have "c \<in> set (cs'[i := ?c])" using assms(1) Some by (simp add: add_remote_def Let_def cs'_def [symmetric])
    then have "c = ?c \<or> c \<in> set cs'" using set_update_subset_insert by fastforce
    moreover have "cs' ! i \<in> set cs'" using first_idx_Some [OF Some] by simp
    ultimately consider "a = ?ca" | c' where "c' \<in> set cs'" "a \<in> set (cl_Actors c')" using assms(2) by auto
    then show ?thesis using old by cases auto
  qed
qed

lemma session_slot_from:
  assumes "from_slots sls s" and "sl \<in> set sls"
  shows "from_slots sls (fst (session_slot sl (s, k, prev)))"
proof -
  have "(\<exists>k. a = slot_Actor sl k) \<or> a \<in> set (session_actors s)"
    if "a \<in> set (session_actors (fst (session_slot sl (s, k, prev))))" for a
    using that by (auto simp: session_slot_def session_actors_def Let_def dest!: add_remote_actors split: if_splits)
  then show ?thesis using assms unfolding from_slots_def by blast
qed

lemma lobby_session_from: "from_slots sls (lobbyToSession token name def sls)"
proof -
  let ?s0 = "\<lparr>ss_Token = token, ss_Name = name, ss_Def = def, ss_LocalActors = [], ss_Clients = [],
         ss_Stories = []\<rparr> :: Session"
  have "from_slots sls (fst (foldl (\<lambda>st sl. session_slot sl st) (?s0, 0, 0) sls))"
    by (rule foldl_invariant [where I = "\<lambda>st. from_slots sls (fst st)"])
      (auto simp: from_slots_def [of _ ?s0] session_actors_def intro: session_slot_from)
  then show ?thesis by (simp add: lobbyToSession_def)
qed

lemma connect_actors [simp]: "session_actors (connect f g s) = session_actors s"
  by (simp add: session_actors_def connect_def comp_def)

lemma remote_tokens_actors:
  "mset (map at_Token (session_actors s)) = mset (map at_Token (ss_LocalActors s)) + mset (remote_tokens (ss_Clients s))"
  by (simp add: session_actors_def map_concat comp_def)

lemma lobby_actors_apart:
  assumes "lobby_ok l" and "lb_state l \<noteq> StateActive" and "slots_fit (lb_slots l)" and "texts_fit l"
  shows "actors_apart_in (connect f g (lobbyToSession token name def (lb_slots l)))"
proof -
  let ?sls = "lb_slots l" and ?ts = "map ls_StoryToken (lb_slots l)"
  define n where "n = lobbyToSession token name def ?sls"
  have fit: "0 \<notin> set ?ts" "distinct (new_stories 0 ?ts)" "\<forall>t. count_list ?ts t \<le> 64"
    "\<forall>sl \<in> set ?sls. ls_ActorToken sl \<noteq> 0"
    using assms(3) by (simp_all add: slots_fit_def)
  note full = full_lobby_slots [OF assms(1,2) fit(4)]
  let ?s0 = "\<lparr>ss_Token = token, ss_Name = name, ss_Def = def, ss_LocalActors = [], ss_Clients = [],
         ss_Stories = []\<rparr> :: Session"
  obtain k prev where "foldl (\<lambda>st sl. session_slot sl st) (?s0, 0, 0) ?sls = (n, k, prev)"
    by (cases "foldl (\<lambda>st sl. session_slot sl st) (?s0, 0, 0) ?sls") (simp add: n_def lobbyToSession_def)
  note N = slots_fold [OF full(1) this]
  have N1: "mset (session_claims n) = mset (number 0 0 ?ts)"
    "map at_Token (ss_LocalActors n) = map ls_ActorToken (filter isLocal ?sls)"
    "mset (remote_tokens (ss_Clients n)) = mset (map ls_ActorToken (filter isRemote ?sls))"
    using N by (simp_all add: session_claims_def)
  have kinds: "filter (\<lambda>sl. \<not> isLocal sl) ?sls = filter isRemote ?sls"
    using full(1) kinds_exclusive(3) by (intro filter_cong) (auto simp: taken_def)
  have split: "mset (map f (filter P xs)) + mset (map f (filter (\<lambda>x. \<not> P x) xs)) = mset (map f xs)"
    for f :: "LobbySlot \<Rightarrow> token" and P xs
    by (induction xs) auto
  have "mset (map at_Token (session_actors n)) = mset (map ls_ActorToken ?sls)"
    unfolding remote_tokens_actors N1(2,3) kinds [symmetric] by (rule split)
  then have d: "distinct (map at_Token (session_actors n))"
    using full(2) mset_eq_imp_distinct_iff by (fastforce simp: tokens_ok_def)
  have "distinct (0 # new_stories 0 ?ts)" using fit(1,2) new_stories_sub [of 0 ?ts] by auto
  moreover have "unat (0 :: byte) + count_list ?ts 0 \<le> 64" using fit(1) by simp
  ultimately have "\<forall>c \<in> set (number 0 0 ?ts). unat (snd c) < 64" using number_small fit(3) by blast
  then have "\<forall>c \<in> set (session_claims n). unat (snd c) < 64" using mset_eq_setD [OF N1(1)] by simp
  then have i: "\<forall>a \<in> set (session_actors n). unat (at_Index a) < 64"
    by (auto simp: session_claims_actors claim_def)
  have "\<forall>a \<in> set (session_actors n). length (at_Name a) \<le> 255"
    using lobby_session_from [of ?sls token name def] assms(4)
    by (auto simp: from_slots_def n_def texts_fit_def slot_Actor_def)
  then show ?thesis
    using i distinct_filter_map [OF d] by (simp add: actors_apart_in_def story_actors_def n_def)
qed


lemma lobby_session_clients:
  assumes "\<forall>sl \<in> set sls. taken sl"
  shows "set (map cl_Token (ss_Clients (lobbyToSession token name def sls))) = ls_ClientToken ` set (filter isRemote sls)"
    and "ss_Token (lobbyToSession token name def sls) = token"
proof -
  let ?s0 = "\<lparr>ss_Token = token, ss_Name = name, ss_Def = def, ss_LocalActors = [], ss_Clients = [],
         ss_Stories = []\<rparr> :: Session"
  obtain n k prev where f: "foldl (\<lambda>st sl. session_slot sl st) (?s0, 0, 0) sls = (n, k, prev)"
    by (metis prod_cases3)
  then have "lobbyToSession token name def sls = n" by (simp add: lobbyToSession_def)
  then show "set (map cl_Token (ss_Clients (lobbyToSession token name def sls))) = ls_ClientToken ` set (filter isRemote sls)"
    and "ss_Token (lobbyToSession token name def sls) = token"
    using slots_fold [OF assms f] by (simp_all add: client_tokens_def)
qed

lemma new_session_stories:
  assumes "newSessionService session datas ctl = Inr (Inr sv)"
  shows "sv_stories sv = map newStoryData (ss_Stories session)"
proof -
  have v: "Session_Validate session = None"
    using assms by (auto simp: newSessionService_def split: option.splits)
  obtain r where r: "makeLatencyData session = Inr r"
    using assms by (cases "makeLatencyData session")
      (auto simp: newSessionService_def v go_map_Inr [OF newClientService_fresh])
  show ?thesis
    using assms by (cases r) (auto simp: newSessionService_def v r go_map_Inr [OF newClientService_fresh])
qed

text \<open>A session that passes the checks starts on a server where its tokens are free.\<close>

lemma server_starts:
  assumes up: "server_up s" and v: "Session_Validate session = None" and a: "actors_apart_in session"
    and free: "lobby_at s (ss_Token session) = None" "session_at s (ss_Token session) = None"
      "\<forall>c \<in> set (ss_Clients session). client_at s (cl_Token c) = None"
  shows "\<exists>s' sv. StartSession session datas ctl s = Inr (None, s') \<and> server_up s' \<and>
    session_at s' (ss_Token session) = Some sv \<and> running sv \<and>
    (\<forall>c \<in> set (ss_Clients session). \<exists>i. client_at s' (cl_Token c) = Some (ss_Token session, i))"
proof -
  obtain sv where sv: "newSessionService session datas ctl = Inr (Inr sv)" "session_ok sv"
      "map cs_Token (sv_clients sv) = map cl_Token (ss_Clients session)" "sv_state sv = SessionStateNew"
    using session_up [OF v a] by blast
  let ?sv = "snd (session_Start sv)" and ?t = "ss_Token session"
  define s' where "s' = put_session ?t ?sv
    (s\<lparr>sr_clientMap := add_clients ?t (ss_Clients session) (sr_clientMap s)\<rparr>)"
  have st: "StartSession session datas ctl s = Inr (None, s')"
    using free sv(1) by (auto simp: StartSession_def startSession_def s'_def)
  have r: "routes_ok s'" using routes_start [OF _ st] up by (simp add: server_up_def)
  have at: "session_at s' u = (if u = ?t then Some ?sv else session_at s u)" "lobby_at s' u = lobby_at s u" for u
    by (simp_all add: s'_def session_at_def lobby_at_def put_session_def update_conv')
  have "session_ok ?sv" "running ?sv" "sv_clients ?sv = sv_clients sv" "sv_stories ?sv = sv_stories sv"
    using sv by (simp_all add: session_Start_def session_ok_def running_def state_order)
  moreover from this have "logs_fit ?sv"
    using zero_history_ok(2) by (auto simp: logs_fit_def new_session_stories [OF sv(1)] newStoryData_def)
  moreover have "\<exists>i. client_at s' (cl_Token c) = Some (?t, i)" if c: "c \<in> set (ss_Clients session)" for c
  proof -
    have "cl_Token c \<in> set (map cs_Token (sv_clients sv))" using c unfolding sv(3) by simp
    then obtain i where "i < length (sv_clients ?sv)" "cs_Token (sv_clients ?sv ! i) = cl_Token c"
      using calculation(3) by (auto simp: in_set_conv_nth)
    then show ?thesis using r at(1) [of ?t] unfolding routes_ok_def by (metis (full_types))
  qed
  ultimately show ?thesis
    using st up r by (intro exI [of _ s'] exI [of _ ?sv]) (auto simp: server_up_def at)
qed

section \<open>Properties\<close>


definition full_lobby :: lobbyService where
  "full_lobby = fst (turn 4 sample_join (fst (turn 3 (JoinReq 3 0 0 [66]) sample_lobby)))"

definition full_server :: server where
  "full_server = put_lobby 1 full_lobby (NewServer zero_UDPAddr)"


end
