(* ===== verification/ClientSetup.thy ===== *)
theory ClientSetup
  imports Validity
begin

text \<open>
  \<open>udpstar/client/setup.go\<close>: the client's description of a session, its validation and the actors of
  a story. The types have the names of the server's with a \<open>C\<close>; an actor without a token belongs to
  another client. Masks, channels and error texts are as in the server's validation.
\<close>

section \<open>Sessions\<close>

record CActor =
  pa_Token :: token
  pa_Story :: token
  pa_Name :: gostring
  pa_Index :: byte
  pa_InputCh :: channel

record CStory =
  py_Token :: token
  py_Channel :: channel

record CSession =
  pn_Token :: token
  pn_Name :: gostring
  pn_Def :: "byte list"
  pn_ClientToken :: token
  pn_Actors :: "CActor list"
  pn_Stories :: "CStory list"

section \<open>Validation\<close>

fun check_cstories :: "CStory list \<Rightarrow> story_masks \<Rightarrow> string + story_masks" where
  "check_cstories [] m = Inr m"
| "check_cstories (y # ys) m =
     (if py_Token y = 0 then Inl ''token is missing for story''
      else if py_Channel y = None then Inl ''no channel provided for story''
      else if map_of m (py_Token y) \<noteq> None then Inl ''story tokens are not unique''
      else check_cstories ys (m @ [(py_Token y, 0)]))"

definition take_cindex :: "CActor \<Rightarrow> story_masks \<Rightarrow> string + story_masks" where
  "take_cindex a m =
     (case map_of m (pa_Story a) of
        None \<Rightarrow> Inl ''actor linked to unknown story''
      | Some bits \<Rightarrow>
          if bits AND index_mask (pa_Index a) \<noteq> 0 then Inl ''actor on occupied slot''
          else Inr (AList.update (pa_Story a) (bits OR index_mask (pa_Index a)) m))"

fun check_cactors :: "CActor list \<Rightarrow> token list \<Rightarrow> story_masks \<Rightarrow> string + story_masks" where
  "check_cactors [] seen m = Inr m"
| "check_cactors (a # as) seen m =
     (if pa_Token a \<noteq> 0 \<and> pa_Token a \<in> set seen then Inl ''local actor tokens are not unique''
      else if pa_Token a \<noteq> 0 \<and> pa_InputCh a = None then Inl ''no channel provided for actor''
      else case take_cindex a m of
          Inl e \<Rightarrow> Inl e
        | Inr m' \<Rightarrow> check_cactors as (if pa_Token a \<noteq> 0 then pa_Token a # seen else seen) m')"

definition CSession_Validate :: "CSession \<Rightarrow> string option" where
  "CSession_Validate s =
     (if pn_Token s = 0 then Some ''token is missing for the session''
      else if length (pn_Stories s) = 0 then Some ''no stories defined''
      else if length (pn_Stories s) > 8 then Some ''too many stories defined''
      else if length (pn_Actors s) = 0 then Some ''no actors defined''
      else if length (pn_Actors s) > 64 then Some ''too many actors defined''
      else case check_cstories (pn_Stories s) [] of
          Inl e \<Rightarrow> Some e
        | Inr m0 \<Rightarrow>
            (case check_cactors (pn_Actors s) [] m0 of
               Inl e \<Rightarrow> Some e
             | Inr m1 \<Rightarrow>
                 if \<forall>(t, bits) \<in> set m1. mask_full bits then None
                 else Some ''story is missing some actors''))"

section \<open>The actors of a story\<close>

record CStoryActorInfo =
  pi_Token :: token
  pi_Name :: gostring
  pi_ActorIdx :: byte

fun add_cinfos :: "(byte \<times> CStoryActorInfo) list \<Rightarrow> (byte \<times> CStoryActorInfo) list
    \<Rightarrow> string + (byte \<times> CStoryActorInfo) list" where
  "add_cinfos [] m = Inr m"
| "add_cinfos ((idx, i) # is) m =
     (if map_of m idx \<noteq> None then Inl ''duplicate story actor index'' else add_cinfos is ((idx, i) # m))"

definition cinfos :: "token \<Rightarrow> CSession \<Rightarrow> (byte \<times> CStoryActorInfo) list" where
  "cinfos t s =
     map (\<lambda>(k, a). (pa_Index a, \<lparr>pi_Token = pa_Token a, pi_Name = pa_Name a, pi_ActorIdx = word_of_nat k\<rparr>))
       (filter (\<lambda>(k, a). pa_Story a = t) (enumerate 0 (pn_Actors s)))"

definition CStoryActors :: "token \<Rightarrow> CSession \<Rightarrow> string + CStoryActorInfo list" where
  "CStoryActors storyToken s =
     (case add_cinfos (cinfos storyToken s) [] of
        Inl e \<Rightarrow> Inl e
      | Inr m \<Rightarrow>
          let count = (word_of_nat (length m) :: byte)
          in if \<exists>(idx, _) \<in> set m. idx \<ge> count then Inl ''story actor index out of range''
             else Inr (foldl (\<lambda>as (idx, a). as[unat idx := a])
               (replicate (unat count) \<lparr>pi_Token = 0, pi_Name = [], pi_ActorIdx = 0\<rparr>) m))"

section \<open>What Validate accepts\<close>

definition cclaim :: "CActor \<Rightarrow> token \<times> byte" where
  "cclaim a = (pa_Story a, pa_Index a)"

definition own_tokens :: "CActor list \<Rightarrow> token list" where
  "own_tokens as = filter (\<lambda>t. t \<noteq> 0) (map pa_Token as)"

definition csession_valid :: "CSession \<Rightarrow> bool" where
  "csession_valid s \<longleftrightarrow> pn_Token s \<noteq> 0 \<and> 1 \<le> length (pn_Stories s) \<and> length (pn_Stories s) \<le> 8 \<and>
     1 \<le> length (pn_Actors s) \<and> length (pn_Actors s) \<le> 64 \<and>
     tokens_ok [] (map py_Token (pn_Stories s)) \<and> (\<forall>y \<in> set (pn_Stories s). py_Channel y \<noteq> None) \<and>
     distinct (own_tokens (pn_Actors s)) \<and>
     (\<forall>a \<in> set (pn_Actors s). pa_Token a \<noteq> 0 \<longrightarrow> pa_InputCh a \<noteq> None) \<and>
     claims_ok (map py_Token (pn_Stories s)) (map cclaim (pn_Actors s)) \<and>
     (\<forall>y \<in> set (pn_Stories s). gapless (map cclaim (pn_Actors s)) (py_Token y))"

text \<open>The client's loops are the server's on actors and stories with the same tokens.\<close>

definition as_actor :: "CActor \<Rightarrow> Actor" where
  "as_actor a = \<lparr>at_Token = pa_Token a, at_Name = pa_Name a, at_Config = None, at_Story = pa_Story a,
     at_Index = pa_Index a\<rparr>"

lemma take_cindex_eq: "take_cindex a m = take_index (as_actor a) m"
  by (cases "map_of m (pa_Story a)") (simp_all add: take_cindex_def take_index_def as_actor_def)

lemma claim_as_actor: "claim (as_actor a) = cclaim a"
  by (simp add: claim_def as_actor_def cclaim_def)

lemma check_cactors_settles:
  assumes "masks_of ts L m" and "claims_ok ts L"
  shows "settles (tokens_ok seen (own_tokens as) \<and> (\<forall>a \<in> set as. pa_Token a \<noteq> 0 \<longrightarrow> pa_InputCh a \<noteq> None)) ts
    (L @ map cclaim as) (check_cactors as seen m)"
  using assms
proof (induction as arbitrary: seen L m)
  case (Cons a as)
  let ?seen = "if pa_Token a \<noteq> 0 then pa_Token a # seen else seen"
  let ?g = "tokens_ok ?seen (own_tokens as) \<and> (\<forall>a \<in> set as. pa_Token a \<noteq> 0 \<longrightarrow> pa_InputCh a \<noteq> None)"
  have own: "own_tokens (a # as) = (if pa_Token a \<noteq> 0 then pa_Token a # own_tokens as else own_tokens as)"
    by (simp add: own_tokens_def)
  show ?case
  proof (cases "pa_Token a \<noteq> 0 \<and> (pa_Token a \<in> set seen \<or> pa_InputCh a = None)")
    case True
    then show ?thesis by (auto simp: own intro!: settles_error)
  next
    case False
    have "settles ?g ts (L @ claim (as_actor a) # map cclaim as)
      (case take_index (as_actor a) m of Inl e \<Rightarrow> Inl e | Inr m' \<Rightarrow> check_cactors as ?seen m')"
    proof (rule settles_step [OF Cons.prems])
      fix m' assume "claims_ok ts (L @ [claim (as_actor a)])" "masks_of ts (L @ [claim (as_actor a)]) m'"
      from Cons.IH [OF this(2,1), of ?seen]
      show "settles ?g ts (L @ claim (as_actor a) # map cclaim as) (check_cactors as ?seen m')" by simp
    qed
    moreover have "(tokens_ok seen (own_tokens (a # as)) \<and>
        (\<forall>a \<in> set (a # as). pa_Token a \<noteq> 0 \<longrightarrow> pa_InputCh a \<noteq> None)) = ?g"
      using False by (auto simp: own)
    moreover have "check_cactors (a # as) seen m =
        (case take_index (as_actor a) m of Inl e \<Rightarrow> Inl e | Inr m' \<Rightarrow> check_cactors as ?seen m')"
      using False by (auto simp: take_cindex_eq)
    ultimately show ?thesis by (simp only: list.map claim_as_actor)
  qed
qed (simp add: settles_def own_tokens_def)

lemma check_cstories_eq:
  "(case check_cstories ys m of Inl _ \<Rightarrow> None | Inr m' \<Rightarrow> Some m') =
   (case check_stories (map (\<lambda>y. \<lparr>st_Token = py_Token y, st_Channel = py_Channel y\<rparr>) ys) m of
      Inl _ \<Rightarrow> None | Inr m' \<Rightarrow> Some m')"
  by (induction ys arbitrary: m) auto

lemma check_cstories_spec:
  shows "case check_cstories ys [] of
      Inl _ \<Rightarrow> \<not> (tokens_ok [] (map py_Token ys) \<and> (\<forall>y \<in> set ys. py_Channel y \<noteq> None))
    | Inr m' \<Rightarrow> tokens_ok [] (map py_Token ys) \<and> (\<forall>y \<in> set ys. py_Channel y \<noteq> None) \<and>
        masks_of (map py_Token ys) [] m'"
proof -
  have "masks_of [] [] []" "distinct []" by (simp_all add: masks_of_def)
  from check_stories_spec [OF this, of "map (\<lambda>y. \<lparr>st_Token = py_Token y, st_Channel = py_Channel y\<rparr>) ys"]
  show ?thesis using check_cstories_eq [of ys "[]"]
    by (cases "check_cstories ys []";
        cases "check_stories (map (\<lambda>y. \<lparr>st_Token = py_Token y, st_Channel = py_Channel y\<rparr>) ys) []")
      (simp_all add: comp_def)
qed

lemma CSession_Validate_spec: "CSession_Validate s = None \<longleftrightarrow> csession_valid s"
proof -
  let ?ts = "map py_Token (pn_Stories s)" and ?L = "map cclaim (pn_Actors s)"
  note st = check_cstories_spec [of "pn_Stories s"]
  show ?thesis
  proof (cases "check_cstories (pn_Stories s) []")
    case (Inl e)
    then show ?thesis using st by (auto simp: CSession_Validate_def csession_valid_def)
  next
    case (Inr m0)
    have s0: "tokens_ok [] ?ts" "\<forall>y \<in> set (pn_Stories s). py_Channel y \<noteq> None" "masks_of ?ts [] m0"
      using st Inr by simp_all
    have c0: "claims_ok ?ts []" by (simp add: claims_ok_def)
    have own: "tokens_ok [] (own_tokens as) = distinct (own_tokens as)" for as
      by (simp add: tokens_ok_def own_tokens_def)
    note ac = check_cactors_settles [OF s0(3) c0, of "[]" "pn_Actors s", simplified, unfolded own]
    show ?thesis
    proof (cases "check_cactors (pn_Actors s) [] m0")
      case A: (Inl e)
      then show ?thesis using Inr ac by (auto simp: CSession_Validate_def csession_valid_def settles_def)
    next
      case A: (Inr m1)
      then have s1: "distinct (own_tokens (pn_Actors s))"
        "\<forall>a \<in> set (pn_Actors s). pa_Token a \<noteq> 0 \<longrightarrow> pa_InputCh a \<noteq> None" "claims_ok ?ts ?L" "masks_of ?ts ?L m1"
        using ac by (auto simp: settles_def)
      have d: "distinct ?ts" using s0(1) by (simp add: tokens_ok_def)
      have "CSession_Validate s = None \<longleftrightarrow> pn_Token s \<noteq> 0 \<and> 1 \<le> length (pn_Stories s) \<and>
          length (pn_Stories s) \<le> 8 \<and> 1 \<le> length (pn_Actors s) \<and> length (pn_Actors s) \<le> 64 \<and>
          (\<forall>(t, w) \<in> set m1. mask_full w)"
        using Inr A by (auto simp: CSession_Validate_def Suc_le_eq)
      then show ?thesis
        using s0(1,2) s1 all_full [OF s1(4,3) d] by (auto simp: csession_valid_def)
    qed
  qed
qed


section \<open>Properties\<close>

text \<open>
  C31. The client's validation accepts exactly the sessions whose token is set, with one to eight
  stories of different tokens and with channels, one to 64 actors whose own tokens are different and
  have channels, and indices below 64 that, story by story, are different and start at 0 without a gap.
\<close>

theorem CValidate_exact: "CSession_Validate s = None \<longleftrightarrow> csession_valid s"
  by (rule CSession_Validate_spec)

end
