(* ===== verification/Stories.thy ===== *)
theory Stories
  imports ClientSetup Packets
begin

text \<open>
  \<open>udpstar/client/service_story.go\<close>: how a client receives the stories. Every story has a stream, the
  set of the numbers it lacks and a timer; a pack goes through the engine, its new entries are
  delivered on the channel of the story and confirmed with the ranges that have just become missing,
  and when the timer expires the whole set is asked for. \<open>ys_request\<close> is the duration the timer was
  last set to. Confirmations are given without the fields of the header, which the sender fills in.
\<close>

section \<open>State\<close>

record storyStream =
  ys_story :: CStory
  ys_stream :: Stream
  ys_missing :: RangeSet
  ys_request :: "duration option"
  ys_quality :: int

type_synonym storyService = "storyStream list"

definition newStoryStream :: "CStory \<Rightarrow> storyStream go" where
  "newStoryStream y =
     go_bind (NewStream []) (\<lambda>st.
       Inr \<lparr>ys_story = y, ys_stream = st, ys_missing = [], ys_request = Some ns_Millisecond, ys_quality = 0\<rparr>)"

definition newStoryService :: "CStory list \<Rightarrow> storyService go" where
  "newStoryService stories = go_map newStoryStream stories"

definition stopRequestTimer :: "storyStream \<Rightarrow> storyStream" where
  "stopRequestTimer y = y\<lparr>ys_request := None\<rparr>"

definition resetRequestTimer :: "duration \<Rightarrow> storyStream \<Rightarrow> storyStream" where
  "resetRequestTimer d y = (stopRequestTimer y)\<lparr>ys_request := Some d\<rparr>"

section \<open>The loop\<close>

definition requestDelay :: duration where
  "requestDelay = ns_Second"

definition story_confirm :: "token \<Rightarrow> int \<Rightarrow> Range list \<Rightarrow> StoryConfirm" where
  "story_confirm t q missing =
     \<lparr>sc_Header = zero_StoryHeaderClient, sc_StoryToken = t, sc_LastSequence = q, sc_Missing = missing\<rparr>"

definition confirm_range :: "token \<Rightarrow> int \<Rightarrow> Range \<Rightarrow> Range list \<times> StoryConfirm list
    \<Rightarrow> bool \<times> (Range list \<times> StoryConfirm list)" where
  "confirm_range t q r = (\<lambda>(missing, sent).
     let missing = missing @ [r]
     in if int (length missing) = LenStoryConfirm then (True, [], sent @ [story_confirm t q missing])
        else (True, missing, sent))"

definition sendConfirm :: "token \<Rightarrow> int \<Rightarrow> Range list \<Rightarrow> StoryConfirm list" where
  "sendConfirm t q rs =
     (let (missing, sent) = Iterate rs (confirm_range t q) ([], [])
      in sent @ [story_confirm t q missing])"

definition stream_asks :: "storyStream \<Rightarrow> StoryConfirm list \<times> storyStream" where
  "stream_asks y =
     (sendConfirm (py_Token (ys_story y)) (Stream_Sequence (ys_stream y)) (ys_missing y),
      resetRequestTimer requestDelay y)"

definition stream_takes :: "time \<Rightarrow> StoryPack \<Rightarrow> storyStream
    \<Rightarrow> (byte list list \<times> StoryConfirm list \<times> storyStream) go" where
  "stream_takes now msg y =
     go_bind (engine (sp_Stories msg) (ys_stream y) (Some (ys_missing y)) now) (\<lambda>(st, m, events, newly).
       let y1 = y\<lparr>ys_stream := st, ys_missing := the m\<rparr>;
           y2 = resetRequestTimer requestDelay y1
       in Inr (map Payload events,
               sendConfirm (py_Token (ys_story y)) (Stream_Sequence st) newly,
               y2\<lparr>ys_quality := u64 (Stream_Quality st)\<rparr>))"

definition service_asks :: "nat \<Rightarrow> storyService \<Rightarrow> StoryConfirm list \<times> storyService" where
  "service_asks k s = (let (cs, y) = stream_asks (s ! k) in (cs, s[k := y]))"

text \<open>What a pack delivers is given with the place of its story.\<close>

definition HandlePack :: "time \<Rightarrow> StoryPack \<Rightarrow> storyService
    \<Rightarrow> ((nat \<times> byte list) list \<times> StoryConfirm list \<times> storyService) go" where
  "HandlePack now msg s =
     (case first_idx (\<lambda>y. py_Token (ys_story y) = sp_StoryToken msg) s of
        None \<Rightarrow> Inr ([], [], s)
      | Some k \<Rightarrow> go_bind (stream_takes now msg (s ! k)) (\<lambda>(out, cs, y). Inr (map (Pair k) out, cs, s[k := y])))"

definition stories_stop :: "storyService \<Rightarrow> storyService" where
  "stories_stop s = map stopRequestTimer s"

definition Quality :: "storyService \<Rightarrow> duration" where
  "Quality s = i64 (foldl (\<lambda>q y. max q (ys_quality y)) 0 s)"

section \<open>Confirmations\<close>

text \<open>The ranges of the confirmations: groups of 60, and what is left.\<close>

lemma confirm_range_full [simp]:
  "length missing = 59 \<Longrightarrow> confirm_range t q r (missing, sent) = (True, [], sent @ [story_confirm t q (missing @ [r])])"
  "length missing \<noteq> 59 \<Longrightarrow> confirm_range t q r (missing, sent) = (True, missing @ [r], sent)"
  by (simp_all add: confirm_range_def LenStoryConfirm_def Let_def)

lemma Iterate_confirm:
  assumes "length missing < 60"
  shows "\<exists>missing' new. Iterate rs (confirm_range t q) (missing, sent) = (missing', sent @ map (story_confirm t q) new) \<and>
    concat new @ missing' = missing @ rs \<and> (\<forall>g \<in> set new. length g = 60) \<and> length missing' < 60"
  using assms
proof (induction rs arbitrary: missing sent)
  case (Cons r rs)
  show ?case
  proof (cases "length missing = 59")
    case True
    obtain m' new where i: "Iterate rs (confirm_range t q) ([], sent @ [story_confirm t q (missing @ [r])]) =
          (m', (sent @ [story_confirm t q (missing @ [r])]) @ map (story_confirm t q) new)"
        "concat new @ m' = rs" "\<forall>g \<in> set new. length g = 60" "length m' < 60"
      using Cons.IH [of "[]" "sent @ [story_confirm t q (missing @ [r])]"] by auto
    then show ?thesis using True
      by (intro exI [of _ m'] exI [of _ "(missing @ [r]) # new"]) (simp add: Let_def)
  next
    case False
    then have l: "length (missing @ [r]) < 60" using Cons.prems by simp
    show ?thesis using Cons.IH [OF l, of sent] False by (simp add: Let_def)
  qed
qed simp

definition asks :: "Range list \<Rightarrow> StoryConfirm list \<Rightarrow> token \<Rightarrow> int \<Rightarrow> bool" where
  "asks rs cs t q \<longleftrightarrow> cs \<noteq> [] \<and> concat (map sc_Missing cs) = rs \<and>
     (\<forall>c \<in> set (butlast cs). length (sc_Missing c) = 60) \<and> length (sc_Missing (last cs)) < 60 \<and>
     (\<forall>c \<in> set cs. c = story_confirm t q (sc_Missing c))"

lemma sendConfirm_asks: "asks rs (sendConfirm t q rs) t q"
proof -
  obtain m' new where i: "Iterate rs (confirm_range t q) ([], []) = (m', map (story_confirm t q) new)"
      "concat new @ m' = rs" "\<forall>g \<in> set new. length g = 60" "length m' < 60"
    using Iterate_confirm [of "[]" rs t q "[]"] by auto
  have "map sc_Missing (map (story_confirm t q) new) = new" by (simp add: story_confirm_def comp_def)
  then show ?thesis using i by (auto simp: sendConfirm_def asks_def story_confirm_def)
qed

section \<open>Streams that read packs from the wire\<close>

definition pack_read :: "StoryPack \<Rightarrow> bool" where
  "pack_read m \<longleftrightarrow> (\<forall>e \<in> set (sp_Stories m). seq32 (Seq e))"

lemma story_parse_packs:
  assumes "StoryParseServer buf = Inr (Some (MStoryPack m))"
  shows "pack_read m"
proof -
  have "pack_read (snd g)"
    if "StoryPack_Get buf \<lparr>sp_Header = h, sp_StoryToken = 0, sp_Stories = []\<rparr> = Inr g" for g h
    using that by (auto simp: pack_read_def StoryPack_Get_def go_bind_Inr_iff Let_def case_prod_unfold got_def invalid_def
        dest!: GetEntries_seq32 split: if_splits)
  then show ?thesis using assms by (auto simp: StoryParseServer_def Let_def dest!: go_parsed_Some split: if_splits)
qed

lemma pack_feed: "pack_read m \<Longrightarrow> feed_ok (sp_Stories m)"
  by (fastforce simp: pack_read_def feed_ok_def seq32_def)

text \<open>A stream that has been fed the packs \<open>fs\<close> and has delivered \<open>out\<close>.\<close>

definition fed :: "(time \<times> Entry list) list \<Rightarrow> Entry list \<Rightarrow> storyStream \<Rightarrow> bool" where
  "fed fs out y \<longleftrightarrow> run_push fs zero_Stream = (ys_stream y, out) \<and> engine_ok (ys_stream y) (ys_missing y) \<and>
     received (ys_stream y) \<subseteq> {1..<2 ^ 32} \<and> (\<forall>(now, es) \<in> set fs. \<forall>e \<in> set es. seq32 (Seq e))"

lemma new_stream:
  obtains y' where "newStoryStream y = Inr y'" "fed [] [] y'" "ys_story y' = y"
proof -
  have "NewStream [] = Inr zero_Stream" by (simp add: NewStream_def)
  moreover have "engine_ok zero_Stream []" "received zero_Stream = {}"
    by (rule engine_ok_zero, simp add: received_def ahead_seqs_def zero_Stream_def)
  ultimately show ?thesis
    using that [of "\<lparr>ys_story = y, ys_stream = zero_Stream, ys_missing = [], ys_request = Some ns_Millisecond, ys_quality = 0\<rparr>"]
    by (simp add: newStoryStream_def fed_def)
qed

lemma run_push_snoc:
  "run_push (fs @ [(now, es)]) s = (let (s1, r) = run_push fs s; (s2, q) = push now es s1 in (s2, r @ q))"
proof (induction fs arbitrary: s)
  case (Cons f fs)
  then show ?case by (cases f) (auto simp: Let_def split: prod.splits)
qed (simp add: Let_def case_prod_unfold)

lemma gaps_received: "gaps s \<subseteq> {x. \<exists>y \<in> received s. x < y}"
  by (auto simp: gaps_def received_def)

lemma ranges_on_wire:
  assumes "rs_ok rs" and "seqs rs \<subseteq> {..<2 ^ 32 - 1}"
  shows "\<forall>r \<in> set rs. wire_range r"
proof
  fix r assume r: "r \<in> set rs"
  have ok: "range_ok r" using assms(1) r by (simp add: rs_ok_def list_all_iff)
  have "rng_seq r + rng_len r - 1 \<in> seqs_of r" using ok by (simp add: seqs_of_def range_ok_def)
  then have "rng_seq r + rng_len r - 1 < 2 ^ 32 - 1" using assms(2) r by (auto simp: seqs_def)
  then show "wire_range r" using ok by (simp add: wire_range_def)
qed

lemma fed_wire:
  assumes "fed fs out y"
  shows "\<forall>r \<in> set (ys_missing y). wire_range r" and "seq_valid (Stream_Sequence (ys_stream y))"
    and "rs_ok rs \<Longrightarrow> seqs rs \<subseteq> gaps (ys_stream y) \<Longrightarrow> \<forall>r \<in> set rs. wire_range r"
proof -
  have e: "rs_ok (ys_missing y)" "seqs (ys_missing y) = gaps (ys_stream y)" "stream_ok (ys_stream y)"
    using assms by (simp_all add: fed_def engine_ok_def)
  have r: "received (ys_stream y) \<subseteq> {1..<2 ^ 32}" using assms by (simp add: fed_def)
  then have g: "gaps (ys_stream y) \<subseteq> {..<2 ^ 32 - 1}" using gaps_received [of "ys_stream y"] by force
  then show "\<forall>r \<in> set (ys_missing y). wire_range r" using ranges_on_wire e by simp
  show "rs_ok rs \<Longrightarrow> seqs rs \<subseteq> gaps (ys_stream y) \<Longrightarrow> \<forall>r \<in> set rs. wire_range r" using ranges_on_wire g by blast
  have "0 \<le> lastSeq (ys_stream y)" using e(3) by (simp add: stream_ok_def loop_ok_def)
  moreover have "lastSeq (ys_stream y) < 2 ^ 32"
  proof (cases "lastSeq (ys_stream y) \<ge> 1")
    case True
    then have "lastSeq (ys_stream y) \<in> received (ys_stream y)" by (simp add: received_def)
    then show ?thesis using r by auto
  qed simp
  ultimately show "seq_valid (Stream_Sequence (ys_stream y))" by (simp add: Stream_Sequence_def seq_valid_def)
qed

lemma stream_takes_fed:
  assumes f: "fed fs out y" and m: "pack_read msg"
  shows "\<exists>new cs y'. stream_takes now msg y = Inr (map Payload new, cs, y') \<and>
    fed (fs @ [(now, sp_Stories msg)]) (out @ new) y' \<and> ys_story y' = ys_story y \<and>
    (\<exists>newly. asks newly cs (py_Token (ys_story y)) (Stream_Sequence (ys_stream y')) \<and> rs_ok newly \<and>
       gaps (ys_stream y') - gaps (ys_stream y) \<subseteq> seqs newly \<and> seqs newly \<subseteq> gaps (ys_stream y'))"
proof -
  have e: "engine_ok (ys_stream y) (ys_missing y)" "run_push fs zero_Stream = (ys_stream y, out)"
    using f by (simp_all add: fed_def)
  obtain st m' new newly where n: "engine (sp_Stories msg) (ys_stream y) (Some (ys_missing y)) now = Inr (st, Some m', new, newly)"
      "push now (sp_Stories msg) (ys_stream y) = (st, new)" "engine_ok st m'" "rs_ok newly"
      "gaps st - gaps (ys_stream y) \<subseteq> seqs newly" "seqs newly \<subseteq> gaps st"
    using engine_spec [OF e(1) pack_feed [OF m]] by metis
  have s: "stream_ok (ys_stream y)" using e(1) by (simp add: engine_ok_def)
  have w: "maxWaitTime (ys_stream y) = 0"
  proof -
    have "\<forall>(now, es) \<in> set fs. feed_ok es" using f by (fastforce simp: fed_def feed_ok_def seq32_def)
    from run_push_delivers [OF stream_ok_zero this e(2)] show ?thesis
      by (simp add: delivers_def) (simp add: zero_Stream_def)
  qed
  have "received st \<subseteq> received (ys_stream y) \<union> feed_seqs (sp_Stories msg)"
    using push_nowait [OF s pack_feed [OF m] w n(2)] by blast
  moreover have "feed_seqs (sp_Stories msg) \<subseteq> {1..<2 ^ 32}"
    using m by (auto simp: feed_seqs_def pack_read_def seq32_def)
  ultimately have rc: "received st \<subseteq> {1..<2 ^ 32}" using f by (auto simp: fed_def)
  have rp: "run_push (fs @ [(now, sp_Stories msg)]) zero_Stream = (st, out @ new)"
    by (simp add: run_push_snoc e(2) n(2))
  let ?y = "(resetRequestTimer requestDelay (y\<lparr>ys_stream := st, ys_missing := m'\<rparr>))\<lparr>ys_quality := u64 (Stream_Quality st)\<rparr>"
  have "fed (fs @ [(now, sp_Stories msg)]) (out @ new) ?y"
    using rp n(3) rc f m by (simp add: fed_def resetRequestTimer_def stopRequestTimer_def pack_read_def)
  moreover have "stream_takes now msg y =
      Inr (map Payload new, sendConfirm (py_Token (ys_story y)) (Stream_Sequence st) newly, ?y)"
    by (simp add: stream_takes_def n(1) Let_def)
  ultimately show ?thesis using sendConfirm_asks n(4-6)
    by (intro exI [of _ new] exI [of _ "sendConfirm (py_Token (ys_story y)) (Stream_Sequence st) newly"] exI [of _ ?y])
      (simp add: resetRequestTimer_def stopRequestTimer_def, blast)
qed

section \<open>Runs of the service\<close>

datatype story_event = Gets time StoryPack | Asks nat

fun story_step :: "story_event \<Rightarrow> storyService \<Rightarrow> ((nat \<times> byte list) list \<times> StoryConfirm list \<times> storyService) go" where
  "story_step (Gets now msg) s = HandlePack now msg s"
| "story_step (Asks k) s = (let (cs, s') = service_asks k s in Inr ([], cs, s'))"

fun story_run :: "story_event list \<Rightarrow> storyService \<Rightarrow> ((nat \<times> byte list) list \<times> StoryConfirm list \<times> storyService) go" where
  "story_run [] s = Inr ([], [], s)"
| "story_run (v # vs) s =
     go_bind (story_step v s) (\<lambda>(out, cs, s1).
       go_bind (story_run vs s1) (\<lambda>(out', cs', s2). Inr (out @ out', cs @ cs', s2)))"

text \<open>The packs of a run that belong to one story.\<close>

fun feed_for :: "token \<Rightarrow> story_event \<Rightarrow> (time \<times> Entry list) list" where
  "feed_for t (Gets now msg) = (if sp_StoryToken msg = t then [(now, sp_Stories msg)] else [])"
| "feed_for t (Asks k) = []"

definition feeds_for :: "token \<Rightarrow> story_event list \<Rightarrow> (time \<times> Entry list) list" where
  "feeds_for t vs = concat (map (feed_for t) vs)"

fun story_event_ok :: "nat \<Rightarrow> story_event \<Rightarrow> bool" where
  "story_event_ok n (Gets now msg) = pack_read msg"
| "story_event_ok n (Asks k) = (k < n)"

definition out_to :: "nat \<Rightarrow> (nat \<times> byte list) list \<Rightarrow> byte list list" where
  "out_to k out = map snd (filter (\<lambda>(i, _). i = k) out)"

lemma out_to_simps [simp]: "out_to k [] = []" "out_to k (a @ b) = out_to k a @ out_to k b"
  "out_to k (map (Pair i) ps) = (if i = k then ps else [])"
  by (simp_all add: out_to_def comp_def)

text \<open>What every story of a service has been fed and has delivered.\<close>

definition served :: "CStory list \<Rightarrow> (nat \<Rightarrow> (time \<times> Entry list) list) \<Rightarrow> (nat \<Rightarrow> Entry list) \<Rightarrow> storyService \<Rightarrow> bool" where
  "served ys F Q s \<longleftrightarrow> length s = length ys \<and> (\<forall>k < length ys. fed (F k) (Q k) (s ! k) \<and> ys_story (s ! k) = ys ! k)"

text \<open>A confirmation that fits into a packet and that the server reads.\<close>

definition confirm_readable :: "StoryConfirm \<Rightarrow> bool" where
  "confirm_readable c \<longleftrightarrow> confirm_valid (sc_LastSequence c) (sc_Missing c) \<and> length (sc_Missing c) \<le> 60"

lemma asks_readable:
  assumes "asks rs cs t q" and "\<forall>r \<in> set rs. wire_range r" and "seq_valid q"
  shows "\<forall>c \<in> set cs. confirm_readable c"
proof
  fix c assume c: "c \<in> set cs"
  have cs: "cs = butlast cs @ [last cs]" using assms(1) by (simp add: asks_def)
  then have "c \<in> set (butlast cs) \<or> c = last cs" using c by (metis in_set_conv_decomp_last rotate1.simps(2) set_ConsD set_rotate1 in_set_conv_decomp list.set_intros(1) append_butlast_last_id list.distinct(1) Un_iff set_append empty_iff empty_set)
  then have "length (sc_Missing c) \<le> 60" using assms(1) by (auto simp: asks_def)
  moreover have "set (sc_Missing c) \<subseteq> set rs" using assms(1) c by (auto simp: asks_def)
  moreover have "sc_LastSequence c = q" using assms(1) c by (metis asks_def story_confirm_def StoryConfirm.select_convs(3))
  ultimately show "confirm_readable c" using assms(2,3) by (auto simp: confirm_readable_def confirm_valid_def lists_valid_def)
qed

lemma stream_asks_fed:
  assumes "fed fs out y"
  shows "fed fs out (snd (stream_asks y))" and "ys_story (snd (stream_asks y)) = ys_story y"
    and "asks (ys_missing y) (fst (stream_asks y)) (py_Token (ys_story y)) (Stream_Sequence (ys_stream y))"
    and "\<forall>c \<in> set (fst (stream_asks y)). confirm_readable c"
proof -
  show "fed fs out (snd (stream_asks y))" "ys_story (snd (stream_asks y)) = ys_story y"
    using assms by (simp_all add: stream_asks_def resetRequestTimer_def stopRequestTimer_def fed_def)
  show a: "asks (ys_missing y) (fst (stream_asks y)) (py_Token (ys_story y)) (Stream_Sequence (ys_stream y))"
    by (simp add: stream_asks_def sendConfirm_asks)
  show "\<forall>c \<in> set (fst (stream_asks y)). confirm_readable c" by (rule asks_readable [OF a fed_wire(1,2) [OF assms]])
qed

lemma served_update:
  assumes "served ys F Q s" and "k < length ys" and "fed (F k @ f) (Q k @ d) y" and "ys_story y = ys ! k"
    and "\<And>i. G i = (if i = k then F i @ f else F i)" and "\<And>i. E i = (if i = k then Q i @ d else Q i)"
  shows "served ys G E (s[k := y])"
  using assms by (auto simp: served_def nth_list_update)

lemma story_step_served:
  assumes s: "served ys F Q s" and d: "distinct (map py_Token ys)" and v: "story_event_ok (length ys) v"
  shows "\<exists>out cs s' N. story_step v s = Inr (out, cs, s') \<and>
    served ys (\<lambda>k. F k @ (if k < length ys then feed_for (py_Token (ys ! k)) v else [])) (\<lambda>k. Q k @ N k) s' \<and>
    (\<forall>k < length ys. out_to k out = map Payload (N k)) \<and> (\<forall>c \<in> set cs. confirm_readable c)"
proof (cases v)
  case (Gets now msg)
  let ?P = "\<lambda>y. py_Token (ys_story y) = sp_StoryToken msg"
  show ?thesis
  proof (cases "first_idx ?P s")
    case None
    then have "py_Token (ys ! k) \<noteq> sp_StoryToken msg" if "k < length ys" for k
      using None s that unfolding first_idx_None by (metis nth_mem served_def)
    then have "served ys (\<lambda>k. F k @ (if k < length ys then feed_for (py_Token (ys ! k)) v else [])) (\<lambda>k. Q k @ []) s"
      using s by (fastforce simp: served_def Gets)
    then show ?thesis using None
      by (intro exI [of _ "[]"] exI [of _ "[]"] exI [of _ s] exI [of _ "\<lambda>_. []"]) (simp add: Gets HandlePack_def)
  next
    case (Some k)
    have k: "k < length ys" "py_Token (ys ! k) = sp_StoryToken msg" "fed (F k) (Q k) (s ! k)" "ys_story (s ! k) = ys ! k"
      using first_idx_Some [OF Some] s by (auto simp: served_def)
    obtain new cs y where t: "stream_takes now msg (s ! k) = Inr (map Payload new, cs, y)"
        "fed (F k @ [(now, sp_Stories msg)]) (Q k @ new) y" "ys_story y = ys ! k"
        "\<exists>newly. asks newly cs (py_Token (ys_story (s ! k))) (Stream_Sequence (ys_stream y)) \<and> rs_ok newly \<and>
           gaps (ys_stream y) - gaps (ys_stream (s ! k)) \<subseteq> seqs newly \<and> seqs newly \<subseteq> gaps (ys_stream y)"
      using stream_takes_fed [OF k(3), of msg now] v k(4) by (auto simp: Gets)
    obtain newly where n: "asks newly cs (py_Token (ys_story (s ! k))) (Stream_Sequence (ys_stream y))" "rs_ok newly"
        "seqs newly \<subseteq> gaps (ys_stream y)" using t(4) by blast
    have c: "\<forall>c \<in> set cs. confirm_readable c"
      by (rule asks_readable [OF n(1) fed_wire(3) [OF t(2) n(2,3)] fed_wire(2) [OF t(2)]])
    have other: "py_Token (ys ! i) \<noteq> sp_StoryToken msg" if "i < length ys" "i \<noteq> k" for i
      using d k(1,2) that by (metis length_map nth_eq_iff_index_eq nth_map)
    let ?N = "\<lambda>i. if i = k then new else []"
    have "served ys (\<lambda>i. F i @ (if i < length ys then feed_for (py_Token (ys ! i)) v else [])) (\<lambda>i. Q i @ ?N i) (s[k := y])"
    proof (rule served_update [OF s k(1) t(2,3)])
      fix i show "F i @ (if i < length ys then feed_for (py_Token (ys ! i)) v else []) =
          (if i = k then F i @ [(now, sp_Stories msg)] else F i)"
        using k(1,2) other [of i] by (cases "i = k") (auto simp: Gets)
    qed simp
    then show ?thesis using Some t(1) c
      by (intro exI [of _ "map (Pair k) (map Payload new)"] exI [of _ cs] exI [of _ "s[k := y]"] exI [of _ ?N])
        (simp add: Gets HandlePack_def del: map_map)
  qed
next
  case (Asks k)
  have k: "k < length ys" "fed (F k) (Q k) (s ! k)" "ys_story (s ! k) = ys ! k" using v s by (auto simp: Asks served_def)
  note a = stream_asks_fed [OF k(2)]
  have "served ys (\<lambda>i. F i @ (if i < length ys then feed_for (py_Token (ys ! i)) v else [])) (\<lambda>i. Q i @ [])
      (s[k := snd (stream_asks (s ! k))])"
    by (rule served_update [OF s k(1), where f = "[]" and d = "[]"]) (use a k in \<open>auto simp: Asks\<close>)
  then show ?thesis using a(4)
    by (intro exI [of _ "[] :: (nat \<times> byte list) list"] exI [of _ "fst (stream_asks (s ! k))"] exI [of _ "s[k := snd (stream_asks (s ! k))]"]
        exI [of _ "\<lambda>_. []"]) (simp add: Asks service_asks_def case_prod_unfold Let_def)
qed

lemma story_run_served:
  assumes "served ys F Q s" and "distinct (map py_Token ys)" and "\<forall>v \<in> set vs. story_event_ok (length ys) v"
  shows "\<exists>out cs s' N. story_run vs s = Inr (out, cs, s') \<and>
    served ys (\<lambda>k. F k @ (if k < length ys then feeds_for (py_Token (ys ! k)) vs else [])) (\<lambda>k. Q k @ N k) s' \<and>
    (\<forall>k < length ys. out_to k out = map Payload (N k)) \<and> (\<forall>c \<in> set cs. confirm_readable c)"
  using assms
proof (induction vs arbitrary: F Q s)
  case Nil
  then show ?case by (intro exI [of _ "[]"] exI [of _ s] exI [of _ "\<lambda>_. []"]) (simp add: feeds_for_def served_def)
next
  case (Cons v vs)
  let ?F = "\<lambda>k. F k @ (if k < length ys then feed_for (py_Token (ys ! k)) v else [])"
  obtain out cs s1 N where a: "story_step v s = Inr (out, cs, s1)" "served ys ?F (\<lambda>k. Q k @ N k) s1"
      "\<forall>k < length ys. out_to k out = map Payload (N k)" "\<forall>c \<in> set cs. confirm_readable c"
    using story_step_served [OF Cons.prems(1,2), of v] Cons.prems(3) by auto
  obtain out' cs' s2 M where b: "story_run vs s1 = Inr (out', cs', s2)"
      "served ys (\<lambda>k. ?F k @ (if k < length ys then feeds_for (py_Token (ys ! k)) vs else [])) (\<lambda>k. (Q k @ N k) @ M k) s2"
      "\<forall>k < length ys. out_to k out' = map Payload (M k)" "\<forall>c \<in> set cs'. confirm_readable c"
    using Cons.IH [OF a(2) Cons.prems(2)] Cons.prems(3) by auto
  have "served ys (\<lambda>k. F k @ (if k < length ys then feeds_for (py_Token (ys ! k)) (v # vs) else []))
      (\<lambda>k. Q k @ (N k @ M k)) s2"
    using b(2) by (auto simp: served_def feeds_for_def)
  then show ?case using a b
    by (intro exI [of _ "out @ out'"] exI [of _ "cs @ cs'"] exI [of _ s2] exI [of _ "\<lambda>k. N k @ M k"]) auto
qed

lemma new_service:
  obtains s where "newStoryService ys = Inr s" "served ys (\<lambda>_. []) (\<lambda>_. []) s"
proof -
  have "\<exists>s. newStoryService ys = Inr s \<and> served ys (\<lambda>_. []) (\<lambda>_. []) s"
  proof (induction ys)
    case (Cons y ys)
    obtain s where s: "newStoryService ys = Inr s" "served ys (\<lambda>_. []) (\<lambda>_. []) s" using Cons by blast
    obtain y' where y: "newStoryStream y = Inr y'" "fed [] [] y'" "ys_story y' = y" using new_stream by blast
    have "served (y # ys) (\<lambda>_. []) (\<lambda>_. []) (y' # s)" using s(2) y by (auto simp: served_def nth_Cons split: nat.splits)
    then show ?case using s(1) y(1) by (simp add: newStoryService_def)
  qed (simp add: newStoryService_def served_def)
  then show ?thesis using that by blast
qed

lemma service_run:
  assumes "newStoryService ys = Inr s0" and "distinct (map py_Token ys)" and "\<forall>v \<in> set vs. story_event_ok (length ys) v"
  shows "\<exists>out cs s N. story_run vs s0 = Inr (out, cs, s) \<and> length s = length ys \<and>
    (\<forall>k < length ys. fed (feeds_for (py_Token (ys ! k)) vs) (N k) (s ! k) \<and> ys_story (s ! k) = ys ! k \<and>
       out_to k out = map Payload (N k)) \<and> (\<forall>c \<in> set cs. confirm_readable c)"
proof -
  have s0: "served ys (\<lambda>_. []) (\<lambda>_. []) s0" using new_service [of ys] assms(1) by auto
  show ?thesis using story_run_served [OF s0 assms(2,3)] by (fastforce simp: served_def)
qed

lemma stories_delivered:
  assumes "newStoryService ys = Inr s0" and "distinct (map py_Token ys)" and "\<forall>v \<in> set vs. story_event_ok (length ys) v"
    and "k < length ys" and "\<forall>(now, es) \<in> set (feeds_for (py_Token (ys ! k)) vs). \<forall>e \<in> set es. Payload e = f (Seq e)"
  shows "\<exists>out cs s. story_run vs s0 = Inr (out, cs, s) \<and>
    out_to k out = map f [1..Stream_Sequence (ys_stream (s ! k))] \<and>
    ((\<forall>(now, es) \<in> set (feeds_for (py_Token (ys ! k)) vs). sorted_wrt (\<le>) (map Seq es)) \<longrightarrow>
      (\<forall>n \<ge> 0. n \<le> Stream_Sequence (ys_stream (s ! k)) \<longleftrightarrow>
        {1..n} \<subseteq> (\<Union>(now, es) \<in> set (feeds_for (py_Token (ys ! k)) vs). feed_seqs es)))"
proof -
  obtain out cs s N where r: "story_run vs s0 = Inr (out, cs, s)" "fed (feeds_for (py_Token (ys ! k)) vs) (N k) (s ! k)"
      "out_to k out = map Payload (N k)"
    using service_run [OF assms(1-3)] assms(4) by blast
  have p: "run_push (feeds_for (py_Token (ys ! k)) vs) zero_Stream = (ys_stream (s ! k), N k)"
      "\<forall>(now, es) \<in> set (feeds_for (py_Token (ys ! k)) vs). feed_ok es"
    using r(2) by (auto simp: fed_def) (fastforce simp: feed_ok_def seq32_def)
  note t = reassembled [OF p(2) assms(5) p(1)]
  have "map snd (map (\<lambda>e. (Seq e, Payload e)) (N k)) = map snd (map (\<lambda>i. (i, f i)) [1..lastSeq (ys_stream (s ! k))])"
    using t by simp
  then have "map Payload (N k) = map f [1..lastSeq (ys_stream (s ! k))]" by (simp add: comp_def)
  then show ?thesis using r(1,3) t by (auto simp: Stream_Sequence_def)
qed

lemma requests_exact:
  assumes "newStoryService ys = Inr s0" and "distinct (map py_Token ys)" and "\<forall>v \<in> set vs. story_event_ok (length ys) v"
    and "story_run vs s0 = Inr (out, cs, s)" and "k < length ys"
    and "\<forall>(now, es) \<in> set (feeds_for (py_Token (ys ! k)) vs). sorted_wrt (\<le>) (map Seq es)"
    and "came = (\<Union>(now, es) \<in> set (feeds_for (py_Token (ys ! k)) vs). feed_seqs es)"
  shows "rs_ok (concat (map sc_Missing (fst (service_asks k s)))) \<and>
    seqs (concat (map sc_Missing (fst (service_asks k s)))) = {x. 1 \<le> x \<and> x \<notin> came \<and> (\<exists>y \<in> came. x < y)} \<and>
    (\<forall>c \<in> set (fst (service_asks k s)). sc_StoryToken c = py_Token (ys ! k) \<and>
       sc_LastSequence c = Stream_Sequence (ys_stream (s ! k))) \<and>
    (\<forall>c \<in> set cs \<union> set (fst (service_asks k s)). \<exists>bs. StoryConfirm_Put (c\<lparr>sc_Header := h\<rparr>) [] = Inr bs \<and>
       length bs \<le> 503 \<and> StoryParseClient bs = Inr (Some (MStoryConfirm (c\<lparr>sc_Header := h\<rparr>))))"
proof -
  obtain N where r: "fed (feeds_for (py_Token (ys ! k)) vs) (N k) (s ! k)" "ys_story (s ! k) = ys ! k"
      "\<forall>c \<in> set cs. confirm_readable c"
    using service_run [OF assms(1-3)] assms(4,5) by auto
  have p: "run_push (feeds_for (py_Token (ys ! k)) vs) zero_Stream = (ys_stream (s ! k), N k)"
      "\<forall>(now, es) \<in> set (feeds_for (py_Token (ys ! k)) vs). feed_ok es"
      "engine_ok (ys_stream (s ! k)) (ys_missing (s ! k))"
    using r(1) by (auto simp: fed_def) (fastforce simp: feed_ok_def seq32_def)
  have "received (ys_stream (s ! k)) = came"
    using run_push_nowait [OF stream_ok_zero p(2) _ p(1)] assms(6,7)
    by (simp add: zero_Stream_def received_def ahead_seqs_def)
  moreover have "0 \<le> lastSeq (ys_stream (s ! k))" using p(3) by (simp add: engine_ok_def stream_ok_def loop_ok_def)
  ultimately have g: "gaps (ys_stream (s ! k)) = {x. 1 \<le> x \<and> x \<notin> came \<and> (\<exists>y \<in> came. x < y)}"
    by (auto simp: gaps_def received_def)
  note a = stream_asks_fed [OF r(1)]
  have ca: "concat (map sc_Missing (fst (service_asks k s))) = ys_missing (s ! k)"
      "\<forall>c \<in> set (fst (service_asks k s)). c = story_confirm (py_Token (ys ! k)) (Stream_Sequence (ys_stream (s ! k))) (sc_Missing c)"
    using a(3) r(2) by (simp_all add: service_asks_def case_prod_unfold asks_def Let_def)
  have "\<exists>bs. StoryConfirm_Put (c\<lparr>sc_Header := h\<rparr>) [] = Inr bs \<and> length bs \<le> 503 \<and>
       StoryParseClient bs = Inr (Some (MStoryConfirm (c\<lparr>sc_Header := h\<rparr>)))" if "confirm_readable c" for c
  proof -
    have "story_client_valid (MStoryConfirm (c\<lparr>sc_Header := h\<rparr>))" using that by (simp add: confirm_readable_def)
    from story_client_parse [OF this, of "[]"] obtain bs where b: "StoryConfirm_Put (c\<lparr>sc_Header := h\<rparr>) [] = Inr bs"
        "int (length bs) = StoryConfirm_Size (c\<lparr>sc_Header := h\<rparr>)"
        "StoryParseClient bs = Inr (Some (MStoryConfirm (c\<lparr>sc_Header := h\<rparr>)))" by auto
    then show ?thesis using that by (simp add: StoryConfirm_Size_def story_sizes confirm_readable_def)
  qed
  moreover have "\<forall>c \<in> set cs \<union> set (fst (service_asks k s)). confirm_readable c"
    using r(3) a(4) by (auto simp: service_asks_def case_prod_unfold Let_def)
  moreover have "rs_ok (ys_missing (s ! k))" "seqs (ys_missing (s ! k)) = gaps (ys_stream (s ! k))"
    using p(3) by (simp_all add: engine_ok_def)
  moreover have "\<forall>c \<in> set (fst (service_asks k s)). sc_StoryToken c = py_Token (ys ! k) \<and>
       sc_LastSequence c = Stream_Sequence (ys_stream (s ! k))"
    using ca(2) by (metis story_confirm_def StoryConfirm.select_convs(2,3))
  ultimately show ?thesis unfolding ca(1) g by blast
qed

section \<open>Properties\<close>

text \<open>
  Whatever packs a client reads from the network, and whenever its timers expire, the story service
  does not panic; on the channel of each story it delivers the payloads \<open>f 1\<close>, \<open>f 2\<close>, up to the
  stream's number, each once and in order, if \<open>f i\<close> is the payload that the packs of this story carry
  for number \<open>i\<close>. If the packs are in increasing order it delivers up to \<open>n\<close> exactly when all of
  \<open>1..n\<close> have come.
\<close>

theorem stories_delivered_in_order:
  assumes "newStoryService ys = Inr s0" and "distinct (map py_Token ys)" and "\<forall>v \<in> set vs. story_event_ok (length ys) v"
    and "k < length ys" and "\<forall>(now, es) \<in> set (feeds_for (py_Token (ys ! k)) vs). \<forall>e \<in> set es. Payload e = f (Seq e)"
  shows "\<exists>out cs s. story_run vs s0 = Inr (out, cs, s) \<and>
    out_to k out = map f [1..Stream_Sequence (ys_stream (s ! k))] \<and>
    ((\<forall>(now, es) \<in> set (feeds_for (py_Token (ys ! k)) vs). sorted_wrt (\<le>) (map Seq es)) \<longrightarrow>
      (\<forall>n \<ge> 0. n \<le> Stream_Sequence (ys_stream (s ! k)) \<longleftrightarrow>
        {1..n} \<subseteq> (\<Union>(now, es) \<in> set (feeds_for (py_Token (ys ! k)) vs). feed_seqs es)))"
  by (rule stories_delivered [OF assms])

definition sample_pack :: "int list \<Rightarrow> StoryPack" where
  "sample_pack qs = \<lparr>sp_Header = \<lparr>shs_SessionToken = 1\<rparr>, sp_StoryToken = 5, sp_Stories = map sample_entry qs\<rparr>"

definition sample_events :: "story_event list" where
  "sample_events = [Gets 5 (sample_pack [2, 3]), Asks 0, Gets 7 (sample_pack [6]), Gets 9 (sample_pack [1, 2])]"

lemma sample_events_ok: "\<forall>v \<in> set sample_events. story_event_ok 1 v"
  by (simp add: sample_events_def sample_pack_def pack_read_def sample_entry_def seq32_def)

theorem stories_delivered_in_order_witness:
  "\<exists>s0 out cs s. newStoryService [\<lparr>py_Token = 5, py_Channel = Some 1\<rparr>] = Inr s0 \<and>
     story_run sample_events s0 = Inr (out, cs, s) \<and>
     out_to 0 out = map (\<lambda>i. [word_of_int i]) [1..Stream_Sequence (ys_stream (s ! 0))] \<and>
     3 \<le> Stream_Sequence (ys_stream (s ! 0)) \<and> \<not> 4 \<le> Stream_Sequence (ys_stream (s ! 0))"
proof -
  let ?ys = "[\<lparr>py_Token = 5, py_Channel = Some 1\<rparr> :: CStory]"
  obtain s0 where s0: "newStoryService ?ys = Inr s0" using new_service by blast
  have f: "feeds_for 5 sample_events = [(5, map sample_entry [2, 3]), (7, map sample_entry [6]), (9, map sample_entry [1, 2])]"
    by (simp add: feeds_for_def sample_events_def sample_pack_def)
  have srt: "\<forall>(now, es) \<in> set (feeds_for 5 sample_events). sorted_wrt (\<le>) (map Seq es)"
    by (simp add: f sample_entry_def)
  have q: "(\<Union>(now, es) \<in> set (feeds_for 5 sample_events). feed_seqs es) = {1, 2, 3, 6}"
    by (auto simp: f feed_seqs_Cons sample_entry_def)
  from stories_delivered_in_order [OF s0 _ _, of sample_events 0 "\<lambda>i. [word_of_int i]"]
  obtain out cs s where r: "story_run sample_events s0 = Inr (out, cs, s)"
      "out_to 0 out = map (\<lambda>i. [word_of_int i]) [1..Stream_Sequence (ys_stream (s ! 0))]"
      "(\<forall>(now, es) \<in> set (feeds_for 5 sample_events). sorted_wrt (\<le>) (map Seq es)) \<longrightarrow>
      (\<forall>n \<ge> 0. n \<le> Stream_Sequence (ys_stream (s ! 0)) \<longleftrightarrow>
        {1..n} \<subseteq> (\<Union>(now, es) \<in> set (feeds_for 5 sample_events). feed_seqs es))"
    using sample_events_ok by (auto simp: f sample_entry_def)
  have n: "n \<le> Stream_Sequence (ys_stream (s ! 0)) \<longleftrightarrow> {1..n} \<subseteq> {1, 2, 3, 6}" if "n \<ge> 0" for n
    using r(3) srt that unfolding q by blast
  have "{1..3} \<subseteq> {1, 2, 3, 6 :: int}" "4 \<in> {1..4 :: int}" "4 \<notin> {1, 2, 3, 6 :: int}" by auto
  then have "3 \<le> Stream_Sequence (ys_stream (s ! 0))" "\<not> {1..4} \<subseteq> {1, 2, 3, 6 :: int}"
    using n [of 3] by (simp, blast)
  then have "3 \<le> Stream_Sequence (ys_stream (s ! 0))" "\<not> 4 \<le> Stream_Sequence (ys_stream (s ! 0))"
    using n [of 4] by simp_all
  then show ?thesis using s0 r(1,2) by blast
qed

text \<open>
  The requests of a client are exact. When the timer of a story expires, its confirmations name
  the last number delivered and ask, in order and without overlap, for exactly the numbers that have
  not come below one that has; and every confirmation sent in a run, whatever header it is sent with,
  has at most 503 bytes and is read by the server as it was written.
\<close>

theorem requests_are_exact:
  assumes "newStoryService ys = Inr s0" and "distinct (map py_Token ys)" and "\<forall>v \<in> set vs. story_event_ok (length ys) v"
    and "story_run vs s0 = Inr (out, cs, s)" and "k < length ys"
    and "\<forall>(now, es) \<in> set (feeds_for (py_Token (ys ! k)) vs). sorted_wrt (\<le>) (map Seq es)"
    and "came = (\<Union>(now, es) \<in> set (feeds_for (py_Token (ys ! k)) vs). feed_seqs es)"
  shows "rs_ok (concat (map sc_Missing (fst (service_asks k s)))) \<and>
    seqs (concat (map sc_Missing (fst (service_asks k s)))) = {x. 1 \<le> x \<and> x \<notin> came \<and> (\<exists>y \<in> came. x < y)} \<and>
    (\<forall>c \<in> set (fst (service_asks k s)). sc_StoryToken c = py_Token (ys ! k) \<and>
       sc_LastSequence c = Stream_Sequence (ys_stream (s ! k))) \<and>
    (\<forall>c \<in> set cs \<union> set (fst (service_asks k s)). \<exists>bs. StoryConfirm_Put (c\<lparr>sc_Header := h\<rparr>) [] = Inr bs \<and>
       length bs \<le> 503 \<and> StoryParseClient bs = Inr (Some (MStoryConfirm (c\<lparr>sc_Header := h\<rparr>))))"
  by (rule requests_exact [OF assms])

theorem requests_are_exact_witness:
  "\<exists>s0 out cs s. newStoryService [\<lparr>py_Token = 5, py_Channel = Some 1\<rparr>] = Inr s0 \<and>
     story_run sample_events s0 = Inr (out, cs, s) \<and>
     seqs (concat (map sc_Missing (fst (service_asks 0 s)))) = {4, 5}"
proof -
  let ?ys = "[\<lparr>py_Token = 5, py_Channel = Some 1\<rparr> :: CStory]"
  obtain s0 where s0: "newStoryService ?ys = Inr s0" using new_service by blast
  have ok: "\<forall>v \<in> set sample_events. story_event_ok (length ?ys) v" using sample_events_ok by simp
  obtain out cs s where r: "story_run sample_events s0 = Inr (out, cs, s)"
    using service_run [OF s0 _ ok] by auto
  have f: "feeds_for 5 sample_events = [(5, map sample_entry [2, 3]), (7, map sample_entry [6]), (9, map sample_entry [1, 2])]"
    by (simp add: feeds_for_def sample_events_def sample_pack_def)
  have srt: "\<forall>(now, es) \<in> set (feeds_for (py_Token (?ys ! 0)) sample_events). sorted_wrt (\<le>) (map Seq es)"
    by (simp add: f sample_entry_def)
  have q: "(\<Union>(now, es) \<in> set (feeds_for (py_Token (?ys ! 0)) sample_events). feed_seqs es) = {1, 2, 3, 6}"
    by (auto simp: f feed_seqs_Cons sample_entry_def)
  have "seqs (concat (map sc_Missing (fst (service_asks 0 s)))) = {x. 1 \<le> x \<and> x \<notin> {1, 2, 3, 6} \<and> (\<exists>y \<in> {1, 2, 3, 6}. x < y)}"
    using requests_are_exact [OF s0 _ ok r _ srt q [symmetric]] by simp
  also have "\<dots> = {4, 5}" by auto
  finally show ?thesis using s0 r by blast
qed

end
