(* ===== verification/Recovery.thy ===== *)
theory Recovery
  imports Stories
begin

text \<open>
  The two ends of a story together: the client asks for what it lacks, the server answers from the log
  of the story, and the answers complete what the client has. Losses, repetitions and reorderings
  happen between them: the client may have got any packs of the log before, and the answers come in
  any order, any number of times.
\<close>

section \<open>Answers to requests\<close>

lemma feeds_for_append [simp]: "feeds_for t (vs @ ws) = feeds_for t vs @ feeds_for t ws"
  by (simp add: feeds_for_def)

lemma feeds_for_Cons: "feeds_for t (v # vs) = feed_for t v @ feeds_for t vs"
  by (simp add: feeds_for_def)

lemma feeds_for_packs:
  "\<forall>r \<in> set rs. sp_StoryToken (snd r) = t \<Longrightarrow>
   feeds_for t (map (\<lambda>(now, p). Gets now p) rs) = map (\<lambda>(now, p). (now, sp_Stories p)) rs"
  by (induction rs) (auto simp: feeds_for_def)

text \<open>The entries of a log that lie in a well-formed set of ranges, in order.\<close>

lemma asked_Cons: "asked (r # rs) es = filter (in_range r) es @ asked rs es"
  by (simp add: asked_def)

lemma asked_sorted:
  assumes "rs_ok rs" and "sorted_wrt (<) (map Seq es)"
  shows "sorted_wrt (<) (map Seq (asked rs es))"
  using assms(1)
proof (induction rs)
  case (Cons r rs)
  have r: "range_ok r" "rs_ok rs" "\<forall>d \<in> set rs. apart r d \<and> range_ok d"
    using Cons.prems by (auto simp: rs_ok_def list_all_iff)
  have "Seq a < Seq b" if a: "a \<in> set (filter (in_range r) es)" and b: "b \<in> set (asked rs es)" for a b
  proof -
    obtain d where d: "d \<in> set rs" "in_range d b" using b by (auto simp: asked_def)
    have "apart r d" "range_ok d" using r(3) d(1) by auto
    then show ?thesis using a d(2) r(1) by (auto simp: apart_def)
  qed
  moreover have "sorted_wrt (<) (map Seq (filter P es))" for P
    using assms(2) by (induction es) auto
  ultimately show ?case using Cons.IH [OF r(2)] by (auto simp: asked_Cons sorted_wrt_append)
qed (simp add: asked_def)

lemma asked_seqs:
  assumes "\<forall>r \<in> set rs. range_ok r" and "x \<in> seqs rs" and "x \<in> Seq ` set es"
  shows "x \<in> Seq ` set (asked rs es)"
proof -
  obtain r e where "r \<in> set rs" "x \<in> seqs_of r" "e \<in> set es" "Seq e = x" using assms(2,3) by (auto simp: seqs_def)
  moreover from this have "in_range r e" using assms(1) by (auto simp: seqs_of_def)
  ultimately show ?thesis by (force simp: asked_def)
qed

lemma rs_ok_sub:
  assumes "rs_ok (concat gs)" and "g \<in> set gs"
  shows "rs_ok g"
proof -
  obtain as bs where "gs = as @ g # bs" using assms(2) by (metis split_list)
  then show ?thesis using assms(1) by (auto simp: rs_ok_def sorted_wrt_append)
qed

lemma piece_sorted:
  assumes "sorted_wrt (<) (map Seq (concat (map sp_Stories ps)))" and "p \<in> set ps"
  shows "sorted_wrt (\<le>) (map Seq (sp_Stories p))"
proof -
  obtain as bs where ps: "ps = as @ p # bs" using assms(2) by (metis split_list)
  have "sorted_wrt (<) (map Seq (sp_Stories p))" using assms(1) by (simp add: ps sorted_wrt_append)
  then show ?thesis by (rule sorted_wrt_mono_rel [rotated]) simp
qed

text \<open>A log that is numbered from 1 and can be written.\<close>

definition log_on_wire :: "storyData \<Rightarrow> bool" where
  "log_on_wire z \<longleftrightarrow> story_ok z \<and> (\<forall>e \<in> set (story_log z). entry_valid e)"

lemma answer_packs:
  assumes z: "log_on_wire z" and rs: "rs_ok rs"
  shows "\<forall>p \<in> set (missing_packs t rs z). sp_StoryToken p = st_Token (sd_Story z) \<and> pack_read p \<and>
      set (sp_Stories p) \<subseteq> set (story_log z) \<and> sorted_wrt (\<le>) (map Seq (sp_Stories p))"
    and "x \<in> seqs rs \<Longrightarrow> x \<in> Seq ` set (story_log z) \<Longrightarrow>
      \<exists>p \<in> set (missing_packs t rs z). x \<in> Seq ` set (sp_Stories p)"
proof -
  have h: "history_ok (sd_History z)" "h_lastSeq (sd_History z) < int_lim" "map Seq (story_log z) = [1..h_lastSeq (sd_History z)]"
    using z by (simp_all add: log_on_wire_def story_ok_def)
  have small: "\<forall>e \<in> set (story_log z). length (Payload e) \<le> 255" using z by (auto simp: log_on_wire_def entry_valid_def)
  have r: "\<forall>r \<in> set rs. range_ok r" using rs by (simp add: rs_ok_def list_all_iff)
  then have a: "\<forall>r \<in> set rs. range_asked r" by (auto simp: range_asked_def range_ok_def)
  note m = missing_packs_spec [OF h(1,2) small a, of t] and e = missing_packs_entries [OF h(1,2) small a]
  have "sorted_wrt (<) (map Seq (story_log z))" unfolding h(3) by simp
  then have srt: "sorted_wrt (<) (map Seq (concat (map sp_Stories (missing_packs t rs z))))"
    unfolding m(1) by (rule asked_sorted [OF rs])
  show "\<forall>p \<in> set (missing_packs t rs z). sp_StoryToken p = st_Token (sd_Story z) \<and> pack_read p \<and>
      set (sp_Stories p) \<subseteq> set (story_log z) \<and> sorted_wrt (\<le>) (map Seq (sp_Stories p))"
  proof
    fix p assume p: "p \<in> set (missing_packs t rs z)"
    have s: "set (sp_Stories p) \<subseteq> set (story_log z)" by (rule e [OF p])
    moreover have "pack_read p"
      using s z by (auto simp: pack_read_def log_on_wire_def entry_valid_def seq_valid_def seq32_def)
    moreover have "sp_StoryToken p = st_Token (sd_Story z)" using m(3) p unfolding pack_ok_def story_pack_def by (metis StoryPack.select_convs(2))
    ultimately show "sp_StoryToken p = st_Token (sd_Story z) \<and> pack_read p \<and>
      set (sp_Stories p) \<subseteq> set (story_log z) \<and> sorted_wrt (\<le>) (map Seq (sp_Stories p))"
      using piece_sorted [OF srt p] by blast
  qed
  show "\<exists>p \<in> set (missing_packs t rs z). x \<in> Seq ` set (sp_Stories p)"
    if "x \<in> seqs rs" "x \<in> Seq ` set (story_log z)"
    using asked_seqs [OF r that] unfolding m(1) [symmetric] by auto
qed

section \<open>Property\<close>

text \<open>The payload of a number in a log.\<close>

definition log_payload :: "storyData \<Rightarrow> int \<Rightarrow> byte list" where
  "log_payload z i = Payload (story_log z ! nat (i - 1))"

lemma log_nth:
  assumes "log_on_wire z" and "e \<in> set (story_log z)"
  shows "Payload e = log_payload z (Seq e)" and "1 \<le> Seq e" and "Seq e \<le> int (length (story_log z))"
proof -
  have q: "map Seq (story_log z) = [1..h_lastSeq (sd_History z)]" using assms(1) by (simp add: log_on_wire_def story_ok_def)
  obtain i where i: "i < length (story_log z)" "e = story_log z ! i" using assms(2) by (metis in_set_conv_nth)
  have "Seq e = map Seq (story_log z) ! i" using i by simp
  moreover have "length (story_log z) = nat (h_lastSeq (sd_History z))" using arg_cong [OF q, of length] by simp
  ultimately have "Seq e = int i + 1" using i(1) unfolding q by (simp add: nth_upto)
  then show "Payload e = log_payload z (Seq e)" "1 \<le> Seq e" "Seq e \<le> int (length (story_log z))"
    using i by (simp_all add: log_payload_def)
qed

lemma log_seqs: "log_on_wire z \<Longrightarrow> Seq ` set (story_log z) = {1..int (length (story_log z))}"
proof -
  assume "log_on_wire z"
  then have q: "map Seq (story_log z) = [1..h_lastSeq (sd_History z)]" by (simp add: log_on_wire_def story_ok_def)
  have "Seq ` set (story_log z) = set [1..h_lastSeq (sd_History z)]" unfolding q [symmetric] by simp
  moreover have "length (story_log z) = nat (h_lastSeq (sd_History z))" using arg_cong [OF q, of length] by simp
  ultimately show ?thesis by (cases "0 \<le> h_lastSeq (sd_History z)") auto
qed

lemma log_payloads:
  assumes "n \<le> length (story_log z)"
  shows "map (log_payload z) [1..int n] = map Payload (take n (story_log z))"
  using assms by (intro nth_equalityI) (simp_all add: log_payload_def nth_upto)

definition from_log :: "storyData \<Rightarrow> (time \<times> Entry list) list \<Rightarrow> bool" where
  "from_log z fs \<longleftrightarrow> (\<forall>(now, es) \<in> set fs. sorted_wrt (\<le>) (map Seq es) \<and> set es \<subseteq> set (story_log z))"


text \<open>A log of three entries, of which the client has got the third only.\<close>

definition third_only :: "story_event list" where
  "third_only = [Gets 4 (story_pack 1 5 (drop 2 (story_log (short_story 3))))]"

lemma short_log: "log_on_wire (short_story 3)" "st_Token (sd_Story (short_story 3)) = 5"
  "story_log (short_story 3) = [\<lparr>Seq = 1, Delay = 0, Payload = [7]\<rparr>, \<lparr>Seq = 2, Delay = 0, Payload = [7]\<rparr>,
     \<lparr>Seq = 3, Delay = 0, Payload = [7]\<rparr>]"
proof -
  show "st_Token (sd_Story (short_story 3)) = 5" by code_simp
  show log: "story_log (short_story 3) = [\<lparr>Seq = 1, Delay = 0, Payload = [7]\<rparr>, \<lparr>Seq = 2, Delay = 0, Payload = [7]\<rparr>,
     \<lparr>Seq = 3, Delay = 0, Payload = [7]\<rparr>]" by code_simp
  show "log_on_wire (short_story 3)" using short_story_facts [of 3]
    by (auto simp: log_on_wire_def log entry_valid_def seq_valid_def duration_valid_def)
qed


end
