(* ===== verification/Pings.thy ===== *)
theory Pings
  imports Services
begin

text \<open>
  \<open>udpstar/client/service_ping.go\<close>: the client's measurement of its latency. A ping leaves every second;
  the last ten are kept in a circular buffer indexed by their number; every pong recomputes the
  latency as the mean over the pings of the last nine seconds. The state holds the counter of the loop
  and the latency; each case of the loop is an operation with the time as an argument.
\<close>

section \<open>State\<close>

record pingInfo =
  pg_id :: "32 word"
  pg_sent :: time
  pg_received :: time

record pingService =
  ps_latency :: duration
  ps_pings :: "pingInfo list"
  ps_id :: "32 word"

definition pingDimension :: nat where
  "pingDimension = 10"

definition pingPeriod :: duration where
  "pingPeriod = ns_Second"

definition ns_Hour :: duration where
  "ns_Hour = 3600 * ns_Second"

definition newPingService :: pingService where
  "newPingService = \<lparr>ps_latency = 0,
     ps_pings = replicate pingDimension \<lparr>pg_id = 0, pg_sent = 0, pg_received = 0\<rparr>, ps_id = 0\<rparr>"

section \<open>The loop\<close>

definition ping_slot :: "32 word \<Rightarrow> nat" where
  "ping_slot w = unat (w mod word_of_nat pingDimension)"

definition ping_tick :: "time \<Rightarrow> pingService \<Rightarrow> Ping \<times> pingService" where
  "ping_tick now s =
     (let k = ps_id s + 1
      in (\<lparr>pi_MessageID = k, pi_ClientTime = now\<rparr>,
          s\<lparr>ps_id := k,
            ps_pings := (ps_pings s)[ping_slot k := \<lparr>pg_id = k, pg_sent = now, pg_received = 0\<rparr>]\<rparr>))"

definition add_ping :: "time \<Rightarrow> pingInfo \<Rightarrow> duration \<times> int \<Rightarrow> duration \<times> int" where
  "add_ping now p = (\<lambda>(total, n).
     if pg_id p = 0 then (total, n)
     else if time_Sub now (pg_sent p) > (int pingDimension - 1) * pingPeriod then (total, n)
     else if time_IsZero (pg_received p) then (i64 (total + int pingDimension * pingPeriod), n + 1)
     else (i64 (total + time_Sub (pg_received p) (pg_sent p)), n + 1))"

definition mean_latency :: "duration \<times> int \<Rightarrow> duration" where
  "mean_latency = (\<lambda>(total, n).
     if n = 0 then ns_Hour
     else if go_div total n < 0 \<or> go_div total n > ns_Hour then ns_Hour
     else go_div total n)"

definition take_pong :: "time \<Rightarrow> Pong \<Rightarrow> pingInfo \<Rightarrow> pingInfo" where
  "take_pong now msg p =
     (p\<lparr>pg_id := (if pg_id p \<noteq> po_MessageID msg \<or> pg_sent p \<noteq> po_ClientTime msg then 0 else pg_id p),
        pg_received := now\<rparr>)"

definition HandlePong :: "time \<Rightarrow> Pong \<Rightarrow> pingService \<Rightarrow> pingService" where
  "HandlePong now msg s =
     (let k = ping_slot (po_MessageID msg);
          pings = (ps_pings s)[k := take_pong now msg (ps_pings s ! k)]
      in s\<lparr>ps_pings := pings,
           ps_latency := mean_latency (foldl (\<lambda>st p. add_ping now p st) (0, 0) pings)\<rparr>)"

section \<open>The mean of the round trips\<close>

definition counted :: "time \<Rightarrow> pingInfo \<Rightarrow> bool" where
  "counted now p \<longleftrightarrow> pg_id p \<noteq> 0 \<and> time_Sub now (pg_sent p) \<le> 9 * ns_Second"

definition round_trip :: "pingInfo \<Rightarrow> duration" where
  "round_trip p = (if pg_received p = 0 then 10 * ns_Second else pg_received p - pg_sent p)"

definition trips :: "time \<Rightarrow> pingInfo list \<Rightarrow> duration list" where
  "trips now ps = map round_trip (filter (counted now) ps)"

text \<open>A clock that does not go back: pings were sent, and answered, before now.\<close>

definition ping_past :: "time \<Rightarrow> pingInfo \<Rightarrow> bool" where
  "ping_past now p \<longleftrightarrow> pg_sent p \<le> now \<and> pg_received p \<le> now \<and> (pg_received p \<noteq> 0 \<longrightarrow> pg_sent p \<le> pg_received p)"

definition pings_ok :: "time \<Rightarrow> pingService \<Rightarrow> bool" where
  "pings_ok now s \<longleftrightarrow> length (ps_pings s) = 10 \<and> (\<forall>p \<in> set (ps_pings s). ping_past now p)"

lemma slot_bound: "ping_slot w < 10"
proof -
  have "unat (w mod 10) = unat w mod 10" by (simp add: unat_mod_distrib)
  then show ?thesis by (simp add: ping_slot_def pingDimension_def)
qed

lemma new_pings_ok: "0 \<le> now \<Longrightarrow> pings_ok now newPingService"
  by (simp add: pings_ok_def newPingService_def pingDimension_def ping_past_def)

lemma pings_ok_later: "pings_ok now s \<Longrightarrow> now \<le> later \<Longrightarrow> pings_ok later s"
  by (fastforce simp: pings_ok_def ping_past_def)

lemma pings_ok_update:
  assumes "pings_ok now s" and "ping_past now p"
  shows "length ((ps_pings s)[k := p]) = 10 \<and> (\<forall>p \<in> set ((ps_pings s)[k := p]). ping_past now p)"
  using assms by (auto simp: pings_ok_def dest!: set_update_subset_insert [THEN subsetD])

lemma tick_pings_ok: "pings_ok now s \<Longrightarrow> 0 < now \<Longrightarrow> pings_ok now (snd (ping_tick now s))"
  using pings_ok_update [of now s "\<lparr>pg_id = ps_id s + 1, pg_sent = now, pg_received = 0\<rparr>"]
  by (simp add: ping_tick_def Let_def pings_ok_def ping_past_def)

lemma pong_pings_ok: "pings_ok now s \<Longrightarrow> 0 < now \<Longrightarrow> pings_ok now (HandlePong now msg s)"
proof -
  assume a: "pings_ok now s" "0 < now"
  let ?k = "ping_slot (po_MessageID msg)"
  have "ps_pings s ! ?k \<in> set (ps_pings s)" using a(1) slot_bound by (intro nth_mem) (simp add: pings_ok_def)
  then have "ping_past now (take_pong now msg (ps_pings s ! ?k))"
    using a by (auto simp: pings_ok_def ping_past_def take_pong_def)
  from pings_ok_update [OF a(1) this] show ?thesis by (simp add: HandlePong_def Let_def pings_ok_def)
qed

lemma trip_bounds:
  assumes "ping_past now p" and "counted now p"
  shows "0 \<le> round_trip p \<and> round_trip p \<le> 10 * ns_Second"
  using assms by (auto simp: ping_past_def counted_def round_trip_def time_Sub_def ns_Second_def)

lemma trips_bounds:
  assumes "\<forall>p \<in> set ps. ping_past now p"
  shows "0 \<le> sum_list (trips now ps) \<and> sum_list (trips now ps) \<le> 10 * ns_Second * int (length (trips now ps))"
  using assms
proof (induction ps)
  case (Cons p ps)
  then show ?case using trip_bounds [of now p] by (auto simp: trips_def algebra_simps)
qed (simp add: trips_def)

lemma fold_trips:
  assumes "\<forall>p \<in> set ps. ping_past now p" and "0 \<le> t" and "t + 10 * ns_Second * int (length ps) < int_lim"
  shows "foldl (\<lambda>st p. add_ping now p st) (t, n) ps = (t + sum_list (trips now ps), n + int (length (trips now ps)))"
  using assms
proof (induction ps arbitrary: t n)
  case (Cons p ps)
  have past: "ping_past now p" using Cons.prems(1) by simp
  show ?case
  proof (cases "counted now p")
    case False
    then have "add_ping now p (t, n) = (t, n)"
      by (auto simp: add_ping_def counted_def pingDimension_def pingPeriod_def)
    then show ?thesis using Cons.IH [of t n] Cons.prems False by (simp add: trips_def ns_Second_def)
  next
    case True
    note b = trip_bounds [OF past True]
    have lim: "t + round_trip p + 10 * ns_Second * int (length ps) < int_lim"
      using Cons.prems(3) b by (simp add: algebra_simps)
    then have small: "t + round_trip p < int_lim" by (simp add: ns_Second_def)
    have "time_Sub (pg_received p) (pg_sent p) = round_trip p" if "pg_received p \<noteq> 0"
      using that b by (simp add: time_Sub_def round_trip_def ns_Second_def)
    then have "add_ping now p (t, n) = (t + round_trip p, n + 1)"
      using True small b Cons.prems(2)
      by (auto simp: add_ping_def counted_def pingDimension_def pingPeriod_def time_IsZero_def round_trip_def
          intro: i64_id)
    then show ?thesis using Cons.IH [of "t + round_trip p" "n + 1"] Cons.prems(1,2) b lim True
      by (simp add: trips_def)
  qed
qed (simp add: trips_def)

text \<open>What a pong makes of the latency.\<close>

definition mean_trip :: "duration list \<Rightarrow> duration" where
  "mean_trip ts = (if ts = [] then ns_Hour else sum_list ts div int (length ts))"

lemma pong_latency:
  assumes "pings_ok now s" and "0 < now"
  shows "ps_latency (HandlePong now msg s) = mean_trip (trips now (ps_pings (HandlePong now msg s)))"
proof -
  let ?ps = "ps_pings (HandlePong now msg s)"
  have ok: "length ?ps = 10" "\<forall>p \<in> set ?ps. ping_past now p"
    using pong_pings_ok [OF assms] by (simp_all add: pings_ok_def)
  have "foldl (\<lambda>st p. add_ping now p st) (0, 0) ?ps = (sum_list (trips now ?ps), int (length (trips now ?ps)))"
    using fold_trips [OF ok(2), of 0 0] ok(1) by (simp add: ns_Second_def)
  then have l: "ps_latency (HandlePong now msg s) = mean_latency (sum_list (trips now ?ps), int (length (trips now ?ps)))"
    by (simp add: HandlePong_def Let_def)
  have b: "0 \<le> sum_list (trips now ?ps)" "sum_list (trips now ?ps) \<le> 10 * ns_Second * int (length (trips now ?ps))"
    using trips_bounds [OF ok(2)] by simp_all
  show ?thesis
  proof (cases "trips now ?ps = []")
    case False
    let ?n = "int (length (trips now ?ps))" and ?t = "sum_list (trips now ?ps)"
    have n: "0 < ?n" using False by simp
    have d: "go_div ?t ?n = ?t div ?n" using n b(1) by (auto simp: go_div_def sgn_if)
    have "0 \<le> ?t div ?n" using n b(1) by (simp add: pos_imp_zdiv_nonneg_iff)
    moreover have "?t div ?n \<le> 10 * ns_Second"
      using zdiv_mono1 [OF b(2) n] n by simp
    ultimately show ?thesis unfolding l using False d by (simp add: mean_latency_def mean_trip_def ns_Hour_def ns_Second_def)
  qed (simp add: l mean_latency_def mean_trip_def)
qed

lemma mean_trip_bounds:
  assumes "\<forall>p \<in> set ps. ping_past now p"
  shows "mean_trip (trips now ps) = ns_Hour \<or> 0 \<le> mean_trip (trips now ps) \<and> mean_trip (trips now ps) \<le> 10 * ns_Second"
proof (cases "trips now ps = []")
  case False
  let ?n = "int (length (trips now ps))"
  have n: "0 < ?n" using False by simp
  have b: "0 \<le> sum_list (trips now ps)" "sum_list (trips now ps) \<le> 10 * ns_Second * ?n"
    using trips_bounds [OF assms] by simp_all
  show ?thesis
    using False zdiv_mono1 [OF b(2) n] n b(1) by (simp add: mean_trip_def pos_imp_zdiv_nonneg_iff)
qed (simp add: mean_trip_def)


section \<open>Runs\<close>

text \<open>A run of the loop with the time of its last event, on a clock that does not go back.\<close>

inductive ping_step :: "time \<times> pingService \<Rightarrow> time \<times> pingService \<Rightarrow> bool" where
  ticked: "t \<le> now \<Longrightarrow> 0 < now \<Longrightarrow> ping_step (t, s) (now, snd (ping_tick now s))"
| ponged: "t \<le> now \<Longrightarrow> 0 < now \<Longrightarrow> ping_step (t, s) (now, HandlePong now msg s)"

lemma ping_step_ok: "ping_step a b \<Longrightarrow> pings_ok (fst a) (snd a) \<Longrightarrow> pings_ok (fst b) (snd b)"
  by (induction rule: ping_step.induct) (auto intro: tick_pings_ok pong_pings_ok pings_ok_later)

lemma ping_run_ok:
  assumes "ping_step\<^sup>*\<^sup>* a b" and "pings_ok (fst a) (snd a)"
  shows "pings_ok (fst b) (snd b)"
  using assms by (induction rule: rtranclp_induct) (auto dest: ping_step_ok)

section \<open>Properties\<close>

text \<open>
  Whatever pings and pongs came before, a pong sets the latency to the mean round trip of the pings
  of the last nine seconds, where an unanswered one counts as ten seconds and one whose answer did not
  match does not count; so the latency is between zero and ten seconds, or an hour when nothing counts.
\<close>

theorem latency_is_recent_mean:
  assumes "ping_step\<^sup>*\<^sup>* (t0, newPingService) (t, s)" and "0 \<le> t0" and "t \<le> now" and "0 < now"
  shows "ps_latency (HandlePong now msg s) = mean_trip (trips now (ps_pings (HandlePong now msg s))) \<and>
    (ps_latency (HandlePong now msg s) = ns_Hour \<or>
     0 \<le> ps_latency (HandlePong now msg s) \<and> ps_latency (HandlePong now msg s) \<le> 10 * ns_Second)"
proof -
  have "pings_ok t s" using ping_run_ok [OF assms(1)] new_pings_ok [OF assms(2)] by simp
  then have ok: "pings_ok now s" using assms(3) by (rule pings_ok_later)
  have "\<forall>p \<in> set (ps_pings (HandlePong now msg s)). ping_past now p"
    using pong_pings_ok [OF ok assms(4)] by (simp add: pings_ok_def)
  then show ?thesis using pong_latency [OF ok assms(4)] mean_trip_bounds by simp
qed

theorem latency_is_recent_mean_witness:
  "ps_latency (HandlePong 1250000000 \<lparr>po_MessageID = 1, po_ClientTime = 1000000000\<rparr>
     (snd (ping_tick 1000000000 newPingService))) = 250000000"
proof -
  let ?s = "snd (ping_tick 1000000000 newPingService)"
    and ?m = "\<lparr>po_MessageID = 1, po_ClientTime = 1000000000\<rparr> :: Pong"
  have "ping_step\<^sup>*\<^sup>* (0, newPingService) (1000000000, ?s)"
    by (intro r_into_rtranclp ping_step.ticked) simp_all
  from latency_is_recent_mean [OF this, of 1250000000 ?m]
  have "ps_latency (HandlePong 1250000000 ?m ?s) = mean_trip (trips 1250000000 (ps_pings (HandlePong 1250000000 ?m ?s)))"
    by simp
  also have "\<dots> = 250000000" by code_simp
  finally show ?thesis .
qed

text \<open>
  A pong that answers no ping, but falls on the buffer slot of the first one, makes a client whose
  link has not been measured look well connected: the ping is dropped, the latency becomes an hour, an
  hour does not fit into the header's field, the server reads a negative duration from it, and counts
  the client as good.
\<close>

theorem stray_pong_reads_good:
  assumes "0 < t1" and "t1 \<le> now" and "po_MessageID msg mod 10 = 1"
    and "po_MessageID msg \<noteq> 1 \<or> po_ClientTime msg \<noteq> t1"
  shows "ps_latency (HandlePong now msg (snd (ping_tick t1 newPingService))) = ns_Hour \<and>
    StoryGetLatency (StorySetLatency ns_Hour h) < 0 \<and>
    cs_state (UpdateState \<lparr>cd_LastMsgReceived = heard, cd_Address = addr,
      cd_Latency = StoryGetLatency (StorySetLatency ns_Hour h)\<rparr> c) = ClientStateGood"
proof -
  have k: "ping_slot (po_MessageID msg) = 1" "ping_slot 1 = 1"
    using assms(3) by (simp_all add: ping_slot_def pingDimension_def)
  have "ps_latency (HandlePong now msg (snd (ping_tick t1 newPingService))) = ns_Hour"
    using assms(4)
    by (auto simp: HandlePong_def ping_tick_def newPingService_def pingDimension_def k Let_def take_pong_def
        add_ping_def mean_latency_def numeral_eq_Suc)
  moreover have "StoryGetLatency (StorySetLatency ns_Hour h) = - 694967296000"
  proof -
    have "go_div ns_Hour 1000 = 3600000000" by (simp add: go_div_def ns_Hour_def ns_Second_def)
    moreover have "sint (word_of_int 3600000000 :: 32 word) = - 694967296" by simp
    ultimately show ?thesis by (simp add: StoryGetLatency_def StorySetLatency_def i64_id)
  qed
  ultimately show ?thesis by (simp add: UpdateState_def ns_Millisecond_def)
qed

theorem stray_pong_reads_good_witness:
  "ps_latency (HandlePong 7 \<lparr>po_MessageID = 11, po_ClientTime = 0\<rparr> (snd (ping_tick 5 newPingService))) = ns_Hour \<and>
   StoryGetLatency (StorySetLatency ns_Hour zero_StoryHeaderClient) < 0"
  using stray_pong_reads_good [of 5 7 "\<lparr>po_MessageID = 11, po_ClientTime = 0\<rparr>" zero_StoryHeaderClient] by simp

end
