(* ===== verification/Actions.thy ===== *)
theory Actions
  imports ClientSetup SessionRuns
begin

text \<open>
  \<open>udpstar/client/service_action.go\<close>: what a client does with its players' actions. Every own actor has a
  buffer of the newest unconfirmed actions; a new action sends the newest of them, the resend timer
  sends them again, and a confirmation removes entries and answers the server's requests. Each case of
  the loop is an operation; \<open>aa_resend\<close> is the duration the resend timer was last set to, \<open>None\<close> when
  it is stopped. Packs are given without the fields of the header, which the sender fills in.
\<close>

section \<open>State\<close>

record actorAction =
  aa_Actor :: CActor
  aa_enum :: Enumerator
  aa_actions :: Recent
  aa_resend :: "duration option"
  aa_unanswered :: byte

type_synonym actionService = "actorAction list"

definition newActorAction :: "CActor \<Rightarrow> actorAction go" where
  "newActorAction a =
     go_bind (NewRecent ActionBufferCapacity) (\<lambda>r.
       Inr \<lparr>aa_Actor = a, aa_enum = zero_Enumerator,
         aa_actions = SetRecentTotalDelayLimit ActionExpireDuration (SetRecentTotalByteSizeLimit 384 r),
         aa_resend = None, aa_unanswered = 0\<rparr>)"

definition newActionService :: "CActor list \<Rightarrow> actionService go" where
  "newActionService actors = go_map newActorAction (filter (\<lambda>a. pa_Token a \<noteq> 0) actors)"

section \<open>The loop\<close>

definition pushbackDelay :: duration where
  "pushbackDelay = 30 * ns_Millisecond"

definition idleDelay :: duration where
  "idleDelay = ns_Second"

definition action_pack :: "actorAction \<Rightarrow> Entry list \<Rightarrow> ActionPack" where
  "action_pack a es = \<lparr>ap_Header = zero_StoryHeaderClient, ap_ActorToken = pa_Token (aa_Actor a), ap_Actions = es\<rparr>"

definition sendActions :: "actorAction \<Rightarrow> bool \<Rightarrow> ActionPack list" where
  "sendActions a sendEmpty =
     (let actions = Recent_Recent (aa_actions a)
      in if length actions = 0 \<and> \<not> sendEmpty then [] else [action_pack a actions])"

definition resetResendTimer :: "duration \<Rightarrow> actorAction \<Rightarrow> actorAction" where
  "resetResendTimer d a = a\<lparr>aa_resend := Some d\<rparr>"

definition stopResendTimer :: "actorAction \<Rightarrow> actorAction" where
  "stopResendTimer a = a\<lparr>aa_resend := None\<rparr>"

definition actor_acts :: "time \<Rightarrow> duration \<Rightarrow> byte list \<Rightarrow> actorAction \<Rightarrow> (ActionPack list \<times> actorAction) go" where
  "actor_acts now latency payload a =
     (let (en, e) = Enumerator_Push now payload (aa_enum a)
      in go_bind (Recent_Push e (aa_actions a)) (\<lambda>r.
           let a1 = a\<lparr>aa_enum := en, aa_actions := r\<rparr>
           in Inr (sendActions a1 False, resetResendTimer (i64 (pushbackDelay + latency)) a1)))"

definition resend_delay :: "duration \<Rightarrow> byte \<Rightarrow> duration \<times> byte" where
  "resend_delay latency n =
     (if n = 1 then (i64 (pushbackDelay + latency), n + 1)
      else if n \<in> {2, 3, 4, 5, 6, 7} then (i64 (uint n * 100 * ns_Millisecond), n + 1)
      else (idleDelay, n))"

definition actor_resends :: "duration \<Rightarrow> actorAction \<Rightarrow> ActionPack list \<times> actorAction" where
  "actor_resends latency a =
     (let (delay, n) = resend_delay latency (aa_unanswered a);
          a1 = a\<lparr>aa_unanswered := n\<rparr>
      in (sendActions a1 True, resetResendTimer delay a1))"

definition missing_actions :: "Range list \<Rightarrow> Recent \<Rightarrow> Entry list" where
  "missing_actions rs actions =
     foldl (\<lambda>acc r. Recent_Iterate (\<lambda>e acc. (True, if Range_In r (Seq e) then acc @ [e] else acc)) actions acc) [] rs"

definition actor_confirms :: "ActionConfirm \<Rightarrow> actorAction \<Rightarrow> ActionPack list \<times> actorAction" where
  "actor_confirms msg a =
     (let a1 = a\<lparr>aa_unanswered := 0,
                 aa_actions := Recent_RemoveFn (\<lambda>q. q \<le> ac_LastSequence msg) (aa_actions a)\<rparr>;
          missing = missing_actions (ac_Missing msg) (aa_actions a1)
      in (if length missing > 0 then [action_pack a1 missing] else [],
          if Recent_Len (aa_actions a1) = 0 then resetResendTimer idleDelay a1 else a1))"

definition service_acts :: "time \<Rightarrow> duration \<Rightarrow> nat \<Rightarrow> byte list \<Rightarrow> actionService
    \<Rightarrow> (ActionPack list \<times> actionService) go" where
  "service_acts now latency k payload s =
     go_bind (actor_acts now latency payload (s ! k)) (\<lambda>(ps, a). Inr (ps, s[k := a]))"

definition service_resends :: "duration \<Rightarrow> nat \<Rightarrow> actionService \<Rightarrow> ActionPack list \<times> actionService" where
  "service_resends latency k s = (let (ps, a) = actor_resends latency (s ! k) in (ps, s[k := a]))"

definition ConfirmActions :: "ActionConfirm \<Rightarrow> actionService \<Rightarrow> ActionPack list \<times> actionService" where
  "ConfirmActions msg s =
     (case first_idx (\<lambda>a. pa_Token (aa_Actor a) = ac_ActorToken msg) s of
        None \<Rightarrow> ([], s)
      | Some k \<Rightarrow> (let (ps, a) = actor_confirms msg (s ! k) in (ps, s[k := a])))"

definition action_stop :: "actionService \<Rightarrow> actionService" where
  "action_stop s = map stopResendTimer s"

section \<open>The buffer of unconfirmed actions\<close>

lemma trimTail_limits:
  assumes "recent_ok r"
  shows "rc_maxTotalDelay (trimTail r) = rc_maxTotalDelay r" and "rc_maxTotalByteSize (trimTail r) = rc_maxTotalByteSize r"
  using trimTail_eq [OF assms] by (simp_all add: Let_def)

lemma push_limits:
  "rc_maxTotalDelay (put_head w (incCumulativeDelay d r)) = rc_maxTotalDelay r"
  "rc_maxTotalByteSize (put_head w (incCumulativeDelay d r)) = rc_maxTotalByteSize r"
  by (simp_all add: put_head_def incCumulativeDelay_def Let_def)

text \<open>Entries are removed from the old end only, so the holes come before the live entries.\<close>

definition holes_first :: "Recent \<Rightarrow> bool" where
  "holes_first r \<longleftrightarrow> dropWhile hole (window r) = live r"

lemma holes_first_split: "holes_first r \<longleftrightarrow> (\<exists>hs ls. window r = hs @ ls \<and> (\<forall>w \<in> set hs. hole w) \<and> (\<forall>w \<in> set ls. \<not> hole w))"
proof
  assume h: "holes_first r"
  have "window r = takeWhile hole (window r) @ live r"
    using h unfolding holes_first_def by (metis takeWhile_dropWhile_id)
  moreover have "\<forall>w \<in> set (takeWhile hole (window r)). hole w" by (auto dest: set_takeWhileD)
  moreover have "\<forall>w \<in> set (live r). \<not> hole w" by (simp add: live_def)
  ultimately show "\<exists>hs ls. window r = hs @ ls \<and> (\<forall>w \<in> set hs. hole w) \<and> (\<forall>w \<in> set ls. \<not> hole w)" by blast
next
  assume "\<exists>hs ls. window r = hs @ ls \<and> (\<forall>w \<in> set hs. hole w) \<and> (\<forall>w \<in> set ls. \<not> hole w)"
  then obtain hs ls where w: "window r = hs @ ls" "\<forall>w \<in> set hs. hole w" "\<forall>w \<in> set ls. \<not> hole w" by blast
  have "dropWhile hole ls = ls" using w(3) by (cases ls) simp_all
  then have "dropWhile hole (hs @ ls) = ls" using w(2) by (simp add: dropWhile_append2)
  moreover have "filter (\<lambda>w. \<not> hole w) hs = []" "filter (\<lambda>w. \<not> hole w) ls = ls"
    using w(2,3) by (auto simp: filter_empty_conv filter_id_conv)
  ultimately show "holes_first r" by (simp add: holes_first_def live_def w(1))
qed

lemma holes_first_push:
  assumes "recent_ok r" and "holes_first r" and "Seq e \<noteq> SequenceNone" and "Recent_Push e r = Inr r'"
  shows "holes_first r' \<and> rcap r' = rcap r \<and> rc_maxTotalDelay r' = rc_maxTotalDelay r \<and>
    rc_maxTotalByteSize r' = rc_maxTotalByteSize r"
proof -
  let ?q = "incCumulativeDelay (Delay e) r" and ?w = "\<lparr>re_entry = e, cumulativeDelay = 0\<rparr>"
  note q = incCumulativeDelay_spec [OF assms(1), of "Delay e"]
  have w: "\<not> hole ?w" using assms(3) by (simp add: hole_def)
  note p = put_head_spec [OF q(1) w]
  have r': "r' = trimTail (put_head ?w ?q)" using Recent_Push_eq [OF assms(1), of e] assms(4) by simp
  obtain hs ls where s: "window r = hs @ ls" "\<forall>w \<in> set hs. hole w" "\<forall>w \<in> set ls. \<not> hole w"
    using assms(2) unfolding holes_first_split by blast
  define ws where "ws = (if rc_size ?q < rcap ?q then window ?q else tl (window ?q))"
  have wq: "window ?q = map (inc_hole (Delay e)) hs @ map (inc_hole (Delay e)) ls" by (simp add: q(2) s(1))
  obtain hs' ls' where ws: "ws = hs' @ ls'" "\<forall>w \<in> set hs'. hole w" "\<forall>w \<in> set ls'. \<not> hole w"
  proof (cases "rc_size ?q < rcap ?q")
    case True
    then show ?thesis using that [of "map (inc_hole (Delay e)) hs" "map (inc_hole (Delay e)) ls"] s(2,3)
        wq by (simp add: ws_def)
  next
    case False
    show ?thesis
    proof (cases hs)
      case Nil
      then show ?thesis using that [of "[]" "tl (map (inc_hole (Delay e)) ls)"] s(3) False wq
        by (cases ls) (simp_all add: ws_def)
    next
      case (Cons h hs1)
      then show ?thesis using that [of "map (inc_hole (Delay e)) hs1" "map (inc_hole (Delay e)) ls"] s(2,3) False
          wq by (simp add: ws_def)
    qed
  qed
  have wp: "window (put_head ?w ?q) = hs' @ ls' @ [?w]" using p(1) ws(1) by (simp add: ws_def)
  have "dropWhile hole (ls' @ [?w]) = ls' @ [?w]" using ws(3) w by (cases ls') simp_all
  then have "window r' = ls' @ [?w]"
    unfolding r' trimTail_spec(3) [OF p(2)] wp using ws(2) by (simp add: dropWhile_append2)
  then have "holes_first r'" unfolding holes_first_split using ws(3) w by (intro exI [of _ "[]"] exI [of _ "ls' @ [?w]"]) simp
  moreover have "rcap r' = rcap r"
    unfolding r' trimTail_spec(4) [OF p(2)] using q(3) by (simp add: put_head_def Let_def)
  ultimately show ?thesis using trimTail_limits [OF p(2)] push_limits by (simp add: r')
qed


lemma holes_first_remove:
  assumes "recent_ok r" and "holes_first r" and "sorted (map rseq (live r))"
  shows "holes_first (Recent_RemoveFn (\<lambda>q. q \<le> n) r)"
proof -
  obtain hs ls where s: "window r = hs @ ls" "\<forall>w \<in> set hs. hole w" "\<forall>w \<in> set ls. \<not> hole w"
    using assms(2) unfolding holes_first_split by blast
  let ?P = "\<lambda>w. rseq w \<le> n"
  have "filter (\<lambda>w. \<not> hole w) hs = []" "filter (\<lambda>w. \<not> hole w) ls = ls"
    using s(2,3) by (auto simp: filter_empty_conv filter_id_conv)
  then have live: "live r = ls" by (simp add: live_def s(1))
  have split: "map (punched (\<lambda>q. q \<le> n)) ls = map (\<lambda>_. zero_recentEntry) (takeWhile ?P ls) @ dropWhile ?P ls"
    if "sorted (map rseq ls)" "\<forall>w \<in> set ls. \<not> hole w" for ls
    using that
  proof (induction ls)
    case (Cons w ls)
    show ?case
    proof (cases "?P w")
      case False
      then have "\<forall>v \<in> set ls. \<not> ?P v" using Cons.prems(1) by fastforce
      then have "map (punched (\<lambda>q. q \<le> n)) ls = ls" by (auto simp: punched_def intro!: map_idI)
      moreover have "punched (\<lambda>q. q \<le> n) w = w" using False by (simp add: punched_def)
      ultimately show ?thesis using False by simp
    qed (use Cons in \<open>simp add: punched_def\<close>)
  qed simp
  have "map (punched (\<lambda>q. q \<le> n)) hs = hs" using s(2) by (auto simp: punched_def intro!: map_idI)
  then have "window (Recent_RemoveFn (\<lambda>q. q \<le> n) r) =
      (hs @ map (\<lambda>_. zero_recentEntry) (takeWhile ?P ls)) @ dropWhile ?P ls"
    unfolding RemoveFn_punches(2) [OF assms(1)] s(1) using split assms(3) s(3) by (simp add: live)
  then show ?thesis unfolding holes_first_split using s(2,3)
    by (intro exI conjI) (assumption | auto dest: set_dropWhileD)+
qed

text \<open>An actor whose buffer holds the unconfirmed entries \<open>q\<close>.\<close>

definition holds :: "Entry list \<Rightarrow> actorAction \<Rightarrow> bool" where
  "holds q a \<longleftrightarrow> recent_ok (aa_actions a) \<and> holes_first (aa_actions a) \<and> rcap (aa_actions a) = 32 \<and>
     rc_maxTotalDelay (aa_actions a) = ActionExpireDuration \<and> rc_maxTotalByteSize (aa_actions a) = 384 \<and>
     map re_entry (live (aa_actions a)) = q \<and> length q \<le> 32 \<and>
     sorted_wrt (<) (map Seq q) \<and> (\<forall>e \<in> set q. 0 < Seq e \<and> Seq e \<le> en_lastSeq (aa_enum a) \<and> length (Payload e) \<le> 255) \<and>
     0 \<le> en_lastSeq (aa_enum a)"

text \<open>The newest entries of a list.\<close>

definition newest :: "nat \<Rightarrow> Entry list \<Rightarrow> Entry list" where
  "newest n q = drop (length q - n) q"

lemma new_actor:
  obtains a' where "newActorAction a = Inr a'" "holds [] a'" "aa_Actor a' = a" "aa_unanswered a' = 0"
    "aa_enum a' = zero_Enumerator"
proof -
  obtain r where r: "NewRecent 32 = Inr r" "recent_ok r" "live r = []"
    using NewRecent_ok [of 32] by auto
  have w: "rc_size r = 0" "rcap r = 32" using r(1) by (auto simp: NewRecent_def)
  let ?r = "SetRecentTotalDelayLimit ActionExpireDuration (SetRecentTotalByteSizeLimit 384 r)"
  have win: "window ?r = window r" "rcap ?r = rcap r"
    by (simp_all add: window_def window_idx_def SetRecentTotalDelayLimit_def SetRecentTotalByteSizeLimit_def)
  have e: "window r = []" using w(1) by (simp add: window_empty)
  have "recent_ok ?r" using r(2) unfolding recent_ok_def win
    by (simp add: SetRecentTotalDelayLimit_def SetRecentTotalByteSizeLimit_def)
  moreover have "live ?r = []" "holes_first ?r" using e win by (simp_all add: live_def holes_first_def)
  ultimately show ?thesis
    using that [of "\<lparr>aa_Actor = a, aa_enum = zero_Enumerator, aa_actions = ?r, aa_resend = None, aa_unanswered = 0\<rparr>"]
      r(1) w(2) win
    by (simp add: newActorAction_def ActionBufferCapacity_def holds_def zero_Enumerator_def)
      (simp add: SetRecentTotalDelayLimit_def SetRecentTotalByteSizeLimit_def)
qed

lemma sorted_rseq:
  assumes "holds q a"
  shows "sorted (map rseq (live (aa_actions a)))"
proof -
  have "map rseq (live (aa_actions a)) = map Seq q" using assms by (auto simp: holds_def)
  then show ?thesis using assms by (simp add: holds_def strict_sorted_imp_sorted)
qed

lemma full_live:
  assumes "holds q a"
  shows "(rc_size (aa_actions a) < rcap (aa_actions a) \<or> hole (hd (window (aa_actions a)))) \<longleftrightarrow> length q < 32"
proof -
  let ?r = "aa_actions a"
  have ok: "recent_ok ?r" "holes_first ?r" "rcap ?r = 32" "length q = length (live ?r)"
    using assms by (auto simp: holds_def)
  obtain hs ls where s: "window ?r = hs @ ls" "\<forall>w \<in> set hs. hole w" "\<forall>w \<in> set ls. \<not> hole w"
    using ok(2) unfolding holes_first_split by blast
  have "filter (\<lambda>w. \<not> hole w) hs = []" "filter (\<lambda>w. \<not> hole w) ls = ls"
    using s(2,3) by (auto simp: filter_empty_conv filter_id_conv)
  then have live: "live ?r = ls" by (simp add: live_def s(1))
  have len: "length hs + length ls = nat (rc_size ?r)" using s(1) window_length [of ?r] by simp
  have sz: "0 \<le> rc_size ?r" "rc_size ?r \<le> 32" using ok(1,3) by (simp_all add: recent_ok_def)
  show ?thesis
  proof (cases "rc_size ?r < 32")
    case True
    then show ?thesis using len ok(3,4) live sz by simp
  next
    case False
    then have "nat (rc_size ?r) = 32" using sz by simp
    then show ?thesis using len False ok(3,4) live s by (cases hs; cases ls) auto
  qed
qed

lemma short_payloads: "\<forall>w \<in> set ws. length (Payload (re_entry w)) \<le> 255 \<Longrightarrow> payload_bytes ws \<le> 255 * int (length ws)"
  by (induction ws) auto

lemma live_bytes:
  assumes "holds q a"
  shows "payload_bytes (live (aa_actions a)) < int_lim"
proof -
  have "length (live (aa_actions a)) \<le> 32" "\<forall>w \<in> set (live (aa_actions a)). length (Payload (re_entry w)) \<le> 255"
    using assms by (auto simp: holds_def)
  then show ?thesis using short_payloads [of "live (aa_actions a)"] by simp
qed

lemma newest_sent:
  assumes "recent_ok r" and "payload_bytes (live r) < int_lim" and "live r = ws @ [\<lparr>re_entry = e, cumulativeDelay = 0\<rparr>]"
    and "0 \<le> rc_maxTotalDelay r" and "int (length (Payload e)) \<le> rc_maxTotalByteSize r"
  shows "\<exists>es. Recent_Recent r = es @ [e]"
  unfolding Recent_Recent_fitting [OF assms(1,2)] using assms(3-5) by (simp add: Let_def)

lemma actor_acts_holds:
  assumes h: "holds q a" and p: "length payload \<le> 255" and room: "en_lastSeq (aa_enum a) + 1 < int_lim"
  shows "\<exists>ps a' e. actor_acts now latency payload a = Inr (ps, a') \<and>
    e = snd (Enumerator_Push now payload (aa_enum a)) \<and> holds (newest 32 (q @ [e])) a' \<and>
    aa_Actor a' = aa_Actor a \<and> aa_unanswered a' = aa_unanswered a \<and>
    aa_enum a' = fst (Enumerator_Push now payload (aa_enum a)) \<and>
    ps = sendActions a' False \<and> aa_resend a' = Some (i64 (pushbackDelay + latency)) \<and>
    (\<exists>es. Recent_Recent (aa_actions a') = es @ [e])"
proof -
  let ?r = "aa_actions a"
  obtain en e where en: "Enumerator_Push now payload (aa_enum a) = (en, e)" by fastforce
  have n0: "0 \<le> en_lastSeq (aa_enum a)" using h by (simp add: holds_def)
  have e: "Seq e = en_lastSeq (aa_enum a) + 1" "Payload e = payload" "en_lastSeq en = en_lastSeq (aa_enum a) + 1"
    using en n0 room by (auto simp: Enumerator_Push_def Let_def u64_id)
  have ok: "recent_ok ?r" "holes_first ?r" using h by (simp_all add: holds_def)
  have s0: "Seq e \<noteq> SequenceNone" using e(1) n0 by (simp add: SequenceNone_def)
  obtain r' where r': "Recent_Push e ?r = Inr r'" "recent_ok r'"
      "live r' = map (aged (Delay e)) (if length q < 32 then live ?r else tl (live ?r)) @ [\<lparr>re_entry = e, cumulativeDelay = 0\<rparr>]"
    using Recent_Push_spec [OF ok(1) s0, unfolded full_live [OF h]] by blast
  note f = holes_first_push [OF ok s0 r'(1)]
  have aged: "map re_entry (map (aged d) ws) = map re_entry ws" for d ws by (simp add: aged_def)
  have q: "map re_entry (live ?r) = q" "length q \<le> 32" using h by (simp_all add: holds_def)
  have "map re_entry (live r') = (if length q < 32 then q else tl q) @ [e]"
    unfolding r'(3) map_append aged using q(1) by (auto simp: map_tl [symmetric])
  also have "\<dots> = newest 32 (q @ [e])"
    using q(2) by (cases q) (auto simp: newest_def)
  finally have live: "map re_entry (live r') = newest 32 (q @ [e])" .
  have sub: "set (newest 32 (q @ [e])) \<subseteq> insert e (set q)" by (auto simp: newest_def dest: in_set_dropD)
  have srt: "sorted_wrt (<) (map Seq (q @ [e]))"
    using h e(1) by (fastforce simp: holds_def sorted_wrt_append)
  then have "sorted_wrt (<) (map Seq (newest 32 (q @ [e])))"
    unfolding newest_def drop_map [symmetric] by (rule sorted_wrt_drop)
  moreover have "\<forall>x \<in> set (newest 32 (q @ [e])). 0 < Seq x \<and> Seq x \<le> en_lastSeq en \<and> length (Payload x) \<le> 255"
  proof
    fix x assume "x \<in> set (newest 32 (q @ [e]))"
    then have "x = e \<or> x \<in> set q" using sub by auto
    then show "0 < Seq x \<and> Seq x \<le> en_lastSeq en \<and> length (Payload x) \<le> 255"
      using h e p n0 by (auto simp: holds_def)
  qed
  ultimately have hold: "holds (newest 32 (q @ [e])) (a\<lparr>aa_enum := en, aa_actions := r'\<rparr>)"
    using f r'(2) live h e(3) n0 by (simp add: holds_def newest_def)
  let ?a = "resetResendTimer (i64 (pushbackDelay + latency)) (a\<lparr>aa_enum := en, aa_actions := r'\<rparr>)"
  have "actor_acts now latency payload a = Inr (sendActions ?a False, ?a)"
    by (simp add: actor_acts_def en r'(1) sendActions_def action_pack_def resetResendTimer_def Let_def)
  moreover have ha: "holds (newest 32 (q @ [e])) ?a" using hold by (simp add: holds_def resetResendTimer_def)
  moreover have "\<exists>es. Recent_Recent (aa_actions ?a) = es @ [e]"
    using newest_sent [OF _ live_bytes [OF ha], of _ e] ha e(2) p r'(3)
    by (simp add: holds_def resetResendTimer_def ActionExpireDuration_def ns_Second_def)
  ultimately show ?thesis using en by (simp add: resetResendTimer_def)
qed


lemma actor_resends_holds:
  assumes "holds q a" and "aa_unanswered a = 0"
  shows "actor_resends latency a = (sendActions a True, a\<lparr>aa_resend := Some idleDelay\<rparr>)"
    and "holds q (snd (actor_resends latency a))"
proof -
  show *: "actor_resends latency a = (sendActions a True, a\<lparr>aa_resend := Some idleDelay\<rparr>)"
    using assms(2) by (cases a) (simp add: actor_resends_def resend_delay_def resetResendTimer_def Let_def)
  show "holds q (snd (actor_resends latency a))" unfolding * using assms(1) by (simp add: holds_def)
qed

lemma missing_actions_visits:
  assumes "recent_ok r"
  shows "missing_actions rs r = concat (map (\<lambda>rg. filter (\<lambda>e. Range_In rg (Seq e)) (map re_entry (live r))) rs)"
proof -
  have v: "visit (\<lambda>e acc. (True, if P e then acc @ [e] else acc)) es acc = acc @ filter P es" for P es acc
    by (induction es arbitrary: acc) auto
  have "foldl (\<lambda>acc rg. Recent_Iterate (\<lambda>e acc. (True, if Range_In rg (Seq e) then acc @ [e] else acc)) r acc) acc rs =
      acc @ concat (map (\<lambda>rg. filter (\<lambda>e. Range_In rg (Seq e)) (map re_entry (live r))) rs)" for acc
    by (induction rs arbitrary: acc) (simp_all add: Recent_Iterate_visits [OF assms] v)
  then show ?thesis by (simp add: missing_actions_def)
qed

definition unconfirmed :: "int \<Rightarrow> Entry list \<Rightarrow> Entry list" where
  "unconfirmed n q = filter (\<lambda>e. n < Seq e) q"

lemma actor_confirms_holds:
  fixes msg :: ActionConfirm
  assumes h: "holds q a"
  defines "q' \<equiv> unconfirmed (ac_LastSequence msg) q"
  shows "holds q' (snd (actor_confirms msg a))"
    and "aa_Actor (snd (actor_confirms msg a)) = aa_Actor a" and "aa_unanswered (snd (actor_confirms msg a)) = 0"
    and "aa_enum (snd (actor_confirms msg a)) = aa_enum a"
    and "fst (actor_confirms msg a) =
      (let es = concat (map (\<lambda>rg. filter (\<lambda>e. Range_In rg (Seq e)) q') (ac_Missing msg))
       in if es = [] then [] else [action_pack a es])"
    and "q' = [] \<Longrightarrow> aa_resend (snd (actor_confirms msg a)) = Some idleDelay"
proof -
  let ?n = "ac_LastSequence msg"
  let ?r = "Recent_RemoveFn (\<lambda>s. s \<le> ?n) (aa_actions a)"
  have ok: "recent_ok (aa_actions a)" "holes_first (aa_actions a)" using h by (simp_all add: holds_def)
  note f = RemoveFn_punches [OF ok(1), of "\<lambda>s. s \<le> ?n"]
  have live: "map re_entry (live ?r) = q'"
  proof -
    have "map re_entry (filter (\<lambda>w. \<not> rseq w \<le> ?n) ws) = filter (\<lambda>e. ?n < Seq e) (map re_entry ws)" for ws
      by (induction ws) auto
    then show ?thesis using h unfolding f(3) by (simp add: q'_def unconfirmed_def holds_def)
  qed
  have hf: "holes_first ?r" by (rule holes_first_remove [OF ok sorted_rseq [OF h]])
  have "length q' \<le> length q" by (simp add: q'_def unconfirmed_def)
  then have l: "length q' \<le> 32" using h by (simp add: holds_def)
  have s: "sorted_wrt (<) (map Seq q')"
    using h by (simp add: q'_def unconfirmed_def holds_def sorted_wrt_map sorted_wrt_filter)
  have m: "\<forall>e \<in> set q'. 0 < Seq e \<and> Seq e \<le> en_lastSeq (aa_enum a) \<and> length (Payload e) \<le> 255"
    using h by (auto simp: q'_def unconfirmed_def holds_def)
  have fr: "rcap ?r = 32" "rc_maxTotalDelay ?r = ActionExpireDuration" "rc_maxTotalByteSize ?r = 384"
    "0 \<le> en_lastSeq (aa_enum a)"
    using h f(4-6) by (simp_all add: holds_def)
  have r: "holds q' (a\<lparr>aa_unanswered := 0, aa_actions := ?r\<rparr>)"
    unfolding holds_def using f(1) hf fr live l s m by simp
  have t: "holds q' (resetResendTimer d b) = holds q' b" "holds q' (b\<lparr>aa_unanswered := 0\<rparr>) = holds q' b" for d b
    by (simp_all add: holds_def resetResendTimer_def)
  have len: "Recent_Len ?r = int (length q')"
    unfolding Recent_Len_live [OF f(1)] live [symmetric] by simp
  show "holds q' (snd (actor_confirms msg a))" using r by (simp add: actor_confirms_def t Let_def)
  show "aa_Actor (snd (actor_confirms msg a)) = aa_Actor a" "aa_unanswered (snd (actor_confirms msg a)) = 0"
    "aa_enum (snd (actor_confirms msg a)) = aa_enum a"
    by (simp_all add: actor_confirms_def Let_def resetResendTimer_def)
  show "fst (actor_confirms msg a) =
      (let es = concat (map (\<lambda>rg. filter (\<lambda>e. Range_In rg (Seq e)) q') (ac_Missing msg))
       in if es = [] then [] else [action_pack a es])"
    unfolding actor_confirms_def Let_def
    by (simp add: missing_actions_visits [OF f(1)] live action_pack_def del: map_map)
  show "aa_resend (snd (actor_confirms msg a)) = Some idleDelay" if "q' = []"
    using that len by (simp add: actor_confirms_def Let_def resetResendTimer_def)
qed

text \<open>What a pack of the newest unconfirmed entries holds.\<close>

lemma recent_pack:
  assumes h: "holds q a"
  obtains old new where "q = old @ new" "Recent_Recent (aa_actions a) = new"
    "sum_list (map (\<lambda>e. length (Payload e)) new) \<le> 384"
proof -
  let ?r = "aa_actions a" and ?ws = "rev (live (aa_actions a))"
  have r: "recent_ok ?r" "rc_maxTotalByteSize ?r = 384" "map re_entry (live ?r) = q" using h by (simp_all add: holds_def)
  obtain k where k: "fitting (rc_maxTotalDelay ?r) 384 0 ?ws = take k ?ws" "k \<le> length ?ws"
      "k > 0 \<longrightarrow> payload_bytes (take k ?ws) \<le> 384"
    using fitting_prefix [of "rc_maxTotalDelay ?r" 384 0 ?ws] by auto
  have R: "Recent_Recent ?r = map re_entry (rev (take k ?ws))"
    using Recent_Recent_fitting [OF r(1) live_bytes [OF h]] k(1) r(2) by simp
  have "rev (take k ?ws) = drop (length (live ?r) - k) (live ?r)" by (simp add: rev_take)
  then have new: "Recent_Recent ?r = drop (length (live ?r) - k) q" unfolding R r(3) [symmetric] by (simp add: drop_map)
  have "sum_list (map (\<lambda>e. length (Payload e)) (Recent_Recent ?r)) \<le> 384"
  proof (cases "k > 0")
    case True
    have "sum_list (map (\<lambda>e. length (Payload e)) (map re_entry (rev ws))) =
        sum_list (map (\<lambda>w. length (Payload (re_entry w))) ws)" for ws :: "recentEntry list"
      by (induction ws) simp_all
    then show ?thesis unfolding R using k(3) True by simp
  qed (simp add: R)
  then show ?thesis using that [of "take (length (live ?r) - k) q", OF _ refl] unfolding new by simp
qed

section \<open>Runs of an actor\<close>

datatype actor_event = Acts time duration "byte list" | Resends duration | Confirms ActionConfirm

fun actor_step :: "actor_event \<Rightarrow> actorAction \<Rightarrow> (ActionPack list \<times> actorAction) go" where
  "actor_step (Acts now latency payload) a = actor_acts now latency payload a"
| "actor_step (Resends latency) a = Inr (actor_resends latency a)"
| "actor_step (Confirms msg) a = Inr (actor_confirms msg a)"

fun actor_run :: "actor_event list \<Rightarrow> actorAction \<Rightarrow> (ActionPack list \<times> actorAction) go" where
  "actor_run [] a = Inr ([], a)"
| "actor_run (v # vs) a =
     go_bind (actor_step v a) (\<lambda>(ps, a1). go_bind (actor_run vs a1) (\<lambda>(ps', a2). Inr (ps @ ps', a2)))"

text \<open>The queue that the actor implements: the newest 32 unconfirmed entries, and all entries so far.\<close>

type_synonym action_queue = "Entry list \<times> Entry list \<times> Enumerator"

fun queue_step :: "actor_event \<Rightarrow> action_queue \<Rightarrow> action_queue" where
  "queue_step (Acts now latency payload) (q, log, en) =
     (let (en', e) = Enumerator_Push now payload en in (newest 32 (q @ [e]), log @ [e], en'))"
| "queue_step (Resends latency) (q, log, en) = (q, log, en)"
| "queue_step (Confirms msg) (q, log, en) = (unconfirmed (ac_LastSequence msg) q, log, en)"

definition queue_run :: "actor_event list \<Rightarrow> action_queue \<Rightarrow> action_queue" where
  "queue_run vs st = foldl (\<lambda>st v. queue_step v st) st vs"

fun acted :: "actor_event \<Rightarrow> nat" where
  "acted (Acts now latency payload) = 1" | "acted (Resends latency) = 0" | "acted (Confirms msg) = 0"

fun event_fits :: "actor_event \<Rightarrow> bool" where
  "event_fits (Acts now latency payload) = (length payload \<le> 255)"
| "event_fits (Resends latency) = True" | "event_fits (Confirms msg) = True"

text \<open>The actor and the queue agree.\<close>

definition agrees :: "actorAction \<Rightarrow> action_queue \<Rightarrow> bool" where
  "agrees a = (\<lambda>(q, log, en). holds q a \<and> aa_enum a = en \<and> aa_unanswered a = 0 \<and> set q \<subseteq> set log)"

definition pack_from :: "actorAction \<Rightarrow> Entry list \<Rightarrow> ActionPack \<Rightarrow> bool" where
  "pack_from a log p \<longleftrightarrow> ap_ActorToken p = pa_Token (aa_Actor a) \<and> set (ap_Actions p) \<subseteq> set log"

lemma agrees_Len:
  assumes "agrees a st"
  shows "Recent_Len (aa_actions a) = int (length (fst st))"
proof -
  have "recent_ok (aa_actions a)" "map re_entry (live (aa_actions a)) = fst st"
    using assms by (auto simp: agrees_def holds_def)
  then show ?thesis by (metis Recent_Len_live length_map)
qed

lemma sent_from:
  assumes "agrees a (q, log, en)" and "p \<in> set (sendActions a b)"
  shows "pack_from a log p"
proof -
  have h: "holds q a" "set q \<subseteq> set log" using assms(1) by (simp_all add: agrees_def)
  obtain old new where "q = old @ new" "Recent_Recent (aa_actions a) = new" using recent_pack [OF h(1)] by metis
  then show ?thesis using assms(2) h(2)
    by (auto simp: sendActions_def action_pack_def pack_from_def Let_def split: if_splits)
qed

lemma actor_step_agrees:
  assumes g: "agrees a (q, log, en)" and f: "event_fits v" and room: "en_lastSeq en + int (acted v) < int_lim"
  shows "\<exists>ps a'. actor_step v a = Inr (ps, a') \<and> agrees a' (queue_step v (q, log, en)) \<and> aa_Actor a' = aa_Actor a \<and>
    (\<forall>p \<in> set ps. pack_from a (fst (snd (queue_step v (q, log, en)))) p)"
proof (cases v)
  case (Acts now latency payload)
  have h: "holds q a" "aa_enum a = en" "set q \<subseteq> set log" "aa_unanswered a = 0" using g by (simp_all add: agrees_def)
  obtain ps a' e where s: "actor_acts now latency payload a = Inr (ps, a')"
      "e = snd (Enumerator_Push now payload (aa_enum a))" "holds (newest 32 (q @ [e])) a'"
      "aa_Actor a' = aa_Actor a" "aa_unanswered a' = aa_unanswered a"
      "aa_enum a' = fst (Enumerator_Push now payload (aa_enum a))" "ps = sendActions a' False"
    using actor_acts_holds [OF h(1), of payload now latency] f room h(2) Acts by auto
  have st: "queue_step v (q, log, en) = (newest 32 (q @ [e]), log @ [e], aa_enum a')"
    using s(2,6) h(2) by (simp add: Acts case_prod_unfold Let_def)
  have "set (newest 32 (q @ [e])) \<subseteq> set (log @ [e])" using h(3) by (auto simp: newest_def dest: in_set_dropD)
  then have g': "agrees a' (queue_step v (q, log, en))" using s h(4) unfolding st by (simp add: agrees_def)
  have "\<forall>p \<in> set ps. pack_from a' (log @ [e]) p" using sent_from g' s(7) unfolding st by blast
  then show ?thesis using s(1,4) g' st by (auto simp: Acts pack_from_def)
next
  case (Resends latency)
  have h: "holds q a" "aa_unanswered a = 0" using g by (simp_all add: agrees_def)
  note r = actor_resends_holds [OF h, of latency]
  have "agrees (snd (actor_resends latency a)) (q, log, en)" using g r by (simp add: agrees_def)
  moreover have "aa_Actor (snd (actor_resends latency a)) = aa_Actor a" by (simp add: r(1))
  moreover have "\<forall>p \<in> set (fst (actor_resends latency a)). pack_from a log p"
    using sent_from [OF g] by (simp add: r(1))
  ultimately show ?thesis by (cases "actor_resends latency a") (auto simp: Resends)
next
  case (Confirms msg)
  have h: "holds q a" using g by (simp add: agrees_def)
  note c = actor_confirms_holds [OF h, of msg]
  have u: "set (unconfirmed n q) \<subseteq> set q" for n by (auto simp: unconfirmed_def)
  have "agrees (snd (actor_confirms msg a)) (unconfirmed (ac_LastSequence msg) q, log, en)"
    using g c u by (auto simp: agrees_def)
  moreover have "\<forall>p \<in> set (fst (actor_confirms msg a)). pack_from a log p"
    using g u [of "ac_LastSequence msg"] unfolding c(5) Let_def agrees_def pack_from_def
    by (cases "concat (map (\<lambda>rg. filter (\<lambda>e. Range_In rg (Seq e)) (unconfirmed (ac_LastSequence msg) q))
      (ac_Missing msg)) = []") (simp, auto simp: action_pack_def)
  ultimately show ?thesis using c(2) by (cases "actor_confirms msg a") (auto simp: Confirms)
qed


lemma queue_step_log:
  assumes "queue_step v (q, log, en) = (q', log', en')" and "0 \<le> en_lastSeq en" and "en_lastSeq en + int (acted v) < int_lim"
  shows "en_lastSeq en' = en_lastSeq en + int (acted v)"
  by (cases v) (use assms in \<open>auto simp: Enumerator_Push_def Let_def u64_id\<close>)

lemma queue_run_Cons: "queue_run (v # vs) st = queue_run vs (queue_step v st)"
  by (simp add: queue_run_def)

lemma queue_run_log: "set (fst (snd st)) \<subseteq> set (fst (snd (queue_run vs st)))"
proof (induction vs arbitrary: st)
  case (Cons v vs)
  obtain q log en where st: "st = (q, log, en)" by (cases st) auto
  have "set log \<subseteq> set (fst (snd (queue_step v st)))" by (cases v) (auto simp: st case_prod_unfold Let_def)
  then show ?case using Cons.IH [of "queue_step v st"] by (auto simp: queue_run_Cons st)
qed (simp add: queue_run_def)

lemma actor_run_agrees:
  assumes "agrees a (q, log, en)" and "\<forall>v \<in> set vs. event_fits v" and "0 \<le> en_lastSeq en"
    and "en_lastSeq en + int (sum_list (map acted vs)) < int_lim"
  shows "\<exists>packs a'. actor_run vs a = Inr (packs, a') \<and> agrees a' (queue_run vs (q, log, en)) \<and> aa_Actor a' = aa_Actor a \<and>
    en_lastSeq (snd (snd (queue_run vs (q, log, en)))) = en_lastSeq en + int (sum_list (map acted vs)) \<and>
    (\<forall>p \<in> set packs. pack_from a (fst (snd (queue_run vs (q, log, en)))) p)"
  using assms
proof (induction vs arbitrary: a q log en)
  case (Cons v vs)
  obtain q1 log1 en1 where st: "queue_step v (q, log, en) = (q1, log1, en1)" by (metis prod_cases3)
  have room: "en_lastSeq en + int (acted v) < int_lim" using Cons.prems(4) by simp
  obtain ps a1 where s: "actor_step v a = Inr (ps, a1)" "agrees a1 (q1, log1, en1)" "aa_Actor a1 = aa_Actor a"
      "\<forall>p \<in> set ps. pack_from a log1 p"
    using actor_step_agrees [OF Cons.prems(1) _ room] Cons.prems(2) st by auto
  have n: "en_lastSeq en1 = en_lastSeq en + int (acted v)" using queue_step_log [OF st Cons.prems(3) room] .
  obtain packs a' where r: "actor_run vs a1 = Inr (packs, a')" "agrees a' (queue_run vs (q1, log1, en1))"
      "aa_Actor a' = aa_Actor a1"
      "en_lastSeq (snd (snd (queue_run vs (q1, log1, en1)))) = en_lastSeq en1 + int (sum_list (map acted vs))"
      "\<forall>p \<in> set packs. pack_from a1 (fst (snd (queue_run vs (q1, log1, en1)))) p"
    using Cons.IH [OF s(2)] Cons.prems(2,3,4) n by auto
  have "set log1 \<subseteq> set (fst (snd (queue_run vs (q1, log1, en1))))" using queue_run_log [of "(q1, log1, en1)" vs] by simp
  then have "\<forall>p \<in> set ps. pack_from a (fst (snd (queue_run vs (q1, log1, en1)))) p"
    using s(4) by (auto simp: pack_from_def)
  moreover have "\<forall>p \<in> set packs. pack_from a (fst (snd (queue_run vs (q1, log1, en1)))) p"
    using r(5) s(3) by (simp add: pack_from_def)
  ultimately show ?case using s(1,3) r n by (auto simp: queue_run_Cons st)
qed (simp add: queue_run_def)

lemma fresh_actor_run:
  assumes "newActorAction act = Inr a0" and "\<forall>v \<in> set vs. event_fits v" and "int (sum_list (map acted vs)) < int_lim"
  shows "\<exists>packs a. actor_run vs a0 = Inr (packs, a) \<and> agrees a (queue_run vs ([], [], zero_Enumerator)) \<and>
    aa_Actor a = act \<and>
    en_lastSeq (snd (snd (queue_run vs ([], [], zero_Enumerator)))) = int (sum_list (map acted vs)) \<and>
    (\<forall>p \<in> set packs. ap_ActorToken p = pa_Token act \<and>
       set (ap_Actions p) \<subseteq> set (fst (snd (queue_run vs ([], [], zero_Enumerator)))))"
proof -
  have a0: "holds [] a0" "aa_Actor a0 = act" "aa_unanswered a0 = 0" "aa_enum a0 = zero_Enumerator"
    using new_actor [of act] assms(1) by auto
  have g: "agrees a0 ([], [], zero_Enumerator)" using a0 by (simp add: agrees_def)
  have z: "en_lastSeq zero_Enumerator = 0" by (simp add: zero_Enumerator_def)
  show ?thesis using actor_run_agrees [OF g assms(2)] assms(3) a0(2) z by (auto simp: pack_from_def)
qed

section \<open>Properties\<close>

text \<open>
  C13. Whatever the player does, and whatever confirmations and timer events come, the buffer of an own
  actor with its ring array and its holes is the queue of the newest 32 unconfirmed actions, numbered
  in the order they were made; nothing panics, and every pack the actor sends is its own and carries
  only actions that it made.
\<close>

theorem actor_is_queue:
  assumes "newActorAction act = Inr a0" and "\<forall>v \<in> set vs. event_fits v" and "int (sum_list (map acted vs)) < int_lim"
  shows "\<exists>packs a. actor_run vs a0 = Inr (packs, a) \<and>
    map re_entry (live (aa_actions a)) = fst (queue_run vs ([], [], zero_Enumerator)) \<and>
    (\<forall>p \<in> set packs. ap_ActorToken p = pa_Token act \<and>
       set (ap_Actions p) \<subseteq> set (fst (snd (queue_run vs ([], [], zero_Enumerator)))))"
  using fresh_actor_run [OF assms] by (auto simp: agrees_def holds_def)

definition player :: CActor where
  "player = \<lparr>pa_Token = 7, pa_Story = 5, pa_Name = [65], pa_Index = 0, pa_InputCh = Some 0\<rparr>"

lemma player_starts: "\<exists>a0. newActorAction player = Inr a0"
  using new_actor [of player] by metis

theorem actor_is_queue_witness:
  "\<exists>a0 packs a. newActorAction player = Inr a0 \<and>
     actor_run [Acts 5 0 [1], Acts 9 0 [2], Confirms \<lparr>ac_Header = \<lparr>shs_SessionToken = 1\<rparr>, ac_ActorToken = 7,
       ac_LastSequence = 1, ac_Missing = []\<rparr>] a0 = Inr (packs, a) \<and>
     map re_entry (live (aa_actions a)) = [\<lparr>Seq = 2, Delay = 4, Payload = [2]\<rparr>]"
proof -
  let ?vs = "[Acts 5 0 [1], Acts 9 0 [2], Confirms \<lparr>ac_Header = \<lparr>shs_SessionToken = 1\<rparr>, ac_ActorToken = 7,
       ac_LastSequence = 1, ac_Missing = []\<rparr>]"
  obtain a0 where a0: "newActorAction player = Inr a0" using player_starts by blast
  have q: "fst (queue_run ?vs ([], [], zero_Enumerator)) = [\<lparr>Seq = 2, Delay = 4, Payload = [2]\<rparr>]" by code_simp
  from actor_is_queue [OF a0, of ?vs] a0 show ?thesis unfolding q by auto
qed

text \<open>
  A new action is sent at once, as the last one of a pack of the newest unconfirmed actions: at
  most 32 of them with at most 384 bytes of payloads, so that the pack can be written and has at most
  819 bytes (more than the limit of 508 that other messages keep).
\<close>

theorem new_action_sent:
  assumes "newActorAction act = Inr a0" and "actor_run vs a0 = Inr (packs, a)" and "\<forall>v \<in> set vs. event_fits v"
    and "int (sum_list (map acted vs)) + 1 < int_lim" and "length payload \<le> 255"
  shows "\<exists>p a' old es e. actor_acts now latency payload a = Inr ([p], a') \<and>
    map re_entry (live (aa_actions a')) = old @ ap_Actions p \<and> ap_Actions p = es @ [e] \<and>
    Payload e = payload \<and> Seq e = int (sum_list (map acted vs)) + 1 \<and> length (ap_Actions p) \<le> 32 \<and>
    sum_list (map (\<lambda>e. length (Payload e)) (ap_Actions p)) \<le> 384 \<and> ActionPack_Size p \<le> 819 \<and>
    (\<exists>bs. ActionPack_Put p [] = Inr bs)"
proof -
  obtain q log en where st: "queue_run vs ([], [], zero_Enumerator) = (q, log, en)" by (metis prod_cases3)
  have g: "agrees a (q, log, en)" "en_lastSeq en = int (sum_list (map acted vs))"
    using fresh_actor_run [OF assms(1,3)] assms(2,4) st by auto
  have h: "holds q a" "aa_enum a = en" using g(1) by (simp_all add: agrees_def)
  obtain ps a' e where s: "actor_acts now latency payload a = Inr (ps, a')"
      "e = snd (Enumerator_Push now payload en)" "holds (newest 32 (q @ [e])) a'" "ps = sendActions a' False"
      "\<exists>es. Recent_Recent (aa_actions a') = es @ [e]"
    using actor_acts_holds [OF h(1) assms(5), of now latency] g(2) h(2) assms(4) by auto
  obtain es where es: "Recent_Recent (aa_actions a') = es @ [e]" using s(5) by blast
  obtain old new where pk: "newest 32 (q @ [e]) = old @ new" "Recent_Recent (aa_actions a') = new"
      "sum_list (map (\<lambda>e. length (Payload e)) new) \<le> 384"
    using recent_pack [OF s(3)] by blast
  let ?p = "action_pack a' (es @ [e])"
  have new: "new = es @ [e]" using es pk(2) by simp
  have ps: "ps = [?p]" using es by (simp add: s(4) sendActions_def Let_def)
  have acts: "ap_Actions ?p = es @ [e]" by (simp add: action_pack_def)
  have q: "map re_entry (live (aa_actions a')) = old @ (es @ [e])" "length (old @ (es @ [e])) \<le> 32"
    using s(3) unfolding pk(1) new holds_def by blast+
  have size: "ActionPack_Size ?p = 19 + 13 * int (length (es @ [e])) + int (sum_list (map (\<lambda>e. length (Payload e)) (es @ [e])))"
  proof -
    have "foldl (\<lambda>size a. size + (1 + int (length (Payload a)) + 4 + 8)) n xs =
        n + 13 * int (length xs) + int (sum_list (map (\<lambda>e. length (Payload e)) xs))" for n and xs :: "Entry list"
      by (induction xs arbitrary: n) simp_all
    then show ?thesis unfolding ActionPack_Size_def acts
      by (simp add: storySizeClientBase_def SizeOfPrefix_def sizeOfStoryHeaderClient_def SizeOfToken_def)
  qed
  have pl: "\<forall>x \<in> set (es @ [e]). length (Payload x) \<le> 255"
    using s(3) unfolding pk(1) new holds_def by auto
  then have "\<exists>s'. put_each PutEntry (es @ [e]) s = Inr s'" for s
    by (intro put_each_Inr) (force simp: PutEntry_def PutBytes_def)
  then have put: "\<exists>bs. ActionPack_Put ?p [] = Inr bs"
    using q(2) unfolding ActionPack_Put_def PutEntries_def acts by simp
  have e: "Payload e = payload" "Seq e = int (sum_list (map acted vs)) + 1"
    using s(2) g(2) assms(4) by (simp_all add: Enumerator_Push_def Let_def u64_id)
  have sum: "sum_list (map (\<lambda>e. length (Payload e)) (es @ [e])) \<le> 384" using pk(3) unfolding new .
  have "actor_acts now latency payload a = Inr ([?p], a')" using s(1) ps by simp
  moreover have "ActionPack_Size ?p \<le> 819" unfolding size using q(2) sum by simp
  moreover have "length (ap_Actions ?p) \<le> 32" using q(2) acts by simp
  ultimately show ?thesis using q(1) e sum put acts
    by (intro exI [of _ ?p] exI [of _ a'] exI [of _ old] exI [of _ es] exI [of _ e]) simp
qed

theorem new_action_sent_witness:
  "\<exists>a0 packs a p a' e. newActorAction player = Inr a0 \<and> actor_run [Acts 5 0 [1], Acts 9 0 [2]] a0 = Inr (packs, a) \<and>
     actor_acts 12 0 [3] a = Inr ([p], a') \<and> Payload e = [3] \<and> Seq e = 3 \<and> e \<in> set (ap_Actions p)"
proof -
  let ?vs = "[Acts 5 0 [1], Acts 9 0 [2]]"
  obtain a0 where a0: "newActorAction player = Inr a0" using player_starts by blast
  obtain packs a where r: "actor_run ?vs a0 = Inr (packs, a)" using fresh_actor_run [OF a0, of ?vs] by auto
  show ?thesis using new_action_sent [OF a0 r, of "[3]" 12 0] a0 r
    by (simp del: actor_run.simps) (metis in_set_conv_decomp)
qed

text \<open>
  Resending never backs off: whatever happens, the count of unanswered messages stays zero, so the
  cases of the loop that lengthen the delay are never reached and an expired resend timer is always set
  to one second again, answered or not.
\<close>

theorem resends_never_back_off:
  assumes "newActorAction act = Inr a0" and "actor_run vs a0 = Inr (packs, a)" and "\<forall>v \<in> set vs. event_fits v"
    and "int (sum_list (map acted vs)) < int_lim"
  shows "aa_unanswered a = 0 \<and> aa_resend (snd (actor_resends latency a)) = Some idleDelay"
proof -
  obtain q log en where g: "agrees a (q, log, en)"
    using fresh_actor_run [OF assms(1,3,4)] assms(2) by (metis prod_cases3 prod.inject Inr_inject)
  then have "holds q a" "aa_unanswered a = 0" by (simp_all add: agrees_def)
  then show ?thesis by (simp add: actor_resends_holds(1))
qed

theorem resends_never_back_off_witness:
  "\<exists>a0 packs a. newActorAction player = Inr a0 \<and>
     actor_run [Acts 5 0 [1], Resends 3, Resends 3, Resends 3] a0 = Inr (packs, a) \<and>
     aa_resend (snd (actor_resends 3 a)) = Some ns_Second"
proof -
  let ?vs = "[Acts 5 0 [1], Resends 3, Resends 3, Resends 3]"
  obtain a0 where a0: "newActorAction player = Inr a0" using player_starts by blast
  obtain packs a where r: "actor_run ?vs a0 = Inr (packs, a)" using fresh_actor_run [OF a0, of ?vs] by auto
  show ?thesis using resends_never_back_off [OF a0 r, of 3] a0 r
    by (simp del: actor_run.simps add: idleDelay_def)
qed

text \<open>
  A confirmation can ask for the same actions more than once, and the client answers each range
  on its own: with a full buffer, eight ranges that all cover it ask for 256 actions, and the client
  panics when it writes the answer.
\<close>

theorem overlapping_requests_panic:
  assumes "newActorAction act = Inr a0" and "actor_run vs a0 = Inr (packs, a)" and "\<forall>v \<in> set vs. event_fits v"
    and "int (sum_list (map acted vs)) < int_lim" and "Recent_Len (aa_actions a) = 32"
    and "ac_LastSequence msg = 0" and "ac_Missing msg = replicate n rg" and "8 \<le> n"
    and "rg = \<lparr>rng_seq = 1, rng_len = k\<rparr>" and "int (sum_list (map acted vs)) \<le> k" and "k < int_lim"
  shows "\<exists>p. fst (actor_confirms msg a) = [p] \<and>
    ActionPack_Put p bs = Inl ''max len of sequence entry array is 255''"
proof -
  obtain q log en where g: "agrees a (q, log, en)" "en_lastSeq en = int (sum_list (map acted vs))"
    using fresh_actor_run [OF assms(1,3,4)] assms(2) by (metis prod_cases3 prod.inject snd_conv Inr_inject)
  have h: "holds q a" "aa_enum a = en" using g(1) by (simp_all add: agrees_def)
  have n: "length q = 32" using assms(5) agrees_Len [OF g(1)] by simp
  have e: "\<forall>e \<in> set q. 0 < Seq e \<and> Range_In rg (Seq e)"
    using h g(2) assms(9-11) by (auto simp: holds_def Range_In_def u64_id)
  then have u: "unconfirmed 0 q = q" "filter (\<lambda>e. Range_In rg (Seq e)) q = q"
    by (auto simp: unconfirmed_def filter_id_conv)
  let ?es = "concat (map (\<lambda>_. q) (replicate n rg))"
  have len: "length ?es = n * 32" by (induction n) (simp_all add: n)
  then have "length ?es > 255" using assms(8) by simp
  then have "?es \<noteq> []" by (metis list.size(3) not_less_zero)
  then have "fst (actor_confirms msg a) = [action_pack a ?es]"
    unfolding actor_confirms_holds(5) [OF h(1)] assms(6,7) u(1) Let_def by (simp add: u(2) cong: map_cong)
  moreover have "ActionPack_Put (action_pack a ?es) bs = Inl ''max len of sequence entry array is 255''"
    using \<open>length ?es > 255\<close> by (simp add: ActionPack_Put_def action_pack_def PutEntries_def)
  ultimately show ?thesis by blast
qed

theorem overlapping_requests_panic_witness:
  "\<exists>a0 packs a p. newActorAction player = Inr a0 \<and> actor_run (replicate 32 (Acts 5 0 [1])) a0 = Inr (packs, a) \<and>
     fst (actor_confirms \<lparr>ac_Header = \<lparr>shs_SessionToken = 1\<rparr>, ac_ActorToken = 7, ac_LastSequence = 0,
       ac_Missing = replicate 8 \<lparr>rng_seq = 1, rng_len = 32\<rparr>\<rparr> a) = [p] \<and>
     ActionPack_Put p [] = Inl ''max len of sequence entry array is 255''"
proof -
  let ?vs = "replicate 32 (Acts 5 0 [1])"
  let ?msg = "\<lparr>ac_Header = \<lparr>shs_SessionToken = 1\<rparr>, ac_ActorToken = 7, ac_LastSequence = 0,
       ac_Missing = replicate 8 \<lparr>rng_seq = 1, rng_len = 32\<rparr>\<rparr> :: ActionConfirm"
  obtain a0 where a0: "newActorAction player = Inr a0" using player_starts by blast
  have vs: "\<forall>v \<in> set ?vs. event_fits v" "sum_list (map acted ?vs) = 32" by (simp, code_simp)
  obtain packs a where r: "actor_run ?vs a0 = Inr (packs, a)" "agrees a (queue_run ?vs ([], [], zero_Enumerator))"
    using fresh_actor_run [OF a0 vs(1)] vs(2) by auto
  have q: "length (fst (queue_run ?vs ([], [], zero_Enumerator))) = 32" by code_simp
  then have len: "Recent_Len (aa_actions a) = 32" using agrees_Len [OF r(2)] by simp
  show ?thesis using overlapping_requests_panic [OF a0 r(1) vs(1) _ len, of ?msg 8 _ 32 "[]"] a0 r(1) vs(2)
    by (simp del: actor_run.simps)
qed

end
