(* ===== verification/Clients.thy ===== *)
theory Clients
  imports Recovery Pings Actions
begin

text \<open>
  \<open>udpstar/client/client.go\<close>: the client of a running session. It puts the ping, action and story
  services together: a packet goes to one of them, and what they send is written with the client's token
  and latency. An operation gives the payloads delivered on the stories' channels, the packets sent and
  the new client; the goroutines between the services and the socket are part of it.
\<close>

section \<open>State\<close>

record LatencyInfo =
  li_Version :: int
  li_Latencies :: "LatencyReportActor list"

record CClient =
  kc_clientToken :: token
  kc_sessionToken :: token
  kc_pingSrv :: pingService
  kc_actionSrv :: actionService
  kc_storySrv :: storyService
  kc_latencies :: LatencyInfo
  kc_lastMessage :: int

type_synonym client_result = "(nat \<times> byte list) list \<times> byte list list \<times> CClient"

definition CClient_New :: "CSession \<Rightarrow> (string + CClient) go" where
  "CClient_New s =
     (case CSession_Validate s of
        Some e \<Rightarrow> Inr (Inl e)
      | None \<Rightarrow>
          go_bind (newActionService (pn_Actors s)) (\<lambda>as.
          go_bind (newStoryService (pn_Stories s)) (\<lambda>ys.
            Inr (Inr \<lparr>kc_clientToken = pn_ClientToken s, kc_sessionToken = pn_Token s, kc_pingSrv = newPingService,
              kc_actionSrv = as, kc_storySrv = ys, kc_latencies = \<lparr>li_Version = 0, li_Latencies = []\<rparr>,
              kc_lastMessage = 0\<rparr>))))"

section \<open>Sending\<close>

fun set_story_header :: "(StoryHeaderClient \<Rightarrow> StoryHeaderClient) \<Rightarrow> StoryClientMessage \<Rightarrow> StoryClientMessage" where
  "set_story_header f (MTestClient m) = MTestClient (m\<lparr>tc_Header := f (tc_Header m)\<rparr>)"
| "set_story_header f (MActionPack m) = MActionPack (m\<lparr>ap_Header := f (ap_Header m)\<rparr>)"
| "set_story_header f (MStoryConfirm m) = MStoryConfirm (m\<lparr>sc_Header := f (sc_Header m)\<rparr>)"

definition client_header :: "CClient \<Rightarrow> StoryHeaderClient \<Rightarrow> StoryHeaderClient" where
  "client_header c h = StorySetLatency (ps_latency (kc_pingSrv c)) (h\<lparr>shc_ClientToken := kc_clientToken c\<rparr>)"

definition client_sends :: "CClient \<Rightarrow> StoryClientMessage list \<Rightarrow> byte list list go" where
  "client_sends c ms = go_map (\<lambda>m. StoryClient_Put (set_story_header (client_header c) m) []) ms"

section \<open>Events\<close>

definition client_pings :: "time \<Rightarrow> CClient \<Rightarrow> client_result go" where
  "client_pings now c =
     (let (ping, s) = ping_tick now (kc_pingSrv c) in Inr ([], [Ping_Put ping []], c\<lparr>kc_pingSrv := s\<rparr>))"

definition client_acts :: "time \<Rightarrow> nat \<Rightarrow> byte list \<Rightarrow> CClient \<Rightarrow> client_result go" where
  "client_acts now k payload c =
     go_bind (service_acts now (ps_latency (kc_pingSrv c)) k payload (kc_actionSrv c)) (\<lambda>(ps, as).
       go_bind (client_sends c (map MActionPack ps)) (\<lambda>bs. Inr ([], bs, c\<lparr>kc_actionSrv := as\<rparr>)))"

definition client_resends :: "nat \<Rightarrow> CClient \<Rightarrow> client_result go" where
  "client_resends k c =
     (let (ps, as) = service_resends (ps_latency (kc_pingSrv c)) k (kc_actionSrv c)
      in go_bind (client_sends c (map MActionPack ps)) (\<lambda>bs. Inr ([], bs, c\<lparr>kc_actionSrv := as\<rparr>)))"

definition client_asks :: "nat \<Rightarrow> CClient \<Rightarrow> client_result go" where
  "client_asks k c =
     (let (cs, ys) = service_asks k (kc_storySrv c)
      in go_bind (client_sends c (map MStoryConfirm cs)) (\<lambda>bs. Inr ([], bs, c\<lparr>kc_storySrv := ys\<rparr>)))"

section \<open>Incoming messages\<close>

fun story_session :: "StoryServerMessage \<Rightarrow> token" where
  "story_session (MTestServer m) = shs_SessionToken (ts_Header m)"
| "story_session (MActionConfirm m) = shs_SessionToken (ac_Header m)"
| "story_session (MStoryPack m) = shs_SessionToken (sp_Header m)"
| "story_session (MLatencyReport m) = shs_SessionToken (lr_Header m)"

definition client_confirms :: "ActionConfirm \<Rightarrow> CClient \<Rightarrow> client_result go" where
  "client_confirms m c =
     (let (ps, as) = ConfirmActions m (kc_actionSrv c)
      in go_bind (client_sends c (map MActionPack ps)) (\<lambda>bs. Inr ([], bs, c\<lparr>kc_actionSrv := as\<rparr>)))"

definition client_takes :: "time \<Rightarrow> StoryPack \<Rightarrow> CClient \<Rightarrow> client_result go" where
  "client_takes now m c =
     go_bind (HandlePack now m (kc_storySrv c)) (\<lambda>(out, cs, ys).
       go_bind (client_sends c (map MStoryConfirm cs)) (\<lambda>bs. Inr (out, bs, c\<lparr>kc_storySrv := ys\<rparr>)))"

definition client_latencies :: "LatencyReport \<Rightarrow> CClient \<Rightarrow> CClient" where
  "client_latencies m c =
     c\<lparr>kc_latencies := \<lparr>li_Version = i64 (li_Version (kc_latencies c) + 1), li_Latencies = lr_Latencies m\<rparr>\<rparr>"

definition UnixNano :: "time \<Rightarrow> int" where
  "UnixNano t = i64 (t - unix_epoch)"

definition client_story_message :: "time \<Rightarrow> StoryServerMessage \<Rightarrow> CClient \<Rightarrow> client_result go" where
  "client_story_message now msg c0 =
     (let c = c0\<lparr>kc_lastMessage := UnixNano now\<rparr>
      in case msg of
           MTestServer m \<Rightarrow> Inr ([], [], c)
         | MActionConfirm m \<Rightarrow> client_confirms m c
         | MStoryPack m \<Rightarrow> client_takes now m c
         | MLatencyReport m \<Rightarrow> Inr ([], [], client_latencies m c))"

definition CClient_Handle :: "time \<Rightarrow> byte list \<Rightarrow> CClient \<Rightarrow> client_result go" where
  "CClient_Handle now data c =
     (if length data = 0 then Inr ([], [], c)
      else let (pong, ok) = ParsePong data
      in if ok then Inr ([], [], c\<lparr>kc_pingSrv := HandlePong now pong (kc_pingSrv c)\<rparr>)
         else go_bind (StoryParseServer data) (\<lambda>r.
           case r of
             None \<Rightarrow> Inr ([], [], c)
           | Some msg \<Rightarrow>
               if story_session msg \<noteq> kc_sessionToken c then Inr ([], [], c)
               else client_story_message now msg c))"

definition CClient_Quality :: "CClient \<Rightarrow> duration" where
  "CClient_Quality c = Quality (kc_storySrv c)"

definition CClient_Latency :: "CClient \<Rightarrow> duration" where
  "CClient_Latency c = ps_latency (kc_pingSrv c)"

definition CClient_Latencies :: "CClient \<Rightarrow> LatencyInfo" where
  "CClient_Latencies c = kc_latencies c"

definition SinceLastServerMessage :: "time \<Rightarrow> CClient \<Rightarrow> duration" where
  "SinceLastServerMessage now c =
     (if kc_lastMessage c = 0 then 0 else i64 (UnixNano now - kc_lastMessage c))"

section \<open>Packs that can be written\<close>

definition pack_fits :: "ActionPack \<Rightarrow> bool" where
  "pack_fits p \<longleftrightarrow> length (ap_Actions p) \<le> 255 \<and> (\<forall>e \<in> set (ap_Actions p). length (Payload e) \<le> 255)"

lemma pack_writes:
  assumes "pack_fits p"
  shows "\<exists>bs. ActionPack_Put p [] = Inr bs"
proof -
  have "\<exists>s'. put_each PutEntry (ap_Actions p) s = Inr s'" for s
    using assms by (intro put_each_Inr) (force simp: pack_fits_def PutEntry_def PutBytes_def)
  then show ?thesis using assms by (simp add: pack_fits_def ActionPack_Put_def PutEntries_def)
qed

lemma sends_packs:
  assumes "\<forall>p \<in> set ps. pack_fits p"
  shows "\<exists>bs. client_sends c (map MActionPack ps) = Inr bs"
  unfolding client_sends_def
proof (rule go_map_total, rule ballI)
  fix m assume "m \<in> set (map MActionPack ps)"
  then obtain p where "m = MActionPack p" "pack_fits p" using assms by auto
  then show "\<exists>bs. StoryClient_Put (set_story_header (client_header c) m) [] = Inr bs"
    using pack_writes [of "p\<lparr>ap_Header := client_header c (ap_Header p)\<rparr>"] by (simp add: pack_fits_def)
qed

lemma sends_confirms:
  assumes "\<forall>m \<in> set cs. confirm_readable m"
  shows "\<exists>bs. client_sends c (map MStoryConfirm cs) = Inr bs"
  unfolding client_sends_def
proof (rule go_map_total, rule ballI)
  fix m assume "m \<in> set (map MStoryConfirm cs)"
  then obtain p where p: "m = MStoryConfirm p" "confirm_readable p" using assms by auto
  let ?m = "MStoryConfirm (p\<lparr>sc_Header := client_header c (sc_Header p)\<rparr>)"
  have "story_client_valid ?m" using p(2) by (simp add: confirm_readable_def)
  from story_client_parse [OF this, of "[]"] show "\<exists>bs. StoryClient_Put (set_story_header (client_header c) m) [] = Inr bs"
    by (auto simp: p(1))
qed

lemma sendActions_fits:
  assumes "holds q a"
  shows "\<forall>p \<in> set (sendActions a b). pack_fits p"
proof -
  obtain old new where n: "q = old @ new" "Recent_Recent (aa_actions a) = new" using recent_pack [OF assms] by metis
  have "length q \<le> 32" "\<forall>e \<in> set q. length (Payload e) \<le> 255" using assms by (auto simp: holds_def)
  then show ?thesis by (auto simp: sendActions_def action_pack_def pack_fits_def Let_def n)
qed

lemma disjoint_answer_fits:
  assumes h: "holds q a" and r: "rs_ok (ac_Missing m)"
  shows "\<forall>p \<in> set (fst (actor_confirms m a)). pack_fits p"
proof -
  let ?q = "unconfirmed (ac_LastSequence m) q"
  let ?es = "concat (map (\<lambda>rg. filter (\<lambda>e. Range_In rg (Seq e)) ?q) (ac_Missing m))"
  have q: "set ?q \<subseteq> set q" "sorted_wrt (<) (map Seq q)" "length q \<le> 32" "\<forall>e \<in> set q. length (Payload e) \<le> 255"
    using h by (auto simp: holds_def unconfirmed_def)
  have "sorted_wrt (<) (map Seq ?q)" using q(2) by (simp add: unconfirmed_def sorted_wrt_map sorted_wrt_filter)
  then have s: "sorted_wrt (<) (map Seq (asked (ac_Missing m) ?q))" by (rule asked_sorted [OF r])
  have "Range_In rg (Seq e) \<longleftrightarrow> in_range rg e" if "rg \<in> set (ac_Missing m)" for rg e
  proof -
    have "range_ok rg" using r that by (simp add: rs_ok_def list_all_iff)
    then show ?thesis by (simp add: Range_In_def range_ok_def u64_id)
  qed
  then have es: "?es = asked (ac_Missing m) ?q" unfolding asked_def
    by (intro arg_cong [of _ _ concat] map_cong refl filter_cong) auto
  have sub: "set ?es \<subseteq> set q" using q(1) by auto
  have "distinct (map Seq ?es)" using s unfolding es by (simp add: strict_sorted_iff)
  then have "length ?es \<le> card (set q)" using sub card_mono [OF finite_set sub] distinct_card [of ?es] by (simp add: distinct_map)
  then have "length ?es \<le> 32" using q(3) card_length [of q] by linarith
  then have "pack_fits (action_pack a ?es)" using sub q(4) by (auto simp: pack_fits_def action_pack_def)
  then show ?thesis unfolding actor_confirms_holds(5) [OF h] by (auto simp: Let_def)
qed

section \<open>The action service keeps going\<close>

text \<open>Every own actor is a queue (see \<^theory_text>\<open>Actions\<close>) that has numbered at most \<open>n\<close> actions.\<close>

definition queue_up :: "nat \<Rightarrow> actorAction \<Rightarrow> bool" where
  "queue_up n a \<longleftrightarrow> (\<exists>q log. agrees a (q, log, aa_enum a)) \<and> en_lastSeq (aa_enum a) \<le> int n"

lemma queue_up_step:
  assumes u: "queue_up n a" and f: "event_fits v" and room: "int n + int (acted v) < int_lim"
  shows "\<exists>ps a'. actor_step v a = Inr (ps, a') \<and> queue_up (n + acted v) a' \<and> aa_Actor a' = aa_Actor a"
proof -
  obtain q log where g: "agrees a (q, log, aa_enum a)" using u by (auto simp: queue_up_def)
  have r: "en_lastSeq (aa_enum a) + int (acted v) < int_lim" using u room by (simp add: queue_up_def)
  obtain ps a' where s: "actor_step v a = Inr (ps, a')" "agrees a' (queue_step v (q, log, aa_enum a))"
      "aa_Actor a' = aa_Actor a" using actor_step_agrees [OF g f r] by blast
  obtain q' log' en' where t: "queue_step v (q, log, aa_enum a) = (q', log', en')" using prod_cases3 by blast
  have e: "aa_enum a' = en'" using s(2) t by (simp add: agrees_def)
  have "0 \<le> en_lastSeq (aa_enum a)" using g by (auto simp: agrees_def holds_def)
  then have "en_lastSeq en' = en_lastSeq (aa_enum a) + int (acted v)"
    using t r by (cases v) (auto simp: Enumerator_Push_def Let_def u64_id)
  then have "queue_up (n + acted v) a'" using s(2) t e u by (auto simp: queue_up_def)
  then show ?thesis using s by blast
qed

lemma queue_up_holds: "queue_up n a \<Longrightarrow> \<exists>q. holds q a"
  by (auto simp: queue_up_def agrees_def)

lemma queue_up_mono: "queue_up n a \<Longrightarrow> n \<le> m \<Longrightarrow> queue_up m a"
  by (auto simp: queue_up_def)

definition actors_up :: "nat \<Rightarrow> actionService \<Rightarrow> bool" where
  "actors_up n as \<longleftrightarrow> int n < int_lim \<and> (\<forall>a \<in> set as. queue_up n a)"

lemma actors_up_nth: "actors_up n as \<Longrightarrow> k < length as \<Longrightarrow> queue_up n (as ! k)"
  by (simp add: actors_up_def)

lemma actors_up_update:
  assumes "actors_up n as" and "queue_up m a" and "n \<le> m" and "int m < int_lim"
  shows "actors_up m (as[k := a])"
  unfolding actors_up_def
proof (intro conjI ballI)
  fix b assume "b \<in> set (as[k := a])"
  then have "b = a \<or> b \<in> set as" using set_update_subset_insert by fastforce
  then show "queue_up m b" using assms(1-3) queue_up_mono by (auto simp: actors_up_def)
qed (rule assms(4))

lemma acts_up:
  assumes "actors_up n as" and "k < length as" and "length payload \<le> 255" and "int n + 1 < int_lim"
  shows "\<exists>ps as'. service_acts now latency k payload as = Inr (ps, as') \<and> actors_up (Suc n) as' \<and>
    length as' = length as \<and> (\<forall>p \<in> set ps. pack_fits p)"
proof -
  note u = actors_up_nth [OF assms(1,2)]
  obtain ps a' where s: "actor_acts now latency payload (as ! k) = Inr (ps, a')" "queue_up (Suc n) a'"
    using queue_up_step [OF u, of "Acts now latency payload"] assms(3,4) by auto
  obtain q where h: "holds q (as ! k)" using queue_up_holds [OF u] by blast
  have "en_lastSeq (aa_enum (as ! k)) + 1 < int_lim" using u assms(4) by (simp add: queue_up_def)
  then obtain q' where "holds q' a'" "ps = sendActions a' False"
    using actor_acts_holds [OF h assms(3), of now latency] s(1) by auto
  then have "\<forall>p \<in> set ps. pack_fits p" using sendActions_fits by blast
  then show ?thesis using s actors_up_update [OF assms(1) s(2)] assms(4) by (simp add: service_acts_def)
qed

lemma resends_up:
  assumes "actors_up n as" and "k < length as" and "service_resends latency k as = (ps, as')"
  shows "actors_up n as' \<and> length as' = length as \<and> (\<forall>p \<in> set ps. pack_fits p)"
proof -
  note u = actors_up_nth [OF assms(1,2)]
  have n: "int n < int_lim" using assms(1) by (simp add: actors_up_def)
  obtain q log where g: "agrees (as ! k) (q, log, aa_enum (as ! k))" using u by (auto simp: queue_up_def)
  then have h: "holds q (as ! k)" "aa_unanswered (as ! k) = 0" by (simp_all add: agrees_def)
  have "queue_up n (snd (actor_resends latency (as ! k)))" using queue_up_step [OF u, of "Resends latency"] n by auto
  moreover have "fst (actor_resends latency (as ! k)) = sendActions (as ! k) True"
    by (simp add: actor_resends_holds(1) [OF h])
  ultimately show ?thesis using assms(3) sendActions_fits [OF h(1), of True] actors_up_update [OF assms(1)] n
    by (auto simp: service_resends_def case_prod_unfold)
qed

lemma confirms_up:
  assumes "actors_up n as" and "rs_ok (ac_Missing m)" and "ConfirmActions m as = (ps, as')"
  shows "actors_up n as' \<and> length as' = length as \<and> (\<forall>p \<in> set ps. pack_fits p)"
proof (cases "first_idx (\<lambda>a. pa_Token (aa_Actor a) = ac_ActorToken m) as")
  case (Some k)
  then have k: "k < length as" using first_idx_Some by blast
  note u = actors_up_nth [OF assms(1) k]
  have n: "int n < int_lim" using assms(1) by (simp add: actors_up_def)
  obtain q where h: "holds q (as ! k)" using queue_up_holds [OF u] by blast
  have "queue_up n (snd (actor_confirms m (as ! k)))" using queue_up_step [OF u, of "Confirms m"] n by auto
  then show ?thesis using assms(3) disjoint_answer_fits [OF h assms(2)] actors_up_update [OF assms(1)] n
    by (auto simp: ConfirmActions_def Some case_prod_unfold Let_def)
qed (use assms(1,3) in \<open>auto simp: ConfirmActions_def\<close>)

lemma new_actions_up:
  obtains as where "newActionService actors = Inr as" "actors_up 0 as"
    "map aa_Actor as = filter (\<lambda>a. pa_Token a \<noteq> 0) actors"
proof -
  have "\<exists>as. go_map newActorAction acts = Inr as \<and> actors_up 0 as \<and> map aa_Actor as = acts" for acts
  proof (induction acts)
    case (Cons a acts)
    obtain as where s: "go_map newActorAction acts = Inr as" "actors_up 0 as" "map aa_Actor as = acts" using Cons by blast
    obtain a' where a: "newActorAction a = Inr a'" "holds [] a'" "aa_Actor a' = a" "aa_unanswered a' = 0"
        "aa_enum a' = zero_Enumerator" using new_actor by blast
    have "agrees a' ([], [], aa_enum a')" using a by (simp add: agrees_def)
    then have "queue_up 0 a'" using a(5) by (auto simp: queue_up_def zero_Enumerator_def)
    then show ?case using s a by (simp add: actors_up_def)
  qed (simp add: actors_up_def)
  then show ?thesis using that unfolding newActionService_def by blast
qed

section \<open>Runs of the client\<close>

datatype client_event =
    Packet time "byte list" | PingDue time | Act time nat "byte list" | ResendDue nat | AskDue nat

fun client_step :: "client_event \<Rightarrow> CClient \<Rightarrow> client_result go" where
  "client_step (Packet now data) c = CClient_Handle now data c"
| "client_step (PingDue now) c = client_pings now c"
| "client_step (Act now k payload) c = client_acts now k payload c"
| "client_step (ResendDue k) c = client_resends k c"
| "client_step (AskDue k) c = client_asks k c"

fun client_run :: "client_event list \<Rightarrow> CClient \<Rightarrow> client_result go" where
  "client_run [] c = Inr ([], [], c)"
| "client_run (v # vs) c =
     go_bind (client_step v c) (\<lambda>(out, bs, c1).
       go_bind (client_run vs c1) (\<lambda>(out', bs', c2). Inr (out @ out', bs @ bs', c2)))"

text \<open>The message that a packet is read as, for a client of a session.\<close>

definition client_reads :: "token \<Rightarrow> byte list \<Rightarrow> StoryServerMessage option" where
  "client_reads t data =
     (if length data = 0 \<or> snd (ParsePong data) then None
      else case StoryParseServer data of
          Inr (Some msg) \<Rightarrow> if story_session msg = t then Some msg else None
        | _ \<Rightarrow> None)"

lemma Handle_reads:
  assumes "StoryParseServer data = Inr r"
  shows "CClient_Handle now data c =
     (case client_reads (kc_sessionToken c) data of
        Some msg \<Rightarrow> client_story_message now msg c
      | None \<Rightarrow> Inr ([], [], if length data \<noteq> 0 \<and> snd (ParsePong data)
                            then c\<lparr>kc_pingSrv := HandlePong now (fst (ParsePong data)) (kc_pingSrv c)\<rparr> else c))"
  using assms by (auto simp: CClient_Handle_def client_reads_def case_prod_unfold Let_def split: option.splits)

text \<open>The packets that can make a client panic are action confirmations.\<close>

definition packet_safe :: "byte list \<Rightarrow> bool" where
  "packet_safe data \<longleftrightarrow>
     (case StoryParseServer data of
        Inl e \<Rightarrow> False
      | Inr (Some (MActionConfirm m)) \<Rightarrow> rs_ok (ac_Missing m)
      | Inr _ \<Rightarrow> True)"

lemma latencies_never_panic: "get_each get_Latency vs s \<noteq> Inl e"
  by (induction vs arbitrary: s) (auto simp: get_Latency_def Let_def case_prod_unfold dest!: go_bind_Inl)

lemma only_confirms_panic:
  assumes "data ! 5 \<noteq> TypeAction"
  shows "packet_safe data"
proof -
  have p: "StoryPack_Get data m \<noteq> Inl e" "LatencyReport_Get data l \<noteq> Inl e" "TestServer_Get data t \<noteq> Inl e" for m l t e
    using entries_never_panic latencies_never_panic
    by (auto simp: StoryPack_Get_def LatencyReport_Get_def TestServer_Get_def Let_def case_prod_unfold
        dest!: go_bind_Inl split: if_splits)
  then have "StoryParseServer data \<noteq> Inl e" for e
    using assms by (auto simp: StoryParseServer_def go_parsed_def Let_def dest!: go_bind_Inl split: if_splits)
  moreover have "StoryParseServer data \<noteq> Inr (Some (MActionConfirm m))" for m
    using assms by (auto simp: StoryParseServer_def Let_def dest!: go_parsed_Some split: if_splits)
  ultimately show ?thesis unfolding packet_safe_def
    by (cases "StoryParseServer data") (auto split: option.splits StoryServerMessage.splits)
qed

text \<open>What a run means for the stories.\<close>

fun story_part :: "token \<Rightarrow> client_event \<Rightarrow> story_event list" where
  "story_part t (Packet now data) = (case client_reads t data of Some (MStoryPack m) \<Rightarrow> [Gets now m] | _ \<Rightarrow> [])"
| "story_part t (PingDue now) = []"
| "story_part t (Act now k payload) = []"
| "story_part t (ResendDue k) = []"
| "story_part t (AskDue k) = [Asks k]"

definition story_parts :: "token \<Rightarrow> client_event list \<Rightarrow> story_event list" where
  "story_parts t vs = concat (map (story_part t) vs)"

fun acts_of :: "client_event \<Rightarrow> nat" where
  "acts_of (Act now k payload) = 1"
| "acts_of _ = 0"

text \<open>Events of a session's client: timers and inputs of its own actors and stories.\<close>

fun client_event_ok :: "CSession \<Rightarrow> client_event \<Rightarrow> bool" where
  "client_event_ok sn (Packet now data) = (data ! 5 = TypeAction \<longrightarrow> packet_safe data)"
| "client_event_ok sn (PingDue now) = True"
| "client_event_ok sn (Act now k payload) = (k < length (own_tokens (pn_Actors sn)) \<and> length payload \<le> 255)"
| "client_event_ok sn (ResendDue k) = (k < length (own_tokens (pn_Actors sn)))"
| "client_event_ok sn (AskDue k) = (k < length (pn_Stories sn))"

definition client_up :: "CSession \<Rightarrow> nat \<Rightarrow> CClient \<Rightarrow> bool" where
  "client_up sn n c \<longleftrightarrow> kc_sessionToken c = pn_Token sn \<and> kc_clientToken c = pn_ClientToken sn \<and>
     actors_up n (kc_actionSrv c) \<and> length (kc_actionSrv c) = length (own_tokens (pn_Actors sn)) \<and>
     (\<exists>F Q. served (pn_Stories sn) F Q (kc_storySrv c))"

lemma client_up_frame:
  assumes "client_up sn n c" and "kc_sessionToken c' = kc_sessionToken c" and "kc_clientToken c' = kc_clientToken c"
    and "kc_actionSrv c' = kc_actionSrv c" and "kc_storySrv c' = kc_storySrv c"
  shows "client_up sn n c'"
  using assms by (simp add: client_up_def)

lemma client_up_actors:
  assumes "client_up sn n c" and "actors_up m as" and "length as = length (kc_actionSrv c)"
  shows "client_up sn m (c\<lparr>kc_actionSrv := as\<rparr>)"
  using assms by (simp add: client_up_def)

lemma new_client_up:
  assumes "CSession_Validate sn = None"
  obtains c where "CClient_New sn = Inr (Inr c)" "client_up sn 0 c" "newStoryService (pn_Stories sn) = Inr (kc_storySrv c)"
proof -
  obtain as where a: "newActionService (pn_Actors sn) = Inr as" "actors_up 0 as"
      "map aa_Actor as = filter (\<lambda>a. pa_Token a \<noteq> 0) (pn_Actors sn)" using new_actions_up by blast
  obtain s where s: "newStoryService (pn_Stories sn) = Inr s" "served (pn_Stories sn) (\<lambda>_. []) (\<lambda>_. []) s"
    using new_service by blast
  have "length as = length (own_tokens (pn_Actors sn))"
    using arg_cong [OF a(3), of length] by (simp add: own_tokens_def filter_map comp_def)
  moreover define c where "c = \<lparr>kc_clientToken = pn_ClientToken sn, kc_sessionToken = pn_Token sn,
    kc_pingSrv = newPingService, kc_actionSrv = as, kc_storySrv = s,
    kc_latencies = \<lparr>li_Version = 0, li_Latencies = []\<rparr>, kc_lastMessage = 0\<rparr>"
  ultimately have "client_up sn 0 c" using a(2) s(2) by (auto simp: client_up_def)
  moreover have "CClient_New sn = Inr (Inr c)" using assms a(1) s(1) by (simp add: CClient_New_def c_def)
  moreover have "kc_storySrv c = s" by (simp add: c_def)
  ultimately show ?thesis using that [of c] s(1) by simp
qed

lemma client_sends_ok:
  assumes "\<forall>p \<in> set ps. pack_fits p"
  obtains bs where "client_sends c (map MActionPack ps) = Inr bs"
  using sends_packs [OF assms] by blast

lemma parsed_message:
  assumes "data ! 5 = TypeAction \<longrightarrow> packet_safe data"
  obtains r where "StoryParseServer data = Inr r"
    "\<And>m. client_reads t data = Some (MActionConfirm m) \<Longrightarrow> rs_ok (ac_Missing m)"
    "\<And>m. client_reads t data = Some (MStoryPack m) \<Longrightarrow> pack_read m"
proof -
  have s: "packet_safe data" using assms only_confirms_panic by blast
  then obtain r where r: "StoryParseServer data = Inr r" by (cases "StoryParseServer data") (simp_all add: packet_safe_def)
  have "rs_ok (ac_Missing m)" if "client_reads t data = Some (MActionConfirm m)" for m
    using that s r by (auto simp: client_reads_def packet_safe_def split: if_splits option.splits)
  moreover have "pack_read m" if "client_reads t data = Some (MStoryPack m)" for m
    using that r by (intro story_parse_packs [of data]) (auto simp: client_reads_def split: if_splits option.splits)
  ultimately show ?thesis using that r by blast
qed

lemma packet_up:
  assumes u: "client_up sn n c" and d: "distinct (map py_Token (pn_Stories sn))"
    and v: "data ! 5 = TypeAction \<longrightarrow> packet_safe data"
  shows "\<exists>out bs c' cs. CClient_Handle now data c = Inr (out, bs, c') \<and> client_up sn n c' \<and>
    story_run (story_part (pn_Token sn) (Packet now data)) (kc_storySrv c) = Inr (out, cs, kc_storySrv c')"
proof -
  let ?t = "pn_Token sn"
  have t: "kc_sessionToken c = ?t" using u by (simp add: client_up_def)
  obtain r where r: "StoryParseServer data = Inr r"
      "\<And>m. client_reads ?t data = Some (MActionConfirm m) \<Longrightarrow> rs_ok (ac_Missing m)"
      "\<And>m. client_reads ?t data = Some (MStoryPack m) \<Longrightarrow> pack_read m" using parsed_message [OF v] by metis
  note H = Handle_reads [OF r(1), of now c, unfolded t]
  show ?thesis
  proof (cases "client_reads ?t data")
    case None
    then show ?thesis using u by (auto simp: H intro: client_up_frame)
  next
    case (Some msg)
    let ?c = "c\<lparr>kc_lastMessage := UnixNano now\<rparr>"
    have u1: "client_up sn n ?c" using u by (rule client_up_frame) simp_all
    show ?thesis
    proof (cases msg)
      case (MTestServer m)
      then show ?thesis using u1 Some by (simp add: H client_story_message_def)
    next
      case (MLatencyReport m)
      have "client_up sn n (client_latencies m ?c)" using u1 by (rule client_up_frame) (simp_all add: client_latencies_def)
      then show ?thesis using MLatencyReport Some by (simp add: H client_story_message_def client_latencies_def)
    next
      case (MActionConfirm m)
      obtain ps as where p: "ConfirmActions m (kc_actionSrv ?c) = (ps, as)" by fastforce
      have "actors_up n (kc_actionSrv ?c)" using u1 by (simp add: client_up_def)
      note q = confirms_up [OF this r(2) [OF Some [unfolded MActionConfirm]] p]
      then have "client_up sn n (?c\<lparr>kc_actionSrv := as\<rparr>)" using u1 client_up_actors by blast
      moreover obtain bs where "client_sends ?c (map MActionPack ps) = Inr bs" using q client_sends_ok by blast
      ultimately show ?thesis using MActionConfirm Some p
        by (simp add: H client_story_message_def client_confirms_def)
    next
      case (MStoryPack m)
      have g: "story_event_ok (length (pn_Stories sn)) (Gets now m)" using r(3) Some MStoryPack by simp
      obtain F Q where "served (pn_Stories sn) F Q (kc_storySrv ?c)" using u1 by (auto simp: client_up_def)
      then obtain out cs ys F' Q' where s: "HandlePack now m (kc_storySrv ?c) = Inr (out, cs, ys)"
          "served (pn_Stories sn) F' Q' ys" "\<forall>m \<in> set cs. confirm_readable m"
        using story_step_served [OF _ d g, unfolded story_step.simps] by blast
      then have up: "client_up sn n (?c\<lparr>kc_storySrv := ys\<rparr>)" using u1 by (auto simp: client_up_def)
      obtain bs where b: "client_sends ?c (map MStoryConfirm cs) = Inr bs" using sends_confirms [OF s(3)] by blast
      have "CClient_Handle now data c = client_takes now m ?c"
        unfolding H Some MStoryPack by (simp add: client_story_message_def)
      also have "\<dots> = Inr (out, bs, ?c\<lparr>kc_storySrv := ys\<rparr>)" unfolding client_takes_def s(1) by (simp add: b)
      finally have h: "CClient_Handle now data c = Inr (out, bs, ?c\<lparr>kc_storySrv := ys\<rparr>)" .
      have "story_run (story_part ?t (Packet now data)) (kc_storySrv c) = Inr (out, cs, kc_storySrv (?c\<lparr>kc_storySrv := ys\<rparr>))"
        using Some MStoryPack s(1) by simp
      with h up show ?thesis by blast
    qed
  qed
qed

lemma client_step_up:
  assumes u: "client_up sn n c" and d: "distinct (map py_Token (pn_Stories sn))"
    and v: "client_event_ok sn v" and room: "int (n + acts_of v) < int_lim"
  shows "\<exists>out bs c' cs. client_step v c = Inr (out, bs, c') \<and> client_up sn (n + acts_of v) c' \<and>
    story_run (story_part (pn_Token sn) v) (kc_storySrv c) = Inr (out, cs, kc_storySrv c')"
proof (cases v)
  case (Packet now data)
  then show ?thesis using packet_up [OF u d] v by simp
next
  case (PingDue now)
  have "client_up sn n (c\<lparr>kc_pingSrv := p\<rparr>)" for p using u by (rule client_up_frame) simp_all
  then show ?thesis using PingDue by (simp add: client_pings_def case_prod_unfold Let_def)
next
  case (Act now k payload)
  have a: "actors_up n (kc_actionSrv c)" "k < length (kc_actionSrv c)" "length payload \<le> 255" "int n + 1 < int_lim"
    using u v room Act by (auto simp: client_up_def)
  obtain ps as where s: "service_acts now (ps_latency (kc_pingSrv c)) k payload (kc_actionSrv c) = Inr (ps, as)"
      "actors_up (Suc n) as" "length as = length (kc_actionSrv c)" "\<forall>p \<in> set ps. pack_fits p"
    using acts_up [OF a] by blast
  obtain bs where "client_sends c (map MActionPack ps) = Inr bs" using client_sends_ok [OF s(4)] by blast
  then show ?thesis using s(1) client_up_actors [OF u s(2,3)] Act by (simp add: client_acts_def)
next
  case (ResendDue k)
  have a: "actors_up n (kc_actionSrv c)" "k < length (kc_actionSrv c)" using u v ResendDue by (auto simp: client_up_def)
  obtain ps as where p: "service_resends (ps_latency (kc_pingSrv c)) k (kc_actionSrv c) = (ps, as)" by fastforce
  note s = resends_up [OF a p]
  obtain bs where "client_sends c (map MActionPack ps) = Inr bs" using s client_sends_ok by blast
  then show ?thesis using s p client_up_actors [OF u, of n as] ResendDue by (simp add: client_resends_def)
next
  case (AskDue k)
  have g: "story_event_ok (length (pn_Stories sn)) (Asks k)" using v AskDue by simp
  obtain F Q where "served (pn_Stories sn) F Q (kc_storySrv c)" using u by (auto simp: client_up_def)
  then obtain out cs ys F' Q' where s: "story_step (Asks k) (kc_storySrv c) = Inr (out, cs, ys)"
      "served (pn_Stories sn) F' Q' ys" "\<forall>m \<in> set cs. confirm_readable m"
    using story_step_served [OF _ d g] by blast
  then have "client_up sn n (c\<lparr>kc_storySrv := ys\<rparr>)" using u by (auto simp: client_up_def)
  moreover obtain bs where "client_sends c (map MStoryConfirm cs) = Inr bs" using sends_confirms [OF s(3)] by blast
  ultimately show ?thesis using AskDue s(1) by (simp add: client_asks_def case_prod_unfold Let_def)
qed

lemma story_run_append:
  assumes "story_run vs s = Inr (out, cs, s1)" and "story_run ws s1 = Inr (out', cs', s2)"
  shows "story_run (vs @ ws) s = Inr (out @ out', cs @ cs', s2)"
  using assms(1)
proof (induction vs arbitrary: s out cs)
  case (Cons v vs)
  obtain o1 c1 t o2 c2 where a: "story_step v s = Inr (o1, c1, t)" "story_run vs t = Inr (o2, c2, s1)"
      "out = o1 @ o2" "cs = c1 @ c2"
    using Cons.prems by (auto simp: go_bind_Inr_iff)
  show ?case using a Cons.IH [OF a(2)] by simp
qed (use assms(2) in simp)

lemma client_run_up:
  assumes "client_up sn n c" and d: "distinct (map py_Token (pn_Stories sn))"
    and "\<forall>v \<in> set vs. client_event_ok sn v" and "int (n + sum_list (map acts_of vs)) < int_lim"
  shows "\<exists>out bs c' cs. client_run vs c = Inr (out, bs, c') \<and> client_up sn (n + sum_list (map acts_of vs)) c' \<and>
    story_run (story_parts (pn_Token sn) vs) (kc_storySrv c) = Inr (out, cs, kc_storySrv c')"
  using assms
proof (induction vs arbitrary: n c)
  case (Cons v vs)
  obtain out bs c1 cs where a: "client_step v c = Inr (out, bs, c1)" "client_up sn (n + acts_of v) c1"
      "story_run (story_part (pn_Token sn) v) (kc_storySrv c) = Inr (out, cs, kc_storySrv c1)"
    using client_step_up [OF Cons.prems(1) d, of v] Cons.prems(3,4) by auto
  have l: "int (n + acts_of v + sum_list (map acts_of vs)) < int_lim" using Cons.prems(4) by simp
  obtain out' bs' c2 cs' where b: "client_run vs c1 = Inr (out', bs', c2)"
      "client_up sn (n + acts_of v + sum_list (map acts_of vs)) c2"
      "story_run (story_parts (pn_Token sn) vs) (kc_storySrv c1) = Inr (out', cs', kc_storySrv c2)"
    using Cons.IH [OF a(2) d _ l] Cons.prems(3) by auto
  have "story_parts (pn_Token sn) (v # vs) = story_part (pn_Token sn) v @ story_parts (pn_Token sn) vs"
    by (simp add: story_parts_def)
  then show ?case using a b story_run_append [OF a(3) b(3)] by (simp add: add.assoc)
qed (simp add: story_parts_def)

lemma story_parts_ok:
  assumes "\<forall>v \<in> set vs. client_event_ok sn v"
  shows "\<forall>e \<in> set (story_parts (pn_Token sn) vs). story_event_ok (length (pn_Stories sn)) e"
proof -
  have "\<forall>e \<in> set (story_part (pn_Token sn) v). story_event_ok (length (pn_Stories sn)) e" if "client_event_ok sn v" for v
  proof (cases v)
    case (Packet now data)
    then have "data ! 5 = TypeAction \<longrightarrow> packet_safe data" using that by simp
    then obtain r where "StoryParseServer data = Inr r"
        "\<And>m. client_reads (pn_Token sn) data = Some (MStoryPack m) \<Longrightarrow> pack_read m"
      using parsed_message by metis
    then show ?thesis using Packet by (auto split: option.splits StoryServerMessage.splits)
  qed (use that in auto)
  then show ?thesis using assms by (auto simp: story_parts_def)
qed

section \<open>Properties\<close>

text \<open>A session of two actors, one of them this client's, and one story.\<close>

definition sample_session :: CSession where
  "sample_session = \<lparr>pn_Token = 1, pn_Name = [83], pn_Def = [], pn_ClientToken = 9,
     pn_Actors = [\<lparr>pa_Token = 7, pa_Story = 5, pa_Name = [65], pa_Index = 0, pa_InputCh = Some 2\<rparr>,
       \<lparr>pa_Token = 0, pa_Story = 5, pa_Name = [66], pa_Index = 1, pa_InputCh = None\<rparr>],
     pn_Stories = [\<lparr>py_Token = 5, py_Channel = Some 3\<rparr>]\<rparr>"

definition sample_packet :: "int list \<Rightarrow> byte list" where
  "sample_packet qs = (case StoryPack_Put (sample_pack qs) [] of Inr bs \<Rightarrow> bs | Inl e \<Rightarrow> [])"

definition sample_run :: "client_event list" where
  "sample_run = [PingDue 3, Act 4 0 [8], Packet 5 (sample_packet [2, 3]), AskDue 0, ResendDue 0, Packet 6 [1, 2],
     Packet 7 (sample_packet [6]), Packet 9 (sample_packet [1, 2])]"

lemma sample_run_facts:
  "CSession_Validate sample_session = None" "\<forall>v \<in> set sample_run. client_event_ok sample_session v"
  "sum_list (map acts_of sample_run) = 1" "story_parts 1 sample_run = sample_events"
proof -
  show "CSession_Validate sample_session = None" by code_simp
  show "sum_list (map acts_of sample_run) = 1" by code_simp
  show "\<forall>v \<in> set sample_run. client_event_ok sample_session v" by code_simp
  show "story_parts 1 sample_run = sample_events" by code_simp
qed

text \<open>
  C17. A client of a valid session keeps running whatever arrives: with payloads of at most 255 bytes,
  no order of packets, player inputs and timer events makes it panic or leaves one of its actors or stories
  out of step, except that an action confirmation can be malformed or ask for overlapping ranges. Every
  other packet is harmless, also one that nobody has sent.
\<close>

theorem client_never_panics:
  assumes "CSession_Validate sn = None" and "\<forall>v \<in> set vs. client_event_ok sn v"
    and "int (sum_list (map acts_of vs)) < int_lim"
  shows "\<exists>c0 out bs c. CClient_New sn = Inr (Inr c0) \<and> client_run vs c0 = Inr (out, bs, c) \<and>
    client_up sn (sum_list (map acts_of vs)) c"
proof -
  obtain c0 where c: "CClient_New sn = Inr (Inr c0)" "client_up sn 0 c0" using new_client_up [OF assms(1)] by blast
  have "distinct (map py_Token (pn_Stories sn))"
    using assms(1) by (simp add: CSession_Validate_spec csession_valid_def tokens_ok_def)
  from client_run_up [OF c(2) this assms(2)] show ?thesis using c(1) assms(3) by auto
qed

theorem client_never_panics_witness:
  "\<exists>c0 out bs c. CClient_New sample_session = Inr (Inr c0) \<and> client_run sample_run c0 = Inr (out, bs, c) \<and>
    client_up sample_session 1 c"
  using client_never_panics [OF sample_run_facts(1,2)] sample_run_facts(3) by simp

text \<open>
  C3. From packets to the game: a client of a valid session delivers each story on the story's own channel,
  in order, without holes or repetitions, whatever else arrives between the story's packs: packs of other
  stories and sessions, pongs, reports, confirmations and garbage. With packs that are sorted it delivers
  as far as the numbers it has received reach without a gap.
\<close>

theorem client_delivers_story:
  assumes "CSession_Validate sn = None" and "\<forall>v \<in> set vs. client_event_ok sn v"
    and "int (sum_list (map acts_of vs)) < int_lim" and "k < length (pn_Stories sn)"
    and "fs = feeds_for (py_Token (pn_Stories sn ! k)) (story_parts (pn_Token sn) vs)"
    and "\<forall>(now, es) \<in> set fs. \<forall>e \<in> set es. Payload e = f (Seq e)"
  shows "\<exists>c0 out bs c n. CClient_New sn = Inr (Inr c0) \<and> client_run vs c0 = Inr (out, bs, c) \<and>
    out_to k out = map f [1..n] \<and>
    ((\<forall>(now, es) \<in> set fs. sorted_wrt (\<le>) (map Seq es)) \<longrightarrow>
      (\<forall>i \<ge> 0. i \<le> n \<longleftrightarrow> {1..i} \<subseteq> (\<Union>(now, es) \<in> set fs. feed_seqs es)))"
proof -
  obtain c0 where c: "CClient_New sn = Inr (Inr c0)" "client_up sn 0 c0"
      "newStoryService (pn_Stories sn) = Inr (kc_storySrv c0)" using new_client_up [OF assms(1)] by blast
  have d: "distinct (map py_Token (pn_Stories sn))"
    using assms(1) by (simp add: CSession_Validate_spec csession_valid_def tokens_ok_def)
  obtain out bs c1 cs where r: "client_run vs c0 = Inr (out, bs, c1)"
      "story_run (story_parts (pn_Token sn) vs) (kc_storySrv c0) = Inr (out, cs, kc_storySrv c1)"
    using client_run_up [OF c(2) d assms(2)] assms(3) by auto
  from stories_delivered [OF c(3) d story_parts_ok [OF assms(2)] assms(4) assms(6) [unfolded assms(5)]] r(2)
  show ?thesis unfolding assms(5) using c(1) r(1)
    by (intro exI [of _ c0] exI [of _ out] exI [of _ bs] exI [of _ c1]
        exI [of _ "Stream_Sequence (ys_stream (kc_storySrv c1 ! k))"]) simp
qed

theorem client_delivers_story_witness:
  "\<exists>c0 out bs c. CClient_New sample_session = Inr (Inr c0) \<and> client_run sample_run c0 = Inr (out, bs, c) \<and>
    out_to 0 out = [[1], [2], [3]]"
proof -
  have st: "pn_Token sample_session = 1" "length (pn_Stories sample_session) = 1"
    "py_Token (pn_Stories sample_session ! 0) = 5" by (simp_all add: sample_session_def)
  have f: "feeds_for (py_Token (pn_Stories sample_session ! 0)) (story_parts (pn_Token sample_session) sample_run) =
      [(5, map sample_entry [2, 3]), (7, map sample_entry [6]), (9, map sample_entry [1, 2])]"
    by (simp add: st sample_run_facts(4) feeds_for_def sample_events_def sample_pack_def)
  let ?fs = "[(5, map sample_entry [2, 3]), (7, map sample_entry [6]), (9, map sample_entry [1, 2])] :: (time \<times> Entry list) list"
  have q: "(\<Union>(now, es) \<in> set ?fs. feed_seqs es) = {1, 2, 3, 6}"
    by (auto simp: feed_seqs_Cons sample_entry_def)
  have srt: "\<forall>(now, es) \<in> set ?fs. sorted_wrt (\<le>) (map Seq es)" by (simp add: sample_entry_def)
  have pay: "\<forall>(now, es) \<in> set ?fs. \<forall>e \<in> set es. Payload e = (\<lambda>i. [word_of_int i]) (Seq e)"
    by (simp add: sample_entry_def)
  have n: "int (sum_list (map acts_of sample_run)) < int_lim" by (simp add: sample_run_facts(3))
  obtain c0 out bs c n where r: "CClient_New sample_session = Inr (Inr c0)" "client_run sample_run c0 = Inr (out, bs, c)"
      "out_to 0 out = map (\<lambda>i. [word_of_int i]) [1..n]"
      "\<forall>i \<ge> 0. i \<le> n \<longleftrightarrow> {1..i} \<subseteq> {1, 2, 3, 6}"
    using client_delivers_story [OF sample_run_facts(1,2) n _ f [symmetric] pay] st(2) srt unfolding q by auto
  have s: "{1..3} \<subseteq> {1, 2, 3, 6 :: int}" "4 \<in> {1..4 :: int}" "4 \<notin> {1, 2, 3, 6 :: int}" by auto
  have "3 \<le> n" using r(4) [rule_format, of 3] s(1) by simp
  moreover have "\<not> {1..4} \<subseteq> {1, 2, 3, 6 :: int}" using s(2,3) by blast
  then have "\<not> 4 \<le> n" using r(4) [rule_format, of 4] by simp
  ultimately have "n = 3" by simp
  then have "out_to 0 out = [[1], [2], [3]]" using r(3) by (simp add: upto.simps)
  then show ?thesis using r(1,2) by blast
qed

lemma ConfirmActions_frame:
  assumes "snd (ConfirmActions m s) ! i \<noteq> s ! i"
  shows "ac_ActorToken m = pa_Token (aa_Actor (s ! i))"
proof (cases "first_idx (\<lambda>a. pa_Token (aa_Actor a) = ac_ActorToken m) s")
  case (Some k)
  then have "i = k" using assms by (cases "i = k") (simp_all add: ConfirmActions_def case_prod_unfold Let_def)
  then show ?thesis using first_idx_Some [OF Some] by simp
qed (use assms in \<open>simp add: ConfirmActions_def\<close>)

lemma HandlePack_frame:
  assumes "HandlePack now m s = Inr (out, cs, s')" and "s' ! i \<noteq> s ! i \<or> out_to i out \<noteq> []"
  shows "sp_StoryToken m = py_Token (ys_story (s ! i))"
proof (cases "first_idx (\<lambda>y. py_Token (ys_story y) = sp_StoryToken m) s")
  case (Some k)
  obtain o1 y where "out = map (Pair k) o1" "s' = s[k := y]"
    using assms(1) by (auto simp: HandlePack_def Some go_bind_Inr_iff)
  then have "i = k" using assms(2) by (cases "i = k") (simp_all del: map_map)
  then show ?thesis using first_idx_Some [OF Some] by simp
qed (use assms in \<open>simp add: HandlePack_def\<close>)

text \<open>
  A packet touches only what it names: whatever comes, a story's stream changes or something is
  delivered on its channel only for a pack of this session and that story, an actor's buffer changes only
  for a confirmation of this session and that actor, the latencies only for a report of this session, and the
  client sends nothing for packets of other sessions. Pongs name no session: any pong is taken.
\<close>

theorem packet_touches_its_own:
  assumes "CClient_Handle now data c = Inr (out, bs, c')"
  shows "(kc_storySrv c' ! i \<noteq> kc_storySrv c ! i \<or> out_to i out \<noteq> [] \<longrightarrow>
      (\<exists>m. client_reads (kc_sessionToken c) data = Some (MStoryPack m) \<and>
        sp_StoryToken m = py_Token (ys_story (kc_storySrv c ! i)))) \<and>
    (kc_actionSrv c' ! i \<noteq> kc_actionSrv c ! i \<longrightarrow>
      (\<exists>m. client_reads (kc_sessionToken c) data = Some (MActionConfirm m) \<and>
        ac_ActorToken m = pa_Token (aa_Actor (kc_actionSrv c ! i)))) \<and>
    (kc_latencies c' \<noteq> kc_latencies c \<longrightarrow>
      (\<exists>m. client_reads (kc_sessionToken c) data = Some (MLatencyReport m))) \<and>
    (kc_pingSrv c' \<noteq> kc_pingSrv c \<longrightarrow> snd (ParsePong data)) \<and>
    (bs \<noteq> [] \<or> kc_lastMessage c' \<noteq> kc_lastMessage c \<longrightarrow> client_reads (kc_sessionToken c) data \<noteq> None)"
proof (cases "client_reads (kc_sessionToken c) data")
  case None
  have "out = [] \<and> bs = [] \<and> (c' = c \<or> snd (ParsePong data) \<and> (\<exists>p. c' = c\<lparr>kc_pingSrv := p\<rparr>))"
    using assms None
    by (auto simp: CClient_Handle_def client_reads_def case_prod_unfold Let_def go_bind_Inr_iff split: if_splits option.splits)
  then show ?thesis by auto
next
  case (Some msg)
  then obtain r where r: "StoryParseServer data = Inr r"
    by (auto simp: client_reads_def split: if_splits sum.splits)
  let ?c = "c\<lparr>kc_lastMessage := UnixNano now\<rparr>"
  have h: "client_story_message now msg c = Inr (out, bs, c')" using assms Handle_reads [OF r, of now c] Some by simp
  show ?thesis
  proof (cases msg)
    case (MTestServer m)
    then show ?thesis using h Some by (auto simp: client_story_message_def)
  next
    case (MLatencyReport m)
    then show ?thesis using h Some by (auto simp: client_story_message_def client_latencies_def)
  next
    case (MActionConfirm m)
    have "out = [] \<and> c' = ?c\<lparr>kc_actionSrv := snd (ConfirmActions m (kc_actionSrv c))\<rparr>"
      using h MActionConfirm by (auto simp: client_story_message_def client_confirms_def case_prod_unfold Let_def go_bind_Inr_iff)
    then show ?thesis using ConfirmActions_frame [of m "kc_actionSrv c" i] Some MActionConfirm by auto
  next
    case (MStoryPack m)
    obtain cs ys where p: "HandlePack now m (kc_storySrv c) = Inr (out, cs, ys)" "c' = ?c\<lparr>kc_storySrv := ys\<rparr>"
      using h MStoryPack by (auto simp: client_story_message_def client_takes_def go_bind_Inr_iff Let_def)
    then show ?thesis using HandlePack_frame [OF p(1), of i] Some MStoryPack by auto
  qed
qed

theorem packet_touches_its_own_witness:
  "\<exists>c0 out bs c. CClient_New sample_session = Inr (Inr c0) \<and>
     CClient_Handle 5 (sample_packet [1]) c0 = Inr (out, bs, c) \<and> kc_actionSrv c ! 0 = kc_actionSrv c0 ! 0 \<and>
     kc_pingSrv c = kc_pingSrv c0"
proof -
  obtain c0 where c: "CClient_New sample_session = Inr (Inr c0)" "client_up sample_session 0 c0"
    using new_client_up [OF sample_run_facts(1)] by blast
  have e: "client_event_ok sample_session (Packet 5 (sample_packet [1]))" by code_simp
  have d: "distinct (map py_Token (pn_Stories sample_session))" by (simp add: sample_session_def)
  obtain out bs c1 where h: "CClient_Handle 5 (sample_packet [1]) c0 = Inr (out, bs, c1)"
    using client_step_up [OF c(2) d e] by auto
  have "kc_sessionToken c0 = 1" using c(2) by (simp add: client_up_def sample_session_def)
  moreover have "client_reads 1 (sample_packet [1]) = Some (MStoryPack (sample_pack [1]))"
    "\<not> snd (ParsePong (sample_packet [1]))" by code_simp+
  ultimately show ?thesis using packet_touches_its_own [OF h, of 0] c(1) h by auto
qed

end
