(* ===== verification/ActionPaths.thy ===== *)
theory ActionPaths
  imports Actions Packets "HOL-Library.Sublist"
begin

text \<open>
  The way of a player's actions from the client to the game: \<open>udpstar/client/service_action.go\<close> with
  \<open>HandleActionPack\<close> of \<open>udpstar/server/service_client.go\<close>. The client sends packs of its newest
  actions again and again, the network loses, repeats and reorders them, and the server's stream gives up
  on actions that are late.
\<close>

section \<open>What the player did\<close>

fun inputs_of :: "actor_event \<Rightarrow> byte list list" where
  "inputs_of (Acts now latency payload) = [payload]" | "inputs_of (Resends latency) = []" | "inputs_of (Confirms msg) = []"

definition inputs :: "actor_event list \<Rightarrow> byte list list" where
  "inputs vs = concat (map inputs_of vs)"

text \<open>The log numbers the inputs from one on.\<close>

definition numbered :: "byte list list \<Rightarrow> Entry list \<Rightarrow> Enumerator \<Rightarrow> bool" where
  "numbered ps log en \<longleftrightarrow> map Payload log = ps \<and> map Seq log = [1..int (length ps)] \<and> en_lastSeq en = int (length ps) \<and>
     (\<forall>e \<in> set log. duration_valid (Delay e))"

lemma push_numbered:
  assumes "numbered ps log en" and "int (length ps) + 1 < int_lim" and "Enumerator_Push now p en = (en', e)"
  shows "numbered (ps @ [p]) (log @ [e]) en'"
proof -
  have "e = \<lparr>Seq = int (length ps) + 1, Delay = (if \<not> time_IsZero (en_lastAt en) then time_Sub now (en_lastAt en) else 0),
      Payload = p\<rparr>" "en_lastSeq en' = int (length ps) + 1"
    using assms by (auto simp: Enumerator_Push_def Let_def numbered_def u64_id)
  then show ?thesis using assms(1)
    by (auto simp: numbered_def duration_valid_def time_Sub_def upto_rec2)
qed

lemma queue_numbered:
  assumes "numbered ps log en" and "int (length ps) + int (sum_list (map acted vs)) < int_lim"
  shows "numbered (ps @ inputs vs) (fst (snd (queue_run vs (q, log, en)))) (snd (snd (queue_run vs (q, log, en))))"
  using assms
proof (induction vs arbitrary: ps q log en)
  case (Cons v vs)
  show ?case
  proof (cases v)
    case (Acts now latency payload)
    obtain en' e where p: "Enumerator_Push now payload en = (en', e)" by fastforce
    have "numbered (ps @ [payload]) (log @ [e]) en'" using push_numbered [OF Cons.prems(1) _ p] Cons.prems(2) Acts by simp
    from Cons.IH [OF this] show ?thesis using Cons.prems(2) by (simp add: Acts p queue_run_Cons inputs_def)
  qed (use Cons in \<open>simp_all add: queue_run_Cons inputs_def\<close>)
qed (simp add: queue_run_def inputs_def)

lemma length_inputs: "length (inputs vs) = sum_list (map acted vs)"
proof -
  have "length (inputs_of v) = acted v" for v by (cases v) simp_all
  then show ?thesis by (induction vs) (simp_all add: inputs_def)
qed

section \<open>The wire\<close>

text \<open>A pack that was sent with some header, and what the server reads.\<close>

definition arrives :: "ActionPack \<Rightarrow> ActionPack \<Rightarrow> bool" where
  "arrives p m \<longleftrightarrow> (\<exists>h bs. ActionPack_Put (p\<lparr>ap_Header := h\<rparr>) [] = Inr bs \<and> StoryParseClient bs = Inr (Some (MActionPack m)))"

lemma arrives_same:
  assumes "arrives p m" and "\<forall>e \<in> set (ap_Actions p). entry_valid e"
  shows "ap_Actions m = ap_Actions p" and "ap_ActorToken m = ap_ActorToken p"
proof -
  obtain h bs where a: "ActionPack_Put (p\<lparr>ap_Header := h\<rparr>) [] = Inr bs" "StoryParseClient bs = Inr (Some (MActionPack m))"
    using assms(1) by (auto simp: arrives_def)
  have "length (ap_Actions p) \<le> 255" using a(1) by (auto simp: ActionPack_Put_def PutEntries_def split: if_splits)
  then have "story_client_valid (MActionPack (p\<lparr>ap_Header := h\<rparr>))" using assms(2) by (simp add: lists_valid_def)
  from story_client_parse [OF this, of "[]"] have "m = p\<lparr>ap_Header := h\<rparr>" using a by simp
  then show "ap_Actions m = ap_Actions p" "ap_ActorToken m = ap_ActorToken p" by simp_all
qed

section \<open>The server\<close>

fun take_packs :: "(time \<times> ActionPack) list \<Rightarrow> clientService \<Rightarrow> ((channel \<times> byte list) list \<times> clientService) go" where
  "take_packs [] c = Inr ([], c)"
| "take_packs ((now, m) # ms) c =
     go_bind (HandleActionPack now m c) (\<lambda>(r, out, c1).
       go_bind (take_packs ms c1) (\<lambda>(out', c2). Inr (out @ out', c2)))"

lemma first_idx_same: "i < length xs \<Longrightarrow> P x = P (xs ! i) \<Longrightarrow> first_idx P (xs[i := x]) = first_idx P xs"
  by (induction xs arbitrary: i) (auto split: nat.splits)

lemma take_packs_runs:
  assumes "first_idx (\<lambda>a. at_Token (ca_Actor (rd_Actor a)) = t) (cs_remoteActors c) = Some i"
    and "\<forall>(now, m) \<in> set ms. ap_ActorToken m = t \<and> feed_ok (ap_Actions m)"
    and "engine_ok (rd_Stream (cs_remoteActors c ! i)) (rd_Missing (cs_remoteActors c ! i))"
  shows "\<exists>out c' st. take_packs ms c = Inr (map (\<lambda>e. (ca_Channel (rd_Actor (cs_remoteActors c ! i)), Payload e)) out, c') \<and>
    run_push (map (\<lambda>(now, m). (now, ap_Actions m)) ms) (rd_Stream (cs_remoteActors c ! i)) = (st, out)"
  using assms
proof (induction ms arbitrary: c)
  case (Cons x ms)
  obtain now m where x: "x = (now, m)" by fastforce
  let ?r = "cs_remoteActors c ! i"
  have m: "ap_ActorToken m = t" "feed_ok (ap_Actions m)" using Cons.prems(2) by (auto simp: x)
  obtain st mi out newly where e: "engine (ap_Actions m) (rd_Stream ?r) (Some (rd_Missing ?r)) now = Inr (st, Some mi, out, newly)"
      "push now (ap_Actions m) (rd_Stream ?r) = (st, out)" "engine_ok st mi"
    using engine_spec [OF Cons.prems(3) m(2), of now] by blast
  let ?r' = "?r\<lparr>rd_Stream := st, rd_Missing := mi\<rparr>"
  let ?c = "c\<lparr>cs_remoteActors := (cs_remoteActors c)[i := ?r']\<rparr>"
  obtain res where h: "HandleActionPack now m c = Inr (res, map (\<lambda>e. (ca_Channel (rd_Actor ?r), Payload e)) out, ?c)"
    using Cons.prems(1) e(1) by (simp add: HandleActionPack_def m(1) Let_def)
  have i: "i < length (cs_remoteActors c)" using first_idx_Some [OF Cons.prems(1)] by simp
  have "first_idx (\<lambda>a. at_Token (ca_Actor (rd_Actor a)) = t) (cs_remoteActors ?c) = Some i"
    using first_idx_same [OF i, of "\<lambda>a. at_Token (ca_Actor (rd_Actor a)) = t" ?r'] Cons.prems(1) by simp
  from Cons.IH [OF this] obtain out' c' st' where r: "take_packs ms ?c = Inr (map (\<lambda>e. (ca_Channel (rd_Actor ?r), Payload e)) out', c')"
      "run_push (map (\<lambda>(now, m). (now, ap_Actions m)) ms) st = (st', out')"
    using Cons.prems(2) e(3) i by auto
  show ?case using h r e(2)
    by (intro exI [of _ "out @ out'"] exI [of _ c'] exI [of _ st']) (simp add: x)
qed simp

section \<open>The whole way\<close>

lemma increasing_subseq:
  assumes "map Seq log = [1..int (length log)]" and "sorted_wrt (<) (map Seq out)" and "\<forall>x \<in> set out. known (set log) x"
  shows "subseq (map Payload out) (map Payload log)"
  using assms
proof (induction log arbitrary: out rule: rev_induct)
  case Nil
  then show ?case by (cases out) (auto simp: known_def)
next
  case (snoc e log)
  have l: "map Seq log = [1..int (length log)]" "Seq e = int (length log) + 1"
    using snoc.prems(1) by (simp_all add: upto_rec2)
  show ?case
  proof (cases "out \<noteq> [] \<and> Seq (last out) = Seq e")
    case True
    then obtain out' x where o: "out = out' @ [x]" "Seq x = Seq e" by (metis append_butlast_last_id)
    have below: "\<forall>y \<in> set log. Seq y \<le> int (length log)"
    proof
      fix y assume "y \<in> set log"
      then have "Seq y \<in> set (map Seq log)" by simp
      then show "Seq y \<le> int (length log)" unfolding l(1) by simp
    qed
    have "\<forall>y \<in> set out'. known (set log) y"
    proof
      fix y assume y: "y \<in> set out'"
      then have "Seq y < Seq e" using snoc.prems(2) o by (auto simp: sorted_wrt_append)
      then show "known (set log) y" using snoc.prems(3) y o(1) by (auto simp: known_def)
    qed
    then have "subseq (map Payload out') (map Payload log)" using snoc.IH [OF l(1)] snoc.prems(2) o(1)
      by (simp add: sorted_wrt_append)
    moreover have "Payload x = Payload e" using snoc.prems(3) o l(2) below by (force simp: known_def)
    ultimately show ?thesis by (simp add: o(1) subseq_append_iff) (metis list_emb_append_mono subseq_order.refl)
  next
    case False
    have "known (set log) y" if y: "y \<in> set out" for y
    proof -
      have top: "Seq z \<le> int (length log) + 1" if z: "z \<in> set out" for z
      proof -
        obtain e' where "e' \<in> set (log @ [e])" "Seq e' = Seq z" using snoc.prems(3) z by (auto simp: known_def)
        then have "Seq z \<in> set (map Seq (log @ [e]))" by (metis image_eqI set_map)
        then show ?thesis unfolding snoc.prems(1) by simp
      qed
      obtain out' x where o: "out = out' @ [x]" using y by (metis empty_iff list.set(1) rev_exhaust)
      have "Seq y \<le> Seq x" using snoc.prems(2) y by (auto simp: o sorted_wrt_append)
      moreover have "Seq x \<noteq> Seq e" using False by (simp add: o)
      moreover have "Seq x \<le> Seq e" using top [of x] l(2) by (simp add: o)
      ultimately show ?thesis using snoc.prems(3) y by (fastforce simp: known_def)
    qed
    then have "subseq (map Payload out) (map Payload log)" using snoc.IH [OF l(1) snoc.prems(2)] by blast
    then show ?thesis by (simp add: subseq_rev_drop_many)
  qed
qed

text \<open>
  C4. From the player to the game: whatever packs of an actor's client reach the server, in any order and
  with any losses and repetitions, and whenever they come, the server puts on the actor's channel a
  subsequence of the player's inputs: in order, each at most once, nothing made up. Nothing panics.
\<close>

theorem actions_arrive_in_order:
  assumes "newActorAction act = Inr a0" and "actor_run vs a0 = Inr (packs, a)"
    and "\<forall>p \<in> set (inputs vs). length p \<le> 254" and "length (inputs vs) < 2 ^ 32"
    and "first_idx (\<lambda>r. at_Token (ca_Actor (rd_Actor r)) = pa_Token act) (cs_remoteActors c) = Some i"
    and "newRemoteActorData ra = Inr (cs_remoteActors c ! i)"
    and "\<forall>(now, m) \<in> set ms. \<exists>p \<in> set packs. arrives p m"
  shows "\<exists>out c'. take_packs ms c = Inr (map (Pair (ca_Channel ra)) out, c') \<and> subseq out (inputs vs)"
proof -
  have fits: "\<forall>v \<in> set vs. event_fits v"
  proof
    fix v assume v: "v \<in> set vs"
    show "event_fits v"
    proof (cases v)
      case (Acts now latency payload)
      then have "payload \<in> set (inputs vs)" using v by (force simp: inputs_def)
      then show ?thesis using assms(3) Acts by auto
    qed simp_all
  qed
  have n: "int (sum_list (map acted vs)) < 2 ^ 32" using assms(4) by (simp add: length_inputs)
  define log where "log = fst (snd (queue_run vs ([], [], zero_Enumerator)))"
  have "numbered [] [] zero_Enumerator" by (simp add: numbered_def zero_Enumerator_def)
  from queue_numbered [OF this, of vs "[]"] n
  have log: "map Payload log = inputs vs" "map Seq log = [1..int (length log)]" "\<forall>e \<in> set log. duration_valid (Delay e)"
    by (auto simp: numbered_def log_def length_inputs dest: arg_cong [of _ _ length])
  have valid: "entry_valid e" if e: "e \<in> set log" for e
  proof -
    have "Seq e \<in> set (map Seq log)" "Payload e \<in> set (map Payload log)" using e by simp_all
    then have "1 \<le> Seq e" "Seq e \<le> int (length log)" "length (Payload e) \<le> 254"
      using log(1,2) assms(3) by (simp, simp, metis)
    moreover have "int (length log) < 2 ^ 32" using assms(4) arg_cong [OF log(1), of length] by simp
    ultimately show ?thesis using log(3) e by (simp add: entry_valid_def seq_valid_def)
  qed
  have packs: "ap_ActorToken p = pa_Token act \<and> set (ap_Actions p) \<subseteq> set log" if "p \<in> set packs" for p
    using fresh_actor_run [OF assms(1) fits] n assms(2) that by (auto simp: log_def)
  have ms: "ap_ActorToken m = pa_Token act \<and> set (ap_Actions m) \<subseteq> set log" if "(now, m) \<in> set ms" for now m
  proof -
    obtain p where p: "p \<in> set packs" "arrives p m" using assms(7) \<open>(now, m) \<in> set ms\<close> by blast
    then have "\<forall>e \<in> set (ap_Actions p). entry_valid e" using packs valid by blast
    from arrives_same [OF p(2) this] packs [OF p(1)] show ?thesis by simp
  qed
  have feed: "\<forall>(now, m) \<in> set ms. ap_ActorToken m = pa_Token act \<and> feed_ok (ap_Actions m)"
    using ms valid by (fastforce simp: feed_ok_def entry_valid_def seq_valid_def)
  have r: "cs_remoteActors c ! i = fresh_remote ra" using assms(6) by (simp add: newRemoteActorData_fresh)
  have "engine_ok (rd_Stream (cs_remoteActors c ! i)) (rd_Missing (cs_remoteActors c ! i))"
    using fresh_engine_ok by (simp add: r fresh_remote_def)
  from take_packs_runs [OF assms(5) feed this]
  obtain out c' st where t: "take_packs ms c = Inr (map (\<lambda>e. (ca_Channel ra, Payload e)) out, c')"
      "run_push (map (\<lambda>(now, m). (now, ap_Actions m)) ms) (rd_Stream (fresh_remote ra)) = (st, out)"
    by (auto simp: r fresh_remote_def)
  let ?fs = "map (\<lambda>(now, m). (now, ap_Actions m)) ms" and ?s = "rd_Stream (fresh_remote ra)"
  have s: "stream_ok ?s" "lastSeq ?s = 0" "waiting ?s = {}"
    using fresh_engine_ok [of ActionExpireDuration] by (simp_all add: fresh_remote_def engine_ok_def)
      (simp_all add: zero_Stream_def)
  have "\<forall>(now, es) \<in> set ?fs. feed_ok es" using feed by auto
  from run_push_delivers [OF s(1) this t(2)] s(2,3)
  have d: "in_order 0 out (lastSeq st)" "list_all (known (\<Union>(now, es) \<in> set ?fs. set es)) out"
    by (simp_all add: delivers_def)
  have "(\<Union>(now, es) \<in> set ?fs. set es) \<subseteq> set log" using ms by force
  then have "\<forall>x \<in> set out. known (set log) x" using known_mono [OF d(2)] by (simp add: list_all_iff)
  moreover have "sorted_wrt (<) (map Seq out)" using d(1) by (simp add: in_order_def)
  ultimately have "subseq (map Payload out) (map Payload log)" using increasing_subseq [OF log(2)] by blast
  then show ?thesis using t(1) unfolding log(1)
    by (intro exI [of _ "map Payload out"] exI [of _ c']) (simp add: comp_def)
qed

text \<open>Three inputs; the server gets the last pack first, and then the first one.\<close>

definition three_inputs :: "actor_event list" where
  "three_inputs = [Acts 5 0 [1], Acts 9 0 [2], Acts 12 0 [3]]"

definition sent_pack :: "Entry list \<Rightarrow> ActionPack" where
  "sent_pack es = \<lparr>ap_Header = zero_StoryHeaderClient, ap_ActorToken = 7, ap_Actions = es\<rparr>"

definition remote_player :: ClientActor where
  "remote_player = \<lparr>ca_Actor = \<lparr>at_Token = 7, at_Name = [65], at_Config = None, at_Story = 5, at_Index = 0\<rparr>, ca_Channel = Some 3\<rparr>"

definition remote_service :: clientService where
  "remote_service = \<lparr>cs_Token = 9, cs_Session = 1, cs_data = ci_Data zero_clientInfo,
     cs_remoteActors = [fresh_remote remote_player], cs_state = ClientStateNew\<rparr>"

definition three_run :: "(ActionPack list \<times> actorAction) go" where
  "three_run = go_bind (newActorAction player) (actor_run three_inputs)"

lemma three_packs:
  "map_sum id fst three_run = Inr [sent_pack [\<lparr>Seq = 1, Delay = 0, Payload = [1]\<rparr>],
     sent_pack [\<lparr>Seq = 1, Delay = 0, Payload = [1]\<rparr>, \<lparr>Seq = 2, Delay = 4, Payload = [2]\<rparr>],
     sent_pack [\<lparr>Seq = 1, Delay = 0, Payload = [1]\<rparr>, \<lparr>Seq = 2, Delay = 4, Payload = [2]\<rparr>, \<lparr>Seq = 3, Delay = 3, Payload = [3]\<rparr>]]"
  by code_simp

lemma arrives_self:
  assumes "lists_valid entry_valid (ap_Actions p)"
  shows "arrives p p"
proof -
  have "story_client_valid (MActionPack (p\<lparr>ap_Header := ap_Header p\<rparr>))" using assms by simp
  from story_client_parse [OF this, of "[]"] show ?thesis unfolding arrives_def by (intro exI [of _ "ap_Header p"]) auto
qed

theorem actions_arrive_in_order_witness:
  "\<exists>a0 packs a out c'. newActorAction player = Inr a0 \<and> actor_run three_inputs a0 = Inr (packs, a) \<and> length packs = 3 \<and>
     take_packs [(20, packs ! 2), (21, packs ! 0)] remote_service = Inr (map (Pair (Some 3)) out, c') \<and>
     subseq out [[1], [2], [3]]"
proof -
  obtain a0 packs a where r: "newActorAction player = Inr a0" "actor_run three_inputs a0 = Inr (packs, a)"
      "packs = [sent_pack [\<lparr>Seq = 1, Delay = 0, Payload = [1]\<rparr>],
       sent_pack [\<lparr>Seq = 1, Delay = 0, Payload = [1]\<rparr>, \<lparr>Seq = 2, Delay = 4, Payload = [2]\<rparr>],
       sent_pack [\<lparr>Seq = 1, Delay = 0, Payload = [1]\<rparr>, \<lparr>Seq = 2, Delay = 4, Payload = [2]\<rparr>, \<lparr>Seq = 3, Delay = 3, Payload = [3]\<rparr>]]"
  proof -
    obtain a0 where a0: "newActorAction player = Inr a0" using player_starts by blast
    obtain packs a where r: "actor_run three_inputs a0 = Inr (packs, a)"
      using fresh_actor_run [OF a0, of three_inputs] by (auto simp: three_inputs_def)
    have "map_sum id fst three_run = Inr packs" by (simp add: three_run_def a0 r)
    from that [OF a0 r] Inr_inject [OF three_packs [unfolded this]] show ?thesis by blast
  qed
  have i: "inputs three_inputs = [[1], [2], [3]]" by (simp add: inputs_def three_inputs_def)
  have v: "arrives (packs ! 2) (packs ! 2)" "arrives (packs ! 0) (packs ! 0)"
    by (rule arrives_self; simp add: r(3) sent_pack_def lists_valid_def entry_valid_def seq_valid_def duration_valid_def)+
  have p: "packs ! 2 \<in> set packs" "packs ! 0 \<in> set packs" by (simp_all add: r(3))
  have s: "first_idx (\<lambda>x. at_Token (ca_Actor (rd_Actor x)) = pa_Token player) (cs_remoteActors remote_service) = Some 0"
    "newRemoteActorData remote_player = Inr (cs_remoteActors remote_service ! 0)"
    by (simp_all add: remote_service_def remote_player_def fresh_remote_def player_def newRemoteActorData_fresh)
  have ms: "\<forall>(now, m) \<in> set [(20, packs ! 2), (21, packs ! 0)]. \<exists>p \<in> set packs. arrives p m" using v p by auto
  have "ca_Channel remote_player = Some 3" by (simp add: remote_player_def)
  then show ?thesis using actions_arrive_in_order [OF r(1,2) _ _ s ms] r i by (auto simp del: take_packs.simps)
qed

end
