(* ===== verification/StoryPaths.thy ===== *)
theory StoryPaths
  imports Clients ActionPaths
begin

text \<open>
  The way of a story from the game to the players: the pushes of \<open>udpstar/server/service_session.go\<close> and
  its answers to requests, and the client of \<open>udpstar/client/client.go\<close> behind a network that loses, repeats
  and reorders packets.
\<close>

section \<open>The source\<close>

text \<open>What makes packs of a story: the game emits an event, or a client asks for ranges.\<close>

datatype source_event = Emits time "byte list" | Answers "Range list"

fun source_step :: "token \<Rightarrow> source_event \<Rightarrow> storyData \<Rightarrow> (StoryPack list \<times> storyData) option" where
  "source_step t (Emits now payload) z =
     (case story_push now payload z of
        Some (Inr es, z') \<Rightarrow> Some ([story_pack t (st_Token (sd_Story z')) es], z')
      | _ \<Rightarrow> None)"
| "source_step t (Answers rs) z = Some (missing_packs t rs z, z)"

fun source_run :: "token \<Rightarrow> source_event list \<Rightarrow> storyData \<Rightarrow> (StoryPack list \<times> storyData) option" where
  "source_run t [] z = Some ([], z)"
| "source_run t (v # vs) z =
     (case source_step t v z of
        None \<Rightarrow> None
      | Some (ps, z1) \<Rightarrow> map_option (\<lambda>(qs, z2). (ps @ qs, z2)) (source_run t vs z1))"

fun emitted_by :: "source_event \<Rightarrow> (time \<times> byte list) list" where
  "emitted_by (Emits now payload) = [(now, payload)]" | "emitted_by (Answers rs) = []"

definition emitted :: "source_event list \<Rightarrow> (time \<times> byte list) list" where
  "emitted vs = concat (map emitted_by vs)"

fun asked_ok :: "source_event \<Rightarrow> bool" where
  "asked_ok (Emits now payload) = True"
| "asked_ok (Answers rs) = (\<forall>r \<in> set rs. range_asked r)"

text \<open>A clock that does not go back, over a span that a duration can hold.\<close>

definition clock_ok :: "time \<Rightarrow> (time \<times> byte list) list \<Rightarrow> bool" where
  "clock_ok t0 em \<longleftrightarrow> 0 < t0 \<and> sorted (map fst em) \<and> (\<forall>(now, p) \<in> set em. t0 \<le> now \<and> now < t0 + int_lim \<and> length p \<le> 254) \<and>
     int (length em) < 2 ^ 32"

text \<open>The log of the story numbers what was emitted, and its delays add up to the time that has passed.\<close>

definition source_ok :: "time \<Rightarrow> (time \<times> byte list) list \<Rightarrow> storyData \<Rightarrow> bool" where
  "source_ok t0 em z \<longleftrightarrow> story_ok z \<and> numbered (map snd em) (story_log z) (sd_Enum z) \<and>
     (\<forall>e \<in> set (story_log z). 0 \<le> Delay e) \<and>
     en_lastAt (sd_Enum z) = (if em = [] then 0 else fst (last em)) \<and>
     sum_list (map Delay (story_log z)) \<le> (if em = [] then 0 else fst (last em) - t0)"

lemma new_source_ok: "source_ok t0 [] (newStoryData y)"
  using new_story_ok [of y]
  by (simp add: source_ok_def numbered_def newStoryData_def zero_Enumerator_def zero_history_ok)

lemma payload_sum: "\<forall>e \<in> set es. length (Payload e) \<le> 254 \<Longrightarrow>
    sum_list (map (\<lambda>e. int (length (Payload e))) es) \<le> 254 * int (length es)"
  by (induction es) auto

lemma emit_ok:
  assumes z: "source_ok t0 em z" and c: "clock_ok t0 (em @ [(now, payload)])"
  obtains es z' where "story_push now payload z = Some (Inr es, z')" "source_ok t0 (em @ [(now, payload)]) z'"
    "set es \<subseteq> set (story_log z')" "set (story_log z) \<subseteq> set (story_log z')" "sd_Story z' = sd_Story z"
proof -
  let ?e = "next_entry now payload z"
  have st: "story_ok z" "numbered (map snd em) (story_log z) (sd_Enum z)" using z by (simp_all add: source_ok_def)
  obtain en where p: "Enumerator_Push now payload (sd_Enum z) = (en, ?e)"
    by (cases "Enumerator_Push now payload (sd_Enum z)") (simp add: next_entry_def)
  have n: "int (length (map snd em)) + 1 < int_lim" "int (length em) < 2 ^ 32 - 1" using c by (simp_all add: clock_ok_def)
  have num: "numbered (map snd (em @ [(now, payload)])) (story_log z @ [?e]) en"
    using push_numbered [OF st(2) n(1) p] by simp
  have len: "length (story_log z) = length em" using arg_cong [of _ _ length, OF conjunct1 [OF st(2) [unfolded numbered_def]]] by simp
  have now: "t0 \<le> now" "now < t0 + int_lim" "0 < t0" using c by (auto simp: clock_ok_def)
  have last: "t0 \<le> fst (last em) \<and> fst (last em) \<le> now" if "em \<noteq> []"
  proof -
    have l: "last em \<in> set em" using that by simp
    have "fst (last em) \<le> now" using c l by (force simp: clock_ok_def sorted_append)
    moreover have "t0 \<le> fst (last em)" using c l by (force simp: clock_ok_def case_prod_unfold)
    ultimately show ?thesis by simp
  qed
  have d: "Delay ?e = (if em = [] then 0 else now - fst (last em))"
  proof (cases "em = []")
    case False
    then have "en_lastAt (sd_Enum z) = fst (last em)" using z by (simp add: source_ok_def)
    then show ?thesis using False last [OF False] now
      by (simp add: next_entry_def Enumerator_Push_def Let_def time_IsZero_def time_Sub_def)
  qed (use z in \<open>simp add: next_entry_def Enumerator_Push_def Let_def source_ok_def time_IsZero_def\<close>)
  have sum: "sum_list (map Delay (story_log z @ [?e])) \<le> now - t0" using z d last now by (auto simp: source_ok_def)
  have pos: "\<forall>e \<in> set (story_log z @ [?e]). 0 \<le> Delay e" using z d last by (auto simp: source_ok_def)
  have pay: "map Payload (story_log z @ [?e]) = map snd (em @ [(now, payload)])" using num by (simp only: numbered_def)
  have short: "\<forall>e \<in> set (story_log z @ [?e]). length (Payload e) \<le> 254"
  proof
    fix e assume "e \<in> set (story_log z @ [?e])"
    then have "Payload e \<in> set (map Payload (story_log z @ [?e]))" by (metis image_eqI set_map)
    then show "length (Payload e) \<le> 254" unfolding pay using c by (auto simp: clock_ok_def)
  qed
  have tame: "tame (story_log z @ [?e])"
    using pos sum now payload_sum [OF short] n(2) len by (auto simp: tame_def)
  have l: "h_lastSeq (sd_History z) = int (length em)" using st by (simp add: story_ok_def numbered_def)
  obtain z' where z': "story_push now payload z = Some (Inr (drop_until (within 0 0 444) (story_log z @ [?e])), z')"
      "story_ok z'" "story_log z' = story_log z @ [?e]" "sd_Story z' = sd_Story z"
    using story_push_spec [OF st(1) tame] n(1) l by auto
  have "sd_Enum z' = en" using z'(1) p by (auto simp: story_push_def split: option.splits)
  moreover have "en_lastAt en = now" using p by (auto simp: Enumerator_Push_def Let_def)
  ultimately have "source_ok t0 (em @ [(now, payload)]) z'"
    using z'(2) num pos sum by (simp add: source_ok_def z'(3))
  moreover obtain k where "drop_until (within 0 0 444) (story_log z @ [?e]) = drop k (story_log z @ [?e])"
    using drop_until_suffix by blast
  ultimately show ?thesis using that [OF z'(1)] z'(3,4) set_drop_subset [of k "story_log z @ [?e]"] by auto
qed

lemma clock_prefix: "clock_ok t0 (em @ xs) \<Longrightarrow> clock_ok t0 em"
  by (auto simp: clock_ok_def sorted_append)

text \<open>Every entry of the log has the number of an emitted payload and can be written.\<close>

lemma source_entries:
  assumes z: "source_ok t0 em z" and c: "clock_ok t0 em" and e: "e \<in> set (story_log z)"
  shows "1 \<le> Seq e \<and> Seq e \<le> int (length em) \<and> Payload e = snd (em ! nat (Seq e - 1)) \<and> entry_valid e"
proof -
  have n: "map Payload (story_log z) = map snd em" "map Seq (story_log z) = [1..int (length em)]"
    "\<forall>e \<in> set (story_log z). duration_valid (Delay e)" using z by (simp_all add: source_ok_def numbered_def)
  obtain i where i: "i < length (story_log z)" "e = story_log z ! i" using e by (metis in_set_conv_nth)
  have len: "length (story_log z) = length em" using arg_cong [OF n(1), of length] by simp
  have "Seq e = map Seq (story_log z) ! i" "Payload e = map Payload (story_log z) ! i" using i by simp_all
  then have s: "Seq e = int i + 1" "Payload e = snd (em ! i)" using i(1) len unfolding n(1,2) by (simp_all add: nth_upto)
  have "em ! i \<in> set em" using i(1) len by simp
  then have "length (Payload e) \<le> 254" using c s(2) by (force simp: clock_ok_def case_prod_unfold)
  then show ?thesis using s i(1) len c n(3) e by (auto simp: entry_valid_def seq_valid_def clock_ok_def)
qed

lemma answer_from_log:
  assumes z: "source_ok t0 em z" and c: "clock_ok t0 em" and r: "\<forall>r \<in> set rs. range_asked r" and p: "p \<in> set (missing_packs t rs z)"
  shows "sp_StoryToken p = st_Token (sd_Story z) \<and> set (sp_Stories p) \<subseteq> set (story_log z)"
proof -
  have h: "history_ok (sd_History z)" "h_lastSeq (sd_History z) < int_lim" using z by (simp_all add: source_ok_def story_ok_def)
  have small: "\<forall>e \<in> set (story_log z). length (Payload e) \<le> 255"
    using source_entries [OF z c] by (fastforce simp: entry_valid_def)
  have "pack_ok t (st_Token (sd_Story z)) p" using missing_packs_spec(3) [OF h small r] p by blast
  then have "sp_StoryToken p = st_Token (sd_Story z)" unfolding pack_ok_def story_pack_def by (metis StoryPack.select_convs(2))
  then show ?thesis using missing_packs_entries [OF h small r p] by blast
qed

lemma source_run_ok:
  assumes "source_ok t0 em z" and "clock_ok t0 (em @ emitted vs)" and "\<forall>v \<in> set vs. asked_ok v"
  shows "\<exists>ps z'. source_run t vs z = Some (ps, z') \<and> source_ok t0 (em @ emitted vs) z' \<and> sd_Story z' = sd_Story z \<and>
    set (story_log z) \<subseteq> set (story_log z') \<and>
    (\<forall>p \<in> set ps. sp_StoryToken p = st_Token (sd_Story z) \<and> set (sp_Stories p) \<subseteq> set (story_log z'))"
  using assms
proof (induction vs arbitrary: em z)
  case (Cons v vs)
  have "\<exists>ps z1. source_step t v z = Some (ps, z1) \<and> source_ok t0 (em @ emitted_by v) z1 \<and> sd_Story z1 = sd_Story z \<and>
    set (story_log z) \<subseteq> set (story_log z1) \<and>
    (\<forall>p \<in> set ps. sp_StoryToken p = st_Token (sd_Story z) \<and> set (sp_Stories p) \<subseteq> set (story_log z1))"
  proof (cases v)
    case (Emits now payload)
    have "clock_ok t0 ((em @ [(now, payload)]) @ emitted vs)" using Cons.prems(2) by (simp add: Emits emitted_def)
    then have c: "clock_ok t0 (em @ [(now, payload)])" by (rule clock_prefix)
    obtain es z' where e: "story_push now payload z = Some (Inr es, z')" "source_ok t0 (em @ [(now, payload)]) z'"
        "set es \<subseteq> set (story_log z')" "set (story_log z) \<subseteq> set (story_log z')" "sd_Story z' = sd_Story z"
      using emit_ok [OF Cons.prems(1) c] by blast
    then show ?thesis by (simp add: Emits story_pack_def)
  next
    case (Answers rs)
    have c: "clock_ok t0 em" using Cons.prems(2) clock_prefix by blast
    have "\<forall>r \<in> set rs. range_asked r" using Cons.prems(3) by (simp add: Answers)
    then have "\<forall>p \<in> set (missing_packs t rs z). sp_StoryToken p = st_Token (sd_Story z) \<and> set (sp_Stories p) \<subseteq> set (story_log z)"
      using answer_from_log [OF Cons.prems(1) c] by blast
    then show ?thesis using Cons.prems(1) by (simp add: Answers)
  qed
  then obtain ps z1 where a: "source_step t v z = Some (ps, z1)" "source_ok t0 (em @ emitted_by v) z1" "sd_Story z1 = sd_Story z"
      "set (story_log z) \<subseteq> set (story_log z1)"
      "\<forall>p \<in> set ps. sp_StoryToken p = st_Token (sd_Story z) \<and> set (sp_Stories p) \<subseteq> set (story_log z1)" by blast
  have "clock_ok t0 ((em @ emitted_by v) @ emitted vs)" using Cons.prems(2) by (simp add: emitted_def)
  from Cons.IH [OF a(2) this] obtain qs z2 where b: "source_run t vs z1 = Some (qs, z2)"
      "source_ok t0 ((em @ emitted_by v) @ emitted vs) z2" "sd_Story z2 = sd_Story z1" "set (story_log z1) \<subseteq> set (story_log z2)"
      "\<forall>p \<in> set qs. sp_StoryToken p = st_Token (sd_Story z1) \<and> set (sp_Stories p) \<subseteq> set (story_log z2)"
    using Cons.prems(3) by auto
  have "source_run t (v # vs) z = Some (ps @ qs, z2)" using a(1) b(1) by (simp del: source_step.simps)
  moreover have "\<forall>p \<in> set (ps @ qs). sp_StoryToken p = st_Token (sd_Story z) \<and> set (sp_Stories p) \<subseteq> set (story_log z2)"
    using a(3,5) b(4,5) by auto
  ultimately show ?case using a(3,4) b(2-4) by (intro exI [of _ "ps @ qs"] exI [of _ z2]) (auto simp: emitted_def)
qed (simp add: emitted_def)

section \<open>The client\<close>

text \<open>What a client reads of a pack that was written.\<close>

lemma read_pack:
  assumes "StoryPack_Put p [] = Inr data" and "\<forall>e \<in> set (sp_Stories p). entry_valid e"
    and "StoryParseServer data = Inr (Some (MStoryPack m))"
  shows "m = p"
proof -
  have "length (sp_Stories p) \<le> 255" using assms(1) by (auto simp: StoryPack_Put_def PutEntries_def split: if_splits)
  then have "story_server_valid (MStoryPack p)" using assms(2) by (simp add: lists_valid_def)
  from story_server_parse [OF this, of "[]"] show ?thesis using assms(1,3) by auto
qed

lemma reads_parse: "client_reads t data = Some msg \<Longrightarrow> StoryParseServer data = Inr (Some msg)"
  by (auto simp: client_reads_def split: if_splits sum.splits option.splits)

lemma feeds_from_packets:
  assumes "(now, es) \<in> set (feeds_for u (story_parts t vs))"
  obtains data m where "Packet now data \<in> set vs" "client_reads t data = Some (MStoryPack m)" "sp_StoryToken m = u" "es = sp_Stories m"
proof -
  obtain e where e: "e \<in> set (story_parts t vs)" "(now, es) \<in> set (feed_for u e)" using assms by (auto simp: feeds_for_def)
  obtain v where v: "v \<in> set vs" "e \<in> set (story_part t v)" using e(1) by (auto simp: story_parts_def)
  obtain m where m: "e = Gets now m" "sp_StoryToken m = u" "es = sp_Stories m"
    using e(2) by (cases e) (auto split: if_splits)
  show ?thesis
  proof (cases v)
    case (Packet now' data)
    then have "client_reads t data = Some (MStoryPack m) \<and> now' = now"
      using v(2) m(1) by (auto split: option.splits StoryServerMessage.splits)
    then show ?thesis using that v(1) Packet m by blast
  qed (use v(2) m(1) in auto)
qed

section \<open>The whole way\<close>

text \<open>Of the packets that a client gets, those that carry the story were made by its source.\<close>

definition genuine :: "token \<Rightarrow> token \<Rightarrow> StoryPack list \<Rightarrow> client_event list \<Rightarrow> bool" where
  "genuine t u packs vs \<longleftrightarrow> (\<forall>v \<in> set vs. case v of
     Packet now data \<Rightarrow>
       (case client_reads t data of
          Some (MStoryPack m) \<Rightarrow> sp_StoryToken m = u \<longrightarrow> list_ex (\<lambda>p. StoryPack_Put p [] = Inr data) packs
        | _ \<Rightarrow> True)
   | _ \<Rightarrow> True)"

lemma genuine_pack:
  assumes "genuine t u packs vs" and "Packet now data \<in> set vs" and "client_reads t data = Some (MStoryPack m)"
    and "sp_StoryToken m = u"
  obtains p where "p \<in> set packs" "StoryPack_Put p [] = Inr data"
  using assms by (fastforce simp: genuine_def list_ex_iff)

lemma emitted_prefix:
  assumes "n \<le> length em"
  shows "map (\<lambda>i. snd (em ! nat (i - 1))) [1..int n] = map snd (take n em)"
  using assms by (intro nth_equalityI) (simp_all add: nth_upto)

text \<open>
  C2. From the game to the players: a story's source emits events and answers requests, and whatever of its
  packs reach a client, in any order, with any losses and repetitions and between any other packets, the
  client puts on the story's channel exactly the first events that were emitted: without holes, each once,
  in order, nothing made up. The source makes its packs and the client does not panic (that a pack of more
  than 255 entries cannot be written is another property).
\<close>

theorem stories_arrive_in_order:
  assumes "CSession_Validate sn = None" and "\<forall>v \<in> set vs. client_event_ok sn v"
    and "int (sum_list (map acts_of vs)) < int_lim" and "k < length (pn_Stories sn)"
    and "clock_ok t0 (emitted es)" and "\<forall>v \<in> set es. asked_ok v" and "st_Token y = py_Token (pn_Stories sn ! k)"
    and "genuine (pn_Token sn) (st_Token y) (fst (the (source_run t es (newStoryData y)))) vs"
  shows "\<exists>packs z c0 out bs c n. source_run t es (newStoryData y) = Some (packs, z) \<and>
    CClient_New sn = Inr (Inr c0) \<and> client_run vs c0 = Inr (out, bs, c) \<and>
    out_to k out = map snd (take n (emitted es))"
proof -
  let ?u = "st_Token y" and ?em = "emitted es"
  obtain packs z where src: "source_run t es (newStoryData y) = Some (packs, z)" "source_ok t0 ?em z"
      "\<forall>p \<in> set packs. set (sp_Stories p) \<subseteq> set (story_log z)"
    using source_run_ok [OF new_source_ok [of t0 y], of es t] assms(5,6) by auto
  obtain c0 where c: "CClient_New sn = Inr (Inr c0)" "client_up sn 0 c0"
      "newStoryService (pn_Stories sn) = Inr (kc_storySrv c0)" using new_client_up [OF assms(1)] by blast
  have d: "distinct (map py_Token (pn_Stories sn))"
    using assms(1) by (simp add: CSession_Validate_spec csession_valid_def tokens_ok_def)
  obtain out bs c1 cs where r: "client_run vs c0 = Inr (out, bs, c1)"
      "story_run (story_parts (pn_Token sn) vs) (kc_storySrv c0) = Inr (out, cs, kc_storySrv c1)"
    using client_run_up [OF c(2) d assms(2)] assms(3) by auto
  let ?fs = "feeds_for ?u (story_parts (pn_Token sn) vs)"
  obtain N where N: "run_push ?fs zero_Stream = (ys_stream (kc_storySrv c1 ! k), N)" "out_to k out = map Payload N"
      "\<forall>(now, es) \<in> set ?fs. \<forall>e \<in> set es. seq32 (Seq e)"
    using service_run [OF c(3) d story_parts_ok [OF assms(2)]] assms(4) r(2) by (auto simp: fed_def assms(7))
  have log: "1 \<le> Seq e \<and> Seq e \<le> int (length ?em) \<and> Payload e = snd (?em ! nat (Seq e - 1))"
    if f: "(now, ps) \<in> set ?fs" and e: "e \<in> set ps" for now ps e
  proof -
    obtain data m where m: "Packet now data \<in> set vs" "client_reads (pn_Token sn) data = Some (MStoryPack m)"
        "sp_StoryToken m = ?u" "ps = sp_Stories m" using feeds_from_packets [OF f] by blast
    have "genuine (pn_Token sn) ?u packs vs" using assms(8) src(1) by simp
    from genuine_pack [OF this m(1-3)] obtain p where p: "p \<in> set packs" "StoryPack_Put p [] = Inr data" by blast
    note ent = source_entries [OF src(2) assms(5)]
    have l: "set (sp_Stories p) \<subseteq> set (story_log z)" using src(3) p(1) by blast
    then have "m = p" using read_pack [OF p(2) _ reads_parse [OF m(2)]] ent by blast
    then show ?thesis using ent l e m(4) by blast
  qed
  have fit: "\<forall>(now, es) \<in> set ?fs. feed_ok es" using N(3) by (fastforce simp: feed_ok_def seq32_def)
  have pay: "\<forall>(now, ps) \<in> set ?fs. \<forall>e \<in> set ps. Payload e = (\<lambda>i. snd (?em ! nat (i - 1))) (Seq e)" using log by blast
  let ?n = "lastSeq (ys_stream (kc_storySrv c1 ! k))"
  have "map snd (map (\<lambda>e. (Seq e, Payload e)) N) = map snd (map (\<lambda>i. (i, snd (?em ! nat (i - 1)))) [1..?n])"
    using reassembled [OF fit pay N(1)] by simp
  then have o: "out_to k out = map (\<lambda>i. snd (?em ! nat (i - 1))) [1..?n]" by (simp add: comp_def N(2))
  have "received (ys_stream (kc_storySrv c1 ! k)) \<subseteq> (\<Union>(now, es) \<in> set ?fs. feed_seqs es)"
    using run_push_nowait [OF stream_ok_zero fit _ N(1)] by (auto simp: zero_Stream_def received_def ahead_seqs_def)
  also have "\<dots> \<subseteq> {1..int (length ?em)}" using log by (fastforce simp: feed_seqs_def)
  finally have n: "?n \<le> int (length ?em)" by (cases "1 \<le> ?n") (auto simp: received_def)
  have "out_to k out = map snd (take (nat ?n) ?em)"
    using emitted_prefix [of "nat ?n" ?em] n by (cases "0 \<le> ?n") (simp_all add: o)
  then show ?thesis using src(1) c(1) r(1) by blast
qed

text \<open>Two events and an answer; the client gets the packs in the reverse order, with garbage between them.\<close>

definition two_events :: "source_event list" where
  "two_events = [Emits 10 [7], Answers [\<lparr>rng_seq = 1, rng_len = 1\<rparr>], Emits 20 [8]]"

definition source_bytes :: "source_event list \<Rightarrow> byte list list" where
  "source_bytes es = map (\<lambda>p. case StoryPack_Put p [] of Inr bs \<Rightarrow> bs | Inl e \<Rightarrow> [])
     (fst (the (source_run 1 es (newStoryData \<lparr>st_Token = 5, st_Channel = Some 3\<rparr>))))"

definition late_packets :: "client_event list" where
  "late_packets = [Packet 50 (source_bytes two_events ! 2), Packet 55 [1, 2, 3], Packet 60 (source_bytes two_events ! 1),
     PingDue 61, Packet 62 (source_bytes two_events ! 0)]"

lemma late_packets_facts:
  "\<forall>v \<in> set late_packets. client_event_ok sample_session v" "sum_list (map acts_of late_packets) = 0"
  "clock_ok 10 (emitted two_events)" "\<forall>v \<in> set two_events. asked_ok v" "emitted two_events = [(10, [7]), (20, [8])]"
proof -
  show "\<forall>v \<in> set late_packets. client_event_ok sample_session v" by code_simp
  show "sum_list (map acts_of late_packets) = 0" by code_simp
  show "clock_ok 10 (emitted two_events)" by (simp add: clock_ok_def emitted_def two_events_def)
  show "\<forall>v \<in> set two_events. asked_ok v" by (simp add: two_events_def range_asked_def)
  show "emitted two_events = [(10, [7]), (20, [8])]" by (simp add: emitted_def two_events_def)
qed

lemma late_packets_genuine:
  "genuine 1 5 (fst (the (source_run 1 two_events (newStoryData \<lparr>st_Token = 5, st_Channel = Some 3\<rparr>)))) late_packets"
  by code_simp

lemma late_packets_deliver:
  "(case CClient_New sample_session of Inr (Inr c) \<Rightarrow> (case client_run late_packets c of Inr (out, bs, c') \<Rightarrow> out_to 0 out | _ \<Rightarrow> []) | _ \<Rightarrow> []) = [[7], [8]]"
  by code_simp

theorem stories_arrive_in_order_witness:
  "\<exists>c0 out bs c. CClient_New sample_session = Inr (Inr c0) \<and> client_run late_packets c0 = Inr (out, bs, c) \<and>
     out_to 0 out = map snd (take 2 (emitted two_events)) \<and> map snd (emitted two_events) = [[7], [8]]"
proof -
  let ?y = "\<lparr>st_Token = 5, st_Channel = Some 3\<rparr> :: Story"
  have st: "pn_Token sample_session = 1" "0 < length (pn_Stories sample_session)" "st_Token ?y = py_Token (pn_Stories sample_session ! 0)"
    by (simp_all add: sample_session_def)
  have n: "int (sum_list (map acts_of late_packets)) < int_lim" by (simp add: late_packets_facts(2))
  have g: "genuine (pn_Token sample_session) (st_Token ?y) (fst (the (source_run 1 two_events (newStoryData ?y)))) late_packets"
    using late_packets_genuine by (simp add: st(1))
  obtain c0 out bs c n where r: "CClient_New sample_session = Inr (Inr c0)" "client_run late_packets c0 = Inr (out, bs, c)"
      "out_to 0 out = map snd (take n (emitted two_events))"
    using stories_arrive_in_order [OF sample_run_facts(1) late_packets_facts(1) n st(2) late_packets_facts(3,4) st(3) g] by blast
  have "out_to 0 out = [[7], [8]]" using late_packets_deliver r(1,2) by simp
  then show ?thesis using r(1,2) by (auto simp: late_packets_facts(5))
qed

end
