(* ===== verification/StoryAnswers.thy ===== *)
theory StoryAnswers
  imports StoryPaths
begin

text \<open>
  The answer to a request for missing entries (\<open>start\<close> in \<open>udpstar/server/service_session.go\<close>) with the
  arrays behind its slices. \<open>missing_packs\<close> of \<open>Services\<close> has the packs as they are at the moment in which they
  are handed over; here the memory is explicit, and a pack can also be read later, as its receiver does.
\<close>

section \<open>Slices\<close>

text \<open>
  The arrays are numbered in the order in which they are made; a slice has its array and its length, and
  begins at the array's first element. An array without elements stands for the array of the nil slice.
\<close>

type_synonym arrays = "Entry list list"

record slice =
  sl_array :: nat
  sl_len :: nat

definition no_entry :: Entry where
  "no_entry = \<lparr>Seq = 0, Delay = 0, Payload = []\<rparr>"

definition slice_read :: "arrays \<Rightarrow> slice \<Rightarrow> Entry list" where
  "slice_read h s = take (sl_len s) (h ! sl_array s)"

definition array_set :: "nat \<Rightarrow> nat \<Rightarrow> Entry \<Rightarrow> arrays \<Rightarrow> arrays" where
  "array_set a i e h = h[a := (h ! a)[i := e]]"

text \<open>
  \<open>append\<close> writes into the array when there is room behind the slice, otherwise it copies the slice to a
  new array. \<open>grow\<close> is the capacity that the runtime chooses for a length, at least that length.
\<close>

definition append_entry :: "(nat \<Rightarrow> nat) \<Rightarrow> slice \<Rightarrow> Entry \<Rightarrow> arrays \<Rightarrow> slice \<times> arrays" where
  "append_entry grow s e h =
     (if sl_len s < length (h ! sl_array s)
      then (s\<lparr>sl_len := sl_len s + 1\<rparr>, array_set (sl_array s) (sl_len s) e h)
      else (\<lparr>sl_array = length h, sl_len = sl_len s + 1\<rparr>,
        h @ [slice_read h s @ e # replicate (grow (sl_len s + 1) - (sl_len s + 1)) no_entry]))"

section \<open>The answer\<close>

text \<open>
  The state of the callback: \<open>storyEntries\<close>, the arrays, and for every pack that was handed over its slice and
  the arrays as they were then.
\<close>

record answering =
  aw_entries :: slice
  aw_arrays :: arrays
  aw_sent :: "(slice \<times> arrays) list"

definition answer_visit :: "(nat \<Rightarrow> nat) \<Rightarrow> token \<Rightarrow> token \<Rightarrow> Entry \<Rightarrow> answering \<Rightarrow> bool \<times> answering" where
  "answer_visit grow session story entry w =
     (let (s, h) = append_entry grow (aw_entries w) entry (aw_arrays w)
      in if StoryPack_Size (story_pack session story (slice_read h s)) < MaxMessageSize
         then (True, w\<lparr>aw_entries := s, aw_arrays := h\<rparr>)
         else if sl_len s = 1
         then (True, \<lparr>aw_entries = s\<lparr>sl_len := 0\<rparr>, aw_arrays = h, aw_sent = aw_sent w @ [(s, h)]\<rparr>)
         else (True, \<lparr>aw_entries = s\<lparr>sl_len := 1\<rparr>, aw_arrays = array_set (sl_array s) 0 entry h,
                aw_sent = aw_sent w @ [(s\<lparr>sl_len := sl_len s - 1\<rparr>, h)]\<rparr>))"

definition nil_answer :: answering where
  "nil_answer = \<lparr>aw_entries = \<lparr>sl_array = 0, sl_len = 0\<rparr>, aw_arrays = [[]], aw_sent = []\<rparr>"

definition answer_story :: "(nat \<Rightarrow> nat) \<Rightarrow> token \<Rightarrow> Range list \<Rightarrow> storyData \<Rightarrow> (slice \<times> arrays) list \<times> arrays" where
  "answer_story grow session missing y =
     (let story = st_Token (sd_Story y);
          w = foldl (\<lambda>w r. IterateRange r (answer_visit grow session story) (sd_History y) w) nil_answer missing
      in (if sl_len (aw_entries w) > 0 then aw_sent w @ [(aw_entries w, aw_arrays w)] else aw_sent w, aw_arrays w))"

section \<open>Reading at once\<close>

lemma ranges_fold:
  assumes "history_ok h" and "h_lastSeq h < int_lim" and "\<forall>r \<in> set rs. range_asked r" and "\<And>e st. fst (fn e st)"
  shows "foldl (\<lambda>st r. IterateRange r fn h st) st rs = foldl (\<lambda>st e. snd (fn e st)) st (asked rs (contents h))"
  using assms(3)
proof (induction rs arbitrary: st)
  case (Cons r rs)
  have "IterateRange r fn h st = foldl (\<lambda>st e. snd (fn e st)) st (filter (in_range r) (contents h))"
    using Cons.prems visit_all [of fn, OF assms(4)] by (simp add: range_asked_def IterateRange_visits [OF assms(1,2)])
  then show ?case using Cons by (simp add: asked_Cons)
qed (simp add: asked_def)

text \<open>A slice is an array of the memory and fits it.\<close>

definition slice_ok :: "arrays \<Rightarrow> slice \<Rightarrow> bool" where
  "slice_ok h s \<longleftrightarrow> sl_array s < length h \<and> sl_len s \<le> length (h ! sl_array s)"

lemma length_slice_read: "slice_ok h s \<Longrightarrow> length (slice_read h s) = sl_len s"
  by (simp add: slice_ok_def slice_read_def)

lemma array_set_nth: "a < length h \<Longrightarrow> array_set a i e h ! b = (if b = a then (h ! a)[i := e] else h ! b)"
  by (simp add: array_set_def nth_list_update)

lemma length_array_set [simp]: "length (array_set a i e h) = length h"
  by (simp add: array_set_def)

lemma append_entry_ok:
  assumes "slice_ok h s" and "append_entry grow s e h = (s', h')"
  shows "slice_ok h' s'" and "slice_read h' s' = slice_read h s @ [e]" and "length h \<le> length h'"
    and "sl_len s' = sl_len s + 1"
proof -
  have "take (Suc n) (xs[n := x]) = take n xs @ [x]" if "n < length xs" for n and xs :: "Entry list" and x
    using that by (simp add: take_Suc_conv_app_nth)
  then show "slice_ok h' s'" "slice_read h' s' = slice_read h s @ [e]" "length h \<le> length h'" "sl_len s' = sl_len s + 1"
    using assms
    by (auto simp: append_entry_def slice_ok_def slice_read_def array_set_nth min_def split: if_splits)
qed

text \<open>The simulation: the model with memory does what \<open>collect\<close> does on lists.\<close>

definition pack_at :: "token \<Rightarrow> token \<Rightarrow> slice \<times> arrays \<Rightarrow> StoryPack" where
  "pack_at session story = (\<lambda>(s, h). story_pack session story (slice_read h s))"

definition simulates :: "token \<Rightarrow> token \<Rightarrow> answering \<Rightarrow> Entry list \<times> StoryPack list \<Rightarrow> bool" where
  "simulates session story w = (\<lambda>(es, sent). slice_ok (aw_arrays w) (aw_entries w) \<and>
     slice_read (aw_arrays w) (aw_entries w) = es \<and> map (pack_at session story) (aw_sent w) = sent)"

lemma answer_visit_goes_on: "fst (answer_visit grow t y e w)"
  by (simp add: answer_visit_def case_prod_unfold Let_def)

lemma first_of_array:
  assumes "slice_ok h s" and "0 < sl_len s"
  shows "slice_read (array_set (sl_array s) 0 e h) (s\<lparr>sl_len := 1\<rparr>) = [e]"
  using assms by (cases "h ! sl_array s") (auto simp: slice_ok_def slice_read_def array_set_nth)

lemma answer_visit_simulates:
  assumes "simulates t y w st"
  shows "simulates t y (snd (answer_visit grow t y e w)) (snd (collect t y e st))"
proof -
  obtain es sent where st: "st = (es, sent)" by fastforce
  have w: "slice_ok (aw_arrays w) (aw_entries w)" "slice_read (aw_arrays w) (aw_entries w) = es"
      "map (pack_at t y) (aw_sent w) = sent" using assms by (simp_all add: simulates_def st)
  obtain s h where a: "append_entry grow (aw_entries w) e (aw_arrays w) = (s, h)" by fastforce
  note ok = append_entry_ok [OF w(1) a]
  have len: "sl_len s = length (es @ [e])" using length_slice_read [OF ok(1)] ok(2) w(2) by simp
  have butl: "slice_read h (s\<lparr>sl_len := sl_len s - 1\<rparr>) = es"
  proof -
    have "slice_read h (s\<lparr>sl_len := sl_len s - 1\<rparr>) = take (sl_len s - 1) (slice_read h s)"
      by (simp add: slice_read_def min_def)
    then show ?thesis using len by (simp add: ok(2) w(2))
  qed
  have one: "slice_ok (array_set (sl_array s) 0 e h) (s\<lparr>sl_len := 1\<rparr>)"
    using ok(1) len by (auto simp: slice_ok_def array_set_nth)
  have zero: "slice_ok h (s\<lparr>sl_len := 0\<rparr>)" "slice_read h (s\<lparr>sl_len := 0\<rparr>) = []"
    using ok(1) by (simp_all add: slice_ok_def slice_read_def)
  have f: "slice_read (array_set (sl_array s) 0 e h) (s\<lparr>sl_len := Suc 0\<rparr>) = [e]"
    using first_of_array [OF ok(1)] len by simp
  show ?thesis using ok w len butl one zero f
    by (auto simp: simulates_def st answer_visit_def collect_def a Let_def pack_at_def)
qed

lemma answers_sent:
  assumes "history_ok (sd_History y)" and "h_lastSeq (sd_History y) < int_lim" and "\<forall>r \<in> set rs. range_asked r"
  shows "map (pack_at t (st_Token (sd_Story y))) (fst (answer_story grow t rs y)) = missing_packs t rs y"
proof -
  let ?y = "st_Token (sd_Story y)" and ?E = "asked rs (story_log y)"
  define w where "w = foldl (\<lambda>w e. snd (answer_visit grow t ?y e w)) nil_answer ?E"
  define st where "st = foldl (\<lambda>st e. snd (collect t ?y e st)) ([], []) ?E"
  have "simulates t ?y nil_answer ([], [])" by (simp add: simulates_def nil_answer_def slice_ok_def slice_read_def)
  then have "simulates t ?y (foldl (\<lambda>w e. snd (answer_visit grow t ?y e w)) nil_answer es)
      (foldl (\<lambda>st e. snd (collect t ?y e st)) ([], []) es)" for es
    by (induction es rule: rev_induct) (simp_all add: answer_visit_simulates)
  then have s: "simulates t ?y w st" by (simp add: w_def st_def)
  obtain es sent where st': "st = (es, sent)" by fastforce
  have w': "foldl (\<lambda>w r. IterateRange r (answer_visit grow t ?y) (sd_History y) w) nil_answer rs = w"
    unfolding w_def by (rule ranges_fold [OF assms answer_visit_goes_on])
  have m: "foldl (\<lambda>st r. IterateRange r (collect t ?y) (sd_History y) st) ([], []) rs = (es, sent)"
    unfolding st' [symmetric] st_def by (rule ranges_fold [OF assms collect_goes_on])
  have "sl_len (aw_entries w) = length es" using s length_slice_read by (auto simp: simulates_def st')
  then show ?thesis using s
    by (auto simp: answer_story_def missing_packs_def w' m Let_def simulates_def st' pack_at_def)
qed

text \<open>
  C9. At the moment in which it is handed over, every pack that the session answers with is the one of the
  list model: with slices that share and reuse their arrays, under any growth of the arrays, the packs have
  the contents of \<open>missing_packs\<close>.
\<close>

theorem answers_when_sent:
  assumes "history_ok (sd_History y)" and "h_lastSeq (sd_History y) < int_lim" and "\<forall>r \<in> set rs. range_asked r"
  shows "map (pack_at t (st_Token (sd_Story y))) (fst (answer_story grow t rs y)) = missing_packs t rs y"
  by (rule answers_sent [OF assms])

text \<open>A story of three entries of 200 bytes: the answer to a request for all of them has two packs.\<close>

definition long_events :: "source_event list" where
  "long_events = map (\<lambda>b. Emits 10 (replicate 200 b)) [0, 1, 2]"

definition long_story :: storyData where
  "long_story = snd (the (source_run 1 long_events (newStoryData \<lparr>st_Token = 5, st_Channel = Some 0\<rparr>)))"

definition long_entry :: "int \<Rightarrow> Entry" where
  "long_entry i = \<lparr>Seq = i, Delay = 0, Payload = replicate 200 (word_of_int (i - 1))\<rparr>"

definition all_three :: "Range list" where
  "all_three = [\<lparr>rng_seq = 1, rng_len = 3\<rparr>]"

lemma all_three_ok: "rs_ok all_three" "\<forall>r \<in> set all_three. range_asked r"
  by (simp_all add: all_three_def rs_ok_def range_ok_def range_asked_def To_def u64_def)

lemma long_story_facts: "log_on_wire long_story" "story_log long_story = map long_entry [1, 2, 3]"
proof -
  show log: "story_log long_story = map long_entry [1, 2, 3]" by code_simp
  let ?y = "\<lparr>st_Token = 5, st_Channel = Some 0\<rparr> :: Story"
  have em: "emitted long_events = map (\<lambda>b. (10, replicate 200 b)) [0, 1, 2]" by (simp add: long_events_def emitted_def)
  then have c: "clock_ok 10 (emitted long_events)" by (simp add: clock_ok_def)
  have a: "\<forall>v \<in> set long_events. asked_ok v" by (simp add: long_events_def)
  obtain ps z where z: "source_run 1 long_events (newStoryData ?y) = Some (ps, z)" "source_ok 10 (emitted long_events) z"
    using source_run_ok [OF new_source_ok [of 10 ?y], of long_events 1] c a by auto
  have "story_ok z" using z(2) by (simp add: source_ok_def)
  moreover have "\<forall>e \<in> set (story_log z). entry_valid e" using source_entries [OF z(2) c] by blast
  ultimately show "log_on_wire long_story" using z(1) by (simp add: log_on_wire_def long_story_def)
qed

definition two_packs :: "StoryPack list" where
  "two_packs = [story_pack 1 5 (map long_entry [1, 2]), story_pack 1 5 (map long_entry [3])]"

lemma two_packs_answer: "missing_packs 1 all_three long_story = two_packs"
  by code_simp

theorem answers_when_sent_witness:
  "map (pack_at 1 5) (fst (answer_story (\<lambda>n. 2 * n) 1 all_three long_story)) = two_packs"
proof -
  have h: "history_ok (sd_History long_story)" "h_lastSeq (sd_History long_story) < int_lim"
    using long_story_facts(1) by (simp_all add: log_on_wire_def story_ok_def)
  have "st_Token (sd_Story long_story) = 5" by code_simp
  then show ?thesis using answers_when_sent [OF h all_three_ok(2), of 1 "\<lambda>n. 2 * n"] by (simp add: two_packs_answer)
qed

section \<open>Reading later\<close>

text \<open>The first entry of a slice with the memory of a moment.\<close>

definition head_of :: "slice \<times> arrays \<Rightarrow> Entry" where
  "head_of = (\<lambda>(s, h). h ! sl_array s ! 0)"

text \<open>
  The first entries of the packs and of the entries that are being collected. In the memory as it is now,
  each pack begins with one of those that come after its own.
\<close>

definition heads :: "answering \<Rightarrow> Entry list" where
  "heads w = map head_of (aw_sent w) @ [head_of (aw_entries w, aw_arrays w)]"

definition replaced :: "answering \<Rightarrow> bool" where
  "replaced w \<longleftrightarrow> slice_ok (aw_arrays w) (aw_entries w) \<and> (aw_sent w \<noteq> [] \<longrightarrow> 0 < sl_len (aw_entries w)) \<and>
     (\<forall>p \<in> set (aw_sent w). sl_array (fst p) < length (aw_arrays w) \<and> 0 < sl_len (fst p)) \<and>
     (\<forall>i < length (aw_sent w). head_of (fst (aw_sent w ! i), aw_arrays w) \<in> set (drop (Suc i) (heads w)))"

lemma append_entry_heads:
  assumes "slice_ok h s" and "append_entry grow s e h = (s', h')"
  shows "0 < sl_len s \<Longrightarrow> head_of (s', h') = head_of (s, h)"
    and "0 < sl_len s \<Longrightarrow> sl_array r < length h \<Longrightarrow> head_of (r, h') = head_of (r, h)"
proof -
  assume l: "0 < sl_len s"
  then show "head_of (s', h') = head_of (s, h)"
    using assms by (auto simp: append_entry_def head_of_def slice_ok_def slice_read_def array_set_nth nth_append split: if_splits)
  assume "sl_array r < length h"
  then show "head_of (r, h') = head_of (r, h)" using l assms
    by (auto simp: append_entry_def head_of_def slice_ok_def array_set_nth nth_append split: if_splits)
qed

lemma answer_visit_replaced:
  assumes w: "replaced w" and e: "length (Payload e) \<le> 255"
  shows "replaced (snd (answer_visit grow t y e w))"
proof -
  obtain s h where a: "append_entry grow (aw_entries w) e (aw_arrays w) = (s, h)" by fastforce
  have cur: "slice_ok (aw_arrays w) (aw_entries w)" using w by (simp add: replaced_def)
  note ok = append_entry_ok [OF cur a] and hd = append_entry_heads [OF cur a]
  have sent: "sl_array (fst p) < length h" "0 < sl_len (fst p)" if "p \<in> set (aw_sent w)" for p
    using w that ok(3) by (auto simp: replaced_def)
  have late: "head_of (fst (aw_sent w ! i), h) \<in> set (drop (Suc i) (map head_of (aw_sent w) @ [head_of (s, h)]))"
    if i: "i < length (aw_sent w)" for i
  proof -
    have len: "0 < sl_len (aw_entries w)" using w i by (auto simp: replaced_def)
    have "aw_sent w ! i \<in> set (aw_sent w)" using i by simp
    then have "sl_array (fst (aw_sent w ! i)) < length (aw_arrays w)" using w by (simp add: replaced_def)
    then have "head_of (fst (aw_sent w ! i), h) = head_of (fst (aw_sent w ! i), aw_arrays w)" by (rule hd(2) [OF len])
    then show ?thesis using w i hd(1) [OF len] by (simp add: replaced_def heads_def)
  qed
  show ?thesis
  proof (cases "StoryPack_Size (story_pack t y (slice_read h s)) < MaxMessageSize")
    case True
    then show ?thesis using ok sent late by (auto simp: replaced_def heads_def answer_visit_def a)
  next
    case False
    have "sl_len (aw_entries w) \<noteq> 0"
    proof
      assume "sl_len (aw_entries w) = 0"
      then have "slice_read h s = [e]" using ok(2) length_slice_read [OF cur] by simp
      then show False using False e by (simp add: pack_size MaxMessageSize_def)
    qed
    then have len: "sl_len s \<noteq> 1" "0 < sl_len s - 1" using ok(4) by simp_all
    let ?h = "array_set (sl_array s) 0 e h" and ?p = "(s\<lparr>sl_len := sl_len s - 1\<rparr>, h)" and ?s = "s\<lparr>sl_len := 1\<rparr>"
    have r: "snd (answer_visit grow t y e w) = \<lparr>aw_entries = ?s, aw_arrays = ?h, aw_sent = aw_sent w @ [?p]\<rparr>"
      using False len(1) by (simp add: answer_visit_def a)
    have arr: "sl_array s < length h" "0 < length (h ! sl_array s)" using ok(1,4) by (auto simp: slice_ok_def)
    have e': "head_of (?s, ?h) = e" using arr by (simp add: head_of_def array_set_nth)
    have late': "head_of (fst ((aw_sent w @ [?p]) ! i), ?h) \<in> set (drop (Suc i) (map head_of (aw_sent w @ [?p]) @ [e]))"
      if i: "i < Suc (length (aw_sent w))" for i
    proof (cases "i = length (aw_sent w)")
      case True
      then show ?thesis using arr by (simp add: head_of_def array_set_nth nth_append)
    next
      case False
      then have i': "i < length (aw_sent w)" using i by simp
      let ?q = "fst (aw_sent w ! i)"
      have "head_of (?q, ?h) \<in> {e, head_of (?q, h)}" using arr by (auto simp: head_of_def array_set_nth)
      moreover have "head_of ?p = head_of (s, h)" by (simp add: head_of_def)
      ultimately show ?thesis using late [OF i'] i' by (auto simp: nth_append)
    qed
    have "slice_ok ?h ?s" using ok(1,4) by (auto simp: slice_ok_def array_set_nth)
    then show ?thesis unfolding r replaced_def heads_def using late' sent len arr e' by auto
  qed
qed

lemma nil_replaced: "replaced nil_answer"
  by (simp add: replaced_def nil_answer_def slice_ok_def)

text \<open>The first entries of the pieces of a list in increasing order are in increasing order.\<close>

lemma piece_heads_less:
  assumes "sorted_wrt (<) (map Seq (concat ps))" and "i < j" and "j < length ps" and "ps ! i \<noteq> []" and "ps ! j \<noteq> []"
  shows "Seq (ps ! i ! 0) < Seq (ps ! j ! 0)"
proof -
  have "ps = take j ps @ ps ! j # drop (Suc j) ps" by (rule id_take_nth_drop [OF assms(3)])
  then have c: "concat ps = concat (take j ps) @ ps ! j @ concat (drop (Suc j) ps)" by (metis concat.simps(2) concat_append)
  have "ps ! i \<in> set (take j ps)" using assms(2,3) by (force simp: in_set_conv_nth)
  moreover have "ps ! i ! 0 \<in> set (ps ! i)" using assms(4) by simp
  ultimately have "ps ! i ! 0 \<in> set (concat (take j ps))" by (metis UN_I set_concat)
  moreover have "ps ! j ! 0 \<in> set (ps ! j)" using assms(5) by simp
  ultimately show ?thesis using assms(1) unfolding c by (auto simp: sorted_wrt_append)
qed

text \<open>
  C8. A pack of an answer is good only while it is being handed over. All packs of an answer to a request for
  disjoint ranges are slices that share their arrays: when the loop has gone on to the end, which it does
  without waiting for the receivers to write their packs, every pack but the last begins with the first
  entry of a later pack. So the entry that was its own first one is lost from the answer.
\<close>

theorem answers_overwritten:
  assumes "log_on_wire y" and "rs_ok rs" and "answer_story grow t rs y = (ps, h)" and "Suc i < length ps"
  shows "\<exists>j. i < j \<and> j < length ps \<and>
    slice_read h (fst (ps ! i)) ! 0 = sp_Stories (missing_packs t rs y ! j) ! 0 \<and>
    Seq (sp_Stories (missing_packs t rs y ! i) ! 0) < Seq (slice_read h (fst (ps ! i)) ! 0)"
proof -
  let ?y = "st_Token (sd_Story y)" and ?E = "asked rs (story_log y)"
  have h: "history_ok (sd_History y)" "h_lastSeq (sd_History y) < int_lim" "map Seq (story_log y) = [1..h_lastSeq (sd_History y)]"
    using assms(1) by (simp_all add: log_on_wire_def story_ok_def)
  have small: "\<forall>e \<in> set (story_log y). length (Payload e) \<le> 255" using assms(1) by (auto simp: log_on_wire_def entry_valid_def)
  have r: "\<forall>r \<in> set rs. range_asked r" using assms(2) by (auto simp: rs_ok_def list_all_iff range_asked_def range_ok_def)
  define w where "w = foldl (\<lambda>w e. snd (answer_visit grow t ?y e w)) nil_answer ?E"
  have w': "foldl (\<lambda>w r. IterateRange r (answer_visit grow t ?y) (sd_History y) w) nil_answer rs = w"
    unfolding w_def by (rule ranges_fold [OF h(1,2) r answer_visit_goes_on])
  have "replaced (foldl (\<lambda>w e. snd (answer_visit grow t ?y e w)) nil_answer es)" if "set es \<subseteq> set (story_log y)" for es
    using that small by (induction es rule: rev_induct) (auto simp: nil_replaced answer_visit_replaced)
  moreover have "set ?E \<subseteq> set (story_log y)" by (auto simp: asked_def)
  ultimately have w: "replaced w" unfolding w_def by blast
  have ps: "ps = (if sl_len (aw_entries w) > 0 then aw_sent w @ [(aw_entries w, aw_arrays w)] else aw_sent w)" "h = aw_arrays w"
    using assms(3) by (auto simp: answer_story_def w' Let_def)
  have len: "0 < sl_len (aw_entries w)" using w ps(1) assms(4) by (auto simp: replaced_def split: if_splits)
  then have hs: "heads w = map head_of ps" "i < length (aw_sent w)" "ps ! i = aw_sent w ! i"
    using assms(4) by (auto simp: ps(1) heads_def nth_append)
  have pos: "\<forall>p \<in> set ps. 0 < sl_len (fst p)" using w len by (auto simp: ps(1) replaced_def)
  have read: "slice_read g (fst p) ! 0 = head_of (fst p, g)" if "p \<in> set ps" for p g
    using pos that by (simp add: slice_read_def head_of_def)
  have "head_of (fst (ps ! i), h) \<in> set (drop (Suc i) (map head_of ps))"
    using w hs by (simp add: replaced_def ps(2))
  then obtain k where k: "k < length ps - Suc i" "head_of (fst (ps ! i), h) = head_of (ps ! (Suc i + k))"
    by (auto simp: in_set_conv_nth drop_map)
  define j where "j = Suc i + k"
  have j: "i < j" "j < length ps" "head_of (fst (ps ! i), h) = head_of (ps ! j)" using k by (auto simp: j_def)
  have m: "missing_packs t rs y = map (pack_at t ?y) ps"
    using w' ps(1) assms(3) answers_sent [OF h(1,2) r, of t grow] by simp
  have st: "sp_Stories (missing_packs t rs y ! n) ! 0 = head_of (ps ! n)" if n: "n < length ps" for n
    using read [OF nth_mem [OF n], of "snd (ps ! n)"] n by (simp add: m pack_at_def case_prod_unfold)
  have srt: "sorted_wrt (<) (map Seq (concat (map sp_Stories (missing_packs t rs y))))"
  proof -
    have "sorted_wrt (<) (map Seq (story_log y))" unfolding h(3) by simp
    then show ?thesis unfolding missing_packs_spec(1) [OF h(1,2) small r] by (rule asked_sorted [OF assms(2)])
  qed
  have ne: "sp_Stories (missing_packs t rs y ! n) \<noteq> []" if "n < length ps" for n
    using missing_packs_spec(3) [OF h(1,2) small r, of t] that m by (simp add: pack_ok_def)
  have "length (missing_packs t rs y) = length ps" by (simp add: m)
  then have "Seq (map sp_Stories (missing_packs t rs y) ! i ! 0) < Seq (map sp_Stories (missing_packs t rs y) ! j ! 0)"
    using piece_heads_less [OF srt j(1)] j(2) ne assms(4) by simp
  then have "Seq (sp_Stories (missing_packs t rs y ! i) ! 0) < Seq (sp_Stories (missing_packs t rs y ! j) ! 0)"
    using j(2) assms(4) by (simp add: m)
  then show ?thesis using j read [OF nth_mem, of i h] st [OF j(2)] assms(4) by auto
qed

text \<open>The first pack, with the entries 1 and 2, begins with the entry 3 when it is read at the end.\<close>

theorem answers_overwritten_witness:
  "\<exists>ps h. answer_story (\<lambda>n. 2 * n) 1 all_three long_story = (ps, h) \<and> length ps = 2 \<and>
     sp_Stories (missing_packs 1 all_three long_story ! 0) ! 0 = long_entry 1 \<and>
     slice_read h (fst (ps ! 0)) ! 0 = long_entry 3"
proof -
  obtain ps h where a: "answer_story (\<lambda>n. 2 * n) 1 all_three long_story = (ps, h)" by fastforce
  have "length (missing_packs 1 all_three long_story) = length ps"
  proof -
    have h: "history_ok (sd_History long_story)" "h_lastSeq (sd_History long_story) < int_lim"
      using long_story_facts(1) by (simp_all add: log_on_wire_def story_ok_def)
    show ?thesis unfolding answers_sent [OF h all_three_ok(2), of 1 "\<lambda>n. 2 * n", symmetric] by (simp add: a)
  qed
  then have l: "length ps = 2" by (simp add: two_packs_answer two_packs_def)
  then obtain j where "0 < j" "j < 2" "slice_read h (fst (ps ! 0)) ! 0 = sp_Stories (two_packs ! j) ! 0"
    using answers_overwritten [OF long_story_facts(1) all_three_ok(1) a, of 0] by (auto simp: two_packs_answer)
  moreover from this have "j = 1" by simp
  ultimately show ?thesis using a l by (simp add: two_packs_answer two_packs_def)
qed

end
