(* ===== verification/LobbyClients.thy ===== *)
theory LobbyClients
  imports ClientSetup Pings Handover
begin

text \<open>
  \<open>udpstar/client/client_lobby.go\<close>: a player's view of a lobby on another machine. The client asks for
  the lobby every three and a half seconds, takes over every setup message, sends joins and leaves,
  and turns the lobby into its session when the countdown is over. The two timers hold the durations
  they were last set to, \<open>None\<close> when stopped. \<open>udpstar.Lobby\<close> is the record \<open>Lobby\<close> of the server's view.
\<close>

section \<open>State\<close>

record LobbyClient =
  lc_clientToken :: token
  lc_lobbyToken :: token
  lc_pingSrv :: pingService
  lc_requestTimer :: "duration option"
  lc_finishTimer :: "duration option"
  lc_data :: Lobby
  lc_dataTime :: time

definition zero_Lobby :: Lobby where
  "zero_Lobby = \<lparr>lo_Version = 0, lo_Name = [], lo_Def = [], lo_Slots = [], lo_State = 0\<rparr>"

definition NewLobby :: "time \<Rightarrow> token \<Rightarrow> token \<Rightarrow> LobbyClient" where
  "NewLobby now lobbyToken clientToken =
     \<lparr>lc_clientToken = clientToken, lc_lobbyToken = lobbyToken, lc_pingSrv = newPingService,
      lc_requestTimer = Some ns_Millisecond, lc_finishTimer = None, lc_data = zero_Lobby, lc_dataTime = now\<rparr>"

definition durationRequestTimer :: duration where
  "durationRequestTimer = 3500 * ns_Millisecond"

section \<open>Messages to the server\<close>

fun set_lobby_header :: "(LobbyHeaderClient \<Rightarrow> LobbyHeaderClient) \<Rightarrow> LobbyClientMessage \<Rightarrow> LobbyClientMessage" where
  "set_lobby_header f (MJoin m) = MJoin (m\<lparr>jo_Header := f (jo_Header m)\<rparr>)"
| "set_lobby_header f (MLeave m) = MLeave (m\<lparr>le_Header := f (le_Header m)\<rparr>)"
| "set_lobby_header f (MRequest m) = MRequest (m\<lparr>re_Header := f (re_Header m)\<rparr>)"

definition client_lobby_header :: "LobbyClient \<Rightarrow> LobbyHeaderClient \<Rightarrow> LobbyHeaderClient" where
  "client_lobby_header c h =
     LobbySetLatency (ps_latency (lc_pingSrv c))
       (h\<lparr>lhc_LobbyToken := lc_lobbyToken c, lhc_ClientToken := lc_clientToken c\<rparr>)"

definition lobby_send :: "LobbyClientMessage \<Rightarrow> LobbyClient \<Rightarrow> byte list go" where
  "lobby_send msg c = LobbyClient_Put (set_lobby_header (client_lobby_header c) msg) []"

definition lobbyJoinReq :: "token \<Rightarrow> byte \<Rightarrow> gostring \<Rightarrow> byte list \<Rightarrow> LobbyClient \<Rightarrow> LobbyClientMessage" where
  "lobbyJoinReq actor slot name config c =
     MJoin \<lparr>jo_Header = client_lobby_header c zero_LobbyHeaderClient, jo_ActorToken = actor, jo_Slot = slot,
       jo_Name = name, jo_Config = config\<rparr>"

definition lobbyLeaveReq :: "token \<Rightarrow> LobbyClient \<Rightarrow> LobbyClientMessage" where
  "lobbyLeaveReq actor c =
     MLeave \<lparr>le_Header = client_lobby_header c zero_LobbyHeaderClient, le_ActorToken = actor\<rparr>"

definition CJoin :: "token \<Rightarrow> byte \<Rightarrow> gostring \<Rightarrow> byte list \<Rightarrow> LobbyClient \<Rightarrow> byte list go" where
  "CJoin actor slot name config c = lobby_send (lobbyJoinReq actor slot name config c) c"

definition CLeave :: "token \<Rightarrow> LobbyClient \<Rightarrow> byte list go" where
  "CLeave actor c = lobby_send (lobbyLeaveReq actor c) c"

definition CLeaveAll :: "LobbyClient \<Rightarrow> byte list go" where
  "CLeaveAll c = lobby_send (lobbyLeaveReq 0 c) c"

definition request_expires :: "LobbyClient \<Rightarrow> byte list go \<times> LobbyClient" where
  "request_expires c =
     (lobby_send (MRequest \<lparr>re_Header = zero_LobbyHeaderClient\<rparr>) c,
      c\<lparr>lc_requestTimer := Some durationRequestTimer\<rparr>)"

definition lobby_pings :: "time \<Rightarrow> LobbyClient \<Rightarrow> byte list \<times> LobbyClient" where
  "lobby_pings now c =
     (let (ping, s) = ping_tick now (lc_pingSrv c) in (Ping_Put ping [], c\<lparr>lc_pingSrv := s\<rparr>))"

section \<open>Setup messages\<close>

text \<open>The loop over the slots, with the flag that it carries.\<close>

definition slot_differs :: "Slot \<Rightarrow> Slot \<Rightarrow> bool" where
  "slot_differs d m \<longleftrightarrow> sl_StoryToken d \<noteq> sl_StoryToken m \<or> sl_ActorToken d \<noteq> sl_ActorToken m \<or>
     sl_Availability d \<noteq> sl_Availability m \<or> sl_Name d \<noteq> sl_Name m \<or> sl_Latency d \<noteq> sl_Latency m"

definition copy_slot :: "Slot \<Rightarrow> Slot \<Rightarrow> Slot" where
  "copy_slot d m = d\<lparr>sl_StoryToken := sl_StoryToken m, sl_ActorToken := sl_ActorToken m,
     sl_Availability := sl_Availability m, sl_Name := sl_Name m, sl_Latency := sl_Latency m\<rparr>"

fun copy_slots :: "bool \<Rightarrow> Slot list \<Rightarrow> Slot list \<Rightarrow> bool \<times> Slot list" where
  "copy_slots changed (d # ds) (m # ms) =
     (let (changed, ds') = copy_slots (changed \<or> slot_differs d m) ds ms in (changed, copy_slot d m # ds'))"
| "copy_slots changed ds ms = (changed, ds)"

definition updateLobby :: "Lobby \<Rightarrow> Setup \<Rightarrow> bool \<times> Lobby" where
  "updateLobby data msg =
     (let changed = False;
          (changed, data) = (if lo_Name data \<noteq> se_Name msg then (True, data\<lparr>lo_Name := se_Name msg\<rparr>) else (changed, data));
          (changed, data) = (if lo_Def data \<noteq> se_Def msg then (True, data\<lparr>lo_Def := se_Def msg\<rparr>) else (changed, data));
          n = length (se_Slots msg);
          (changed, data) = (if length (lo_Slots data) \<noteq> n then (True, data\<lparr>lo_Slots := replicate n zero_Slot\<rparr>)
                             else (changed, data));
          (changed, slots) = copy_slots changed (lo_Slots data) (se_Slots msg);
          data = data\<lparr>lo_Slots := slots\<rparr>
      in if lo_State data \<noteq> se_State msg then (True, data\<lparr>lo_State := se_State msg\<rparr>) else (changed, data))"

definition updateData :: "time \<Rightarrow> Setup \<Rightarrow> LobbyClient \<Rightarrow> LobbyClient" where
  "updateData now msg c =
     (let (changed, data) = updateLobby (lc_data c) msg;
          data = (if changed then data\<lparr>lo_Version := i64 (lo_Version data + 1)\<rparr> else data);
          c1 = c\<lparr>lc_dataTime := now, lc_data := data, lc_finishTimer := None\<rparr>;
          c2 = (if lo_State data \<ge> StateStarting \<and> changed
                then c1\<lparr>lc_finishTimer := Some (int (unat (lo_State data - StateStarting)) * ns_Second)\<rparr>
                else c1)
      in c2\<lparr>lc_requestTimer := Some durationRequestTimer\<rparr>)"

definition LobbyClient_Handle :: "time \<Rightarrow> byte list \<Rightarrow> LobbyClient \<Rightarrow> LobbyClient go" where
  "LobbyClient_Handle now data c =
     (if length data = 0 then Inr c
      else let (pong, ok) = ParsePong data
      in if ok then Inr (c\<lparr>lc_pingSrv := HandlePong now pong (lc_pingSrv c)\<rparr>)
         else go_bind (LobbyParseServer data) (\<lambda>r.
           case r of
             None \<Rightarrow> Inr c
           | Some msg \<Rightarrow>
               if lhs_LobbyToken (se_Header msg) \<noteq> lc_lobbyToken c then Inr c
               else Inr (updateData now msg c)))"

definition LobbyClient_Get :: "time \<Rightarrow> int \<Rightarrow> LobbyClient \<Rightarrow> Lobby option \<times> duration" where
  "LobbyClient_Get now version c =
     (let age = time_Sub now (lc_dataTime c)
      in (if version = lo_Version (lc_data c) then None else Some (lc_data c), age))"

section \<open>The session\<close>

text \<open>
  The loop that makes the client's session: the index counts on until a slot has a story that no slot
  before it has. Other players' actors have token 0.
\<close>

definition session_cslot :: "Slot \<Rightarrow> CSession \<times> byte \<times> token list \<Rightarrow> CSession \<times> byte \<times> token list" where
  "session_cslot sl = (\<lambda>(s, idx, seen).
     let t = sl_StoryToken sl;
         (s, idx, seen) =
           (if t \<notin> set seen
            then (s\<lparr>pn_Stories := pn_Stories s @ [\<lparr>py_Token = t, py_Channel = None\<rparr>]\<rparr>, 0, t # seen)
            else (s, idx, seen));
         a = \<lparr>pa_Token = sl_ActorToken sl, pa_Story = t, pa_Name = sl_Name sl, pa_Index = idx, pa_InputCh = None\<rparr>
     in (s\<lparr>pn_Actors := pn_Actors s @ [a]\<rparr>, idx + 1, seen))"

definition client_session :: "bool \<Rightarrow> LobbyClient \<Rightarrow> CSession option" where
  "client_session finished c =
     (if lo_State (lc_data c) < StateStarting \<or> \<not> finished then None
      else Some (fst (foldl (\<lambda>st sl. session_cslot sl st)
        (\<lparr>pn_Token = lc_lobbyToken c, pn_Name = lo_Name (lc_data c), pn_Def = lo_Def (lc_data c),
          pn_ClientToken = lc_clientToken c, pn_Actors = [], pn_Stories = []\<rparr>, 0, [])
        (lo_Slots (lc_data c)))))"

section \<open>What a setup message does\<close>

lemma copy_slot_eq [simp]: "copy_slot d m = m"
  by (simp add: copy_slot_def)

lemma slot_differs_iff [simp]: "slot_differs d m \<longleftrightarrow> d \<noteq> m"
  by (cases d, cases m) (auto simp: slot_differs_def)

lemma copy_slots_spec: "length ds = length ms \<Longrightarrow> copy_slots ch ds ms = (ch \<or> ds \<noteq> ms, ms)"
  by (induction ds ms arbitrary: ch rule: list_induct2) auto

text \<open>The lobby of a message, with a version.\<close>

definition setup_lobby :: "int \<Rightarrow> Setup \<Rightarrow> Lobby" where
  "setup_lobby v m = \<lparr>lo_Version = v, lo_Name = se_Name m, lo_Def = se_Def m, lo_Slots = se_Slots m, lo_State = se_State m\<rparr>"

lemma updateLobby_fields:
  "updateLobby \<lparr>lo_Version = v, lo_Name = n, lo_Def = f, lo_Slots = sls, lo_State = st\<rparr> m =
    (n \<noteq> se_Name m \<or> f \<noteq> se_Def m \<or> sls \<noteq> se_Slots m \<or> st \<noteq> se_State m, setup_lobby v m)"
proof (cases "length sls = length (se_Slots m)")
  case True
  then show ?thesis
    by (cases "n = se_Name m"; cases "f = se_Def m"; cases "st = se_State m")
      (simp_all add: updateLobby_def copy_slots_spec setup_lobby_def)
next
  case False
  then have "(sls = se_Slots m) = False" by auto
  moreover have "copy_slots True (replicate (length (se_Slots m)) zero_Slot) (se_Slots m) = (True, se_Slots m)"
    by (simp add: copy_slots_spec)
  ultimately show ?thesis
    by (cases "n = se_Name m"; cases "f = se_Def m"; cases "st = se_State m")
      (simp_all add: updateLobby_def setup_lobby_def False)
qed

lemma updateLobby_spec: "updateLobby d m = (d \<noteq> setup_lobby (lo_Version d) m, setup_lobby (lo_Version d) m)"
  by (cases d) (simp add: updateLobby_fields, simp add: setup_lobby_def)

lemma shown_frame:
  "lo_State (setup_lobby v m) = se_State m" "lo_Version (setup_lobby v m) = v" "lo_Slots (setup_lobby v m) = se_Slots m"
  "lo_Name (setup_lobby v m) = se_Name m" "lo_Def (setup_lobby v m) = se_Def m" "(setup_lobby v m)\<lparr>lo_Version := w\<rparr> = setup_lobby w m"
  by (simp_all add: setup_lobby_def)

lemma updateData_spec:
  "updateData now m c =
     (let ch = lc_data c \<noteq> setup_lobby (lo_Version (lc_data c)) m
      in c\<lparr>lc_dataTime := now,
           lc_data := setup_lobby (if ch then i64 (lo_Version (lc_data c) + 1) else lo_Version (lc_data c)) m,
           lc_finishTimer := (if se_State m \<ge> StateStarting \<and> ch
             then Some (int (unat (se_State m - StateStarting)) * ns_Second) else None),
           lc_requestTimer := Some durationRequestTimer\<rparr>)"
  by (cases "lc_data c \<noteq> setup_lobby (lo_Version (lc_data c)) m"; cases "se_State m \<ge> StateStarting")
    (simp_all only: updateData_def updateLobby_spec Let_def shown_frame prod.case if_True if_False simp_thms, simp_all)

lemma updateData_lobby:
  "lo_State (lc_data (updateData now m c)) = se_State m"
  "lc_data (updateData now m c) = setup_lobby (lo_Version (lc_data (updateData now m c))) m"
  by (simp_all add: updateData_spec Let_def shown_frame)

lemma handle_setup:
  assumes "setup_valid m" and "Setup_Put m [] = Inr bs" and "lhs_LobbyToken (se_Header m) = lc_lobbyToken c"
  shows "LobbyClient_Handle now bs c = Inr (updateData now m c)"
proof -
  let ?bs = "enc32 Prefix @ CategoryLobby # enc_lobby_server (se_Header m) @ enc_bytes (se_Name m) @
     enc_bytes (se_Def m) @ enc_list enc_slot (se_Slots m) @ [se_State m]"
  have bs: "bs = ?bs" using setup_format.put_bytes [OF assms(1), of "[]"] assms(2) by simp
  have p: "LobbyParseServer bs = Inr (Some m)"
    using setup_format.get_bytes [OF assms(1), of "[]"] bs by (simp add: LobbyParseServer_def parsed_def)
  have "bs ! 4 \<noteq> CategoryPing"
  proof
    assume "bs ! 4 = CategoryPing"
    then have "bs ! 4 \<noteq> CategoryLobby" by (simp add: CategoryPing_def CategoryLobby_def)
    from foreign_lobby [OF this] show False using p by simp
  qed
  from foreign_ping [OF this] have "\<not> snd (ParsePong bs)" by simp
  moreover have "bs \<noteq> []" by (simp add: bs)
  ultimately show ?thesis using p assms(3) by (simp add: LobbyClient_Handle_def case_prod_unfold Let_def)
qed

section \<open>The session of the lobby and the session of the client\<close>

fun cnumber :: "token list \<Rightarrow> byte \<Rightarrow> token list \<Rightarrow> claims" where
  "cnumber seen k [] = []"
| "cnumber seen k (t # ts) =
     (if t \<notin> set seen then (t, 0) # cnumber (t # seen) 1 ts else (t, k) # cnumber seen (k + 1) ts)"

fun cnew :: "token list \<Rightarrow> token list \<Rightarrow> token list" where
  "cnew seen [] = []"
| "cnew seen (t # ts) = (if t \<notin> set seen then t # cnew (t # seen) ts else cnew seen ts)"

text \<open>When the slots of a story stand together, the client groups and numbers as the server does.\<close>

lemma grouped_same:
  assumes "prev \<in> set seen \<or> prev \<notin> set ts" and "distinct (new_stories prev ts)"
    and "set (new_stories prev ts) \<inter> set seen = {}"
  shows "cnumber seen k ts = number prev k ts" and "cnew seen ts = new_stories prev ts"
proof -
  have "cnumber seen k ts = number prev k ts \<and> cnew seen ts = new_stories prev ts"
    using assms
  proof (induction ts arbitrary: prev seen k)
    case (Cons t ts)
    show ?case
    proof (cases "t = prev")
      case True
      then show ?thesis using Cons.IH [of prev seen "k + 1"] Cons.prems by auto
    next
      case False
      then show ?thesis using Cons.IH [of t "t # seen" 1] Cons.prems by auto
    qed
  qed simp
  then show "cnumber seen k ts = number prev k ts" "cnew seen ts = new_stories prev ts" by simp_all
qed

definition actor_view :: "CActor \<Rightarrow> token \<times> token \<times> byte \<times> gostring" where
  "actor_view a = (pa_Token a, pa_Story a, pa_Index a, pa_Name a)"

definition slot_view :: "Slot \<times> token \<times> byte \<Rightarrow> token \<times> token \<times> byte \<times> gostring" where
  "slot_view = (\<lambda>(sl, t, k). (sl_ActorToken sl, t, k, sl_Name sl))"

lemma cslots_fold:
  assumes "foldl (\<lambda>st sl. session_cslot sl st) (s, k, seen) sls = (s', k', seen')"
  shows "pn_Token s' = pn_Token s \<and> pn_Name s' = pn_Name s \<and> pn_Def s' = pn_Def s \<and> pn_ClientToken s' = pn_ClientToken s \<and>
    map py_Token (pn_Stories s') = map py_Token (pn_Stories s) @ cnew seen (map sl_StoryToken sls) \<and>
    map actor_view (pn_Actors s') =
      map actor_view (pn_Actors s) @ map slot_view (zip sls (cnumber seen k (map sl_StoryToken sls)))"
  using assms
proof (induction sls arbitrary: s k seen)
  case (Cons sl sls)
  obtain s1 k1 seen1 where one: "session_cslot sl (s, k, seen) = (s1, k1, seen1)" by (metis prod_cases3)
  from Cons.IH [of s1 k1 seen1] Cons.prems one
  show ?case by (cases "sl_StoryToken sl \<in> set seen")
    (auto simp: session_cslot_def Let_def actor_view_def slot_view_def)
qed simp

text \<open>The actors of one client in the server's session.\<close>

definition client_actors :: "token \<Rightarrow> Client list \<Rightarrow> Actor list" where
  "client_actors t cs = map ca_Actor (concat (map cl_Actors (filter (\<lambda>c. cl_Token c = t) cs)))"

lemma append_first:
  assumes "first_idx (\<lambda>c. cl_Token c = u) cs = Some i" and "distinct (map cl_Token cs)"
  shows "client_actors t (cs[i := (cs ! i)\<lparr>cl_Actors := cl_Actors (cs ! i) @ [x]\<rparr>]) =
    client_actors t cs @ (if u = t then [ca_Actor x] else [])"
  using assms
proof (induction cs arbitrary: i)
  case (Cons c cs)
  show ?case
  proof (cases "cl_Token c = u")
    case True
    have "u \<notin> cl_Token ` set cs" using Cons.prems(2) True by simp
    then have "filter (\<lambda>c. cl_Token c = u) cs = []" by (auto simp: filter_empty_conv image_iff)
    then show ?thesis using Cons.prems(1) True by (cases "u = t") (auto simp: client_actors_def)
  next
    case False
    then obtain j where j: "first_idx (\<lambda>c. cl_Token c = u) cs = Some j" "i = Suc j"
      using Cons.prems(1) by auto
    show ?thesis using Cons.IH [OF j(1)] Cons.prems(2) by (auto simp: j(2) client_actors_def)
  qed
qed simp

lemma add_remote_own:
  assumes "distinct (client_tokens cs)"
  shows "client_actors t (add_remote sl k cs) =
    client_actors t cs @ (if ls_ClientToken sl = t then [slot_Actor sl k] else [])"
proof -
  define cs' where "cs' = (if \<exists>c \<in> set cs. cl_Token c = ls_ClientToken sl then cs
                 else cs @ [\<lparr>cl_Token = ls_ClientToken sl, cl_Actors = []\<rparr>])"
  have cs': "distinct (map cl_Token cs')" "client_actors t cs' = client_actors t cs"
    using assms by (auto simp: cs'_def client_tokens_def client_actors_def)
  have "\<exists>c \<in> set cs'. cl_Token c = ls_ClientToken sl" by (auto simp: cs'_def)
  then obtain i where i: "first_idx (\<lambda>c. cl_Token c = ls_ClientToken sl) cs' = Some i"
    using first_idx_None [of "\<lambda>c. cl_Token c = ls_ClientToken sl" cs'] by (metis not_None_eq)
  show ?thesis using append_first [OF i cs'(1)] cs'(2) i
    by (simp add: add_remote_def Let_def cs'_def [symmetric])
qed

definition server_view :: "Actor \<Rightarrow> token \<times> token \<times> byte \<times> gostring" where
  "server_view a = (at_Token a, at_Story a, at_Index a, at_Name a)"

lemma slots_fold_own:
  assumes "\<forall>sl \<in> set sls. taken sl" and "distinct (client_tokens (ss_Clients s))"
    and "foldl (\<lambda>st sl. session_slot sl st) (s, k, prev) sls = (s', k', prev')"
  shows "map server_view (client_actors t (ss_Clients s')) = map server_view (client_actors t (ss_Clients s)) @
    map (\<lambda>(sl, u, i). (ls_ActorToken sl, u, i, ls_Name sl))
      (filter (\<lambda>(sl, _). isRemote sl \<and> ls_ClientToken sl = t) (zip sls (number prev k (map ls_StoryToken sls))))"
  using assms
proof (induction sls arbitrary: s k prev)
  case (Cons sl sls)
  obtain s1 k1 prev1 where one: "session_slot sl (s, k, prev) = (s1, k1, prev1)" by (metis prod_cases3)
  let ?k = "if ls_StoryToken sl \<noteq> prev then 0 else k"
  have ex: "isLocal sl \<Longrightarrow> \<not> isRemote sl" by (rule kinds_exclusive(3))
  have s1: "k1 = ?k + 1" "prev1 = ls_StoryToken sl"
    "ss_Clients s1 = (if isRemote sl then add_remote sl ?k (ss_Clients s) else ss_Clients s)"
    using one ex Cons.prems(1) by (auto simp: session_slot_def Let_def taken_def split: if_splits)
  have d1: "distinct (client_tokens (ss_Clients s1))"
    using Cons.prems(2) unfolding s1(3) by (simp add: add_remote_spec(1))
  have own: "client_actors t (ss_Clients s1) = client_actors t (ss_Clients s) @
      (if isRemote sl \<and> ls_ClientToken sl = t then [slot_Actor sl ?k] else [])"
    unfolding s1(3) using add_remote_own [OF Cons.prems(2)] by simp
  have "foldl (\<lambda>st sl. session_slot sl st) (s1, k1, prev1) sls = (s', k', prev')" using Cons.prems(3) one by simp
  from Cons.IH [OF _ d1 this] Cons.prems(1)
  show ?case unfolding own s1(1,2)
    by (cases "ls_StoryToken sl \<noteq> prev") (auto simp: server_view_def slot_Actor_def)
qed simp

text \<open>The channels that the caller gives the client's session.\<close>

definition cconnect :: "(token \<Rightarrow> nat) \<Rightarrow> (token \<Rightarrow> nat) \<Rightarrow> CSession \<Rightarrow> CSession" where
  "cconnect f g s = s\<lparr>pn_Stories := map (\<lambda>y. y\<lparr>py_Channel := Some (f (py_Token y))\<rparr>) (pn_Stories s),
     pn_Actors := map (\<lambda>a. a\<lparr>pa_InputCh := Some (g (pa_Token a))\<rparr>) (pn_Actors s)\<rparr>"

lemma cconnect_simps:
  "pn_Token (cconnect f g s) = pn_Token s" "map py_Token (pn_Stories (cconnect f g s)) = map py_Token (pn_Stories s)"
  "\<forall>y \<in> set (pn_Stories (cconnect f g s)). py_Channel y \<noteq> None" "length (pn_Stories (cconnect f g s)) = length (pn_Stories s)"
  "length (pn_Actors (cconnect f g s)) = length (pn_Actors s)" "own_tokens (pn_Actors (cconnect f g s)) = own_tokens (pn_Actors s)"
  "map cclaim (pn_Actors (cconnect f g s)) = map cclaim (pn_Actors s)"
  "\<forall>a \<in> set (pn_Actors (cconnect f g s)). pa_InputCh a \<noteq> None"
  by (auto simp: cconnect_def comp_def own_tokens_def cclaim_def)

definition with_own :: "token \<Rightarrow> LobbySlot \<times> token \<times> byte \<Rightarrow> token \<times> token \<times> byte \<times> gostring" where
  "with_own t = (\<lambda>(sl, u, i). (own_token t sl, u, i, ls_Name sl))"

lemma setup_slots:
  "se_Slots (with_tokens f l (getSetupMessage l)) = map (\<lambda>sl. \<lparr>sl_StoryToken = ls_StoryToken sl, sl_ActorToken = f sl,
     sl_Availability = ls_Availability sl, sl_Name = ls_Name sl,
     sl_Latency = cd_Latency (ci_Data (client_of (ls_ClientToken sl) l))\<rparr>) (lb_slots l)"
  "se_State (with_tokens f l (getSetupMessage l)) = lb_state l"
  "se_Name (with_tokens f l (getSetupMessage l)) = lb_name l" "se_Def (with_tokens f l (getSetupMessage l)) = lb_def l"
  "se_Header (with_tokens f l (getSetupMessage l)) = \<lparr>lhs_LobbyToken = lb_Token l\<rparr>"
  by (auto simp: with_tokens_def getSetupMessage_def zip_map2 comp_def zip_same_conv_map)

lemma session_from_message:
  assumes "lb_state l \<ge> StateStarting" and "slots_fit (lb_slots l)"
  shows "\<exists>s. client_session True (updateData now (with_tokens (own_token (lc_clientToken c)) l (getSetupMessage l)) c) = Some s \<and>
    pn_Token s = lc_lobbyToken c \<and> pn_Name s = lb_name l \<and> pn_Def s = lb_def l \<and> pn_ClientToken s = lc_clientToken c \<and>
    map py_Token (pn_Stories s) = new_stories 0 (map ls_StoryToken (lb_slots l)) \<and>
    map actor_view (pn_Actors s) =
      map (with_own (lc_clientToken c)) (zip (lb_slots l) (number 0 0 (map ls_StoryToken (lb_slots l))))"
proof -
  let ?m = "with_tokens (own_token (lc_clientToken c)) l (getSetupMessage l)" and ?ts = "map ls_StoryToken (lb_slots l)"
  define c' where "c' = updateData now ?m c"
  have c': "lo_State (lc_data c') = lb_state l" "lo_Name (lc_data c') = lb_name l" "lo_Def (lc_data c') = lb_def l"
    "lo_Slots (lc_data c') = se_Slots ?m" "lc_lobbyToken c' = lc_lobbyToken c" "lc_clientToken c' = lc_clientToken c"
    by (simp_all add: c'_def updateData_spec Let_def shown_frame setup_slots(2-4))
  let ?s0 = "\<lparr>pn_Token = lc_lobbyToken c, pn_Name = lb_name l, pn_Def = lb_def l,
          pn_ClientToken = lc_clientToken c, pn_Actors = [], pn_Stories = []\<rparr> :: CSession"
  obtain s k seen where f: "foldl (\<lambda>st sl. session_cslot sl st) (?s0, 0, []) (se_Slots ?m) = (s, k, seen)"
    by (metis prod_cases3)
  have ts: "map sl_StoryToken (se_Slots ?m) = ?ts" by (simp add: setup_slots(1) comp_def)
  have fit: "0 \<notin> set ?ts" "distinct (new_stories 0 ?ts)" using assms(2) by (simp_all add: slots_fit_def)
  have g: "cnumber [] 0 ?ts = number 0 0 ?ts" "cnew [] ?ts = new_stories 0 ?ts"
    by (rule grouped_same; use fit in simp)+
  have "client_session True c' = Some s"
    using assms(1) f by (simp add: client_session_def c' not_le [symmetric])
  moreover have "map slot_view (zip (se_Slots ?m) ns) = map (with_own (lc_clientToken c)) (zip (lb_slots l) ns)" for ns
    by (simp add: setup_slots(1) zip_map1 slot_view_def with_own_def comp_def case_prod_unfold)
  ultimately show ?thesis using cslots_fold [OF f] fit(1) g unfolding ts c'_def by auto
qed

lemma slots_fold_texts:
  "foldl (\<lambda>st sl. session_slot sl st) (s, k, prev) sls = (s', k', prev') \<Longrightarrow> ss_Name s' = ss_Name s \<and> ss_Def s' = ss_Def s"
proof (induction sls arbitrary: s k prev)
  case (Cons sl sls)
  obtain s1 k1 prev1 where one: "session_slot sl (s, k, prev) = (s1, k1, prev1)" by (metis prod_cases3)
  then have "ss_Name s1 = ss_Name s \<and> ss_Def s1 = ss_Def s" by (auto simp: session_slot_def Let_def split: if_splits)
  then show ?case using Cons.IH [of s1 k1 prev1] Cons.prems one by simp
qed simp

lemma own_distinct:
  assumes "distinct (map f xs)" and "\<And>x. h x = f x \<or> h x = (0 :: token)"
  shows "distinct (filter (\<lambda>t. t \<noteq> 0) (map h xs))"
  using assms(1)
proof (induction xs)
  case (Cons x xs)
  have "h x \<notin> set (filter (\<lambda>t. t \<noteq> 0) (map h xs))" if "h x \<noteq> 0"
    using Cons.prems assms(2) that by (auto simp: image_iff) metis
  then show ?case using Cons by simp
qed simp

lemma number_length [simp]: "length (number prev k ts) = length ts"
  by (metis length_map number_fst)

lemma with_own_snd: "map (\<lambda>(_, u, i, _). (u, i)) (map (with_own t) zs) = map snd zs"
  by (induction zs) (auto simp: with_own_def)

lemma with_own_fst: "length sls = length ns \<Longrightarrow> map fst (map (with_own t) (zip sls ns)) = map (own_token t) sls"
  by (induction sls ns rule: list_induct2) (auto simp: with_own_def)

lemma client_session_spec:
  assumes ok: "lobby_ok l" and st: "lb_state l \<ge> StateStarting" and fit: "slots_fit (lb_slots l)"
    and n: "n = lobbyToSession (lb_Token l) (lb_name l) (lb_def l) (lb_slots l)"
    and s: "pn_Token s = lb_Token l" "map py_Token (pn_Stories s) = new_stories 0 (map ls_StoryToken (lb_slots l))"
      "map actor_view (pn_Actors s) = map (with_own t) (zip (lb_slots l) (number 0 0 (map ls_StoryToken (lb_slots l))))"
  shows "ss_Token n = lb_Token l" and "ss_Name n = lb_name l" and "ss_Def n = lb_def l"
    and "map py_Token (pn_Stories s) = map st_Token (ss_Stories n)"
    and "mset (map cclaim (pn_Actors s)) = mset (session_claims n)"
    and "map actor_view (filter (\<lambda>a. pa_Token a \<noteq> 0) (pn_Actors s)) = map server_view (client_actors t (ss_Clients n))"
    and "lb_Token l \<noteq> 0 \<Longrightarrow> length (ss_Stories n) \<le> 8 \<Longrightarrow> length (lb_slots l) \<le> 64 \<Longrightarrow> CSession_Validate (cconnect f g s) = None"
proof -
  let ?sls = "lb_slots l" and ?ts = "map ls_StoryToken (lb_slots l)"
  let ?ns = "number 0 0 ?ts"
  let ?s0 = "\<lparr>ss_Token = lb_Token l, ss_Name = lb_name l, ss_Def = lb_def l, ss_LocalActors = [], ss_Clients = [],
         ss_Stories = []\<rparr> :: Session"
  obtain k prev where F: "foldl (\<lambda>st sl. session_slot sl st) (?s0, 0, 0) ?sls = (n, k, prev)"
    by (cases "foldl (\<lambda>st sl. session_slot sl st) (?s0, 0, 0) ?sls") (simp add: n lobbyToSession_def)
  have act: "\<forall>sl \<in> set ?sls. ls_ActorToken sl \<noteq> 0" using fit by (simp add: slots_fit_def)
  have "lb_state l \<noteq> StateActive" using st by (auto simp: lobby_states)
  note full = full_lobby_slots [OF ok this act]
  note N = slots_fold [OF full(1) F]
  have own: "map server_view (client_actors t (ss_Clients n)) =
      map (\<lambda>(sl, u, i). (ls_ActorToken sl, u, i, ls_Name sl))
        (filter (\<lambda>(sl, _). isRemote sl \<and> ls_ClientToken sl = t) (zip ?sls ?ns))"
    using slots_fold_own [OF full(1) _ F] by (simp add: client_tokens_def client_actors_def)
  show "ss_Token n = lb_Token l" "ss_Name n = lb_name l" "ss_Def n = lb_def l" using N slots_fold_texts [OF F] by simp_all
  show st: "map py_Token (pn_Stories s) = map st_Token (ss_Stories n)" using N s(2) by simp
  have "map cclaim (pn_Actors s) = map (\<lambda>(_, u, i, _). (u, i)) (map actor_view (pn_Actors s))"
    by (simp add: cclaim_def actor_view_def)
  also have "\<dots> = map snd (zip ?sls ?ns)" unfolding s(3) by (rule with_own_snd)
  also have "\<dots> = ?ns" by simp
  finally have claims: "map cclaim (pn_Actors s) = ?ns" .
  then show "mset (map cclaim (pn_Actors s)) = mset (session_claims n)" using N by (simp add: session_claims_def)
  have keep: "map actor_view (filter (\<lambda>a. pa_Token a \<noteq> 0) as) = filter (\<lambda>v. fst v \<noteq> 0) (map actor_view as)" for as
    by (induction as) (simp_all add: actor_view_def)
  have "filter (\<lambda>v. fst v \<noteq> 0) (map (with_own t) zs) =
      map (\<lambda>(sl, u, i). (ls_ActorToken sl, u, i, ls_Name sl)) (filter (\<lambda>(sl, _). isRemote sl \<and> ls_ClientToken sl = t) zs)"
    if "\<forall>z \<in> set zs. ls_ActorToken (fst z) \<noteq> 0" for zs
    using that by (induction zs) (auto simp: with_own_def own_token_def split: if_split_asm)
  moreover have "\<forall>z \<in> set (zip ?sls ?ns). ls_ActorToken (fst z) \<noteq> 0" using act by (auto dest: set_zip_leftD)
  ultimately show "map actor_view (filter (\<lambda>a. pa_Token a \<noteq> 0) (pn_Actors s)) = map server_view (client_actors t (ss_Clients n))"
    unfolding keep s(3) own by blast
  show "CSession_Validate (cconnect f g s) = None"
    if "lb_Token l \<noteq> 0" "length (ss_Stories n) \<le> 8" "length (lb_slots l) \<le> 64"
  proof -
    note sc = slots_claims [OF fit]
    have len: "length (pn_Stories s) = length (ss_Stories n)" "length (new_stories 0 ?ts) = length (ss_Stories n)"
      using st s(2) by (metis length_map)+
    have "map fst (map actor_view (pn_Actors s)) = map (own_token t) ?sls"
      unfolding s(3) by (rule with_own_fst) simp
    then have tok: "map pa_Token (pn_Actors s) = map (own_token t) ?sls" by (simp add: actor_view_def comp_def)
    have "distinct (own_tokens (pn_Actors s))" unfolding own_tokens_def tok
      by (rule own_distinct [of ls_ActorToken]) (use full(2) in \<open>auto simp: tokens_ok_def own_token_def\<close>)
    moreover have "length (pn_Actors s) = length ?sls" using tok by (metis length_map)
    moreover have "?sls \<noteq> []" using sc(4) by auto
    ultimately have "csession_valid (cconnect f g s)"
      unfolding csession_valid_def cconnect_simps s(1,2) claims len(1)
      using that sc len(2) cconnect_simps(3,8) by (auto simp: Suc_le_eq) (metis cconnect_simps(2) imageI s(2) set_map)
    then show ?thesis by (simp add: CSession_Validate_spec)
  qed
qed

section \<open>Properties\<close>

text \<open>
  C19. The players agree on the session. When a client receives the bytes of a setup message of the
  countdown, its session has the token, name, definition and stories of the session that the server
  makes of the lobby, the same places in the same stories are taken, its own actors are the server's
  actors of this client, in order, with story, index and name, and with channels it passes the
  client's validation, if there are at most 8 stories and 64 slots.
\<close>

theorem client_session_agrees:
  assumes "lobby_ok l" and "lb_state l \<ge> StateStarting" and "slots_fit (lb_slots l)" and "lb_Token l \<noteq> 0"
    and "m = with_tokens (own_token (lc_clientToken c)) l (getSetupMessage l)" and "setup_valid m"
    and "Setup_Put m [] = Inr bs" and "lc_lobbyToken c = lb_Token l"
    and "n = lobbyToSession (lb_Token l) (lb_name l) (lb_def l) (lb_slots l)"
    and "length (ss_Stories n) \<le> 8" and "length (lb_slots l) \<le> 64"
  shows "\<exists>c' s. LobbyClient_Handle now bs c = Inr c' \<and> client_session True c' = Some s \<and>
    pn_Token s = ss_Token n \<and> pn_Name s = ss_Name n \<and> pn_Def s = ss_Def n \<and>
    map py_Token (pn_Stories s) = map st_Token (ss_Stories n) \<and>
    mset (map cclaim (pn_Actors s)) = mset (session_claims n) \<and>
    map actor_view (filter (\<lambda>a. pa_Token a \<noteq> 0) (pn_Actors s)) =
      map server_view (client_actors (lc_clientToken c) (ss_Clients n)) \<and>
    CSession_Validate (cconnect f g s) = None"
proof -
  have h: "LobbyClient_Handle now bs c = Inr (updateData now m c)"
    by (rule handle_setup [OF assms(6,7)]) (simp add: assms(5,8) setup_slots)
  obtain s where s: "client_session True (updateData now m c) = Some s" "pn_Token s = lb_Token l" "pn_Name s = lb_name l"
      "pn_Def s = lb_def l" "map py_Token (pn_Stories s) = new_stories 0 (map ls_StoryToken (lb_slots l))"
      "map actor_view (pn_Actors s) =
        map (with_own (lc_clientToken c)) (zip (lb_slots l) (number 0 0 (map ls_StoryToken (lb_slots l))))"
    using session_from_message [OF assms(2,3), of now c] assms(5,8) by metis
  note sp = client_session_spec [OF assms(1-3,9) s(2,5,6)]
  show ?thesis using h s(1-4) sp(1-6) sp(7) [OF assms(4,10,11)] by metis
qed

definition starting_lobby :: lobbyService where
  "starting_lobby = fst (turn 5 (FinishReq StateStarting3 2) full_lobby)"

theorem client_session_agrees_witness:
  "\<exists>bs c' s. Setup_Put (with_tokens (own_token 9) starting_lobby (getSetupMessage starting_lobby)) [] = Inr bs \<and>
     LobbyClient_Handle 9 bs (NewLobby 5 1 9) = Inr c' \<and> client_session True c' = Some s \<and>
     map actor_view (filter (\<lambda>a. pa_Token a \<noteq> 0) (pn_Actors s)) = [(7, 5, 1, [65])] \<and>
     CSession_Validate (cconnect (\<lambda>_. 0) (\<lambda>_. 1) s) = None"
proof -
  let ?m = "with_tokens (own_token 9) starting_lobby (getSetupMessage starting_lobby)"
  let ?n = "lobbyToSession (lb_Token starting_lobby) (lb_name starting_lobby) (lb_def starting_lobby) (lb_slots starting_lobby)"
  have ok: "lobby_ok starting_lobby"
    unfolding starting_lobby_def full_lobby_def by (intro turn_ok new_lobby_ok(1) [OF sample_lobby_new])
  have sl: "lb_slots starting_lobby =
    [\<lparr>ls_StoryToken = 5, ls_Availability = SlotLocal0, ls_ClientToken = 0, ls_ActorToken = 3, ls_Name = [66],
      ls_Config = None\<rparr>,
     \<lparr>ls_StoryToken = 5, ls_Availability = SlotRemote, ls_ClientToken = 9, ls_ActorToken = 7, ls_Name = [65],
      ls_Config = Some []\<rparr>]"
    by code_simp
  have r: "\<not> isRemote (lb_slots starting_lobby ! 0)" "isRemote (lb_slots starting_lobby ! 1)" by code_simp+
  have "count_list [5, 5 :: token] t \<le> 64" for t by simp
  then have fit: "slots_fit (lb_slots starting_lobby)" using r by (simp add: sl slots_fit_def)
  have st: "StateStarting \<le> lb_state starting_lobby" by code_simp
  have tk: "lb_Token starting_lobby \<noteq> 0" by code_simp
  have sv: "setup_valid ?m" by code_simp
  have small: "length (ss_Stories ?n) \<le> 8" "length (lb_slots starting_lobby) \<le> 64" by code_simp+
  have own: "map server_view (client_actors 9 (ss_Clients ?n)) = [(7, 5, 1, [65])]" by code_simp
  obtain bs where bs: "Setup_Put ?m [] = Inr bs" using setup_format.put_bytes [OF sv] by blast
  have c: "lc_clientToken (NewLobby 5 1 9) = 9" "lc_lobbyToken (NewLobby 5 1 9) = lb_Token starting_lobby"
    by (simp add: NewLobby_def, code_simp)
  from client_session_agrees [OF ok st fit tk _ sv bs c(2) refl small, of 9 "\<lambda>_. 0" "\<lambda>_. 1"] c(1) bs own
  show ?thesis by auto
qed



text \<open>
  What a client shows is what the last setup message said: after a message, the lobby has its name,
  definition, slots and state, and \<open>Get\<close> with the version seen before answers the lobby exactly if the
  message changed something.
\<close>

theorem client_shows_last_setup:
  assumes "0 \<le> lo_Version (lc_data c)" and "lo_Version (lc_data c) + 1 < int_lim"
  defines "v \<equiv> lo_Version (lc_data c)"
  shows "\<exists>v'. lc_data (updateData now m c) = setup_lobby v' m \<and>
    fst (LobbyClient_Get later v (updateData now m c)) =
      (if lc_data c = setup_lobby v m then None else Some (setup_lobby (v + 1) m)) \<and>
    snd (LobbyClient_Get later v (updateData now m c)) = time_Sub later now"
proof -
  have "i64 (v + 1) = v + 1" using assms by (intro i64_id) simp_all
  then show ?thesis by (auto simp: updateData_spec LobbyClient_Get_def Let_def shown_frame v_def)
qed

theorem client_shows_last_setup_witness:
  "fst (LobbyClient_Get 9 0 (updateData 6 (getSetupMessage starting_lobby) (NewLobby 5 1 9))) =
     Some (setup_lobby 1 (getSetupMessage starting_lobby)) \<and>
   snd (LobbyClient_Get 9 0 (updateData 6 (getSetupMessage starting_lobby) (NewLobby 5 1 9))) = 3"
proof -
  let ?c = "NewLobby 5 1 9"
  have v: "lo_Version (lc_data ?c) = 0" by (simp add: NewLobby_def zero_Lobby_def)
  have ch: "lc_data ?c \<noteq> setup_lobby 0 (getSetupMessage starting_lobby)" by code_simp
  have "time_Sub 9 6 = 3" by code_simp
  then show ?thesis using client_shows_last_setup [of ?c 6 "getSetupMessage starting_lobby" 9] ch unfolding v by auto
qed

end
