(* ===== verification/Listeners.thy ===== *)
theory Listeners
  imports LobbyClients
begin

text \<open>
  \<open>udpstar/client/client_lobby_listener.go\<close>: the list of the lobbies that a player hears on the network.
  Every broadcast walks over the list, ages the other entries, drops the stale ones and adds a lobby
  that is new. The walk with its deletions is a recursion that carries the flags \<open>found\<close> and \<open>changed\<close>.
\<close>

section \<open>State\<close>

type_synonym LobbyListenerState = byte

definition ListenerFresh :: LobbyListenerState where
  "ListenerFresh = 0"

definition ListenerRecent :: LobbyListenerState where
  "ListenerRecent = 1"

definition ListenerOld :: LobbyListenerState where
  "ListenerOld = 2"

definition ListenerStale :: LobbyListenerState where
  "ListenerStale = 3"

record listenerEntry =
  lt_Number :: int
  lt_Addr :: UDPAddr
  lt_LobbyToken :: token
  lt_Lobby :: Lobby
  lt_EntryTime :: time
  lt_LatestTime :: time
  lt_State :: LobbyListenerState

record LobbyListener =
  ll_clientToken :: token
  ll_data :: "listenerEntry list"
  ll_dataSeq :: int
  ll_version :: int

record LobbyListenerInfo =
  lf_Token :: token
  lf_Lobby :: Lobby
  lf_State :: LobbyListenerState
  lf_Addr :: UDPAddr

definition NewLobbyListener :: "token \<Rightarrow> LobbyListener" where
  "NewLobbyListener clientToken =
     \<lparr>ll_clientToken = clientToken, ll_data = [], ll_dataSeq = 0, ll_version = 0\<rparr>"

section \<open>Operations\<close>

text \<open>\<open>net.IP.Equal\<close> of Go's standard library: an IPv4 address equals its form as an IPv6 address.\<close>

definition v4InV6Prefix :: "byte list" where
  "v4InV6Prefix = [0, 0, 0, 0, 0, 0, 0, 0, 0, 0, 0xff, 0xff]"

definition IP_Equal :: "byte list \<Rightarrow> byte list \<Rightarrow> bool" where
  "IP_Equal ip x =
     (if length ip = length x then ip = x
      else if length ip = 4 \<and> length x = 16 then take 12 x = v4InV6Prefix \<and> ip = drop 12 x
      else if length ip = 16 \<and> length x = 4 then take 12 ip = v4InV6Prefix \<and> drop 12 ip = x
      else False)"

definition IsSameLobby :: "UDPAddr \<Rightarrow> token \<Rightarrow> listenerEntry \<Rightarrow> bool" where
  "IsSameLobby addr t e \<longleftrightarrow> IP_Equal (udp_IP (lt_Addr e)) (udp_IP addr) \<and> udp_Port (lt_Addr e) = udp_Port addr \<and>
     udp_Zone (lt_Addr e) = udp_Zone addr \<and> lt_LobbyToken e = t"

definition age_state :: "duration \<Rightarrow> LobbyListenerState" where
  "age_state age =
     (if age > 20 * ns_Second then ListenerStale
      else if age > 6500 * ns_Millisecond then ListenerOld
      else if age > 3500 * ns_Millisecond then ListenerRecent
      else ListenerFresh)"

text \<open>One entry: its new state, the entry and the two flags. \<open>||\<close> calls \<open>updateLobby\<close> only if nothing changed yet.\<close>

definition visit_entry :: "time \<Rightarrow> Setup option \<Rightarrow> UDPAddr \<Rightarrow> listenerEntry \<Rightarrow> bool \<Rightarrow> bool
    \<Rightarrow> LobbyListenerState \<times> listenerEntry \<times> bool \<times> bool" where
  "visit_entry now msg addr e found changed =
     (case msg of
        Some m \<Rightarrow>
          if IsSameLobby addr (lhs_LobbyToken (se_Header m)) e then
            let e = e\<lparr>lt_LatestTime := now\<rparr>
            in if changed then (ListenerFresh, e, True, True)
               else let (changed, lobby) = updateLobby (lt_Lobby e) m
                    in (ListenerFresh, e\<lparr>lt_Lobby := lobby\<rparr>, True, changed)
          else (age_state (time_Sub now (lt_LatestTime e)), e, found, changed)
      | None \<Rightarrow> (age_state (time_Sub now (lt_LatestTime e)), e, found, changed))"

fun listener_walk :: "time \<Rightarrow> Setup option \<Rightarrow> UDPAddr \<Rightarrow> listenerEntry list \<Rightarrow> bool \<Rightarrow> bool
    \<Rightarrow> listenerEntry list \<times> bool \<times> bool" where
  "listener_walk now msg addr [] found changed = ([], found, changed)"
| "listener_walk now msg addr (e # es) found changed =
     (let (newState, e, found, changed) = visit_entry now msg addr e found changed;
          (e, changed) = (if lt_State e \<noteq> newState then (e\<lparr>lt_State := newState\<rparr>, True) else (e, changed))
      in if newState = ListenerStale then listener_walk now msg addr es found True
         else let (es', found, changed) = listener_walk now msg addr es found changed in (e # es', found, changed))"

definition listener_update :: "time \<Rightarrow> Setup option \<Rightarrow> UDPAddr \<Rightarrow> LobbyListener \<Rightarrow> bool \<times> LobbyListener" where
  "listener_update now msg addr c =
     (let (data, found, changed) = listener_walk now msg addr (ll_data c) (msg = None) False;
          c = c\<lparr>ll_data := data\<rparr>;
          (changed, c) =
            (case msg of
               Some m \<Rightarrow>
                 if \<not> found then
                   let n = i64 (ll_dataSeq c + 1);
                       e = \<lparr>lt_Number = n, lt_Addr = addr, lt_LobbyToken = lhs_LobbyToken (se_Header m),
                            lt_Lobby = snd (updateLobby zero_Lobby m), lt_EntryTime = now, lt_LatestTime = now,
                            lt_State = ListenerFresh\<rparr>
                   in (True, c\<lparr>ll_dataSeq := n, ll_data := ll_data c @ [e]\<rparr>)
                 else (changed, c)
             | None \<Rightarrow> (changed, c))
      in (changed, if changed then c\<lparr>ll_version := i64 (ll_version c + 1)\<rparr> else c))"

definition HandleBroadcastMessages :: "time \<Rightarrow> byte list \<Rightarrow> UDPAddr \<Rightarrow> LobbyListener \<Rightarrow> LobbyListener go" where
  "HandleBroadcastMessages now data addr c =
     (if length data = 0 then Inr c
      else go_bind (LobbyParseServer data) (\<lambda>r.
        case r of None \<Rightarrow> Inr c | Some msg \<Rightarrow> Inr (snd (listener_update now (Some msg) addr c))))"

definition Refresh :: "time \<Rightarrow> LobbyListener \<Rightarrow> bool \<times> LobbyListener" where
  "Refresh now c = listener_update now None zero_UDPAddr c"

definition listener_info :: "listenerEntry \<Rightarrow> LobbyListenerInfo" where
  "listener_info e = \<lparr>lf_Token = lt_LobbyToken e, lf_Lobby = lt_Lobby e, lf_State = lt_State e, lf_Addr = lt_Addr e\<rparr>"

definition Listener_List :: "int \<Rightarrow> LobbyListener \<Rightarrow> LobbyListenerInfo list option \<times> int" where
  "Listener_List version c =
     (if version = ll_version c then (None, ll_version c) else (Some (map listener_info (ll_data c)), ll_version c))"

section \<open>The walk\<close>

lemma state_simps [simp]:
  "ListenerFresh \<noteq> ListenerStale" "ListenerStale \<noteq> ListenerFresh" "age_state 0 = ListenerFresh"
  by (simp_all add: ListenerFresh_def ListenerStale_def age_state_def ns_Second_def ns_Millisecond_def)

lemma stale_iff: "age_state d = ListenerStale \<longleftrightarrow> d > 20 * ns_Second"
  by (auto simp: age_state_def ListenerStale_def ListenerOld_def ListenerRecent_def ListenerFresh_def)

text \<open>Two addresses are the same when their normal forms are.\<close>

definition norm_ip :: "byte list \<Rightarrow> byte list" where
  "norm_ip ip = (if length ip = 16 \<and> take 12 ip = v4InV6Prefix then drop 12 ip else ip)"

lemma IP_Equal_norm: "IP_Equal a b \<longleftrightarrow> norm_ip a = norm_ip b"
proof -
  have eq: "a = b \<longleftrightarrow> drop 12 a = drop 12 b" if "take 12 a = take 12 b"
    using that by (metis append_take_drop_id)
  have len: "norm_ip a = norm_ip b \<Longrightarrow> length a = length b \<or> {length a, length b} = {4, 16}"
    by (auto simp: norm_ip_def split: if_splits)
  show ?thesis using eq len by (auto simp: IP_Equal_def norm_ip_def split: if_splits)
qed

type_synonym lobby_key = "byte list \<times> int \<times> gostring \<times> token"

definition key_of :: "UDPAddr \<Rightarrow> token \<Rightarrow> lobby_key" where
  "key_of addr t = (norm_ip (udp_IP addr), udp_Port addr, udp_Zone addr, t)"

definition entry_key :: "listenerEntry \<Rightarrow> lobby_key" where
  "entry_key e = key_of (lt_Addr e) (lt_LobbyToken e)"

lemma IsSameLobby_key: "IsSameLobby addr t e \<longleftrightarrow> entry_key e = key_of addr t"
  by (auto simp: IsSameLobby_def entry_key_def key_of_def IP_Equal_norm)

definition heard_now :: "Setup option \<Rightarrow> UDPAddr \<Rightarrow> listenerEntry \<Rightarrow> bool" where
  "heard_now msg addr e = (case msg of None \<Rightarrow> False | Some m \<Rightarrow> IsSameLobby addr (lhs_LobbyToken (se_Header m)) e)"

text \<open>What the walk makes of an entry, but for the lobby.\<close>

definition aged_entry :: "time \<Rightarrow> Setup option \<Rightarrow> UDPAddr \<Rightarrow> listenerEntry \<Rightarrow> lobby_key \<times> int \<times> time \<times> LobbyListenerState" where
  "aged_entry now msg addr e =
     (entry_key e, lt_Number e, if heard_now msg addr e then now else lt_LatestTime e,
      if heard_now msg addr e then ListenerFresh else age_state (time_Sub now (lt_LatestTime e)))"

definition entry_view :: "listenerEntry \<Rightarrow> lobby_key \<times> int \<times> time \<times> LobbyListenerState" where
  "entry_view e = (entry_key e, lt_Number e, lt_LatestTime e, lt_State e)"

lemma visit_entry_spec:
  assumes "visit_entry now msg addr e found changed = (st, e', found', changed')"
  shows "(entry_key e', lt_Number e', lt_LatestTime e', st) = aged_entry now msg addr e"
    and "lt_State e' = lt_State e" and "found' = (found \<or> heard_now msg addr e)"
    and "listener_info e' \<noteq> listener_info e \<Longrightarrow> changed'" and "changed \<Longrightarrow> changed'"
    and "changed \<Longrightarrow> lt_Lobby e' = lt_Lobby e"
  using assms
  by (auto simp: visit_entry_def aged_entry_def heard_now_def Let_def entry_key_def listener_info_def updateLobby_spec
      split: option.splits if_splits prod.splits)

lemma listener_walk_spec:
  assumes "listener_walk now msg addr es found changed = (es', found', changed')"
  shows "map entry_view es' = filter (\<lambda>v. snd (snd (snd v)) \<noteq> ListenerStale) (map (aged_entry now msg addr) es) \<and>
    found' = (found \<or> (\<exists>e \<in> set es. heard_now msg addr e)) \<and>
    (map listener_info es' \<noteq> map listener_info es \<longrightarrow> changed') \<and> (changed \<longrightarrow> changed') \<and>
    ((\<exists>e \<in> set es. snd (snd (snd (aged_entry now msg addr e))) \<noteq> lt_State e) \<longrightarrow> changed')"
  using assms
proof (induction es arbitrary: found changed es' found' changed')
  case (Cons e es)
  obtain st e1 f1 c1 where v: "visit_entry now msg addr e found changed = (st, e1, f1, c1)" by (metis prod_cases4)
  note V = visit_entry_spec [OF v]
  define e2 where "e2 = e1\<lparr>lt_State := st\<rparr>"
  define c2 where "c2 = (c1 \<or> lt_State e1 \<noteq> st)"
  have e2: "(if lt_State e1 \<noteq> st then (e1\<lparr>lt_State := st\<rparr>, True) else (e1, c1)) = (e2, c2)"
    by (auto simp: e2_def c2_def)
  have a: "entry_view e2 = aged_entry now msg addr e" using V(1) by (simp add: entry_view_def e2_def entry_key_def)
  have ast: "snd (snd (snd (aged_entry now msg addr e))) = st" using V(1) by (metis snd_conv)
  have i: "listener_info e2 \<noteq> listener_info e \<Longrightarrow> c2"
    using V(2,4) by (auto simp: e2_def c2_def listener_info_def)
  show ?case
  proof (cases "st = ListenerStale")
    case True
    then have w: "listener_walk now msg addr es f1 True = (es', found', changed')"
      using Cons.prems by (simp add: v e2 Let_def)
    from Cons.IH [OF w] show ?thesis using ast True V(3) by (auto simp: case_prod_unfold)
  next
    case False
    obtain es2 where w: "listener_walk now msg addr es f1 c2 = (es2, found', changed')" "es' = e2 # es2"
      using Cons.prems False by (auto simp: v e2 Let_def split: prod.splits)
    from Cons.IH [OF w(1)] show ?thesis using ast False V(2,3,5) i a w(2) by (auto simp: case_prod_unfold c2_def)
  qed
qed simp

lemma listener_walk_append:
  "listener_walk now msg addr (xs @ ys) found changed =
    (let (xs', f, c) = listener_walk now msg addr xs found changed; (ys', f, c) = listener_walk now msg addr ys f c
     in (xs' @ ys', f, c))"
proof (induction xs arbitrary: found changed)
  case (Cons x xs)
  then show ?case by (auto simp: Let_def split: prod.splits if_splits)
qed (simp add: case_prod_unfold Let_def)

section \<open>What the list holds\<close>

datatype listener_event = Hears Setup UDPAddr | Refreshes

fun listener_step :: "time \<times> listener_event \<Rightarrow> LobbyListener \<Rightarrow> LobbyListener" where
  "listener_step (now, Hears m addr) c = snd (listener_update now (Some m) addr c)"
| "listener_step (now, Refreshes) c = snd (Refresh now c)"

definition listener_run :: "(time \<times> listener_event) list \<Rightarrow> LobbyListener \<Rightarrow> LobbyListener" where
  "listener_run vs c = foldl (\<lambda>c v. listener_step v c) c vs"

text \<open>When each lobby was heard last.\<close>

fun hear :: "time \<times> listener_event \<Rightarrow> (lobby_key \<rightharpoonup> time) \<Rightarrow> (lobby_key \<rightharpoonup> time)" where
  "hear (now, Hears m addr) h = h(key_of addr (lhs_LobbyToken (se_Header m)) \<mapsto> now)"
| "hear (now, Refreshes) h = h"

definition last_heard :: "(time \<times> listener_event) list \<Rightarrow> (lobby_key \<rightharpoonup> time)" where
  "last_heard vs = foldl (\<lambda>h v. hear v h) Map.empty vs"

definition lists_recent :: "time \<Rightarrow> (lobby_key \<rightharpoonup> time) \<Rightarrow> listenerEntry list \<Rightarrow> bool" where
  "lists_recent now h es \<longleftrightarrow> distinct (map entry_key es) \<and>
     (\<forall>e \<in> set es. h (entry_key e) = Some (lt_LatestTime e) \<and> time_Sub now (lt_LatestTime e) \<le> 20 * ns_Second \<and>
        lt_State e = age_state (time_Sub now (lt_LatestTime e))) \<and>
     (\<forall>k t. h k = Some t \<longrightarrow> t \<le> now \<and> (time_Sub now t \<le> 20 * ns_Second \<longrightarrow> k \<in> entry_key ` set es))"

lemma distinct_map_filter: "distinct (map f xs) \<Longrightarrow> distinct (map f (filter P xs))"
  by (induction xs) auto

lemma time_Sub_mono: "t \<le> t' \<Longrightarrow> time_Sub t u \<le> time_Sub t' u"
  by (simp add: time_Sub_def)

lemma time_Sub_self [simp]: "time_Sub t t = 0"
  by (simp add: time_Sub_def)

text \<open>The walk over a list that is up to date at an earlier time.\<close>

lemma walk_lists:
  assumes l: "lists_recent now0 h es" and t: "now0 \<le> now"
    and w: "listener_walk now msg addr es found False = (es', found', changed')"
    and k: "\<And>e. heard_now msg addr e \<longleftrightarrow> kk = Some (entry_key e)"
    and h': "h' = (case kk of None \<Rightarrow> h | Some k \<Rightarrow> h(k \<mapsto> now))"
  shows "distinct (map entry_key es')"
    and "\<forall>e \<in> set es'. h' (entry_key e) = Some (lt_LatestTime e) \<and> time_Sub now (lt_LatestTime e) \<le> 20 * ns_Second \<and>
        lt_State e = age_state (time_Sub now (lt_LatestTime e))"
    and "\<forall>q u. h' q = Some u \<longrightarrow> u \<le> now \<and> (time_Sub now u \<le> 20 * ns_Second \<longrightarrow>
      q \<in> entry_key ` set es' \<or> kk = Some q \<and> q \<notin> entry_key ` set es)"
    and "entry_key ` set es' \<subseteq> entry_key ` set es"
proof -
  have view: "map entry_view es' = filter (\<lambda>v. snd (snd (snd v)) \<noteq> ListenerStale) (map (aged_entry now msg addr) es)"
    using listener_walk_spec [OF w] by simp
  have key: "fst (entry_view e) = entry_key e" "fst (aged_entry now msg addr e) = entry_key e" for e
    by (simp_all add: entry_view_def aged_entry_def)
  have "map entry_key es' = map fst (map entry_view es')" by (simp add: key comp_def)
  also have "\<dots> = map fst (filter (\<lambda>v. snd (snd (snd v)) \<noteq> ListenerStale) (map (aged_entry now msg addr) es))" by (simp only: view)
  finally have keys: "map entry_key es' = map fst (filter (\<lambda>v. snd (snd (snd v)) \<noteq> ListenerStale) (map (aged_entry now msg addr) es))" .
  have "distinct (map fst (map (aged_entry now msg addr) es))" using l by (simp add: lists_recent_def comp_def key)
  then show "distinct (map entry_key es')" unfolding keys by (rule distinct_map_filter)
  have views: "entry_view ` set es' = {v \<in> aged_entry now msg addr ` set es. snd (snd (snd v)) \<noteq> ListenerStale}"
  proof -
    have "set (map entry_view es') = set (filter (\<lambda>v. snd (snd (snd v)) \<noteq> ListenerStale) (map (aged_entry now msg addr) es))"
      by (simp only: view)
    then show ?thesis by (simp only: set_map set_filter) 
  qed
  have orig: "\<exists>e0 \<in> set es. entry_view e = aged_entry now msg addr e0 \<and> lt_State e \<noteq> ListenerStale" if "e \<in> set es'" for e
  proof -
    have "entry_view e \<in> {v \<in> aged_entry now msg addr ` set es. snd (snd (snd v)) \<noteq> ListenerStale}"
      using that views by blast
    then show ?thesis by (auto simp: entry_view_def)
  qed
  show "entry_key ` set es' \<subseteq> entry_key ` set es"
    using orig by (fastforce simp: entry_view_def aged_entry_def)
  show "\<forall>e \<in> set es'. h' (entry_key e) = Some (lt_LatestTime e) \<and> time_Sub now (lt_LatestTime e) \<le> 20 * ns_Second \<and>
        lt_State e = age_state (time_Sub now (lt_LatestTime e))"
  proof
    fix e assume "e \<in> set es'"
    then obtain e0 where e0: "e0 \<in> set es" "entry_view e = aged_entry now msg addr e0" "lt_State e \<noteq> ListenerStale"
      using orig by blast
    have h0: "h (entry_key e0) = Some (lt_LatestTime e0)" using l e0(1) by (simp add: lists_recent_def)
    show "h' (entry_key e) = Some (lt_LatestTime e) \<and> time_Sub now (lt_LatestTime e) \<le> 20 * ns_Second \<and>
        lt_State e = age_state (time_Sub now (lt_LatestTime e))"
    proof (cases "heard_now msg addr e0")
      case True
      then show ?thesis using e0 k [of e0] h' by (simp add: entry_view_def aged_entry_def ns_Second_def)
    next
      case False
      then have "h' (entry_key e0) = h (entry_key e0)" using k [of e0] h' by (auto split: option.splits)
      then show ?thesis using e0 False h0 stale_iff [of "time_Sub now (lt_LatestTime e0)"]
        by (simp add: entry_view_def aged_entry_def not_less)
    qed
  qed
  show "\<forall>q u. h' q = Some u \<longrightarrow> u \<le> now \<and> (time_Sub now u \<le> 20 * ns_Second \<longrightarrow>
      q \<in> entry_key ` set es' \<or> kk = Some q \<and> q \<notin> entry_key ` set es)"
  proof (intro allI impI)
    fix q u assume u: "h' q = Some u"
    have keep: "q \<in> entry_key ` set es'"
      if "e0 \<in> set es" "entry_key e0 = q" "snd (snd (snd (aged_entry now msg addr e0))) \<noteq> ListenerStale" for e0
    proof -
      have "aged_entry now msg addr e0 \<in> entry_view ` set es'" unfolding views using that by blast
      then show ?thesis using that(2) by (force simp: entry_view_def aged_entry_def)
    qed
    show "u \<le> now \<and> (time_Sub now u \<le> 20 * ns_Second \<longrightarrow>
      q \<in> entry_key ` set es' \<or> kk = Some q \<and> q \<notin> entry_key ` set es)"
    proof (cases "kk = Some q")
      case True
      have "q \<in> entry_key ` set es'" if "e0 \<in> set es" "entry_key e0 = q" for e0
        using keep [OF that] k [of e0] True that by (simp add: aged_entry_def)
      then show ?thesis using u h' True by auto
    next
      case False
      then have hq: "h q = Some u" using u h' by (auto split: option.splits if_splits)
      have un: "u \<le> now0" "time_Sub now0 u \<le> 20 * ns_Second \<Longrightarrow> q \<in> entry_key ` set es"
        using l hq unfolding lists_recent_def by blast+
      have "q \<in> entry_key ` set es'" if a: "time_Sub now u \<le> 20 * ns_Second"
      proof -
        have "time_Sub now0 u \<le> 20 * ns_Second" using time_Sub_mono [OF t, of u] a by simp
        then obtain e0 where e0: "e0 \<in> set es" "entry_key e0 = q" using un(2) by auto
        then have "lt_LatestTime e0 = u" using l hq by (auto simp: lists_recent_def)
        then show ?thesis using keep [OF e0] k [of e0] False e0(2) a stale_iff [of "time_Sub now u"]
          by (simp add: aged_entry_def)
      qed
      then show ?thesis using un(1) t by auto
    qed
  qed
qed

lemma listener_step_lists:
  assumes l: "lists_recent now0 h (ll_data c)" and t: "now0 \<le> now"
  shows "lists_recent now (hear (now, v) h) (ll_data (listener_step (now, v) c))"
proof (cases v)
  case (Hears m addr)
  let ?q = "key_of addr (lhs_LobbyToken (se_Header m))"
  obtain es f ch where w: "listener_walk now (Some m) addr (ll_data c) False False = (es, f, ch)" by (metis prod_cases3)
  have k: "heard_now (Some m) addr e \<longleftrightarrow> Some ?q = Some (entry_key e)" for e
    by (auto simp: heard_now_def IsSameLobby_key)
  define h' where "h' = h(?q \<mapsto> now)"
  have h': "h' = (case Some ?q of None \<Rightarrow> h | Some k \<Rightarrow> h(k \<mapsto> now))" by (simp add: h'_def)
  note W = walk_lists [OF l t w k h']
  have hr: "hear (now, v) h = h'" by (simp add: Hears h'_def)
  have f: "f \<longleftrightarrow> ?q \<in> entry_key ` set (ll_data c)"
  proof -
    have "f \<longleftrightarrow> (\<exists>e \<in> set (ll_data c). entry_key e = ?q)"
      using listener_walk_spec [OF w] by (simp add: heard_now_def IsSameLobby_key)
    then show ?thesis by (metis image_iff)
  qed
  show ?thesis
  proof (cases f)
    case True
    then have "ll_data (listener_step (now, v) c) = es"
      by (simp add: Hears listener_update_def w Let_def)
    moreover have "?q \<in> entry_key ` set (ll_data c)" using True f by simp
    then have "\<forall>k u. h' k = Some u \<longrightarrow> u \<le> now \<and> (time_Sub now u \<le> 20 * ns_Second \<longrightarrow> k \<in> entry_key ` set es)"
      using W(3) by blast
    ultimately show ?thesis using W(1,2) by (simp only: lists_recent_def hr)
  next
    case False
    obtain e where e: "ll_data (listener_step (now, v) c) = es @ [e]" "entry_key e = ?q" "lt_LatestTime e = now"
        "lt_State e = ListenerFresh"
      using False by (simp add: Hears listener_update_def w Let_def entry_key_def)
    have q: "?q \<notin> entry_key ` set es" using False f W(4) by blast
    have "\<forall>k u. h' k = Some u \<longrightarrow> u \<le> now \<and> (time_Sub now u \<le> 20 * ns_Second \<longrightarrow> k \<in> entry_key ` set (es @ [e]))"
    proof -
      have "entry_key ` set (es @ [e]) = insert ?q (entry_key ` set es)" using e(2) by simp
      then show ?thesis using W(3) by blast
    qed
    moreover have "distinct (map entry_key (es @ [e]))" using W(1) q e(2) by simp
    moreover have "\<forall>e \<in> set (es @ [e]). h' (entry_key e) = Some (lt_LatestTime e) \<and>
        time_Sub now (lt_LatestTime e) \<le> 20 * ns_Second \<and> lt_State e = age_state (time_Sub now (lt_LatestTime e))"
      using W(2) e by (simp add: h'_def ns_Second_def)
    ultimately show ?thesis unfolding lists_recent_def hr e(1) by blast
  qed
next
  case Refreshes
  obtain es f ch where w: "listener_walk now None zero_UDPAddr (ll_data c) True False = (es, f, ch)" by (metis prod_cases3)
  have k: "heard_now None zero_UDPAddr e \<longleftrightarrow> None = Some (entry_key e)" for e by (simp add: heard_now_def)
  note W = walk_lists [OF l t w k, of h, simplified option.case, OF refl]
  have "ll_data (listener_step (now, v) c) = es" by (simp add: Refreshes Refresh_def listener_update_def w Let_def)
  then show ?thesis using W by (simp add: lists_recent_def Refreshes)
qed

lemma listener_run_lists:
  assumes "lists_recent now0 h (ll_data c)" and "sorted_wrt (\<le>) (now0 # map fst vs)"
  shows "lists_recent (last (now0 # map fst vs)) (foldl (\<lambda>h v. hear v h) h vs) (ll_data (listener_run vs c))"
  using assms
proof (induction vs arbitrary: now0 h c)
  case (Cons v vs)
  obtain now ev where v: "v = (now, ev)" by (cases v)
  have s: "now0 \<le> now" "sorted_wrt (\<le>) (now # map fst vs)" using Cons.prems(2) v by auto
  from Cons.IH [OF listener_step_lists [OF Cons.prems(1) s(1)] s(2)] show ?case by (simp add: v listener_run_def)
qed (simp add: listener_run_def)

section \<open>Properties\<close>

text \<open>
  C23. The list is what has been heard in the last twenty seconds. After any broadcasts and refreshes on a
  clock that does not go back, it has, once each, exactly the lobbies whose last setup message came at
  most 20 seconds before the last call, each with the time of that message and the state of its age;
  addresses are the same lobby's when they are equal as IP addresses, in IPv4 or IPv6 form.
\<close>

theorem listener_lists_recent:
  assumes "vs \<noteq> []" and "sorted_wrt (\<le>) (map fst vs)" and "now = fst (last vs)"
    and "c = listener_run vs (NewLobbyListener t)"
  shows "distinct (map entry_key (ll_data c)) \<and>
    (\<lambda>e. (entry_key e, lt_LatestTime e)) ` set (ll_data c) =
      {(k, u). last_heard vs k = Some u \<and> time_Sub now u \<le> 20 * ns_Second} \<and>
    filter (\<lambda>e. lt_State e \<noteq> age_state (time_Sub now (lt_LatestTime e))) (ll_data c) = []"
proof -
  have "lists_recent (fst (hd vs)) Map.empty (ll_data (NewLobbyListener t))"
    by (simp add: lists_recent_def NewLobbyListener_def)
  moreover have "sorted_wrt (\<le>) (fst (hd vs) # map fst vs)"
    using assms(1,2) by (cases vs) auto
  ultimately have "lists_recent (last (fst (hd vs) # map fst vs)) (last_heard vs) (ll_data c)"
    unfolding last_heard_def assms(4) by (rule listener_run_lists)
  moreover have "last (fst (hd vs) # map fst vs) = now" using assms(1,3) by (simp add: last_map)
  ultimately have r: "lists_recent now (last_heard vs) (ll_data c)" by simp
  have in_list: "(k, u) \<in> (\<lambda>e. (entry_key e, lt_LatestTime e)) ` set (ll_data c)"
    if "last_heard vs k = Some u" "time_Sub now u \<le> 20 * ns_Second" for k u
  proof -
    obtain e where e: "e \<in> set (ll_data c)" "k = entry_key e" using r \<open>last_heard vs k = Some u\<close>
        \<open>time_Sub now u \<le> 20 * ns_Second\<close> unfolding lists_recent_def by blast
    then have "lt_LatestTime e = u" using r \<open>last_heard vs k = Some u\<close> by (simp add: lists_recent_def)
    then show ?thesis using e by force
  qed
  have listed: "last_heard vs (entry_key e) = Some (lt_LatestTime e) \<and> time_Sub now (lt_LatestTime e) \<le> 20 * ns_Second \<and>
      lt_State e = age_state (time_Sub now (lt_LatestTime e))" if "e \<in> set (ll_data c)" for e
    using r that by (simp add: lists_recent_def)
  have "(\<lambda>e. (entry_key e, lt_LatestTime e)) ` set (ll_data c) =
      {(k, u). last_heard vs k = Some u \<and> time_Sub now u \<le> 20 * ns_Second}"
    using in_list listed by blast
  moreover have "distinct (map entry_key (ll_data c))" using r by (simp add: lists_recent_def)
  moreover have "filter (\<lambda>e. lt_State e \<noteq> age_state (time_Sub now (lt_LatestTime e))) (ll_data c) = []"
    using listed by (simp add: filter_empty_conv)
  ultimately show ?thesis by blast
qed

definition heard_setup :: "token \<Rightarrow> byte \<Rightarrow> Setup" where
  "heard_setup t n = \<lparr>se_Header = \<lparr>lhs_LobbyToken = t\<rparr>, se_Name = [n], se_Def = [], se_Slots = [], se_State = StateActive\<rparr>"

definition heard_from :: "byte \<Rightarrow> UDPAddr" where
  "heard_from b = \<lparr>udp_IP = [10, 0, 0, b], udp_Port = 9, udp_Zone = []\<rparr>"

definition heard_events :: "(time \<times> listener_event) list" where
  "heard_events = [(1, Hears (heard_setup 7 65) (heard_from 1)),
     (5 * ns_Second, Hears (heard_setup 8 66) (heard_from 2)), (22 * ns_Second, Refreshes)]"

theorem listener_lists_recent_witness:
  "(\<lambda>e. (entry_key e, lt_LatestTime e)) ` set (ll_data (listener_run heard_events (NewLobbyListener 3))) =
     {(([10, 0, 0, 2], 9, [], 8), 5 * ns_Second)}"
proof -
  have h: "heard_events \<noteq> []" "sorted_wrt (\<le>) (map fst heard_events)" "22 * ns_Second = fst (last heard_events)"
    by (simp_all add: heard_events_def ns_Second_def)
  have l: "last_heard heard_events = [([10, 0, 0, 1], 9, [], 7) \<mapsto> 1, ([10, 0, 0, 2], 9, [], 8) \<mapsto> 5 * ns_Second]"
    by (simp add: last_heard_def heard_events_def heard_setup_def heard_from_def key_of_def norm_ip_def)
  have "{(k, u). last_heard heard_events k = Some u \<and> time_Sub (22 * ns_Second) u \<le> 20 * ns_Second} =
      {(([10, 0, 0, 2], 9, [], 8), 5 * ns_Second)}"
    unfolding l by (auto simp: ns_Second_def time_Sub_def split: if_splits)
  then show ?thesis using listener_lists_recent [OF h refl, of 3] by simp
qed

text \<open>
  A caller of \<open>List\<close> that compares versions misses nothing: whatever is heard, a call that leaves the
  version as it was leaves the answer as it was, but for a wrap-around of the version.
\<close>

theorem listener_version_guards:
  assumes "ll_version (snd (listener_update now msg addr c)) = ll_version c" and "0 \<le> ll_version c" and "ll_version c + 1 < int_lim"
  shows "map listener_info (ll_data (snd (listener_update now msg addr c))) = map listener_info (ll_data c)"
proof -
  obtain es f ch where w: "listener_walk now msg addr (ll_data c) (msg = None) False = (es, f, ch)" by (metis prod_cases3)
  have v: "i64 (ll_version c + 1) \<noteq> ll_version c" using assms(2,3) by (simp add: i64_id)
  note W = listener_walk_spec [OF w]
  show ?thesis
  proof (cases "msg = None \<or> f")
    case True
    then have "listener_update now msg addr c =
        (ch, if ch then c\<lparr>ll_data := es, ll_version := i64 (ll_version c + 1)\<rparr> else c\<lparr>ll_data := es\<rparr>)"
      using w by (auto simp: listener_update_def Let_def split: option.splits)
    then show ?thesis using W assms(1) v by (auto split: if_splits)
  next
    case False
    then have "ll_version (snd (listener_update now msg addr c)) = i64 (ll_version c + 1)"
      using w by (auto simp: listener_update_def Let_def)
    then show ?thesis using assms(1) v by simp
  qed
qed

theorem listener_version_guards_witness:
  "map listener_info (ll_data (snd (listener_update 2 (Some (heard_setup 7 65)) (heard_from 1)
     (listener_run (take 1 heard_events) (NewLobbyListener 3))))) =
   map listener_info (ll_data (listener_run (take 1 heard_events) (NewLobbyListener 3)))"
proof -
  let ?c = "listener_run (take 1 heard_events) (NewLobbyListener 3)"
  have "ll_version (snd (listener_update 2 (Some (heard_setup 7 65)) (heard_from 1) ?c)) = ll_version ?c"
    "0 \<le> ll_version ?c" "ll_version ?c + 1 < int_lim" by code_simp+
  from listener_version_guards [OF this] show ?thesis .
qed

text \<open>
  C36. A broadcast can be lost. When a lobby before it in the list changes its state at that moment, the
  walk takes the short cut of \<open>changed || updateLobby(...)\<close>: the lobby that sent the message is marked as
  heard now, but its name, slots and state stay what they were.
\<close>

theorem broadcast_lost:
  assumes "ll_data c = xs @ e # ys" and "IsSameLobby addr (lhs_LobbyToken (se_Header m)) e"
    and "x \<in> set xs" and "\<not> IsSameLobby addr (lhs_LobbyToken (se_Header m)) x"
    and "lt_State x \<noteq> age_state (time_Sub now (lt_LatestTime x))"
  shows "\<exists>e'. e' \<in> set (ll_data (snd (listener_update now (Some m) addr c))) \<and> lt_Number e' = lt_Number e \<and>
    lt_LatestTime e' = now \<and> lt_Lobby e' = lt_Lobby e"
proof -
  obtain xs' f ch where w: "listener_walk now (Some m) addr xs False False = (xs', f, ch)" by (metis prod_cases3)
  have "snd (snd (snd (aged_entry now (Some m) addr x))) \<noteq> lt_State x"
    using assms(4,5) by (simp add: aged_entry_def heard_now_def)
  then have ch using listener_walk_spec [OF w] assms(3) by blast
  let ?e = "e\<lparr>lt_LatestTime := now, lt_State := ListenerFresh\<rparr>"
  obtain ys' f2 ch2 where y: "listener_walk now (Some m) addr ys True True = (ys', f2, ch2)" by (metis prod_cases3)
  have y': "f2" using listener_walk_spec [OF y] by simp
  have "listener_walk now (Some m) addr (e # ys) f ch = (?e # ys', f2, ch2)"
    using assms(2) y \<open>ch\<close> by (cases e) (auto simp: visit_entry_def Let_def)
  then have "listener_walk now (Some m) addr (ll_data c) False False = (xs' @ ?e # ys', f2, ch2)"
    unfolding assms(1) listener_walk_append w by simp
  then have "?e \<in> set (ll_data (snd (listener_update now (Some m) addr c)))"
    using y' by (simp add: listener_update_def Let_def)
  then show ?thesis by (intro exI [of _ ?e]) simp
qed

theorem broadcast_lost_witness:
  "\<exists>e'. e' \<in> set (ll_data (snd (listener_update (9 * ns_Second) (Some (heard_setup 8 90)) (heard_from 2)
       (listener_run (take 2 heard_events) (NewLobbyListener 3))))) \<and>
     lt_LatestTime e' = 9 * ns_Second \<and> lo_Name (lt_Lobby e') = [66]"
proof -
  let ?c = "listener_run (take 2 heard_events) (NewLobbyListener 3)"
  obtain x e where c: "ll_data ?c = [x] @ e # []" "IsSameLobby (heard_from 2) (lhs_LobbyToken (se_Header (heard_setup 8 90))) e"
      "\<not> IsSameLobby (heard_from 2) (lhs_LobbyToken (se_Header (heard_setup 8 90))) x"
      "lt_State x \<noteq> age_state (time_Sub (9 * ns_Second) (lt_LatestTime x))" "lo_Name (lt_Lobby e) = [66]"
  proof
    show "ll_data ?c = [ll_data ?c ! 0] @ (ll_data ?c ! 1) # []" by code_simp
  qed code_simp+
  from broadcast_lost [OF c(1,2) _ c(3,4)] c(5) show ?thesis by auto
qed

end
