(* ===== verification/Sockets.thy ===== *)
theory Sockets
  imports Listeners "HOL-Library.List_Lexorder"
begin

text \<open>
  The sockets of package \<open>udp\<close> that one goroutine owns: \<open>client.go\<close>, \<open>sender.go\<close> and \<open>multicast.go\<close>. What the
  operating system answers is an argument of the operations: the result of every call, and for the loops
  one \<open>read_round\<close> for each call of \<open>ReadFromUDP\<close> that has returned. The operations give the calls that they make
  and their result.
\<close>

section \<open>Errors\<close>

text \<open>An error is its text. \<open>fmt.Errorf\<close> with the verb w appends the text of the wrapped error.\<close>

type_synonym goerr = string

definition Errorf :: "string \<Rightarrow> goerr option \<Rightarrow> goerr" where
  "Errorf text e = text @ '': '' @ (case e of None \<Rightarrow> ''%!w(<nil>)'' | Some t \<Rightarrow> t)"

text \<open>A method of \<open>net.UDPConn\<close> that is called on nil panics (but for \<open>ReadFromUDP\<close>, which is never the first).\<close>

definition nil_conn :: string where
  "nil_conn = ''invalid memory address or nil pointer dereference''"

section \<open>Calls and rounds\<close>

datatype net_call = Opened UDPAddr | Joined bool gostring | Deadline time | Handed "byte list" "UDPAddr option"
  | Left bool gostring | Closed

datatype read_result = Datagram "byte list" UDPAddr | TimedOut | Failed goerr

record read_round =
  rd_read :: read_result
  rd_done :: bool
  rd_now :: time
  rd_deadline :: "goerr option"

datatype outcome = Waits | Returns "goerr option"

definition durBreakDefault :: duration where
  "durBreakDefault = 5 * ns_Second"

definition bufferSize :: nat where
  "bufferSize = 4096"

text \<open>
  The loop of a listener, which differs between the two files in the texts and in what is handed on. When
  the rounds are used up the goroutine waits in \<open>ReadFromUDP\<close>. A datagram that does not fit the buffer is cut.
\<close>

fun read_loop :: "string \<Rightarrow> (UDPAddr \<Rightarrow> UDPAddr option) \<Rightarrow> goerr \<Rightarrow> duration \<Rightarrow> read_round list \<Rightarrow> net_call list \<times> outcome" where
  "read_loop name hand ctx d [] = ([], Waits)"
| "read_loop name hand ctx d (r # rs) =
     (if rd_done r then ([], Returns (Some ctx))
      else case rd_read r of
        TimedOut \<Rightarrow>
          (case rd_deadline r of
             Some e \<Rightarrow> ([Deadline (rd_now r + d)], Returns (Some (Errorf (name @ '': failed to set read deadline'') (Some e))))
           | None \<Rightarrow> let (cs, o') = read_loop name hand ctx d rs in (Deadline (rd_now r + d) # cs, o'))
      | Failed e \<Rightarrow> ([], Returns (Some (Errorf (name @ '': failed to read udp message'') (Some e))))
      | Datagram data addr \<Rightarrow>
          let (cs, o') = read_loop name hand ctx d rs in (Handed (take bufferSize data) (hand addr) # cs, o'))"

text \<open>The first deadline, and the loop.\<close>

definition listen_reads :: "string \<Rightarrow> (UDPAddr \<Rightarrow> UDPAddr option) \<Rightarrow> goerr \<Rightarrow> duration \<Rightarrow> time \<Rightarrow> goerr option \<Rightarrow> read_round list
    \<Rightarrow> net_call list \<times> outcome" where
  "listen_reads name hand ctx d now deadline rs =
     (case deadline of
        Some e \<Rightarrow> ([Deadline (now + d)], Returns (Some (Errorf (name @ '': failed to set read deadline'') (Some e))))
      | None \<Rightarrow> let (cs, o') = read_loop name hand ctx d rs in (Deadline (now + d) # cs, o'))"

section \<open>Client\<close>

record UdpClient =
  uc_serverAddr :: UDPAddr
  uc_localAddr :: "UDPAddr option"
  uc_connection :: "nat option"
  uc_durBreak :: duration

definition NewClientLocalAddr :: "UDPAddr \<Rightarrow> UDPAddr option \<Rightarrow> UdpClient" where
  "NewClientLocalAddr server local =
     \<lparr>uc_serverAddr = server, uc_localAddr = local, uc_connection = None, uc_durBreak = durBreakDefault\<rparr>"

definition NewClient :: "UDPAddr \<Rightarrow> UdpClient" where
  "NewClient server = \<lparr>uc_serverAddr = server, uc_localAddr = None, uc_connection = None, uc_durBreak = durBreakDefault\<rparr>"

definition SetBreakPeriod :: "duration \<Rightarrow> UdpClient \<Rightarrow> UdpClient" where
  "SetBreakPeriod d c = (if d \<le> 0 then c\<lparr>uc_durBreak := durBreakDefault\<rparr> else c\<lparr>uc_durBreak := d\<rparr>)"

text \<open>\<open>dial\<close> is the result of \<open>net.DialUDP\<close>.\<close>

definition Client_Connect :: "goerr + nat \<Rightarrow> UdpClient \<Rightarrow> goerr option \<times> UdpClient" where
  "Client_Connect dial c =
     (case dial of
        Inl e \<Rightarrow> (Some (Errorf ''udp client: failed to dial'' (Some e)), c)
      | Inr conn \<Rightarrow> (None, c\<lparr>uc_connection := Some conn\<rparr>))"

text \<open>The deferred function closes the connection; it wraps \<open>err\<close> and not the error of \<open>Close\<close>.\<close>

definition Client_close :: "goerr option \<Rightarrow> net_call list \<times> outcome \<Rightarrow> net_call list \<times> outcome" where
  "Client_close errClose res =
     (case res of
        (cs, Waits) \<Rightarrow> (cs, Waits)
      | (cs, Returns err) \<Rightarrow>
          (cs @ [Closed],
           Returns (if errClose \<noteq> None \<and> err = None
             then Some (Errorf ''udp client: failed to close udp listener'' err) else err)))"

definition Client_Listen :: "goerr \<Rightarrow> time \<Rightarrow> goerr option \<Rightarrow> read_round list \<Rightarrow> goerr option \<Rightarrow> UdpClient
    \<Rightarrow> (net_call list \<times> outcome) go" where
  "Client_Listen ctx now deadline rs errClose c =
     (if uc_connection c = None then Inl nil_conn
      else Inr (Client_close errClose (listen_reads ''udp client'' (\<lambda>_. None) ctx (uc_durBreak c) now deadline rs)))"

definition Client_Send :: "goerr option \<Rightarrow> UdpClient \<Rightarrow> goerr option go" where
  "Client_Send write c =
     (if uc_connection c = None then Inl nil_conn
      else Inr (map_option (\<lambda>e. Errorf ''udp client: failed to send message'' (Some e)) write))"

section \<open>Sender\<close>

record UdpSender =
  un_connection :: "nat option"

definition NewSender :: "goerr + nat \<Rightarrow> goerr + UdpSender" where
  "NewSender dial =
     (case dial of
        Inl e \<Rightarrow> Inl (Errorf ''udp sender: failed to dial'' (Some e))
      | Inr conn \<Rightarrow> Inr \<lparr>un_connection = Some conn\<rparr>)"

definition Sender_Send :: "goerr option \<Rightarrow> UdpSender \<Rightarrow> goerr option go" where
  "Sender_Send write s =
     (if un_connection s = None then Inl nil_conn
      else Inr (map_option (\<lambda>e. Errorf ''udp sender: failed to send message'' (Some e)) write))"

definition Sender_Close :: "goerr option \<Rightarrow> UdpSender \<Rightarrow> (goerr option \<times> UdpSender) go" where
  "Sender_Close close s =
     (if un_connection s = None then Inl nil_conn
      else Inr (case close of
        Some e \<Rightarrow> (Some (Errorf ''udp sender: failed to close connection'' (Some e)), s)
      | None \<Rightarrow> (None, s\<lparr>un_connection := None\<rparr>)))"

section \<open>The network interface\<close>

unbundle bit_operations_syntax

text \<open>\<open>net.Interface\<close>, with what its methods \<open>Addrs\<close> and \<open>MulticastAddrs\<close> return: an error or the number of addresses.\<close>

record Interface =
  if_Name :: gostring
  if_Flags :: "64 word"
  if_Addrs :: "goerr + nat"
  if_MulticastAddrs :: "goerr + nat"

definition FlagUp :: "64 word" where "FlagUp = 1"
definition FlagLoopback :: "64 word" where "FlagLoopback = 4"
definition FlagPointToPoint :: "64 word" where "FlagPointToPoint = 8"
definition FlagMulticast :: "64 word" where "FlagMulticast = 16"
definition FlagRunning :: "64 word" where "FlagRunning = 32"

definition has_addrs :: "goerr + nat \<Rightarrow> bool" where
  "has_addrs r = (case r of Inl e \<Rightarrow> False | Inr n \<Rightarrow> n \<noteq> 0)"

definition usable :: "Interface \<Rightarrow> bool" where
  "usable i \<longleftrightarrow> has_addrs (if_Addrs i) \<and> has_addrs (if_MulticastAddrs i) \<and>
     \<not> (if_Flags i AND FlagUp = 0 \<or> if_Flags i AND FlagRunning = 0 \<or> if_Flags i AND FlagLoopback > 0 \<or>
        if_Flags i AND FlagMulticast = 0 \<or> if_Flags i AND FlagPointToPoint > 0)"

definition HasPrefix :: "gostring \<Rightarrow> gostring \<Rightarrow> bool" where
  "HasPrefix s p \<longleftrightarrow> take (length p) s = p"

text \<open>\<open>sort.Slice\<close> by name; the names of interfaces differ. Go compares strings byte by byte, as the order of lists does.\<close>

definition selectByName :: "Interface list \<Rightarrow> gostring \<Rightarrow> Interface list" where
  "selectByName ifaces p = sort_key if_Name (filter (\<lambda>i. HasPrefix (if_Name i) p) ifaces)"

definition str_en :: gostring where "str_en = [0x65, 0x6E]"
definition str_eth :: gostring where "str_eth = [0x65, 0x74, 0x68]"

definition getDefaultInterface :: "goerr + Interface list \<Rightarrow> goerr + Interface" where
  "getDefaultInterface interfaces =
     (case interfaces of
        Inl e \<Rightarrow> Inl (Errorf ''failed to get network interfaces'' (Some e))
      | Inr is \<Rightarrow>
          let ifaces = filter usable is in
          if ifaces = [] then Inl ''no available network interfaces''
          else case selectByName ifaces str_en of
            i # _ \<Rightarrow> Inr i
          | [] \<Rightarrow>
              (case selectByName ifaces str_eth of
                 i # _ \<Rightarrow> Inr i
               | [] \<Rightarrow> Inr (hd ifaces)))"

section \<open>Multicast listener\<close>

text \<open>Of the standard library: \<open>IP.To4\<close> and \<open>IP.IsMulticast\<close>.\<close>

definition IP_To4 :: "byte list \<Rightarrow> byte list option" where
  "IP_To4 ip =
     (if length ip = 4 then Some ip
      else if length ip = 16 \<and> take 12 ip = v4InV6Prefix then Some (drop 12 ip) else None)"

definition IP_IsMulticast :: "byte list \<Rightarrow> bool" where
  "IP_IsMulticast ip =
     (case IP_To4 ip of
        Some ip4 \<Rightarrow> ip4 ! 0 AND 0xF0 = 0xE0
      | None \<Rightarrow> length ip = 16 \<and> ip ! 0 = 0xFF)"

text \<open>What the system answers to the calls of one listener.\<close>

record system =
  os_interfaces :: "goerr + Interface list"
  os_listen :: "goerr option"
  os_join :: "goerr option"
  os_leave :: "goerr option"
  os_close :: "goerr option"
  os_now :: time
  os_deadline :: "goerr option"

definition defer_close :: "goerr option \<Rightarrow> net_call list \<times> outcome \<Rightarrow> net_call list \<times> outcome" where
  "defer_close errClose res =
     (case res of
        (cs, Waits) \<Rightarrow> (cs, Waits)
      | (cs, Returns err) \<Rightarrow>
          (cs @ [Closed],
           Returns (if errClose \<noteq> None \<and> err = None
             then Some (Errorf ''udp multicast: failed to close udp listener'' err) else err)))"

definition defer_leave :: "bool \<Rightarrow> gostring \<Rightarrow> goerr option \<Rightarrow> net_call list \<times> outcome \<Rightarrow> net_call list \<times> outcome" where
  "defer_leave v4 iface errLeave res =
     (case res of
        (cs, Waits) \<Rightarrow> (cs, Waits)
      | (cs, Returns err) \<Rightarrow>
          (cs @ [Left v4 iface],
           Returns (if errLeave \<noteq> None \<and> err = None
             then Some (Errorf ''udp multicast: failed to leave group'' errLeave) else err)))"

definition after_call :: "net_call \<Rightarrow> net_call list \<times> outcome \<Rightarrow> net_call list \<times> outcome" where
  "after_call c res = (c # fst res, snd res)"

text \<open>A \<open>defer\<close> is a function around everything that follows it. A call that fails is not in the list of calls.\<close>

definition ListenMulticast :: "UDPAddr \<Rightarrow> goerr \<Rightarrow> system \<Rightarrow> read_round list \<Rightarrow> net_call list \<times> outcome" where
  "ListenMulticast groupAddr ctx os rs =
     (if udp_IP groupAddr = [] \<or> \<not> IP_IsMulticast (udp_IP groupAddr)
      then ([], Returns (Some ''udp multicast: group address is not multicast''))
      else case getDefaultInterface (os_interfaces os) of
        Inl e \<Rightarrow> ([], Returns (Some (Errorf ''udp multicast: failed to get network interface'' (Some e))))
      | Inr iface \<Rightarrow>
          let addrListen = \<lparr>udp_IP = udp_IP groupAddr, udp_Port = udp_Port groupAddr, udp_Zone = if_Name iface\<rparr> in
          case os_listen os of
            Some e \<Rightarrow> ([], Returns (Some (Errorf ''udp multicast: failed to listen'' (Some e))))
          | None \<Rightarrow>
              after_call (Opened addrListen) (defer_close (os_close os)
                (let v4 = (IP_To4 (udp_IP groupAddr) \<noteq> None) in
                 case os_join os of
                   Some e \<Rightarrow> ([], Returns (Some (Errorf ''udp multicast: failed to join group'' (Some e))))
                 | None \<Rightarrow>
                     after_call (Joined v4 (if_Name iface)) (defer_leave v4 (if_Name iface) (os_leave os)
                       (listen_reads ''udp multicast'' Some ctx durBreakDefault (os_now os) (os_deadline os) rs)))))"

section \<open>What a listener does\<close>

text \<open>A round that ends the loop, and the datagrams that have come before.\<close>

definition stops :: "read_round \<Rightarrow> bool" where
  "stops r \<longleftrightarrow> rd_done r \<or> (case rd_read r of Failed e \<Rightarrow> True | TimedOut \<Rightarrow> rd_deadline r \<noteq> None | Datagram data addr \<Rightarrow> False)"

fun datagram_of :: "(UDPAddr \<Rightarrow> UDPAddr option) \<Rightarrow> read_result \<Rightarrow> (byte list \<times> UDPAddr option) list" where
  "datagram_of hand (Datagram data addr) = [(take bufferSize data, hand addr)]"
| "datagram_of hand _ = []"

definition arrived :: "(UDPAddr \<Rightarrow> UDPAddr option) \<Rightarrow> read_round list \<Rightarrow> (byte list \<times> UDPAddr option) list" where
  "arrived hand rs = concat (map (datagram_of hand \<circ> rd_read) (takeWhile (\<lambda>r. \<not> stops r) rs))"

lemma arrived_Cons: "arrived hand (r # rs) = (if stops r then [] else datagram_of hand (rd_read r) @ arrived hand rs)"
  by (simp add: arrived_def)

fun handed_by :: "net_call \<Rightarrow> (byte list \<times> UDPAddr option) list" where
  "handed_by (Handed data addr) = [(data, addr)]"
| "handed_by _ = []"

definition handed :: "net_call list \<Rightarrow> (byte list \<times> UDPAddr option) list" where
  "handed cs = concat (map handed_by cs)"

lemma handed_simps [simp]: "handed [] = []" "handed (c # cs) = handed_by c @ handed cs" "handed (cs @ ds) = handed cs @ handed ds"
  by (simp_all add: handed_def)

text \<open>The calls of the loop.\<close>

fun loop_call :: "net_call \<Rightarrow> bool" where
  "loop_call (Deadline t) = True"
| "loop_call (Handed data addr) = True"
| "loop_call _ = False"

lemma read_loop_spec:
  assumes "read_loop name hand ctx d rs = (cs, r)"
  shows "handed cs = arrived hand rs \<and> (r = Waits \<longleftrightarrow> \<not> list_ex stops rs) \<and> r \<noteq> Returns None \<and> list_all loop_call cs"
  using assms
proof (induction rs arbitrary: cs)
  case (Cons x xs)
  show ?case using Cons
    by (cases "read_loop name hand ctx d xs")
      (auto simp: arrived_Cons stops_def [of x] split: if_splits read_result.splits option.splits)
qed (simp add: arrived_def)

lemma listen_reads_spec:
  assumes "listen_reads name hand ctx d now dl rs = (cs, r)"
  shows "handed cs = (if dl = None then arrived hand rs else []) \<and> (r = Waits \<longleftrightarrow> dl = None \<and> \<not> list_ex stops rs) \<and>
    r \<noteq> Returns None \<and> list_all loop_call cs"
proof (cases dl)
  case None
  obtain cs' where "read_loop name hand ctx d rs = (cs', r)" "cs = Deadline (now + d) # cs'"
    using assms by (auto simp: listen_reads_def None split: prod.splits)
  then show ?thesis using read_loop_spec by (simp add: None)
qed (use assms in \<open>auto simp: listen_reads_def\<close>)

lemma listen_reads_cases:
  obtains cs where "listen_reads name hand ctx d now dl rs = (cs, Waits)" "dl = None" "\<not> list_ex stops rs"
      "handed cs = arrived hand rs" "list_all loop_call cs"
    | cs e where "listen_reads name hand ctx d now dl rs = (cs, Returns (Some e))" "dl \<noteq> None \<or> list_ex stops rs"
      "handed cs = (if dl = None then arrived hand rs else [])" "list_all loop_call cs"
proof -
  obtain cs r where l: "listen_reads name hand ctx d now dl rs = (cs, r)" by fastforce
  show ?thesis
  proof (cases r)
    case Waits
    then show ?thesis using that(1) l listen_reads_spec [OF l] by simp
  next
    case (Returns e)
    then show ?thesis using that(2) l listen_reads_spec [OF l] by (cases e) auto
  qed
qed

section \<open>Properties\<close>

text \<open>
  After a successful \<open>Connect\<close> the client's \<open>Listen\<close> never panics. Whatever the socket does, it hands on
  exactly the datagrams that are read before the context has ended or a call has failed, in order and cut
  to 4096 bytes; it returns just when one of them happens, always with an error, and then the last thing
  it has done, and only once, is to close the connection. So the error of \<open>Close\<close> is never the one that is returned.
\<close>

theorem client_listens:
  "\<exists>cs calls r. Client_Listen ctx now dl rs errClose (snd (Client_Connect (Inr conn) c)) = Inr (calls, r) \<and>
     list_all loop_call cs \<and> calls = cs @ (if r = Waits then [] else [Closed]) \<and>
     handed cs = (if dl = None then arrived (\<lambda>_. None) rs else []) \<and>
     (r = Waits \<longleftrightarrow> dl = None \<and> \<not> list_ex stops rs) \<and> r \<noteq> Returns None \<and>
     Client_Listen ctx now dl rs None (snd (Client_Connect (Inr conn) c)) = Inr (calls, r)"
proof -
  let ?c = "snd (Client_Connect (Inr conn) c)"
  have c: "uc_connection ?c \<noteq> None" by (simp add: Client_Connect_def)
  show ?thesis
  proof (rule listen_reads_cases [of "''udp client''" "\<lambda>_. None" ctx "uc_durBreak ?c" now dl rs])
    fix cs
    assume "listen_reads ''udp client'' (\<lambda>_. None) ctx (uc_durBreak ?c) now dl rs = (cs, Waits)" "dl = None"
      "\<not> list_ex stops rs" "handed cs = arrived (\<lambda>_. None) rs" "list_all loop_call cs"
    then show ?thesis using c by (simp add: Client_Listen_def Client_close_def)
  next
    fix cs e
    assume "listen_reads ''udp client'' (\<lambda>_. None) ctx (uc_durBreak ?c) now dl rs = (cs, Returns (Some e))"
      "dl \<noteq> None \<or> list_ex stops rs" "handed cs = (if dl = None then arrived (\<lambda>_. None) rs else [])" "list_all loop_call cs"
    then show ?thesis using c
      by (intro exI [of _ cs] exI [of _ "cs @ [Closed]"] exI [of _ "Returns (Some e)"])
        (auto simp: Client_Listen_def Client_close_def)
  qed
qed

text \<open>The calls of a multicast listener: everything that was opened or joined is given back, in the reverse order.\<close>

definition tidy :: "UDPAddr \<Rightarrow> bool \<Rightarrow> gostring \<Rightarrow> outcome \<Rightarrow> net_call list \<Rightarrow> bool" where
  "tidy addr v4 iface r calls \<longleftrightarrow>
     calls = [Opened addr, Closed] \<and> r \<noteq> Waits \<or>
     (\<exists>cs. list_all loop_call cs \<and>
       calls = Opened addr # Joined v4 iface # cs @ (if r = Waits then [] else [Left v4 iface, Closed]))"

text \<open>
  C40. The multicast listener keeps nothing: it opens the port of the group on the default interface or
  nothing at all, and when it returns, which is always with an error, it has left the group that it joined
  and then closed the connection. While it has joined it hands on exactly the datagrams that are read
  before the context has ended or a call has failed.
\<close>

theorem multicast_tidies_up:
  "case ListenMulticast grp ctx os rs of (calls, r) \<Rightarrow>
     r \<noteq> Returns None \<and>
     (calls = [] \<and> r \<noteq> Waits \<or>
      (\<exists>iface. getDefaultInterface (os_interfaces os) = Inr iface \<and> IP_IsMulticast (udp_IP grp) \<and>
         tidy (grp\<lparr>udp_Zone := if_Name iface\<rparr>) (IP_To4 (udp_IP grp) \<noteq> None) (if_Name iface) r calls)) \<and>
     handed calls = (if (\<exists>v4 iface. Joined v4 iface \<in> set calls) \<and> os_deadline os = None then arrived Some rs else [])"
proof (cases "IP_IsMulticast (udp_IP grp) \<and> udp_IP grp \<noteq> [] \<and> os_listen os = None \<and> (\<exists>i. getDefaultInterface (os_interfaces os) = Inr i)")
  case True
  then obtain i where i: "IP_IsMulticast (udp_IP grp)" "udp_IP grp \<noteq> []" "os_listen os = None"
    "getDefaultInterface (os_interfaces os) = Inr i" by blast
  let ?a = "grp\<lparr>udp_Zone := if_Name i\<rparr>" and ?v = "IP_To4 (udp_IP grp) \<noteq> None"
  have a: "\<lparr>udp_IP = udp_IP grp, udp_Port = udp_Port grp, udp_Zone = if_Name i\<rparr> = ?a" by simp
  show ?thesis
  proof (cases "os_join os")
    case (Some e)
    then show ?thesis using i by (simp add: ListenMulticast_def after_call_def defer_close_def tidy_def a Let_def)
  next
    case None
    show ?thesis
    proof (rule listen_reads_cases [of "''udp multicast''" Some ctx durBreakDefault "os_now os" "os_deadline os" rs])
      fix cs
      assume *: "listen_reads ''udp multicast'' Some ctx durBreakDefault (os_now os) (os_deadline os) rs = (cs, Waits)"
        "os_deadline os = None" "\<not> list_ex stops rs" "handed cs = arrived Some rs" "list_all loop_call cs"
      have "ListenMulticast grp ctx os rs = (Opened ?a # Joined ?v (if_Name i) # cs, Waits)"
        using i None *(1) by (simp add: ListenMulticast_def after_call_def defer_close_def defer_leave_def a Let_def)
      then show ?thesis using i * by (auto simp: tidy_def)
    next
      fix cs e
      assume *: "listen_reads ''udp multicast'' Some ctx durBreakDefault (os_now os) (os_deadline os) rs = (cs, Returns (Some e))"
        "os_deadline os \<noteq> None \<or> list_ex stops rs" "handed cs = (if os_deadline os = None then arrived Some rs else [])"
        "list_all loop_call cs"
      have "ListenMulticast grp ctx os rs = (Opened ?a # Joined ?v (if_Name i) # cs @ [Left ?v (if_Name i), Closed], Returns (Some e))"
        using i None *(1) by (simp add: ListenMulticast_def after_call_def defer_close_def defer_leave_def a Let_def)
      then show ?thesis using i * by (auto simp: tidy_def)
    qed
  qed
qed (auto simp: ListenMulticast_def split: sum.splits option.splits)

lemma hd_sort_key:
  assumes "xs \<noteq> []"
  shows "hd (sort_key f xs) \<in> set xs" and "\<forall>y \<in> set xs. f (hd (sort_key f xs)) \<le> f y"
proof -
  obtain z zs where z: "sort_key f xs = z # zs" using assms by (metis length_sort length_0_conv neq_Nil_conv)
  have s: "set xs = set (z # zs)" "sorted (map f (z # zs))" using set_sort [of f xs] sorted_sort_key [of f xs] by (simp_all add: z)
  then show "hd (sort_key f xs) \<in> set xs" "\<forall>y \<in> set xs. f (hd (sort_key f xs)) \<le> f y" by (auto simp: z)
qed

text \<open>The first interface, by name, among those with a prefix.\<close>

definition first_named :: "Interface list \<Rightarrow> gostring \<Rightarrow> Interface \<Rightarrow> bool" where
  "first_named is p i \<longleftrightarrow> i \<in> set is \<and> HasPrefix (if_Name i) p \<and> (\<forall>j \<in> set is. HasPrefix (if_Name j) p \<longrightarrow> if_Name i \<le> if_Name j)"

lemma selectByName_first:
  assumes "distinct (map if_Name is)"
  shows "(\<exists>js. selectByName is p = i # js) \<longleftrightarrow> first_named is p i"
    and "selectByName is p = [] \<longleftrightarrow> \<not> (\<exists>i \<in> set is. HasPrefix (if_Name i) p)"
proof -
  let ?xs = "filter (\<lambda>i. HasPrefix (if_Name i) p) is"
  have e: "sort_key if_Name ?xs = [] \<longleftrightarrow> ?xs = []" by (simp only: set_empty [symmetric] set_sort)
  then show "selectByName is p = [] \<longleftrightarrow> \<not> (\<exists>i \<in> set is. HasPrefix (if_Name i) p)" by (auto simp: selectByName_def filter_empty_conv)
  have "(\<exists>js. sort_key if_Name ?xs = i # js) \<longleftrightarrow> ?xs \<noteq> [] \<and> i = hd (sort_key if_Name ?xs)"
    by (cases "sort_key if_Name ?xs") (use e in auto)
  also have "\<dots> \<longleftrightarrow> i \<in> set ?xs \<and> (\<forall>j \<in> set ?xs. if_Name i \<le> if_Name j)"
  proof
    assume "?xs \<noteq> [] \<and> i = hd (sort_key if_Name ?xs)"
    then show "i \<in> set ?xs \<and> (\<forall>j \<in> set ?xs. if_Name i \<le> if_Name j)" using hd_sort_key [of ?xs if_Name] by blast
  next
    assume i: "i \<in> set ?xs \<and> (\<forall>j \<in> set ?xs. if_Name i \<le> if_Name j)"
    then have ne: "?xs \<noteq> []" by (metis list.set(1) empty_iff)
    let ?h = "hd (sort_key if_Name ?xs)"
    have "?h \<in> set is" "i \<in> set is" "if_Name ?h = if_Name i" using hd_sort_key [OF ne, of if_Name] i by (auto intro: antisym)
    then have "i = ?h" using assms by (auto simp: distinct_map inj_on_def)
    then show "?xs \<noteq> [] \<and> i = ?h" using ne by blast
  qed
  finally show "(\<exists>js. selectByName is p = i # js) \<longleftrightarrow> first_named is p i" by (auto simp: selectByName_def first_named_def)
qed

text \<open>
  The default interface of the multicast listener is the one it should be. On a system whose interfaces
  have different names it is a usable one: the first by name of those called en..., else the first by name of
  those called eth..., else the first of all; there is none only if no interface is usable.
\<close>

theorem default_interface_chosen:
  assumes "distinct (map if_Name is)"
  shows "getDefaultInterface (Inr is) = Inr i \<longleftrightarrow>
    (let us = filter usable is; named = (\<lambda>p. \<exists>j \<in> set us. HasPrefix (if_Name j) p) in
     if named str_en then first_named us str_en i
     else if named str_eth then first_named us str_eth i
     else us \<noteq> [] \<and> i = hd us)"
proof -
  let ?us = "filter usable is"
  have d: "distinct (map if_Name ?us)" using assms by (rule distinct_map_filter)
  note s = selectByName_first [OF d]
  consider (none) "?us = []" | (en) js j where "?us \<noteq> []" "selectByName ?us str_en = j # js"
    | (eth) js j where "?us \<noteq> []" "selectByName ?us str_en = []" "selectByName ?us str_eth = j # js"
    | (other) "?us \<noteq> []" "selectByName ?us str_en = []" "selectByName ?us str_eth = []" by (metis list.exhaust)
  then show ?thesis
  proof cases
    case en
    then have "\<exists>j \<in> set ?us. HasPrefix (if_Name j) str_en" using s(2) [of str_en] by auto
    moreover have "j = i \<longleftrightarrow> first_named ?us str_en i" using s(1) [of str_en i] en(2) by simp
    ultimately show ?thesis using en by (simp add: getDefaultInterface_def Let_def)
  next
    case eth
    then have "\<exists>j \<in> set ?us. HasPrefix (if_Name j) str_eth" "\<not> (\<exists>j \<in> set ?us. HasPrefix (if_Name j) str_en)"
      using s(2) [of str_en] s(2) [of str_eth] by auto
    moreover have "j = i \<longleftrightarrow> first_named ?us str_eth i" using s(1) [of str_eth i] eth(3) by simp
    ultimately show ?thesis using eth by (simp add: getDefaultInterface_def Let_def)
  next
    case other
    then have "\<not> (\<exists>j \<in> set ?us. HasPrefix (if_Name j) str_eth)" "\<not> (\<exists>j \<in> set ?us. HasPrefix (if_Name j) str_en)"
      using s(2) [of str_en] s(2) [of str_eth] by auto
    then show ?thesis using other by (auto simp: getDefaultInterface_def Let_def)
  qed (simp add: getDefaultInterface_def)
qed

text \<open>A loopback interface and two wired ones, of which the second comes first by name.\<close>

definition some_interfaces :: "Interface list" where
  "some_interfaces =
     [\<lparr>if_Name = [0x6C, 0x6F], if_Flags = 0x25, if_Addrs = Inr 2, if_MulticastAddrs = Inr 1\<rparr>,
      \<lparr>if_Name = [0x65, 0x6E, 0x32], if_Flags = 0x33, if_Addrs = Inr 1, if_MulticastAddrs = Inr 1\<rparr>,
      \<lparr>if_Name = [0x65, 0x6E, 0x31], if_Flags = 0x33, if_Addrs = Inr 1, if_MulticastAddrs = Inr 1\<rparr>]"

lemma some_interfaces_facts:
  "distinct (map if_Name some_interfaces)" "filter usable some_interfaces = tl some_interfaces"
  "HasPrefix (if_Name (some_interfaces ! 1)) str_en" "HasPrefix (if_Name (some_interfaces ! 2)) str_en"
  "if_Name (some_interfaces ! 2) \<le> if_Name (some_interfaces ! 1)"
  by code_simp+

theorem default_interface_chosen_witness:
  "getDefaultInterface (Inr some_interfaces) = Inr (some_interfaces ! 2)"
proof -
  have t: "tl some_interfaces = [some_interfaces ! 1, some_interfaces ! 2]" by (simp add: some_interfaces_def)
  show ?thesis using default_interface_chosen [OF some_interfaces_facts(1), of "some_interfaces ! 2"] some_interfaces_facts(3-5)
    by (simp add: some_interfaces_facts(2) t first_named_def)
qed

end
