(* ===== verification/UdpServices.thy ===== *)
theory UdpServices
  imports Prelude
begin

text \<open>
  \<open>udp/service.go\<close> and the loop of \<open>udp/server.go\<close>: a UDP port that is opened when a handler comes and
  closed when none has been there for a while. The goroutines are machines with a phase each, between
  the points where they touch shared state, block or return: \<open>acceptHandlerLoop\<close>, \<open>runServerLoop\<close> with
  the server's loop inside, and for every server the goroutine that closes its connection. A step of
  one of them, a call from outside or an event of the network is a step of the whole. Handlers and
  packets are numbers; a handler's number also stands for its context.
\<close>

section \<open>State\<close>

datatype ServerState = Started | Stopped | Failed

datatype accept_phase =
    ALoop | AIdle | ATaken nat | ASet nat | ASignal nat | AWait nat | AClear nat | ARearm
  | ATimer | AStop bool | ADone

datatype listen_phase = LTop | LCheck | LRead | LGot nat | LCall nat nat

datatype listen_result = LNil | LCanceled | LError

datatype run_phase = RLoop | RIdle | RStart | RFields | RBind | RListen listen_phase | RReturned listen_result | RDone

datatype timer_state = TOff | TArmed | TFired

text \<open>The goroutine that closes a connection; \<open>CNone\<close>: there is no connection yet.\<close>

datatype closer = CNone | CWaiting | CUnset | CDeadline | CClosed

text \<open>A server with its context and its connection.\<close>

record udp_server =
  ud_cancelled :: bool
  ud_closer :: closer

record Service =
  us_main :: bool
  us_ctx :: "nat list"
  us_logger :: bool
  us_accept :: accept_phase
  us_run :: run_phase
  us_timer :: timer_state
  us_handler :: "nat option"
  us_servers :: "udp_server list"
  us_udpServer :: bool
  us_udpServerStop :: bool
  us_states :: "ServerState list"
  us_calls :: "(nat \<times> nat) list"
  us_panicked :: bool

text \<open>
  \<open>us_main\<close> is whether the main context is done, \<open>us_ctx\<close> the handlers whose contexts are, \<open>us_states\<close>
  the calls of the state callback and \<open>us_calls\<close> the packets that handlers were called with. The
  server that the two fields of the service point to is the last of \<open>us_servers\<close>.
\<close>

definition NewService :: "bool \<Rightarrow> Service" where
  "NewService logger = \<lparr>us_main = False, us_ctx = [], us_logger = logger, us_accept = ALoop, us_run = RLoop,
     us_timer = TOff, us_handler = None, us_servers = [], us_udpServer = False, us_udpServerStop = False,
     us_states = [], us_calls = [], us_panicked = False\<rparr>"

section \<open>Accepting handlers\<close>

definition ErrNotRunning :: string where
  "ErrNotRunning = ''server not running''"

definition ErrBusy :: string where
  "ErrBusy = ''server is busy''"

text \<open>When several cases of a \<open>select\<close> are ready, \<open>pick\<close> says whether the main context's is taken.\<close>

definition Service_Handle :: "bool \<Rightarrow> nat \<Rightarrow> Service \<Rightarrow> string option \<times> Service" where
  "Service_Handle pick h s =
     (if us_main s \<and> (pick \<or> us_accept s \<noteq> AIdle) then (None, s)
      else if us_accept s = AIdle then (None, s\<lparr>us_accept := ATaken h\<rparr>)
      else (Some ErrBusy, s))"

definition cancel_server :: "Service \<Rightarrow> Service" where
  "cancel_server s =
     (let k = length (us_servers s) - 1
      in s\<lparr>us_servers := (us_servers s)[k := (us_servers s ! k)\<lparr>ud_cancelled := True\<rparr>]\<rparr>)"

text \<open>The outer \<open>select\<close>: \<open>None\<close> when no case is ready.\<close>

definition accept_select :: "bool \<Rightarrow> Service \<Rightarrow> Service option" where
  "accept_select pick s =
     (if us_main s \<and> (pick \<or> us_timer s \<noteq> TFired) then Some (s\<lparr>us_accept := ADone, us_timer := TOff\<rparr>)
      else if us_timer s = TFired then Some (s\<lparr>us_accept := ATimer, us_timer := TOff\<rparr>)
      else None)"

definition accept_step :: "bool \<Rightarrow> Service \<Rightarrow> Service option" where
  "accept_step pick s =
     (case us_accept s of
        ALoop \<Rightarrow>
          (case accept_select pick s of None \<Rightarrow> Some (s\<lparr>us_accept := AIdle\<rparr>) | Some s' \<Rightarrow> Some s')
      | AIdle \<Rightarrow> accept_select pick s
      | ATaken h \<Rightarrow> Some (s\<lparr>us_timer := TOff, us_accept := ASet h\<rparr>)
      | ASet h \<Rightarrow> Some (s\<lparr>us_handler := Some h, us_accept := ASignal h\<rparr>)
      | ASignal h \<Rightarrow>
          if us_run s = RIdle \<and> \<not> (us_main s \<and> pick) then Some (s\<lparr>us_run := RStart, us_accept := AWait h\<rparr>)
          else Some (s\<lparr>us_accept := AWait h\<rparr>)
      | AWait h \<Rightarrow>
          if us_main s \<and> (pick \<or> h \<notin> set (us_ctx s)) then Some (s\<lparr>us_accept := ADone\<rparr>)
          else if h \<in> set (us_ctx s) then Some (s\<lparr>us_accept := AClear h\<rparr>)
          else None
      | AClear h \<Rightarrow> Some (s\<lparr>us_handler := None, us_accept := ARearm\<rparr>)
      | ARearm \<Rightarrow> Some (s\<lparr>us_timer := TArmed, us_accept := ALoop\<rparr>)
      | ATimer \<Rightarrow> Some (s\<lparr>us_accept := AStop (us_udpServerStop s)\<rparr>)
      | AStop serverStop \<Rightarrow>
          if \<not> serverStop then Some (s\<lparr>us_accept := ALoop\<rparr>)
          else if us_udpServerStop s then Some ((cancel_server s)\<lparr>us_accept := ALoop\<rparr>)
          else Some (s\<lparr>us_panicked := True\<rparr>)
      | ADone \<Rightarrow> None)"

section \<open>The server\<close>

text \<open>What the network does: a port that can be bound, a packet, a deadline that passes, a failure.\<close>

datatype net_event = NetOk | NetPacket nat | NetTimeout | NetFailure

definition server_cancelled :: "Service \<Rightarrow> bool" where
  "server_cancelled s \<longleftrightarrow> us_main s \<or> ud_cancelled (last (us_servers s))"

text \<open>
  One step of the loop of \<open>ListenAddr\<close>, from one call to the next. Setting the deadline of a closed
  connection is an error, and so is reading from one; a deadline that the closing goroutine has set
  to now ends a read that is waiting.
\<close>

definition listen_step :: "net_event \<Rightarrow> listen_phase \<Rightarrow> Service \<Rightarrow> Service option" where
  "listen_step net ph s =
     (let closed = (ud_closer (last (us_servers s)) = CClosed);
          goto = (\<lambda>ph. Some (s\<lparr>us_run := RListen ph\<rparr>));
          return = (\<lambda>r. Some (s\<lparr>us_run := RReturned r\<rparr>))
      in case ph of
           LTop \<Rightarrow> if closed then return LError else goto LCheck
         | LCheck \<Rightarrow> if server_cancelled s then return LCanceled else goto LRead
         | LRead \<Rightarrow>
             if closed then return LNil
             else (case net of
                 NetOk \<Rightarrow> None
               | NetPacket p \<Rightarrow> goto (LGot p)
               | NetTimeout \<Rightarrow> goto LTop
               | NetFailure \<Rightarrow> return LError)
         | LGot p \<Rightarrow> (case us_handler s of None \<Rightarrow> goto LTop | Some h \<Rightarrow> goto (LCall h p))
         | LCall h p \<Rightarrow> Some (s\<lparr>us_calls := us_calls s @ [(h, p)], us_run := RListen LTop\<rparr>))"

definition is_open :: "udp_server \<Rightarrow> bool" where
  "is_open k \<longleftrightarrow> ud_closer k \<noteq> CNone \<and> ud_closer k \<noteq> CClosed"

text \<open>The port can be bound when no connection of an earlier server is open.\<close>

definition bind_port :: "net_event \<Rightarrow> Service \<Rightarrow> Service" where
  "bind_port net s =
     (if net = NetOk \<and> (\<forall>k \<in> set (us_servers s). \<not> is_open k)
      then let i = length (us_servers s) - 1
           in s\<lparr>us_servers := (us_servers s)[i := (us_servers s ! i)\<lparr>ud_closer := CWaiting\<rparr>], us_run := RListen LTop\<rparr>
      else s\<lparr>us_run := RReturned LError\<rparr>)"

definition run_step :: "net_event \<Rightarrow> Service \<Rightarrow> Service option" where
  "run_step net s =
     (case us_run s of
        RLoop \<Rightarrow> Some (s\<lparr>us_run := if us_main s then RDone else RIdle\<rparr>)
      | RIdle \<Rightarrow> if us_main s then Some (s\<lparr>us_run := RDone\<rparr>) else None
      | RStart \<Rightarrow>
          let s = s\<lparr>us_states := us_states s @ [Started]\<rparr>
          in Some (if us_logger s then s\<lparr>us_run := RFields\<rparr> else s\<lparr>us_panicked := True\<rparr>)
      | RFields \<Rightarrow>
          Some (s\<lparr>us_servers := us_servers s @ [\<lparr>ud_cancelled = False, ud_closer = CNone\<rparr>],
                  us_udpServer := True, us_udpServerStop := True, us_run := RBind\<rparr>)
      | RBind \<Rightarrow> Some (bind_port net s)
      | RListen ph \<Rightarrow> listen_step net ph s
      | RReturned r \<Rightarrow>
          Some (s\<lparr>us_udpServer := False, us_udpServerStop := False,
                  us_states := us_states s @ [if r = LError then Failed else Stopped], us_run := RLoop\<rparr>)
      | RDone \<Rightarrow> None)"

text \<open>The goroutine that closes the connection of the server with index \<open>i\<close>.\<close>

definition next_closer :: "closer \<Rightarrow> closer" where
  "next_closer c = (case c of CNone \<Rightarrow> CNone | CWaiting \<Rightarrow> CUnset | CUnset \<Rightarrow> CDeadline | CDeadline \<Rightarrow> CClosed | CClosed \<Rightarrow> CClosed)"

definition closer_step :: "nat \<Rightarrow> Service \<Rightarrow> Service option" where
  "closer_step i s =
     (if i < length (us_servers s) \<and> is_open (us_servers s ! i) \<and> (us_main s \<or> ud_cancelled (us_servers s ! i))
      then Some (s\<lparr>us_servers := (us_servers s)[i := (us_servers s ! i)\<lparr>ud_closer := next_closer (ud_closer (us_servers s ! i))\<rparr>]\<rparr>)
      else None)"

text \<open>\<open>Send\<close>: an error, a packet that goes out, or the panic of a missing logger.\<close>

definition Server_Send :: "Service \<Rightarrow> string option" where
  "Server_Send s = (if ud_closer (last (us_servers s)) \<noteq> CWaiting then Some ''udp server: connection is nil'' else None)"

definition Service_Send :: "Service \<Rightarrow> string + string option" where
  "Service_Send s =
     (if \<not> us_udpServer s then (if us_logger s then Inr (Some ErrNotRunning) else Inl ''nil pointer'')
      else Inr (Server_Send s))"

section \<open>Steps\<close>

datatype svc_event =
    MainDone | CtxDone nat | TimerFires | Handles bool nat | Accepts bool | Runs net_event | Closes nat

definition svc_next :: "svc_event \<Rightarrow> Service \<Rightarrow> Service option" where
  "svc_next v s =
     (if us_panicked s then None
      else case v of
        MainDone \<Rightarrow> Some (s\<lparr>us_main := True\<rparr>)
      | CtxDone h \<Rightarrow> Some (s\<lparr>us_ctx := h # us_ctx s\<rparr>)
      | TimerFires \<Rightarrow> if us_timer s = TArmed then Some (s\<lparr>us_timer := TFired\<rparr>) else None
      | Handles pick h \<Rightarrow> Some (snd (Service_Handle pick h s))
      | Accepts pick \<Rightarrow> accept_step pick s
      | Runs net \<Rightarrow> run_step net s
      | Closes i \<Rightarrow> closer_step i s)"

fun svc_run :: "svc_event list \<Rightarrow> Service \<Rightarrow> Service option" where
  "svc_run [] s = Some s"
| "svc_run (v # vs) s = (case svc_next v s of None \<Rightarrow> None | Some s' \<Rightarrow> svc_run vs s')"

text \<open>The states that are reached from a state by events with a property.\<close>

inductive svc_reach :: "(svc_event \<Rightarrow> bool) \<Rightarrow> Service \<Rightarrow> Service \<Rightarrow> bool" for P s where
  start: "svc_reach P s s"
| "step": "svc_reach P s t \<Longrightarrow> P v \<Longrightarrow> svc_next v t = Some u \<Longrightarrow> svc_reach P s u"

definition any_event :: "svc_event \<Rightarrow> bool" where
  "any_event v = True"

lemma run_reaches:
  assumes "svc_reach P s t" and "svc_run vs t = Some u" and "list_all P vs"
  shows "svc_reach P s u"
  using assms
proof (induction vs arbitrary: t)
  case (Cons v vs)
  then show ?case by (auto split: option.splits intro: svc_reach.step)
qed simp

lemma reach_closed:
  assumes "svc_reach P s u" and "I s" and "\<And>v t t'. I t \<Longrightarrow> P v \<Longrightarrow> svc_next v t = Some t' \<Longrightarrow> I t'"
  shows "I u"
  using assms by (induction rule: svc_reach.induct) auto

section \<open>The invariant\<close>

definition running :: "run_phase \<Rightarrow> bool" where
  "running r \<longleftrightarrow> r = RBind \<or> (\<exists>ph. r = RListen ph) \<or> (\<exists>res. r = RReturned res)"

lemma running_simps [simp]:
  "\<not> running RLoop" "\<not> running RIdle" "\<not> running RStart" "\<not> running RFields" "\<not> running RDone"
  "running RBind" "running (RListen ph)" "running (RReturned res)"
  by (simp_all add: running_def)

fun held :: "accept_phase \<Rightarrow> nat option" where
  "held (ASignal h) = Some h" | "held (AWait h) = Some h" | "held (AClear h) = Some h" | "held _ = None"

text \<open>The part of the accepting goroutine: the handler is there while its turn lasts, the timer runs between turns.\<close>

definition accept_inv :: "Service \<Rightarrow> bool" where
  "accept_inv s \<longleftrightarrow>
     (us_accept s \<noteq> ADone \<longrightarrow> us_handler s = held (us_accept s)) \<and>
     (us_timer s \<noteq> TOff \<longrightarrow> us_accept s = ALoop \<or> us_accept s = AIdle \<or> (\<exists>h. us_accept s = ATaken h))"

text \<open>The part of the server: its fields are set while it runs, and at most one connection is open.\<close>

definition run_inv :: "Service \<Rightarrow> bool" where
  "run_inv s \<longleftrightarrow>
     us_udpServer s = running (us_run s) \<and> us_udpServerStop s = running (us_run s) \<and>
     (running (us_run s) \<longrightarrow> us_servers s \<noteq> []) \<and>
     (us_run s = RBind \<longrightarrow> ud_closer (last (us_servers s)) = CNone) \<and>
     (\<forall>ph. us_run s = RListen ph \<longrightarrow> ud_closer (last (us_servers s)) \<noteq> CNone) \<and>
     length (filter is_open (us_servers s)) \<le> 1"

definition svc_ok :: "Service \<Rightarrow> bool" where
  "svc_ok s \<longleftrightarrow> accept_inv s \<and> run_inv s"

lemma accept_inv_cong:
  "us_accept s' = us_accept s \<Longrightarrow> us_handler s' = us_handler s \<Longrightarrow> us_timer s' = us_timer s \<Longrightarrow> accept_inv s' = accept_inv s"
  by (simp add: accept_inv_def)

lemma run_inv_cong:
  "us_run s' = us_run s \<Longrightarrow> us_udpServer s' = us_udpServer s \<Longrightarrow> us_udpServerStop s' = us_udpServerStop s \<Longrightarrow>
   us_servers s' = us_servers s \<Longrightarrow> run_inv s' = run_inv s"
  by (simp add: run_inv_def)

lemma new_service_ok: "svc_ok (NewService logger)"
  by (simp add: svc_ok_def accept_inv_def run_inv_def NewService_def)

lemma open_update:
  assumes "is_open x \<Longrightarrow> i < length ks \<Longrightarrow> is_open (ks ! i)"
  shows "length (filter is_open (ks[i := x])) \<le> length (filter is_open ks)"
  using assms
proof (induction ks arbitrary: i)
  case (Cons k ks)
  show ?case
  proof (cases i)
    case (Suc j)
    have "is_open x \<Longrightarrow> j < length ks \<Longrightarrow> is_open (ks ! j)" using Cons.prems by (simp add: Suc)
    from Cons.IH [OF this] show ?thesis by (simp add: Suc)
  qed (use Cons.prems in simp)
qed simp

lemma open_bind:
  assumes "\<forall>k \<in> set ks. \<not> is_open k"
  shows "length (filter is_open (ks[i := x])) \<le> 1"
  using assms
proof (induction ks arbitrary: i)
  case (Cons k ks)
  then show ?case by (cases i) (auto simp: filter_empty_conv)
qed simp

lemma last_updated: "ks \<noteq> [] \<Longrightarrow> last (ks[i := x]) = (if i = length ks - 1 then x else last ks)"
  by (cases ks rule: rev_cases) (auto simp: list_update_append split: nat.splits)

lemma cancel_inv:
  assumes "run_inv s"
  shows "run_inv ((cancel_server s)\<lparr>us_accept := a\<rparr>)"
proof -
  define i where "i = length (us_servers s) - 1"
  define k where "k = (us_servers s ! i)\<lparr>ud_cancelled := True\<rparr>"
  have c: "(cancel_server s)\<lparr>us_accept := a\<rparr> = s\<lparr>us_servers := (us_servers s)[i := k], us_accept := a\<rparr>"
    by (simp add: cancel_server_def i_def k_def Let_def)
  have k: "is_open k = is_open (us_servers s ! i)" "ud_closer k = ud_closer (us_servers s ! i)"
    by (simp_all add: k_def is_open_def)
  have n: "length (filter is_open ((us_servers s)[i := k])) \<le> 1"
    using open_update [of k i "us_servers s"] k(1) assms by (simp add: run_inv_def)
  have l: "us_servers s \<noteq> [] \<Longrightarrow> ud_closer (last ((us_servers s)[i := k])) = ud_closer (last (us_servers s))"
    by (simp add: last_updated i_def k(2) last_conv_nth)
  show ?thesis using assms n l unfolding c by (auto simp: run_inv_def)
qed

lemma select_inv:
  assumes ok: "svc_ok s" and "accept_select pick s = Some s'" and "us_accept s = ALoop \<or> us_accept s = AIdle"
  shows "svc_ok s'"
proof -
  obtain a where s': "s' = s\<lparr>us_accept := a, us_timer := TOff\<rparr>" "a = ADone \<or> a = ATimer"
    using assms(2) by (auto simp: accept_select_def split: if_splits)
  have "run_inv s' = run_inv s" by (rule run_inv_cong) (simp_all add: s'(1))
  moreover have "accept_inv s'" using ok assms(3) s' by (auto simp: svc_ok_def accept_inv_def)
  ultimately show ?thesis using ok by (simp add: svc_ok_def)
qed

lemma accept_inv_step:
  assumes ok: "svc_ok s" and st: "accept_step pick s = Some s'"
  shows "svc_ok s'"
proof -
  have a: "accept_inv s" "run_inv s" using ok by (simp_all add: svc_ok_def)
  have frame: "svc_ok t" if "accept_inv t" "us_run t = us_run s" "us_udpServer t = us_udpServer s"
      "us_udpServerStop t = us_udpServerStop s" "us_servers t = us_servers s" for t
    using that a(2) run_inv_cong [of t s] by (simp add: svc_ok_def)
  show ?thesis
  proof (cases "us_accept s")
    case ALoop
    show ?thesis
    proof (cases "accept_select pick s")
      case None
      then have "s' = s\<lparr>us_accept := AIdle\<rparr>" using st ALoop by (simp add: accept_step_def)
      then show ?thesis using a ALoop by (intro frame) (simp_all add: accept_inv_def)
    qed (use st ALoop select_inv [OF ok, of pick s'] in \<open>simp add: accept_step_def\<close>)
  next
    case AIdle
    then show ?thesis using st select_inv [OF ok, of pick s'] by (simp add: accept_step_def)
  next
    case (ASignal h)
    show ?thesis
    proof (cases "us_run s = RIdle \<and> \<not> (us_main s \<and> pick)")
      case True
      then have s': "s' = s\<lparr>us_run := RStart, us_accept := AWait h\<rparr>" using st ASignal by (simp add: accept_step_def)
      show ?thesis unfolding s' using a ASignal True by (auto simp: svc_ok_def accept_inv_def run_inv_def)
    next
      case False
      then have s': "s' = s\<lparr>us_accept := AWait h\<rparr>" using st ASignal by (auto simp: accept_step_def)
      show ?thesis unfolding s' using a ASignal by (intro frame) (simp_all add: accept_inv_def)
    qed
  next
    case (AStop b)
    consider "s' = s\<lparr>us_accept := ALoop\<rparr>" | "s' = (cancel_server s)\<lparr>us_accept := ALoop\<rparr>" | "s' = s\<lparr>us_panicked := True\<rparr>"
      using st AStop by (auto simp: accept_step_def split: if_splits)
    then show ?thesis
    proof cases
      case 2
      have "accept_inv s'" using a(1) AStop by (simp add: 2 accept_inv_def cancel_server_def Let_def)
      then show ?thesis using cancel_inv [OF a(2)] by (simp add: 2 svc_ok_def)
    qed (use a AStop in \<open>auto intro!: frame simp: accept_inv_def\<close>)
  next
    case (AWait h)
    then consider "s' = s\<lparr>us_accept := ADone\<rparr>" | "s' = s\<lparr>us_accept := AClear h\<rparr>"
      using st by (auto simp: accept_step_def split: if_splits)
    then show ?thesis using a AWait by cases (auto intro!: frame simp: accept_inv_def)
  qed (use st a in \<open>auto intro!: frame simp: accept_step_def accept_inv_def\<close>)
qed

lemma bind_inv:
  assumes "run_inv s" and "us_run s = RBind"
  shows "run_inv (bind_port net s)"
proof (cases "net = NetOk \<and> (\<forall>k \<in> set (us_servers s). \<not> is_open k)")
  case True
  have ne: "us_servers s \<noteq> []" using assms by (simp add: run_inv_def)
  have "length (filter is_open ((us_servers s)[i := k])) \<le> 1" for i k using open_bind True by blast
  then show ?thesis using assms(1) True ne assms(2)
    by (simp add: bind_port_def run_inv_def Let_def last_updated)
next
  case False
  then have "bind_port net s = s\<lparr>us_run := RReturned LError\<rparr>" by (auto simp: bind_port_def)
  then show ?thesis using assms by (simp add: run_inv_def)
qed

lemma listen_phases:
  assumes "listen_step net ph s = Some s'"
  shows "\<exists>r c. s' = s\<lparr>us_calls := c, us_run := r\<rparr> \<and> ((\<exists>ph. r = RListen ph) \<or> (\<exists>res. r = RReturned res)) \<and>
    (c \<noteq> us_calls s \<longrightarrow> (\<exists>h p. ph = LCall h p))"
proof -
  have *: "s\<lparr>us_run := r\<rparr> = s\<lparr>us_calls := us_calls s, us_run := r\<rparr>" for r by simp
  show ?thesis
  proof (cases ph)
    case (LCall h p)
    then show ?thesis using assms
      by (intro exI [of _ "RListen LTop"] exI [of _ "us_calls s @ [(h, p)]"]) (simp add: listen_step_def Let_def)
  next
    case LRead
    then have "\<exists>r. s' = s\<lparr>us_run := r\<rparr> \<and> ((\<exists>ph. r = RListen ph) \<or> (\<exists>res. r = RReturned res))"
      using assms by (cases net) (auto simp: listen_step_def Let_def split: if_splits)
    then show ?thesis using * by metis
  next
    case LGot
    then have "\<exists>r. s' = s\<lparr>us_run := r\<rparr> \<and> ((\<exists>ph. r = RListen ph) \<or> (\<exists>res. r = RReturned res))"
      using assms by (cases "us_handler s") (auto simp: listen_step_def Let_def)
    then show ?thesis using * by metis
  next
    case LTop
    then have "\<exists>r. s' = s\<lparr>us_run := r\<rparr> \<and> ((\<exists>ph. r = RListen ph) \<or> (\<exists>res. r = RReturned res))"
      using assms by (auto simp: listen_step_def Let_def split: if_splits)
    then show ?thesis using * by metis
  next
    case LCheck
    then have "\<exists>r. s' = s\<lparr>us_run := r\<rparr> \<and> ((\<exists>ph. r = RListen ph) \<or> (\<exists>res. r = RReturned res))"
      using assms by (auto simp: listen_step_def Let_def split: if_splits)
    then show ?thesis using * by metis
  qed
qed

lemma run_inv_step:
  assumes ok: "svc_ok s" and st: "run_step net s = Some s'"
  shows "svc_ok s'"
proof -
  have a: "accept_inv s" "run_inv s" using ok by (simp_all add: svc_ok_def)
  have frame: "svc_ok t" if "run_inv t" "us_accept t = us_accept s" "us_handler t = us_handler s" "us_timer t = us_timer s" for t
    using that a(1) accept_inv_cong [of t s] by (simp add: svc_ok_def)
  show ?thesis
  proof (cases "us_run s")
    case RBind
    then have "s' = bind_port net s" using st by (simp add: run_step_def)
    moreover have "us_accept (bind_port net s) = us_accept s" "us_handler (bind_port net s) = us_handler s"
      "us_timer (bind_port net s) = us_timer s" by (simp_all add: bind_port_def Let_def)
    ultimately show ?thesis using frame [OF bind_inv [OF a(2) RBind]] by simp
  next
    case (RListen ph)
    then obtain r c where s': "s' = s\<lparr>us_calls := c, us_run := r\<rparr>" "(\<exists>ph. r = RListen ph) \<or> (\<exists>res. r = RReturned res)"
      using listen_phases [of net ph s s'] st RListen by (auto simp: run_step_def)
    then show ?thesis using a(2) RListen by (auto intro!: frame simp: run_inv_def)
  next
    case RFields
    then have "s' = s\<lparr>us_servers := us_servers s @ [\<lparr>ud_cancelled = False, ud_closer = CNone\<rparr>],
                  us_udpServer := True, us_udpServerStop := True, us_run := RBind\<rparr>" using st by (simp add: run_step_def)
    then show ?thesis using a(2) RFields by (auto intro!: frame simp: run_inv_def is_open_def)
  qed (use st a(2) in \<open>auto intro!: frame simp: run_step_def run_inv_def Let_def split: if_splits\<close>)
qed

lemma closer_inv_step:
  assumes "svc_ok s" and "closer_step i s = Some s'"
  shows "svc_ok s'"
proof -
  define k where "k = (us_servers s ! i)\<lparr>ud_closer := next_closer (ud_closer (us_servers s ! i))\<rparr>"
  have i: "i < length (us_servers s)" "is_open (us_servers s ! i)" "s' = s\<lparr>us_servers := (us_servers s)[i := k]\<rparr>"
    using assms(2) by (auto simp: closer_step_def k_def split: if_splits)
  have n: "length (filter is_open ((us_servers s)[i := k])) \<le> 1"
    using open_update [of k i "us_servers s"] i(2) assms(1) by (simp add: svc_ok_def run_inv_def)
  have c: "ud_closer k \<noteq> CNone" "ud_closer (us_servers s ! i) \<noteq> CNone"
    using i(2) by (auto simp: k_def is_open_def next_closer_def split: closer.splits)
  have ne: "us_servers s \<noteq> []" using i(1) by auto
  have "ud_closer (last (us_servers s)) \<noteq> CNone" if "i = length (us_servers s) - 1"
    using c(2) that by (simp add: last_conv_nth ne)
  then have "run_inv s'" using assms(1) n c(1) unfolding i(3)
    by (auto simp: svc_ok_def run_inv_def last_updated ne)
  moreover have "accept_inv s'" using assms(1) by (simp add: svc_ok_def i(3) accept_inv_def)
  ultimately show ?thesis by (simp add: svc_ok_def)
qed

lemma svc_next_ok:
  assumes ok: "svc_ok s" and "svc_next v s = Some s'"
  shows "svc_ok s'"
proof -
  have a: "accept_inv s" "run_inv s" using ok by (simp_all add: svc_ok_def)
  have frame: "svc_ok t" if "accept_inv t" "us_run t = us_run s" "us_udpServer t = us_udpServer s"
      "us_udpServerStop t = us_udpServerStop s" "us_servers t = us_servers s" for t
    using that a(2) run_inv_cong [of t s] by (simp add: svc_ok_def)
  have n: "\<not> us_panicked s" using assms(2) by (auto simp: svc_next_def)
  show ?thesis
  proof (cases v)
    case (Handles pick h)
    then have "s' = s \<or> us_accept s = AIdle \<and> s' = s\<lparr>us_accept := ATaken h\<rparr>"
      using assms(2) n by (auto simp: svc_next_def Service_Handle_def split: if_splits)
    moreover have "accept_inv (s\<lparr>us_accept := ATaken h\<rparr>)" if "us_accept s = AIdle"
      using a(1) that by (simp add: accept_inv_def)
    ultimately show ?thesis using ok frame by auto
  next
    case TimerFires
    then have s': "s' = s\<lparr>us_timer := TFired\<rparr>" "us_timer s = TArmed"
      using assms(2) n by (auto simp: svc_next_def split: if_splits)
    have "accept_inv s'" using a(1) s' by (simp add: accept_inv_def)
    then show ?thesis using frame by (simp add: s')
  next
    case MainDone
    then have "s' = s\<lparr>us_main := True\<rparr>" using assms(2) n by (simp add: svc_next_def)
    then show ?thesis using a frame [of s'] accept_inv_cong [of s' s] by simp
  next
    case (CtxDone h)
    then have "s' = s\<lparr>us_ctx := h # us_ctx s\<rparr>" using assms(2) n by (simp add: svc_next_def)
    then show ?thesis using a frame [of s'] accept_inv_cong [of s' s] by simp
  next
    case (Accepts pick)
    then show ?thesis using assms(2) n accept_inv_step [OF ok] by (simp add: svc_next_def)
  next
    case (Runs net)
    then show ?thesis using assms(2) n run_inv_step [OF ok] by (simp add: svc_next_def)
  next
    case (Closes i)
    then show ?thesis using assms(2) n closer_inv_step [OF ok] by (simp add: svc_next_def)
  qed
qed

lemma svc_reach_ok: "svc_reach P (NewService logger) s \<Longrightarrow> svc_ok s"
  using reach_closed [of P "NewService logger" s svc_ok] new_service_ok svc_next_ok by blast

section \<open>What the steps leave alone\<close>

lemma select_frame:
  assumes "accept_select pick s = Some s'"
  shows "us_logger s' = us_logger s \<and> us_main s' = us_main s \<and> us_ctx s' = us_ctx s \<and> us_calls s' = us_calls s \<and>
    us_states s' = us_states s \<and> us_run s' = us_run s \<and> us_servers s' = us_servers s \<and> us_panicked s' = us_panicked s"
  using assms by (auto simp: accept_select_def split: if_splits)

lemma cancel_frame:
  "us_logger (cancel_server s) = us_logger s \<and> us_main (cancel_server s) = us_main s \<and> us_ctx (cancel_server s) = us_ctx s \<and>
   us_calls (cancel_server s) = us_calls s \<and> us_states (cancel_server s) = us_states s \<and> us_run (cancel_server s) = us_run s \<and>
   us_panicked (cancel_server s) = us_panicked s \<and> length (us_servers (cancel_server s)) = length (us_servers s) \<and>
   (\<forall>i. i < length (us_servers s) - 1 \<longrightarrow> us_servers (cancel_server s) ! i = us_servers s ! i)"
  by (simp add: cancel_server_def Let_def)

lemma accept_frame:
  assumes st: "accept_step pick s = Some s'"
  shows "us_logger s' = us_logger s \<and> us_main s' = us_main s \<and> us_ctx s' = us_ctx s \<and> us_calls s' = us_calls s \<and>
    us_states s' = us_states s \<and> (us_run s' = us_run s \<or> us_run s = RIdle \<and> us_run s' = RStart) \<and>
    length (us_servers s') = length (us_servers s) \<and>
    (\<forall>i < length (us_servers s). us_servers s' ! i = us_servers s ! i \<or> us_udpServerStop s \<and> i = length (us_servers s) - 1) \<and>
    (us_panicked s' = us_panicked s \<or> us_accept s = AStop True \<and> \<not> us_udpServerStop s)"
proof (cases "us_accept s")
  case ALoop
  show ?thesis
  proof (cases "accept_select pick s")
    case (Some s1)
    then have "s' = s1" using st ALoop by (simp add: accept_step_def)
    then show ?thesis using select_frame [OF Some] by simp
  next
    case None
    then have "s' = s\<lparr>us_accept := AIdle\<rparr>" using st ALoop by (simp add: accept_step_def)
    then show ?thesis by simp
  qed
next
  case AIdle
  then show ?thesis using st select_frame [of pick s s'] by (simp add: accept_step_def)
next
  case (AStop b)
  then consider "s' = s\<lparr>us_accept := ALoop\<rparr>" | "s' = (cancel_server s)\<lparr>us_accept := ALoop\<rparr>" "us_udpServerStop s"
    | "s' = s\<lparr>us_panicked := True\<rparr>" "b" "\<not> us_udpServerStop s"
    using st by (auto simp: accept_step_def split: if_splits)
  then show ?thesis using AStop cancel_frame [of s] by cases auto
qed (use st in \<open>auto simp: accept_step_def split: if_splits\<close>)

lemma run_frame:
  assumes st: "run_step net s = Some s'"
  shows "us_logger s' = us_logger s \<and> us_main s' = us_main s \<and> us_ctx s' = us_ctx s \<and>
    (us_panicked s' = us_panicked s \<or> us_run s = RStart \<and> \<not> us_logger s)"
proof (cases "us_run s")
  case (RListen ph)
  then show ?thesis using st listen_phases [of net ph s s'] by (auto simp: run_step_def)
qed (use st in \<open>auto simp: run_step_def bind_port_def Let_def split: if_splits\<close>)

lemma closer_frame:
  assumes "closer_step i s = Some s'"
  shows "\<exists>k. s' = s\<lparr>us_servers := (us_servers s)[i := k]\<rparr> \<and> (us_main s \<or> ud_cancelled (us_servers s ! i))"
  using assms by (auto simp: closer_step_def split: if_splits)

section \<open>Properties\<close>

lemma empty_reach: "svc_run vs s = Some t \<Longrightarrow> list_all P vs \<Longrightarrow> svc_reach P s t"
  using run_reaches [OF svc_reach.start] .

text \<open>A handler that comes before the server's loop is at its \<open>select\<close>, and one that comes after.\<close>

definition early_handler :: "svc_event list" where
  "early_handler = [Accepts False, Handles False 1, Accepts False, Accepts False, Accepts False]"

definition started_server :: "svc_event list" where
  "started_server = [Runs NetOk] @ early_handler @ [Runs NetOk, Runs NetOk, Runs NetOk, Runs NetOk, Runs NetOk]"

definition idle_again :: "svc_event list" where
  "idle_again = [CtxDone 1, Accepts False, Accepts False, Accepts False, Accepts False, TimerFires]"

text \<open>
  C37. In every reachable state of the UDP service, however its goroutines interleave, the handler is set
  exactly from when it was taken over until its turn ends, the idle timer runs only between the turns,
  the two fields that point to the server are set exactly while its loop runs, and at most one
  connection is open.
\<close>

theorem service_fields_agree:
  assumes "svc_reach any_event (NewService logger) s"
  shows "(us_accept s \<noteq> ADone \<longrightarrow> us_handler s = held (us_accept s)) \<and>
    (us_timer s \<noteq> TOff \<longrightarrow> us_accept s = ALoop \<or> us_accept s = AIdle \<or> (\<exists>h. us_accept s = ATaken h)) \<and>
    us_udpServer s = running (us_run s) \<and> us_udpServerStop s = running (us_run s) \<and>
    length (filter is_open (us_servers s)) \<le> 1"
  using svc_reach_ok [OF assms] by (simp add: svc_ok_def accept_inv_def run_inv_def)

theorem service_fields_agree_witness:
  "\<exists>s. svc_run (started_server @ [Runs (NetPacket 7), Runs NetOk, Runs NetOk]) (NewService True) = Some s \<and>
     us_calls s = [(1, 7)] \<and> us_handler s = Some 1 \<and> us_udpServer s"
proof -
  let ?vs = "started_server @ [Runs (NetPacket 7), Runs NetOk, Runs NetOk]"
  have r: "svc_run ?vs (NewService True) = Some (the (svc_run ?vs (NewService True)))" by code_simp
  have c: "us_calls (the (svc_run ?vs (NewService True))) = [(1, 7)]"
    "us_accept (the (svc_run ?vs (NewService True))) = AWait 1"
    "us_run (the (svc_run ?vs (NewService True))) = RListen LTop" by code_simp+
  have "list_all any_event ?vs" by (simp add: list_all_iff any_event_def)
  from service_fields_agree [OF empty_reach [OF r this]] show ?thesis using r c by auto
qed

lemma lost_step:
  assumes v: "v \<noteq> MainDone" "v \<noteq> CtxDone h" and n: "svc_next v t = Some u"
    and i: "us_accept t = AWait h" "us_run t = RLoop \<or> us_run t = RIdle" "h \<notin> set (us_ctx t)" "\<not> us_main t"
      "\<not> us_udpServer t"
  shows "us_accept u = AWait h \<and> (us_run u = RLoop \<or> us_run u = RIdle) \<and> h \<notin> set (us_ctx u) \<and> \<not> us_main u \<and>
    \<not> us_udpServer u \<and> us_calls u = us_calls t \<and> us_states u = us_states t"
proof (cases v)
  case (Accepts pick)
  then show ?thesis using n i by (auto simp: svc_next_def accept_step_def split: if_splits)
next
  case (Runs net)
  then show ?thesis using n i by (auto simp: svc_next_def run_step_def split: if_splits)
qed (use v n i in \<open>auto simp: svc_next_def Service_Handle_def closer_step_def split: if_splits\<close>)

text \<open>
  A handler can be accepted and never be served: when it signals the server's goroutine while that is
  not at its \<open>select\<close> (at the start of the service, or while it stops an earlier server), the signal is
  dropped. The handler then occupies the service without a server until its own context or the
  main context ends, and everyone else is told that the service is busy.
\<close>

theorem handler_can_starve:
  assumes "svc_reach any_event (NewService logger) s" and "us_accept s = AWait h" and "us_run s = RLoop \<or> us_run s = RIdle"
    and "h \<notin> set (us_ctx s)" and "\<not> us_main s" and "svc_reach (\<lambda>v. v \<noteq> MainDone \<and> v \<noteq> CtxDone h) s t"
  shows "us_calls t = us_calls s \<and> us_states t = us_states s \<and> \<not> us_udpServer t \<and>
    Service_Handle pick g t = (Some ErrBusy, t)"
proof -
  have u: "\<not> us_udpServer s" using svc_reach_ok [OF assms(1)] assms(3) by (auto simp: svc_ok_def run_inv_def)
  let ?I = "\<lambda>t. us_accept t = AWait h \<and> (us_run t = RLoop \<or> us_run t = RIdle) \<and> h \<notin> set (us_ctx t) \<and> \<not> us_main t \<and>
    \<not> us_udpServer t \<and> us_calls t = us_calls s \<and> us_states t = us_states s"
  have "?I t"
  proof (rule reach_closed [OF assms(6)])
    show "?I s" using assms(2-5) u by simp
  next
    fix v t t' assume "?I t" "v \<noteq> MainDone \<and> v \<noteq> CtxDone h" "svc_next v t = Some t'"
    then show "?I t'" using lost_step [of v h t t'] by simp
  qed
  then show ?thesis by (simp add: Service_Handle_def)
qed

theorem handler_can_starve_witness:
  "\<exists>s t. svc_run early_handler (NewService True) = Some s \<and> svc_run [Runs NetOk, Runs NetOk, Handles False 2] s = None \<and>
     svc_run [Runs NetOk, Handles False 2, TimerFires] s = None \<and> svc_run [Runs NetOk, Handles False 2] s = Some t \<and>
     us_calls t = [] \<and> Service_Handle False 3 t = (Some ErrBusy, t)"
proof -
  define s where "s = the (svc_run early_handler (NewService True))"
  have s: "svc_run early_handler (NewService True) = Some s" unfolding s_def by code_simp
  have f: "us_accept s = AWait 1" "us_run s = RLoop" "1 \<notin> set (us_ctx s)" "\<not> us_main s" "us_calls s = []"
    unfolding s_def by code_simp+
  have stuck: "svc_run [Runs NetOk, Runs NetOk, Handles False 2] s = None" "svc_run [Runs NetOk, Handles False 2, TimerFires] s = None"
    unfolding s_def by code_simp+
  define t where "t = the (svc_run [Runs NetOk, Handles False 2] s)"
  have t: "svc_run [Runs NetOk, Handles False 2] s = Some t" unfolding t_def s_def by code_simp
  have r: "svc_reach any_event (NewService True) s"
    by (rule empty_reach [OF s]) (simp add: early_handler_def any_event_def)
  have "svc_reach (\<lambda>v. v \<noteq> MainDone \<and> v \<noteq> CtxDone 1) s t" by (rule empty_reach [OF t]) simp
  from handler_can_starve [OF r f(1) _ f(3,4) this, of False 3] show ?thesis using s t f stuck by auto
qed

text \<open>
  C38. With a logger, the only panic of the service is a race of the idle timer: \<open>acceptHandlerLoop\<close> reads the
  stop function under the mutex, finds it set, and then calls the field instead of the value it read;
  when the server has ended in between, the field is nil.
\<close>

theorem only_stale_stop_panics:
  assumes "svc_reach any_event (NewService True) t" and "svc_next v t = Some u" and "us_panicked u"
  shows "us_accept t = AStop True \<and> \<not> us_udpServerStop t \<and> \<not> running (us_run t)"
proof -
  have log: "us_logger t"
  proof (rule reach_closed [OF assms(1)])
    fix v t t' assume t: "us_logger t" "svc_next v t = Some t'"
    show "us_logger t'"
    proof (cases v)
      case (Accepts pick)
      then show ?thesis using t accept_frame [of pick t t'] by (simp add: svc_next_def split: if_splits)
    next
      case (Runs net)
      then show ?thesis using t run_frame [of net t t'] by (simp add: svc_next_def split: if_splits)
    next
      case (Closes i)
      then show ?thesis using t closer_frame [of i t t'] by (auto simp: svc_next_def split: if_splits)
    qed (use t in \<open>auto simp: svc_next_def Service_Handle_def split: if_splits\<close>)
  qed (simp add: NewService_def)
  have np: "\<not> us_panicked t" using assms(2) by (auto simp: svc_next_def)
  have "us_accept t = AStop True \<and> \<not> us_udpServerStop t"
  proof (cases v)
    case (Accepts pick)
    then show ?thesis using assms(2,3) np accept_frame [of pick t u] by (simp add: svc_next_def)
  next
    case (Runs net)
    then show ?thesis using assms(2,3) np log run_frame [of net t u] by (simp add: svc_next_def)
  next
    case (Closes i)
    then show ?thesis using assms(2,3) np closer_frame [of i t u] by (auto simp: svc_next_def)
  qed (use assms(2,3) np in \<open>auto simp: svc_next_def Service_Handle_def split: if_splits\<close>)
  then show ?thesis using svc_reach_ok [OF assms(1)] by (simp add: svc_ok_def run_inv_def)
qed

text \<open>The server ends with a failure while the idle timer has it stopped.\<close>

definition stale_stop :: "svc_event list" where
  "stale_stop = started_server @ idle_again @ [Accepts False, Accepts False, Runs NetFailure, Runs NetOk]"

theorem only_stale_stop_panics_witness:
  "\<exists>t u. svc_run stale_stop (NewService True) = Some t \<and> svc_next (Accepts False) t = Some u \<and> us_panicked u \<and>
     us_accept t = AStop True \<and> \<not> us_udpServerStop t"
proof -
  define t where "t = the (svc_run stale_stop (NewService True))"
  have t: "svc_run stale_stop (NewService True) = Some t" unfolding t_def by code_simp
  define u where "u = the (svc_next (Accepts False) t)"
  have u: "svc_next (Accepts False) t = Some u" "us_panicked u" unfolding u_def t_def by code_simp+
  have "list_all any_event stale_stop" by (simp add: list_all_iff any_event_def)
  from only_stale_stop_panics [OF empty_reach [OF t this] u] show ?thesis using t u by blast
qed

definition blocked :: "Service \<Rightarrow> nat \<Rightarrow> Service \<Rightarrow> bool" where
  "blocked s i t \<longleftrightarrow> svc_ok t \<and> \<not> us_main t \<and> i < length (us_servers t) \<and> us_servers t ! i = us_servers s ! i \<and>
     us_calls t = us_calls s \<and> (running (us_run t) \<longrightarrow> i < length (us_servers t) - 1 \<and> (us_run t = RBind \<or> us_run t = RReturned LError)) \<and>
     (\<exists>xs. us_states t = us_states s @ xs \<and> set xs \<subseteq> {Started, Failed})"

lemma blocked_run:
  assumes b: "blocked s i t" and o: "is_open (us_servers s ! i)" and st: "run_step net t = Some t'"
  shows "blocked s i t'"
proof -
  have ok: "svc_ok t'" using run_inv_step [OF _ st] b by (simp add: blocked_def)
  have op: "us_servers t ! i \<in> set (us_servers t)" "is_open (us_servers t ! i)"
    using b o nth_mem [of i "us_servers t"] by (auto simp: blocked_def)
  obtain xs where xs: "us_states t = us_states s @ xs" "set xs \<subseteq> {Started, Failed}" using b by (auto simp: blocked_def)
  have states: "\<exists>ys. (us_states s @ xs) @ [x] = us_states s @ ys \<and> set ys \<subseteq> {Started, Failed}" if "x \<in> {Started, Failed}" for x
    using xs(2) that by (intro exI [of _ "xs @ [x]"]) simp
  show ?thesis
  proof (cases "us_run t")
    case RBind
    then have "t' = t\<lparr>us_run := RReturned LError\<rparr>" using st op by (auto simp: run_step_def bind_port_def)
    then show ?thesis using ok b RBind by (simp add: blocked_def)
  next
    case (RListen ph)
    then show ?thesis using b by (simp add: blocked_def)
  next
    case (RReturned r)
    then have "r = LError" using b by (simp add: blocked_def)
    then have "t' = t\<lparr>us_udpServer := False, us_udpServerStop := False, us_states := us_states t @ [Failed], us_run := RLoop\<rparr>"
      using st RReturned by (simp add: run_step_def)
    then show ?thesis using ok b states [of Failed] xs(1) by (simp add: blocked_def)
  next
    case RStart
    then have "\<exists>r p. t' = t\<lparr>us_states := us_states t @ [Started], us_run := r, us_panicked := p\<rparr> \<and> (r = RFields \<or> r = RStart)"
      using st by (intro exI [of _ "us_run t'"] exI [of _ "us_panicked t'"]) (auto simp: run_step_def Let_def split: if_splits)
    then show ?thesis using ok b states [of Started] xs(1) by (auto simp: blocked_def)
  next
    case RFields
    then have "t' = t\<lparr>us_servers := us_servers t @ [\<lparr>ud_cancelled = False, ud_closer = CNone\<rparr>],
                  us_udpServer := True, us_udpServerStop := True, us_run := RBind\<rparr>" using st by (simp add: run_step_def)
    then show ?thesis using ok b by (auto simp: blocked_def nth_append)
  qed (use st ok b in \<open>auto simp: run_step_def blocked_def split: if_splits\<close>)
qed

lemma blocked_step:
  assumes b: "blocked s i t" and o: "is_open (us_servers s ! i)" "\<not> ud_cancelled (us_servers s ! i)"
    and v: "v \<noteq> MainDone" and st: "svc_next v t = Some t'"
  shows "blocked s i t'"
proof -
  have ok: "svc_ok t'" using svc_next_ok [OF _ st] b by (simp add: blocked_def)
  have stop: "us_udpServerStop t = running (us_run t)" using b by (simp add: blocked_def svc_ok_def run_inv_def)
  have np: "\<not> us_panicked t" using st by (auto simp: svc_next_def)
  show ?thesis
  proof (cases v)
    case (Accepts pick)
    then have "accept_step pick t = Some t'" using st np by (simp add: svc_next_def)
    note f = accept_frame [OF this]
    have "us_servers t' ! i = us_servers t ! i" using f b stop by (auto simp: blocked_def)
    then show ?thesis using f b ok by (auto simp: blocked_def)
  next
    case (Runs net)
    then show ?thesis using st np blocked_run [OF b o(1)] by (simp add: svc_next_def)
  next
    case (Closes j)
    then have c: "closer_step j t = Some t'" using st np by (simp add: svc_next_def)
    obtain k where k: "t' = t\<lparr>us_servers := (us_servers t)[j := k]\<rparr>" "us_main t \<or> ud_cancelled (us_servers t ! j)"
      using closer_frame [OF c] by blast
    then have "j \<noteq> i" using b o(2) by (auto simp: blocked_def)
    then show ?thesis using b ok by (simp add: blocked_def k(1))
  qed (use st np b ok v in \<open>auto simp: svc_next_def Service_Handle_def blocked_def split: if_splits\<close>)
qed


definition after_failure :: "svc_event list" where
  "after_failure = started_server @ [Runs NetFailure, Runs NetOk]"

text \<open>A second handler is accepted, and its server cannot bind the port.\<close>

definition second_handler :: "svc_event list" where
  "second_handler = [Runs NetOk, CtxDone 1, Accepts False, Accepts False, Accepts False, Accepts False, Handles False 2,
     Accepts False, Accepts False, Accepts False, Runs NetOk, Runs NetOk, Runs NetOk, Runs NetOk]"


end
