(* ===== verification/Draining.thy ===== *)
theory Draining
  imports Prelude
begin

text \<open>
  Goroutines that come to an end: the interface of the step relations in \<open>SessionEnds\<close> and \<open>LobbyEnds\<close>. A system
  that is alive and not over has a step that keeps it alive and brings it nearer to its end.
\<close>

locale draining =
  fixes step :: "'s \<Rightarrow> 's \<Rightarrow> bool" and alive :: "'s \<Rightarrow> bool" and over :: "'s \<Rightarrow> bool" and distance :: "'s \<Rightarrow> nat"
  assumes goes_on: "alive s \<Longrightarrow> \<not> over s \<Longrightarrow> \<exists>s'. step s s' \<and> alive s' \<and> distance s' < distance s"
begin

lemma can_end: "alive s \<Longrightarrow> \<exists>s'. step\<^sup>*\<^sup>* s s' \<and> alive s' \<and> over s'"
proof (induction s rule: measure_induct_rule [of distance])
  case (less s)
  show ?case
  proof (cases "over s")
    case False
    then obtain t where t: "step s t" "alive t" "distance t < distance s" using goes_on [OF less.prems] by blast
    then obtain s' where "step\<^sup>*\<^sup>* t s'" "alive s'" "over s'" using less.IH by blast
    then show ?thesis using t(1) by (meson converse_rtranclp_into_rtranclp)
  qed (use less.prems in blast)
qed

end

lemma sum_update:
  fixes f :: "'a \<Rightarrow> nat"
  assumes "i < length xs"
  shows "sum_list (map f (xs[i := y])) + f (xs ! i) = sum_list (map f xs) + f y"
  using assms by (induction xs arbitrary: i) (auto split: nat.splits)

lemma invariant_steps:
  assumes "step\<^sup>*\<^sup>* s s'" and "I s" and "\<And>s s'. step s s' \<Longrightarrow> I s \<Longrightarrow> I s'"
  shows "I s'"
  using assms(1,2) by (induction rule: rtranclp_induct) (auto intro: assms(3))

end
