(* ===== verification/SessionEnds.thy ===== *)
theory SessionEnds
  imports Draining
begin

text \<open>
  How a running session ends: the goroutines of \<open>udpstar/server/service_session.go\<close> and
  \<open>udpstar/server/service_client.go\<close> with their channels, as one step relation. What the goroutines compute is
  the subject of \<open>Services\<close> and \<open>SessionRuns\<close>; here a request for a story is the number of packs of its answer.
\<close>

section \<open>Goroutines\<close>

text \<open>
  The loop of the session (\<open>start\<close>): at its select; sending a message to the clients, the next being the one
  with the given number; answering a request, with the number of packs to go; ended.
\<close>

datatype loop_phase = LSelect | LBroadcast nat | LAnswer nat nat | LEnded

text \<open>The loop of a client service: at its select, writing a message to the socket, ended.\<close>

datatype client_phase = CSelect | CWrites | CEnded

text \<open>
  A call of \<open>HandleStoryConfirm\<close>: asking (the first select, with the number of packs of the answer), waiting
  (the second one), in the goroutine that takes the other packs, in its call of \<open>client.Send\<close>, over.
\<close>

datatype call_phase = QAsks nat | QWaits | QDrains | QSends | QOver

record call =
  q_client :: nat
  q_phase :: call_phase
  q_closed :: bool

record session_run =
  rn_done :: bool
  rn_loop :: loop_phase
  rn_clients :: "client_phase list"
  rn_calls :: "call list"

definition new_run :: "nat \<Rightarrow> (nat \<times> nat) list \<Rightarrow> session_run" where
  "new_run n reqs = \<lparr>rn_done = False, rn_loop = LSelect, rn_clients = replicate n CSelect,
     rn_calls = map (\<lambda>(c, k). \<lparr>q_client = c, q_phase = QAsks k, q_closed = False\<rparr>) reqs\<rparr>"

abbreviation set_client :: "nat \<Rightarrow> client_phase \<Rightarrow> session_run \<Rightarrow> session_run" where
  "set_client c p s \<equiv> s\<lparr>rn_clients := (rn_clients s)[c := p]\<rparr>"

abbreviation set_call :: "nat \<Rightarrow> call \<Rightarrow> session_run \<Rightarrow> session_run" where
  "set_call j q s \<equiv> s\<lparr>rn_calls := (rn_calls s)[j := q]\<rparr>"

section \<open>Steps\<close>

text \<open>
  Each function gives the state after one step of a goroutine, or nothing when it has to wait. A \<open>select\<close>
  with several ready cases is several steps.
\<close>

text \<open>\<open>client.Send\<close>: the message is taken by the client's loop, or the client has ended.\<close>

definition send_taken :: "nat \<Rightarrow> session_run \<Rightarrow> session_run option" where
  "send_taken c s =
     (if c < length (rn_clients s) \<and> rn_clients s ! c = CSelect then Some (set_client c CWrites s) else None)"

definition send_dropped :: "nat \<Rightarrow> session_run \<Rightarrow> session_run option" where
  "send_dropped c s = (if c < length (rn_clients s) \<and> rn_clients s ! c = CEnded then Some s else None)"

definition sends :: "nat \<Rightarrow> session_run \<Rightarrow> session_run list" where
  "sends c s = List.map_filter id [send_taken c s, send_dropped c s]"

text \<open>The client service: the context has ended, or the socket has taken the message.\<close>

definition client_moves :: "nat \<Rightarrow> session_run \<Rightarrow> session_run list" where
  "client_moves c s =
     (case rn_clients s ! c of
        CSelect \<Rightarrow> (if rn_done s then [set_client c CEnded s] else [])
      | CWrites \<Rightarrow> [set_client c CSelect s]
      | CEnded \<Rightarrow> [])"

text \<open>
  The session's loop. \<open>LSelect\<close>: the context has ended, a tick or an entry of a story (both are sent to all
  clients), or a request.
\<close>

definition loop_moves :: "session_run \<Rightarrow> session_run list" where
  "loop_moves s =
     (case rn_loop s of
        LSelect \<Rightarrow>
          (if rn_done s then [s\<lparr>rn_loop := LEnded\<rparr>] else []) @ [s\<lparr>rn_loop := LBroadcast 0\<rparr>] @
          List.map_filter (\<lambda>j. case q_phase (rn_calls s ! j) of
              QAsks k \<Rightarrow> Some (set_call j ((rn_calls s ! j)\<lparr>q_phase := QWaits\<rparr>) (s\<lparr>rn_loop := LAnswer j k\<rparr>))
            | _ \<Rightarrow> None) [0..<length (rn_calls s)]
      | LBroadcast c \<Rightarrow>
          (if c < length (rn_clients s) then map (\<lambda>s. s\<lparr>rn_loop := LBroadcast (Suc c)\<rparr>) (sends c s)
           else [s\<lparr>rn_loop := LSelect\<rparr>])
      | LAnswer j (Suc k) \<Rightarrow>
          (case q_phase (rn_calls s ! j) of
             QWaits \<Rightarrow> [set_call j ((rn_calls s ! j)\<lparr>q_phase := QDrains\<rparr>) (s\<lparr>rn_loop := LAnswer j k\<rparr>)]
           | QDrains \<Rightarrow> [set_call j ((rn_calls s ! j)\<lparr>q_phase := QSends\<rparr>) (s\<lparr>rn_loop := LAnswer j k\<rparr>)]
           | _ \<Rightarrow> [])
      | LAnswer j 0 \<Rightarrow> [set_call j ((rn_calls s ! j)\<lparr>q_closed := True\<rparr>) (s\<lparr>rn_loop := LSelect\<rparr>)]
      | LEnded \<Rightarrow> [])"

text \<open>A call: each of its selects also ends with the session's context; a closed channel ends the waiting.\<close>

definition call_moves :: "nat \<Rightarrow> session_run \<Rightarrow> session_run list" where
  "call_moves j s =
     (let q = rn_calls s ! j; over = [set_call j (q\<lparr>q_phase := QOver\<rparr>) s]
      in case q_phase q of
        QAsks k \<Rightarrow> (if rn_done s then over else [])
      | QWaits \<Rightarrow> (if rn_done s \<or> q_closed q then over else [])
      | QDrains \<Rightarrow> (if q_closed q then over else [])
      | QSends \<Rightarrow> map (set_call j (q\<lparr>q_phase := QDrains\<rparr>)) (sends (q_client q) s)
      | QOver \<Rightarrow> [])"

inductive ending_step :: "session_run \<Rightarrow> session_run \<Rightarrow> bool" where
  cancel: "\<not> rn_done s \<Longrightarrow> ending_step s (s\<lparr>rn_done := True\<rparr>)"
| loop: "s' \<in> set (loop_moves s) \<Longrightarrow> ending_step s s'"
| client: "c < length (rn_clients s) \<Longrightarrow> s' \<in> set (client_moves c s) \<Longrightarrow> ending_step s s'"
| call: "j < length (rn_calls s) \<Longrightarrow> s' \<in> set (call_moves j s) \<Longrightarrow> ending_step s s'"

section \<open>Invariant\<close>

text \<open>
  A call that waits for packs has a channel that is closed or a loop that answers it; a loop that answers
  has not closed the channel.
\<close>

definition run_inv :: "session_run \<Rightarrow> bool" where
  "run_inv s \<longleftrightarrow>
     (\<forall>j < length (rn_calls s). q_client (rn_calls s ! j) < length (rn_clients s) \<and>
        (q_phase (rn_calls s ! j) \<in> {QWaits, QDrains, QSends} \<longrightarrow> q_closed (rn_calls s ! j) \<or> (\<exists>k. rn_loop s = LAnswer j k))) \<and>
     (\<forall>j k. rn_loop s = LAnswer j k \<longrightarrow>
        j < length (rn_calls s) \<and> q_phase (rn_calls s ! j) \<in> {QWaits, QDrains, QSends, QOver})"

text \<open>The loop offers a pack to a call that has gone.\<close>

definition abandoned :: "session_run \<Rightarrow> bool" where
  "abandoned s \<longleftrightarrow> (\<exists>j k. rn_loop s = LAnswer j (Suc k) \<and> j < length (rn_calls s) \<and> q_phase (rn_calls s ! j) = QOver)"

definition all_over :: "session_run \<Rightarrow> bool" where
  "all_over s \<longleftrightarrow> rn_loop s = LEnded \<and> list_all (\<lambda>c. c = CEnded) (rn_clients s) \<and> list_all (\<lambda>q. q_phase q = QOver) (rn_calls s)"

lemma new_run_inv: "\<forall>(c, k) \<in> set reqs. c < n \<Longrightarrow> run_inv (new_run n reqs)"
  by (auto simp: run_inv_def new_run_def case_prod_unfold)

lemma sends_cases:
  assumes "s' \<in> set (sends c s)"
  obtains "c < length (rn_clients s)" "rn_clients s ! c = CSelect" "s' = set_client c CWrites s"
    | "c < length (rn_clients s)" "rn_clients s ! c = CEnded" "s' = s"
  using assms by (auto simp: sends_def List.map_filter_def send_taken_def send_dropped_def split: if_splits)

lemma sends_frame: "s' \<in> set (sends c s) \<Longrightarrow> \<exists>cs. s' = s\<lparr>rn_clients := cs\<rparr> \<and> length cs = length (rn_clients s)"
  by (erule sends_cases) (force, metis session_run.update_convs(3) session_run.surjective)

text \<open>What a step can do to the loop and the calls.\<close>

lemma ending_step_cases:
  assumes "ending_step s s'"
  obtains cs d where "s' = s\<lparr>rn_done := d, rn_clients := cs\<rparr>" "length cs = length (rn_clients s)"
    | cs l where "s' = s\<lparr>rn_loop := l, rn_clients := cs\<rparr>" "length cs = length (rn_clients s)"
      "\<forall>j k. rn_loop s \<noteq> LAnswer j k" "\<forall>j k. l \<noteq> LAnswer j k"
    | j k where "rn_loop s = LSelect" "j < length (rn_calls s)" "q_phase (rn_calls s ! j) = QAsks k"
      "s' = set_call j ((rn_calls s ! j)\<lparr>q_phase := QWaits\<rparr>) (s\<lparr>rn_loop := LAnswer j k\<rparr>)"
    | j k p where "rn_loop s = LAnswer j (Suc k)" "q_phase (rn_calls s ! j) \<in> {QWaits, QDrains}" "p \<in> {QDrains, QSends}"
      "s' = set_call j ((rn_calls s ! j)\<lparr>q_phase := p\<rparr>) (s\<lparr>rn_loop := LAnswer j k\<rparr>)"
    | j where "rn_loop s = LAnswer j 0" "s' = set_call j ((rn_calls s ! j)\<lparr>q_closed := True\<rparr>) (s\<lparr>rn_loop := LSelect\<rparr>)"
    | j p cs where "j < length (rn_calls s)" "q_phase (rn_calls s ! j) \<noteq> QOver"
      "p = QOver \<and> (q_phase (rn_calls s ! j) = QDrains \<longrightarrow> q_closed (rn_calls s ! j)) \<or> q_phase (rn_calls s ! j) = QSends \<and> p = QDrains"
      "s' = s\<lparr>rn_clients := cs, rn_calls := (rn_calls s)[j := (rn_calls s ! j)\<lparr>q_phase := p\<rparr>]\<rparr>" "length cs = length (rn_clients s)"
  using assms
proof cases
  case cancel
  then show ?thesis using that(1) [where d = True and cs = "rn_clients s"] by simp
next
  case loop
  show ?thesis
  proof (cases "rn_loop s")
    case LSelect
    then consider "s' = s\<lparr>rn_loop := LEnded\<rparr>" | "s' = s\<lparr>rn_loop := LBroadcast 0\<rparr>"
      | j k where "j < length (rn_calls s)" "q_phase (rn_calls s ! j) = QAsks k"
        "s' = set_call j ((rn_calls s ! j)\<lparr>q_phase := QWaits\<rparr>) (s\<lparr>rn_loop := LAnswer j k\<rparr>)"
      using loop by (auto simp: loop_moves_def List.map_filter_def split: if_splits call_phase.splits)
    then show ?thesis
    proof cases
      case 1
      then show ?thesis using LSelect by (intro that(2) [where l = LEnded and cs = "rn_clients s"]) simp_all
    next
      case 2
      then show ?thesis using LSelect by (intro that(2) [where l = "LBroadcast 0" and cs = "rn_clients s"]) simp_all
    next
      case 3
      then show ?thesis using that(3) [OF LSelect] by blast
    qed
  next
    case (LBroadcast c)
    then consider "s' = s\<lparr>rn_loop := LSelect\<rparr>" | t where "t \<in> set (sends c s)" "s' = t\<lparr>rn_loop := LBroadcast (Suc c)\<rparr>"
      using loop by (auto simp: loop_moves_def split: if_splits)
    then show ?thesis
    proof cases
      case 1
      then show ?thesis using LBroadcast by (intro that(2) [where l = LSelect and cs = "rn_clients s"]) simp_all
    next
      case 2
      then obtain cs where "t = s\<lparr>rn_clients := cs\<rparr>" "length cs = length (rn_clients s)" using sends_frame by blast
      then show ?thesis using LBroadcast 2(2) by (intro that(2) [where l = "LBroadcast (Suc c)" and cs = cs]) simp_all
    qed
  next
    case (LAnswer j k)
    show ?thesis
    proof (cases k)
      case 0
      then show ?thesis using loop LAnswer that(5) by (simp add: loop_moves_def)
    next
      case (Suc n)
      then show ?thesis using loop LAnswer that(4) by (auto simp: loop_moves_def split: call_phase.splits)
    qed
  qed (use loop in \<open>simp add: loop_moves_def\<close>)
next
  case (client c)
  then obtain p where "s' = set_client c p s" by (auto simp: client_moves_def split: client_phase.splits if_splits)
  then show ?thesis using that(1) [where d = "rn_done s" and cs = "(rn_clients s)[c := p]"] by simp
next
  case (call j)
  let ?q = "rn_calls s ! j"
  consider "s' = set_call j (?q\<lparr>q_phase := QOver\<rparr>) s" "q_phase ?q \<noteq> QOver" "q_phase ?q = QDrains \<longrightarrow> q_closed ?q"
    | t where "q_phase ?q = QSends" "t \<in> set (sends (q_client ?q) s)" "s' = set_call j (?q\<lparr>q_phase := QDrains\<rparr>) t"
    using call(2) by (auto simp: call_moves_def Let_def split: call_phase.splits if_splits)
  then show ?thesis
  proof cases
    case 1
    then show ?thesis using that(6) [where j = j and p = QOver and cs = "rn_clients s", OF call(1)] by simp
  next
    case 2
    then obtain cs where "t = s\<lparr>rn_clients := cs\<rparr>" "length cs = length (rn_clients s)" using sends_frame by blast
    then show ?thesis using 2 that(6) [where j = j and p = QDrains and cs = cs, OF call(1)] by simp
  qed
qed

lemma ending_step_inv:
  assumes "ending_step s s'" and i: "run_inv s"
  shows "run_inv s'"
  using assms(1)
proof (cases rule: ending_step_cases)
  case (3 j k)
  then show ?thesis using i by (auto simp: run_inv_def nth_list_update)
next
  case (4 j k p)
  then show ?thesis using i by (auto simp: run_inv_def nth_list_update)
next
  case (5 j)
  then show ?thesis using i by (auto simp: run_inv_def nth_list_update)
next
  case (6 j p cs)
  then show ?thesis using i by (auto simp: run_inv_def nth_list_update)
qed (use i in \<open>auto simp: run_inv_def\<close>)

section \<open>Hanging\<close>

lemma abandoned_step:
  assumes "ending_step s s'" and a: "abandoned s"
  shows "abandoned s'"
  using assms(1)
proof (cases rule: ending_step_cases)
  case (6 j p cs)
  then show ?thesis using a by (auto simp: abandoned_def nth_list_update)
qed (use a in \<open>auto simp: abandoned_def\<close>)

lemma abandoned_steps: "ending_step\<^sup>*\<^sup>* s s' \<Longrightarrow> abandoned s \<Longrightarrow> abandoned s'"
  by (rule invariant_steps [of ending_step _ _ abandoned]) (auto intro: abandoned_step)

section \<open>Ending\<close>

text \<open>How far a run is from its end.\<close>

fun client_weight :: "client_phase \<Rightarrow> nat" where
  "client_weight CWrites = 2" | "client_weight CSelect = 1" | "client_weight CEnded = 0"

fun call_weight :: "call_phase \<Rightarrow> nat" where
  "call_weight QSends = 2" | "call_weight QOver = 0" | "call_weight _ = 1"

fun loop_weight :: "nat \<Rightarrow> loop_phase \<Rightarrow> nat" where
  "loop_weight n LSelect = 1" | "loop_weight n (LBroadcast c) = 2 + (n - c)"
| "loop_weight n (LAnswer j k) = 2 + 2 * k" | "loop_weight n LEnded = 0"

definition distance :: "session_run \<Rightarrow> nat" where
  "distance s = (if rn_done s then 0 else 1) + loop_weight (length (rn_clients s)) (rn_loop s) +
     sum_list (map client_weight (rn_clients s)) + sum_list (map (call_weight \<circ> q_phase) (rn_calls s))"

lemma client_distance:
  assumes "c < length (rn_clients s)"
  shows "distance (set_client c p s) + client_weight (rn_clients s ! c) = distance s + client_weight p"
  using sum_update [OF assms, of client_weight p] by (simp add: distance_def)

lemma call_distance:
  assumes "j < length (rn_calls s)"
  shows "distance (set_call j q s) + call_weight (q_phase (rn_calls s ! j)) = distance s + call_weight (q_phase q)"
  using sum_update [OF assms, of "call_weight \<circ> q_phase" q] by (simp add: distance_def)

lemma loop_distance:
  "distance (s\<lparr>rn_loop := l\<rparr>) + loop_weight (length (rn_clients s)) (rn_loop s) =
     distance s + loop_weight (length (rn_clients s)) l"
  by (simp add: distance_def)

lemma not_abandoned_call:
  assumes "\<not> abandoned s" and "q_phase q \<noteq> QOver"
  shows "\<not> abandoned (set_call j q s)"
proof
  assume "abandoned (set_call j q s)"
  then obtain i k where "rn_loop s = LAnswer i (Suc k)" "i < length (rn_calls s)" "q_phase ((rn_calls s)[j := q] ! i) = QOver"
    by (auto simp: abandoned_def)
  then show False using assms by (cases "i = j") (auto simp: abandoned_def)
qed

lemma next_step:
  assumes i: "run_inv s" and a: "\<not> abandoned s" and n: "\<not> all_over s"
  shows "\<exists>s'. ending_step s s' \<and> \<not> abandoned s' \<and> distance s' < distance s"
proof -
  consider (cancel) "\<not> rn_done s" | (client) c where "rn_done s" "c < length (rn_clients s)" "rn_clients s ! c \<noteq> CEnded"
    | (send) j where "rn_done s" "\<forall>c < length (rn_clients s). rn_clients s ! c = CEnded" "j < length (rn_calls s)" "q_phase (rn_calls s ! j) = QSends"
    | (loop) "rn_done s" "\<forall>c < length (rn_clients s). rn_clients s ! c = CEnded"
      "\<forall>j < length (rn_calls s). q_phase (rn_calls s ! j) \<noteq> QSends" "rn_loop s \<noteq> LEnded"
    | (call) j where "rn_done s" "\<forall>j < length (rn_calls s). q_phase (rn_calls s ! j) \<noteq> QSends" "rn_loop s = LEnded"
      "j < length (rn_calls s)" "q_phase (rn_calls s ! j) \<noteq> QOver"
    using n unfolding all_over_def list_all_length by blast
  then show ?thesis
  proof cases
    case cancel
    then have "ending_step s (s\<lparr>rn_done := True\<rparr>)" by (rule ending_step.cancel)
    moreover have "distance (s\<lparr>rn_done := True\<rparr>) < distance s" using cancel by (simp add: distance_def)
    ultimately show ?thesis using a by (auto simp: abandoned_def)
  next
    case client
    define p where "p = (if rn_clients s ! c = CWrites then CSelect else CEnded)"
    have "set_client c p s \<in> set (client_moves c s)" using client by (cases "rn_clients s ! c") (simp_all add: client_moves_def p_def)
    then have "ending_step s (set_client c p s)" by (rule ending_step.client [OF client(2)])
    moreover have "client_weight p < client_weight (rn_clients s ! c)" using client(3) by (cases "rn_clients s ! c") (simp_all add: p_def)
    then have "distance (set_client c p s) < distance s" using client_distance [where p = p, OF client(2)] by simp
    ultimately show ?thesis using a by (auto simp: abandoned_def)
  next
    case send
    let ?q = "(rn_calls s ! j)\<lparr>q_phase := QDrains\<rparr>"
    have "q_client (rn_calls s ! j) < length (rn_clients s)" using i send(3) by (simp add: run_inv_def)
    then have "set_call j ?q s \<in> set (call_moves j s)"
      using send by (simp add: call_moves_def Let_def sends_def List.map_filter_def send_taken_def send_dropped_def)
    then have "ending_step s (set_call j ?q s)" by (rule ending_step.call [OF send(3)])
    moreover have "distance (set_call j ?q s) < distance s" using call_distance [where q = ?q, OF send(3)] send(4) by simp
    moreover have "\<not> abandoned (set_call j ?q s)" using a by (rule not_abandoned_call) simp
    ultimately show ?thesis by blast
  next
    case loop
    show ?thesis
    proof (cases "rn_loop s")
      case LSelect
      have "s\<lparr>rn_loop := LEnded\<rparr> \<in> set (loop_moves s)" using loop(1) LSelect by (simp add: loop_moves_def)
      then have "ending_step s (s\<lparr>rn_loop := LEnded\<rparr>)" by (rule ending_step.loop)
      then show ?thesis using loop_distance [where s = s and l = LEnded] LSelect
        by (intro exI [of _ "s\<lparr>rn_loop := LEnded\<rparr>"]) (simp add: abandoned_def)
    next
      case (LBroadcast c)
      define l where "l = (if c < length (rn_clients s) then LBroadcast (Suc c) else LSelect)"
      have "s\<lparr>rn_loop := l\<rparr> \<in> set (loop_moves s)"
        using loop(2) LBroadcast by (simp add: loop_moves_def l_def sends_def List.map_filter_def send_taken_def send_dropped_def)
      then have "ending_step s (s\<lparr>rn_loop := l\<rparr>)" by (rule ending_step.loop)
      moreover have "distance (s\<lparr>rn_loop := l\<rparr>) < distance s" using loop_distance [where s = s and l = l] LBroadcast by (simp add: l_def split: if_splits)
      moreover have "\<not> abandoned (s\<lparr>rn_loop := l\<rparr>)" by (simp add: abandoned_def l_def)
      ultimately show ?thesis by blast
    next
      case (LAnswer j k)
      have j: "j < length (rn_calls s)" "q_phase (rn_calls s ! j) \<in> {QWaits, QDrains, QSends, QOver}"
        using i LAnswer by (auto simp: run_inv_def)
      show ?thesis
      proof (cases k)
        case 0
        let ?q = "(rn_calls s ! j)\<lparr>q_closed := True\<rparr>"
        let ?s = "set_call j ?q (s\<lparr>rn_loop := LSelect\<rparr>)"
        have "?s \<in> set (loop_moves s)" using LAnswer 0 by (simp add: loop_moves_def)
        then have "ending_step s ?s" by (rule ending_step.loop)
        moreover have "distance ?s < distance s"
          using call_distance [where j = j and s = "s\<lparr>rn_loop := LSelect\<rparr>" and q = ?q] j(1) loop_distance [where s = s and l = LSelect] LAnswer 0 by simp
        ultimately show ?thesis by (intro exI [of _ ?s]) (simp add: abandoned_def)
      next
        case (Suc n)
        define p where "p = (if q_phase (rn_calls s ! j) = QWaits then QDrains else QSends)"
        have ph: "q_phase (rn_calls s ! j) = QWaits \<or> q_phase (rn_calls s ! j) = QDrains"
          using j a loop(3) LAnswer Suc by (auto simp: abandoned_def)
        let ?q = "(rn_calls s ! j)\<lparr>q_phase := p\<rparr>"
        let ?s = "set_call j ?q (s\<lparr>rn_loop := LAnswer j n\<rparr>)"
        have "?s \<in> set (loop_moves s)" using LAnswer Suc ph by (auto simp: loop_moves_def p_def)
        then have "ending_step s ?s" by (rule ending_step.loop)
        moreover have "distance ?s < distance s"
          using call_distance [where j = j and s = "s\<lparr>rn_loop := LAnswer j n\<rparr>" and q = ?q] j(1) loop_distance [where s = s and l = "LAnswer j n"] LAnswer Suc ph
          by (auto simp: p_def)
        ultimately show ?thesis using j(1) by (intro exI [of _ ?s]) (simp add: abandoned_def p_def)
      qed
    qed (use loop in simp)
  next
    case call
    let ?q = "(rn_calls s ! j)\<lparr>q_phase := QOver\<rparr>"
    have "q_phase (rn_calls s ! j) = QDrains \<longrightarrow> q_closed (rn_calls s ! j)" using i call by (auto simp: run_inv_def)
    then have "set_call j ?q s \<in> set (call_moves j s)"
      using call by (cases "q_phase (rn_calls s ! j)") (auto simp: call_moves_def Let_def)
    then have "ending_step s (set_call j ?q s)" by (rule ending_step.call [OF call(4)])
    moreover have "call_weight (q_phase (rn_calls s ! j)) > 0" using call(5) by (cases "q_phase (rn_calls s ! j)") simp_all
    then have "distance (set_call j ?q s) < distance s" using call_distance [where q = ?q, OF call(4)] by simp
    moreover have "\<not> abandoned (set_call j ?q s)" using call(3) by (simp add: abandoned_def)
    ultimately show ?thesis by blast
  qed
qed

interpretation session_end: draining ending_step "\<lambda>s. run_inv s \<and> \<not> abandoned s" all_over distance
proof unfold_locales
  fix s
  assume a: "run_inv s \<and> \<not> abandoned s" and n: "\<not> all_over s"
  then obtain t where "ending_step s t" "\<not> abandoned t" "distance t < distance s" using next_step by blast
  then show "\<exists>s'. ending_step s s' \<and> (run_inv s' \<and> \<not> abandoned s') \<and> distance s' < distance s"
    using ending_step_inv a by blast
qed

section \<open>Properties\<close>

text \<open>
  C6. A session can always come to its end, but for one case: however its loop, its client services and
  the calls for missing entries have been interleaved, there is a way in which all of them end, unless the
  loop has begun to answer a call that has given up in between, because the session's context has ended.
  In that case the loop stands at its channel for ever: it never ends, so neither does the session's \<open>Start\<close>,
  nor the server's, which waits for it.
\<close>

theorem session_ends_unless_abandoned:
  assumes "\<forall>(c, k) \<in> set reqs. c < n" and "ending_step\<^sup>*\<^sup>* (new_run n reqs) s"
  shows "((\<exists>s'. ending_step\<^sup>*\<^sup>* s s' \<and> all_over s') \<longleftrightarrow> \<not> abandoned s) \<and>
    (abandoned s \<longrightarrow> (\<forall>s'. ending_step\<^sup>*\<^sup>* s s' \<longrightarrow> rn_loop s' \<noteq> LEnded))"
proof -
  have i: "run_inv s" by (rule invariant_steps [where I = run_inv, OF assms(2) new_run_inv [OF assms(1)]]) (rule ending_step_inv)
  have h: "rn_loop t \<noteq> LEnded" if "abandoned s" "ending_step\<^sup>*\<^sup>* s t" for t
    using abandoned_steps [OF that(2,1)] by (auto simp: abandoned_def)
  then show ?thesis using session_end.can_end [of s] i by (auto simp: all_over_def)
qed

text \<open>One client asks for entries that fill one pack; the context ends before it is handed over.\<close>

lemma abandoned_run:
  obtains s where "ending_step\<^sup>*\<^sup>* (new_run 1 [(0, 1)]) s" "abandoned s"
proof -
  define s0 where "s0 = new_run 1 [(0, 1)]"
  define q where "q = (\<lambda>p. \<lparr>q_client = 0, q_phase = p, q_closed = False\<rparr>)"
  define s1 where "s1 = s0\<lparr>rn_loop := LAnswer 0 1, rn_calls := [q QWaits]\<rparr>"
  define s2 where "s2 = s1\<lparr>rn_done := True\<rparr>"
  define s3 where "s3 = s2\<lparr>rn_calls := [q QOver]\<rparr>"
  note defs = s0_def s1_def s2_def s3_def q_def new_run_def
  have "ending_step s0 s1" by (rule ending_step.loop) (simp add: defs loop_moves_def List.map_filter_def)
  moreover have "ending_step s1 s2" unfolding s2_def by (rule ending_step.cancel) (simp add: defs)
  moreover have "ending_step s2 s3" by (rule ending_step.call [of 0]) (simp_all add: defs call_moves_def)
  ultimately have "ending_step\<^sup>*\<^sup>* s0 s3" by (meson converse_rtranclp_into_rtranclp rtranclp.rtrancl_refl)
  moreover have "abandoned s3" by (simp add: abandoned_def defs)
  ultimately show ?thesis using that by (simp add: s0_def)
qed

theorem session_ends_unless_abandoned_witness:
  "\<exists>s. ending_step\<^sup>*\<^sup>* (new_run 1 [(0, 1)]) s \<and> (\<nexists>s'. ending_step\<^sup>*\<^sup>* s s' \<and> all_over s')"
proof -
  obtain s where s: "ending_step\<^sup>*\<^sup>* (new_run 1 [(0, 1)]) s" "abandoned s" by (rule abandoned_run)
  have r: "\<forall>(c, k) \<in> set [(0, 1)]. c < (1 :: nat)" by simp
  show ?thesis using session_ends_unless_abandoned [OF r s(1)] s by blast
qed

end
