(* ===== verification/LobbyEnds.thy ===== *)
theory LobbyEnds
  imports Draining
begin

text \<open>
  How a client's lobby ends: the goroutines of \<open>Start\<close> in \<open>udpstar/client/client_lobby.go\<close>, the calls of \<open>Join\<close>
  and \<open>Leave\<close> that come in between, and the wait group and the channels between them, as one step relation.
  What the goroutines send and what \<open>Start\<close> returns is the subject of \<open>LobbyClients\<close>.
\<close>

section \<open>Goroutines\<close>

text \<open>
  The first goroutine: at its select, before \<open>commandWg.Wait\<close>, asleep in it, woken but not yet back from it, before
  \<open>cancelInternal\<close>, before the closing of \<open>doneCh\<close>, over.
\<close>

datatype end_phase = EWaits | EWaitGroup | ESleeps | EWoken | ECancel | EClose | EOver

text \<open>The goroutine of the commands: at its select, in \<open>process\<close>, before \<open>commandWg.Done\<close>, over.\<close>

datatype cmd_phase = DSelect | DProcess | DDone | DOver

text \<open>The goroutines of the requests and of the ping service: at the select, sending on a channel, over.\<close>

datatype timer_phase = TSelect | TSends | TOver

text \<open>The goroutines that write to the socket: at the channel, writing, over.\<close>

datatype writer_phase = WTakes | WWrites | WOver

text \<open>\<open>Start\<close> itself: waiting for its goroutines, between the closing of \<open>pingCh\<close> and of \<open>sendCh\<close>, after it.\<close>

datatype main_phase = MWaits | MClosing | MReturns

text \<open>A call of \<open>sendCommand\<close>: not made yet, at its select, before \<open>commandWg.Done\<close>, over.\<close>

datatype join_phase = JNew | JSelect | JDropped | JOver

record lobby_run =
  lb_ctx :: bool
  lb_timer :: bool
  lb_finished :: bool
  lb_count :: nat
  lb_end :: end_phase
  lb_cmd :: cmd_phase
  lb_req :: timer_phase
  lb_ping :: timer_phase
  lb_sender :: writer_phase
  lb_pinger :: writer_phase
  lb_main :: main_phase
  lb_calls :: "join_phase list"
  lb_panic :: "string option"

definition new_lobby_run :: "nat \<Rightarrow> lobby_run" where
  "new_lobby_run n = \<lparr>lb_ctx = False, lb_timer = False, lb_finished = False, lb_count = 0, lb_end = EWaits,
     lb_cmd = DSelect, lb_req = TSelect, lb_ping = TSelect, lb_sender = WTakes, lb_pinger = WTakes,
     lb_main = MWaits, lb_calls = replicate n JNew, lb_panic = None\<rparr>"

definition lobby_done :: "lobby_run \<Rightarrow> bool" where
  "lobby_done s \<longleftrightarrow> lb_end s = EOver"

definition internal_done :: "lobby_run \<Rightarrow> bool" where
  "internal_done s \<longleftrightarrow> lb_ctx s \<or> lb_end s \<in> {EClose, EOver}"

section \<open>The wait group and the channels\<close>

definition negative_counter :: string where
  "negative_counter = ''sync: negative WaitGroup counter''"

definition group_reused :: string where
  "group_reused = ''sync: WaitGroup is reused before previous Wait has returned''"

definition closed_channel :: string where
  "closed_channel = ''send on closed channel''"

text \<open>
  \<open>sync.WaitGroup\<close>: \<open>Done\<close> wakes the waiting goroutine when the counter gets to zero, and \<open>Wait\<close> panics when the
  counter is not zero any more by the time in which it goes on.
\<close>

definition group_Add :: "lobby_run \<Rightarrow> lobby_run" where
  "group_Add s = s\<lparr>lb_count := lb_count s + 1\<rparr>"

definition group_Done :: "lobby_run \<Rightarrow> lobby_run" where
  "group_Done s =
     (if lb_count s = 0 then s\<lparr>lb_panic := Some negative_counter\<rparr>
      else s\<lparr>lb_count := lb_count s - 1, lb_end := if lb_count s = 1 \<and> lb_end s = ESleeps then EWoken else lb_end s\<rparr>)"

text \<open>A send on \<open>sendCh\<close> and on \<open>pingCh\<close>.\<close>

definition sends_message :: "lobby_run \<Rightarrow> lobby_run list" where
  "sends_message s =
     (if lb_main s = MReturns then [s\<lparr>lb_panic := Some closed_channel\<rparr>]
      else if lb_sender s = WTakes then [s\<lparr>lb_sender := WWrites\<rparr>] else [])"

definition sends_ping :: "lobby_run \<Rightarrow> lobby_run list" where
  "sends_ping s =
     (if lb_main s \<noteq> MWaits then [s\<lparr>lb_panic := Some closed_channel\<rparr>]
      else if lb_pinger s = WTakes then [s\<lparr>lb_pinger := WWrites\<rparr>] else [])"

section \<open>Steps\<close>

definition end_moves :: "lobby_run \<Rightarrow> lobby_run list" where
  "end_moves s =
     (case lb_end s of
        EWaits \<Rightarrow> (if lb_timer s then [s\<lparr>lb_timer := False, lb_finished := True, lb_end := EWaitGroup\<rparr>] else []) @
          (if lb_ctx s then [s\<lparr>lb_end := EWaitGroup\<rparr>] else [])
      | EWaitGroup \<Rightarrow> [s\<lparr>lb_end := if lb_count s = 0 then ECancel else ESleeps\<rparr>]
      | ESleeps \<Rightarrow> []
      | EWoken \<Rightarrow> [if lb_count s \<noteq> 0 then s\<lparr>lb_panic := Some group_reused\<rparr> else s\<lparr>lb_end := ECancel\<rparr>]
      | ECancel \<Rightarrow> [s\<lparr>lb_end := EClose\<rparr>]
      | EClose \<Rightarrow> [s\<lparr>lb_end := EOver\<rparr>]
      | EOver \<Rightarrow> [])"

definition cmd_moves :: "lobby_run \<Rightarrow> lobby_run list" where
  "cmd_moves s =
     (case lb_cmd s of
        DSelect \<Rightarrow> (if lobby_done s then [s\<lparr>lb_cmd := DOver\<rparr>] else []) @
          map (\<lambda>j. s\<lparr>lb_cmd := DProcess, lb_calls := (lb_calls s)[j := JOver]\<rparr>)
            (filter (\<lambda>j. lb_calls s ! j = JSelect) [0..<length (lb_calls s)])
      | DProcess \<Rightarrow> (if lobby_done s then [s\<lparr>lb_cmd := DDone\<rparr>] else []) @ map (\<lambda>s. s\<lparr>lb_cmd := DDone\<rparr>) (sends_message s)
      | DDone \<Rightarrow> [group_Done (s\<lparr>lb_cmd := DSelect\<rparr>)]
      | DOver \<Rightarrow> [])"

definition req_moves :: "lobby_run \<Rightarrow> lobby_run list" where
  "req_moves s =
     (case lb_req s of
        TSelect \<Rightarrow> (if lobby_done s then [s\<lparr>lb_req := TOver\<rparr>] else []) @ [s\<lparr>lb_req := TSends\<rparr>]
      | TSends \<Rightarrow> map (\<lambda>s. s\<lparr>lb_req := TSelect\<rparr>) (sends_message s)
      | TOver \<Rightarrow> [])"

definition ping_moves :: "lobby_run \<Rightarrow> lobby_run list" where
  "ping_moves s =
     (case lb_ping s of
        TSelect \<Rightarrow> (if internal_done s then [s\<lparr>lb_ping := TOver\<rparr>] else []) @ [s\<lparr>lb_ping := TSends\<rparr>]
      | TSends \<Rightarrow> map (\<lambda>s. s\<lparr>lb_ping := TSelect\<rparr>) (sends_ping s)
      | TOver \<Rightarrow> [])"

definition sender_moves :: "lobby_run \<Rightarrow> lobby_run list" where
  "sender_moves s =
     (case lb_sender s of
        WTakes \<Rightarrow> (if lb_main s = MReturns then [s\<lparr>lb_sender := WOver\<rparr>] else [])
      | WWrites \<Rightarrow> [s\<lparr>lb_sender := WTakes\<rparr>]
      | WOver \<Rightarrow> [])"

definition pinger_moves :: "lobby_run \<Rightarrow> lobby_run list" where
  "pinger_moves s =
     (case lb_pinger s of
        WTakes \<Rightarrow> (if lb_main s \<noteq> MWaits then [s\<lparr>lb_pinger := WOver\<rparr>] else [])
      | WWrites \<Rightarrow> [s\<lparr>lb_pinger := WTakes\<rparr>]
      | WOver \<Rightarrow> [])"

definition main_moves :: "lobby_run \<Rightarrow> lobby_run list" where
  "main_moves s =
     (case lb_main s of
        MWaits \<Rightarrow> (if lb_cmd s = DOver \<and> lb_req s = TOver \<and> lb_ping s = TOver then [s\<lparr>lb_main := MClosing\<rparr>] else [])
      | MClosing \<Rightarrow> [s\<lparr>lb_main := MReturns\<rparr>]
      | MReturns \<Rightarrow> [])"

definition join_moves :: "nat \<Rightarrow> lobby_run \<Rightarrow> lobby_run list" where
  "join_moves j s =
     (case lb_calls s ! j of
        JNew \<Rightarrow> [group_Add (s\<lparr>lb_calls := (lb_calls s)[j := JSelect]\<rparr>)]
      | JSelect \<Rightarrow> (if lobby_done s then [s\<lparr>lb_calls := (lb_calls s)[j := JDropped]\<rparr>] else [])
      | JDropped \<Rightarrow> [group_Done (s\<lparr>lb_calls := (lb_calls s)[j := JOver]\<rparr>)]
      | JOver \<Rightarrow> [])"

text \<open>
  The environment ends the context, and the messages of the server set and stop the finish timer. After a
  panic there are no more steps.
\<close>

definition outside_moves :: "lobby_run \<Rightarrow> lobby_run list" where
  "outside_moves s = [s\<lparr>lb_ctx := True\<rparr>, s\<lparr>lb_timer := True\<rparr>, s\<lparr>lb_timer := False\<rparr>]"

definition lobby_moves :: "lobby_run \<Rightarrow> lobby_run list" where
  "lobby_moves s = outside_moves s @ end_moves s @ cmd_moves s @ req_moves s @ ping_moves s @ sender_moves s @
     pinger_moves s @ main_moves s @ concat (map (\<lambda>j. join_moves j s) [0..<length (lb_calls s)])"

inductive lobby_run_step :: "lobby_run \<Rightarrow> lobby_run \<Rightarrow> bool" where
  move: "lb_panic s = None \<Longrightarrow> s' \<in> set (lobby_moves s) \<Longrightarrow> lobby_run_step s s'"

section \<open>Invariant\<close>

fun call_pending :: "join_phase \<Rightarrow> nat" where
  "call_pending JSelect = 1" | "call_pending JDropped = 1" | "call_pending _ = 0"

fun cmd_pending :: "cmd_phase \<Rightarrow> nat" where
  "cmd_pending DProcess = 1" | "cmd_pending DDone = 1" | "cmd_pending _ = 0"

text \<open>
  The counter is the number of commands that are on their way; the channels are closed only when nobody
  sends on them any more.
\<close>

definition pending_calls :: "join_phase list \<Rightarrow> nat" where
  "pending_calls qs = sum_list (map call_pending qs)"

definition count_ok :: "lobby_run \<Rightarrow> bool" where
  "count_ok s \<longleftrightarrow> lb_count s = pending_calls (lb_calls s) + cmd_pending (lb_cmd s) \<and>
     (lb_end s = ESleeps \<longrightarrow> 0 < lb_count s)"

definition order_ok :: "lobby_run \<Rightarrow> bool" where
  "order_ok s \<longleftrightarrow> (lb_main s \<noteq> MWaits \<longrightarrow> lb_cmd s = DOver \<and> lb_req s = TOver \<and> lb_ping s = TOver) \<and>
     (lb_cmd s = DOver \<or> lb_req s = TOver \<longrightarrow> lb_end s = EOver) \<and> (lb_ping s = TOver \<longrightarrow> internal_done s) \<and>
     (lb_sender s = WOver \<longrightarrow> lb_main s = MReturns) \<and> (lb_pinger s = WOver \<longrightarrow> lb_main s \<noteq> MWaits)"

definition lobby_inv :: "lobby_run \<Rightarrow> bool" where
  "lobby_inv s \<longleftrightarrow> (lb_panic s = None \<longrightarrow> count_ok s \<and> order_ok s) \<and> (lb_panic s \<in> {None, Some group_reused})"

definition lobby_good :: "lobby_run \<Rightarrow> bool" where
  "lobby_good s \<longleftrightarrow> lb_panic s = None \<and> count_ok s \<and> order_ok s"

lemma new_lobby_inv: "lobby_inv (new_lobby_run n)"
  by (simp add: lobby_inv_def count_ok_def order_ok_def new_lobby_run_def pending_calls_def map_replicate_const sum_list_replicate)

lemma pending_update:
  assumes "j < length qs"
  shows "pending_calls (qs[j := q]) + call_pending (qs ! j) = pending_calls qs + call_pending q"
  using sum_update [OF assms, of call_pending q] by (simp add: pending_calls_def)

lemma count_calls:
  assumes "j < length (lb_calls s)" and "lb_calls s ! j = p"
  shows "pending_calls ((lb_calls s)[j := q]) + call_pending p = pending_calls (lb_calls s) + call_pending q"
  using pending_update [OF assms(1), of q] assms(2) by simp

lemma group_Done_ok:
  assumes "lb_panic t = None" and "order_ok t" and "lb_count t = Suc (pending_calls (lb_calls t) + cmd_pending (lb_cmd t))"
  shows "lobby_inv (group_Done t)"
  using assms by (auto simp: lobby_inv_def count_ok_def order_ok_def group_Done_def internal_done_def)

lemmas lobby_simps = lobby_good_def lobby_inv_def count_ok_def order_ok_def lobby_done_def internal_done_def

lemma lobby_good_inv: "lobby_good s \<Longrightarrow> lobby_inv s"
  by (simp add: lobby_good_def lobby_inv_def)

lemma lobby_good_frame:
  assumes "lobby_good s" and "lb_panic s' = None" and "lb_count s' = lb_count s" and "lb_calls s' = lb_calls s"
    and "lb_end s' = lb_end s" and "lb_cmd s' = lb_cmd s" and "lb_main s' = lb_main s" and "lb_ctx s \<longrightarrow> lb_ctx s'"
    and "lb_sender s' = WOver \<longrightarrow> lb_sender s = WOver" and "lb_pinger s' = WOver \<longrightarrow> lb_pinger s = WOver"
    and "lb_req s' = lb_req s \<or> lb_req s \<noteq> TOver \<and> (lb_req s' = TOver \<longrightarrow> lobby_done s)"
    and "lb_ping s' = lb_ping s \<or> lb_ping s \<noteq> TOver \<and> (lb_ping s' = TOver \<longrightarrow> internal_done s)"
  shows "lobby_inv s'"
proof -
  have "lobby_good s'"
    using assms unfolding lobby_good_def count_ok_def order_ok_def lobby_done_def internal_done_def by metis
  then show ?thesis by (rule lobby_good_inv)
qed

lemma outside_moves_inv: "lobby_good s \<Longrightarrow> s' \<in> set (outside_moves s) \<Longrightarrow> lobby_inv s'"
  by (frule lobby_good_frame [of s s']) (auto simp: outside_moves_def lobby_good_def)

lemma end_moves_inv: "lobby_good s \<Longrightarrow> s' \<in> set (end_moves s) \<Longrightarrow> lobby_inv s'"
  by (auto simp: end_moves_def lobby_simps split: end_phase.splits if_splits)

lemma still_waits:
  assumes "lobby_good s" and "lb_cmd s \<noteq> DOver \<or> lb_req s \<noteq> TOver \<or> lb_ping s \<noteq> TOver"
  shows "lb_main s = MWaits"
  using assms unfolding lobby_good_def order_ok_def by blast

lemma sends_message_open: "lb_main s = MWaits \<Longrightarrow> sends_message s = (if lb_sender s = WTakes then [s\<lparr>lb_sender := WWrites\<rparr>] else [])"
  by (simp add: sends_message_def)

lemma sends_ping_open: "lb_main s = MWaits \<Longrightarrow> sends_ping s = (if lb_pinger s = WTakes then [s\<lparr>lb_pinger := WWrites\<rparr>] else [])"
  by (simp add: sends_ping_def)

lemma req_moves_inv:
  assumes "lobby_good s" and "s' \<in> set (req_moves s)"
  shows "lobby_inv s'"
proof -
  have "lobby_done s \<and> lb_req s = TSelect \<and> s' = s\<lparr>lb_req := TOver\<rparr> \<or> lb_req s = TSelect \<and> s' = s\<lparr>lb_req := TSends\<rparr> \<or>
      lb_req s = TSends \<and> s' = s\<lparr>lb_sender := WWrites, lb_req := TSelect\<rparr>"
    using assms(2) sends_message_open [OF still_waits [OF assms(1)]] by (cases "lb_req s") (auto simp: req_moves_def split: if_splits)
  then show ?thesis using assms(1) by (elim disjE conjE; intro lobby_good_frame [OF assms(1)]) (simp_all add: lobby_good_def)
qed

lemma ping_moves_inv:
  assumes "lobby_good s" and "s' \<in> set (ping_moves s)"
  shows "lobby_inv s'"
proof -
  have "internal_done s \<and> lb_ping s = TSelect \<and> s' = s\<lparr>lb_ping := TOver\<rparr> \<or> lb_ping s = TSelect \<and> s' = s\<lparr>lb_ping := TSends\<rparr> \<or>
      lb_ping s = TSends \<and> s' = s\<lparr>lb_pinger := WWrites, lb_ping := TSelect\<rparr>"
    using assms(2) sends_ping_open [OF still_waits [OF assms(1)]] by (cases "lb_ping s") (auto simp: ping_moves_def split: if_splits)
  then show ?thesis using assms(1) by (elim disjE conjE; intro lobby_good_frame [OF assms(1)]) (simp_all add: lobby_good_def)
qed

lemma sender_moves_inv: "lobby_good s \<Longrightarrow> s' \<in> set (sender_moves s) \<Longrightarrow> lobby_inv s'"
  by (auto simp: sender_moves_def lobby_simps split: writer_phase.splits if_splits)

lemma pinger_moves_inv: "lobby_good s \<Longrightarrow> s' \<in> set (pinger_moves s) \<Longrightarrow> lobby_inv s'"
  by (auto simp: pinger_moves_def lobby_simps split: writer_phase.splits if_splits)

lemma main_moves_inv: "lobby_good s \<Longrightarrow> s' \<in> set (main_moves s) \<Longrightarrow> lobby_inv s'"
  by (auto simp: main_moves_def lobby_simps split: main_phase.splits if_splits)

lemma cmd_moves_inv:
  assumes run: "lobby_good s" and m: "s' \<in> set (cmd_moves s)"
  shows "lobby_inv s'"
proof (cases "lb_cmd s")
  case DSelect
  then consider "lobby_done s" "s' = s\<lparr>lb_cmd := DOver\<rparr>"
    | j where "j < length (lb_calls s)" "lb_calls s ! j = JSelect" "s' = s\<lparr>lb_cmd := DProcess, lb_calls := (lb_calls s)[j := JOver]\<rparr>"
    using m by (auto simp: cmd_moves_def split: if_splits)
  then show ?thesis
  proof cases
    case 1
    then show ?thesis using run DSelect by (auto simp: lobby_simps)
  next
    case 2
    then show ?thesis using run DSelect count_calls [OF 2(1,2), of JOver] by (auto simp: lobby_simps)
  qed
next
  case DProcess
  then have "s' = s\<lparr>lb_cmd := DDone\<rparr> \<or> s' = s\<lparr>lb_sender := WWrites, lb_cmd := DDone\<rparr>"
    using m sends_message_open [OF still_waits [OF run]] by (auto simp: cmd_moves_def split: if_splits)
  then have "lobby_good s'" using run DProcess
    by (elim disjE) (auto simp: lobby_good_def count_ok_def order_ok_def internal_done_def)
  then show ?thesis by (rule lobby_good_inv)
next
  case DDone
  then have "s' = group_Done (s\<lparr>lb_cmd := DSelect\<rparr>)" using m by (simp add: cmd_moves_def)
  moreover have "lobby_inv (group_Done (s\<lparr>lb_cmd := DSelect\<rparr>))"
    using run DDone by (intro group_Done_ok) (auto simp: lobby_simps)
  ultimately show ?thesis by simp
qed (use m in \<open>simp add: cmd_moves_def\<close>)

lemma join_moves_inv:
  assumes run: "lobby_good s" and m: "s' \<in> set (join_moves j s)" and j: "j < length (lb_calls s)"
  shows "lobby_inv s'"
proof (cases "lb_calls s ! j")
  case JNew
  then show ?thesis using run m count_calls [OF j JNew, of JSelect] by (auto simp: join_moves_def group_Add_def lobby_simps)
next
  case JSelect
  then show ?thesis using run m count_calls [OF j JSelect, of JDropped] by (auto simp: join_moves_def lobby_simps split: if_splits)
next
  case JDropped
  then have "s' = group_Done (s\<lparr>lb_calls := (lb_calls s)[j := JOver]\<rparr>)" using m by (simp add: join_moves_def)
  moreover have "lobby_inv (group_Done (s\<lparr>lb_calls := (lb_calls s)[j := JOver]\<rparr>))"
    using run count_calls [OF j JDropped, of JOver] by (intro group_Done_ok) (auto simp: lobby_simps)
  ultimately show ?thesis by simp
qed (use m in \<open>simp add: join_moves_def\<close>)

lemma lobby_run_step_inv:
  assumes "lobby_run_step s s'" and "lobby_inv s"
  shows "lobby_inv s'"
  using assms(1)
proof cases
  case move
  then have r: "lobby_good s" using assms(2) by (simp add: lobby_inv_def lobby_good_def)
  show ?thesis using move(2)
    by (auto simp: lobby_moves_def intro: outside_moves_inv [OF r] end_moves_inv [OF r] req_moves_inv [OF r] ping_moves_inv [OF r]
        sender_moves_inv [OF r] pinger_moves_inv [OF r] main_moves_inv [OF r] cmd_moves_inv [OF r] join_moves_inv [OF r])
qed

section \<open>Ending\<close>

fun end_weight :: "end_phase \<Rightarrow> nat" where
  "end_weight EWaits = 6" | "end_weight EWaitGroup = 5" | "end_weight ESleeps = 4" | "end_weight EWoken = 3"
| "end_weight ECancel = 2" | "end_weight EClose = 1" | "end_weight EOver = 0"

fun cmd_weight :: "cmd_phase \<Rightarrow> nat" where
  "cmd_weight DSelect = 1" | "cmd_weight DProcess = 4" | "cmd_weight DDone = 2" | "cmd_weight DOver = 0"

fun timer_weight :: "timer_phase \<Rightarrow> nat" where
  "timer_weight TSelect = 1" | "timer_weight TSends = 3" | "timer_weight TOver = 0"

fun writer_weight :: "writer_phase \<Rightarrow> nat" where
  "writer_weight WTakes = 1" | "writer_weight WWrites = 2" | "writer_weight WOver = 0"

fun main_weight :: "main_phase \<Rightarrow> nat" where
  "main_weight MWaits = 2" | "main_weight MClosing = 1" | "main_weight MReturns = 0"

fun join_weight :: "join_phase \<Rightarrow> nat" where
  "join_weight JSelect = 8" | "join_weight JDropped = 1" | "join_weight _ = 0"

definition joins_weight :: "join_phase list \<Rightarrow> nat" where
  "joins_weight qs = sum_list (map join_weight qs)"

definition lobby_distance :: "lobby_run \<Rightarrow> nat" where
  "lobby_distance s = (if lb_ctx s then 0 else 1) + end_weight (lb_end s) + cmd_weight (lb_cmd s) + timer_weight (lb_req s) +
     timer_weight (lb_ping s) + writer_weight (lb_sender s) + writer_weight (lb_pinger s) + main_weight (lb_main s) +
     joins_weight (lb_calls s)"

text \<open>\<open>Start\<close> has returned, its goroutines are over and no call is in \<open>sendCommand\<close>.\<close>

definition lobby_over :: "lobby_run \<Rightarrow> bool" where
  "lobby_over s \<longleftrightarrow> lb_main s = MReturns \<and> lb_cmd s = DOver \<and> lb_req s = TOver \<and> lb_ping s = TOver \<and> lb_end s = EOver \<and>
     lb_sender s = WOver \<and> lb_pinger s = WOver \<and> list_all (\<lambda>q. q = JNew \<or> q = JOver) (lb_calls s)"

lemma joins_update:
  assumes "j < length qs"
  shows "joins_weight (qs[j := q]) + join_weight (qs ! j) = joins_weight qs + join_weight q"
  using sum_update [OF assms, of join_weight q] by (simp add: joins_weight_def)

lemma nearer:
  assumes "lobby_good s" and "s' \<in> set (lobby_moves s)" and "lb_panic s' = None" and "lobby_distance s' < lobby_distance s"
  shows "\<exists>s'. lobby_run_step s s' \<and> lobby_good s' \<and> lobby_distance s' < lobby_distance s"
proof -
  have st: "lobby_run_step s s'" using assms(1,2) by (intro lobby_run_step.move) (simp_all add: lobby_good_def)
  then have "lobby_inv s'" by (rule lobby_run_step_inv) (rule lobby_good_inv [OF assms(1)])
  then show ?thesis using st assms(3,4) by (auto simp: lobby_inv_def lobby_good_def)
qed

text \<open>Of the goroutines that are not at rest one can go on.\<close>

definition quiet :: "lobby_run \<Rightarrow> bool" where
  "quiet s \<longleftrightarrow> lb_sender s \<noteq> WWrites \<and> lb_pinger s \<noteq> WWrites \<and> lb_cmd s \<in> {DSelect, DOver} \<and> lb_req s \<noteq> TSends \<and> lb_ping s \<noteq> TSends"

lemma busy_goes_on:
  assumes g: "lobby_good s" and q: "\<not> quiet s"
  shows "\<exists>s'. lobby_run_step s s' \<and> lobby_good s' \<and> lobby_distance s' < lobby_distance s"
proof -
  have p: "lb_panic s = None" using g by (simp add: lobby_good_def)
  have w: "lb_sender s \<noteq> WOver" "lb_pinger s \<noteq> WOver" if "lb_main s = MWaits"
    using g that by (auto simp: lobby_good_def order_ok_def)
  consider "lb_sender s = WWrites" | "lb_pinger s = WWrites" | "lb_sender s \<noteq> WWrites" "lb_cmd s = DProcess" | "lb_cmd s = DDone"
    | "lb_sender s \<noteq> WWrites" "lb_req s = TSends" | "lb_pinger s \<noteq> WWrites" "lb_ping s = TSends"
    using q by (cases "lb_cmd s") (auto simp: quiet_def)
  then show ?thesis
  proof cases
    case 1
    then show ?thesis using p
      by (intro nearer [OF g, of "s\<lparr>lb_sender := WTakes\<rparr>"]) (simp_all add: lobby_moves_def sender_moves_def lobby_distance_def)
  next
    case 2
    then show ?thesis using p
      by (intro nearer [OF g, of "s\<lparr>lb_pinger := WTakes\<rparr>"]) (simp_all add: lobby_moves_def pinger_moves_def lobby_distance_def)
  next
    case 3
    have m: "lb_main s = MWaits" using still_waits [OF g] 3 by simp
    then have t: "lb_sender s = WTakes" using w(1) 3(1) by (cases "lb_sender s") simp_all
    then show ?thesis using p 3 m
      by (intro nearer [OF g, of "s\<lparr>lb_sender := WWrites, lb_cmd := DDone\<rparr>"])
        (simp_all add: lobby_moves_def cmd_moves_def sends_message_open lobby_distance_def)
  next
    case 4
    have "lb_count s \<noteq> 0" using g 4 by (simp add: lobby_good_def count_ok_def)
    then show ?thesis using p 4
      by (intro nearer [OF g, of "group_Done (s\<lparr>lb_cmd := DSelect\<rparr>)"])
        (simp_all add: lobby_moves_def cmd_moves_def group_Done_def lobby_distance_def)
  next
    case 5
    have m: "lb_main s = MWaits" using still_waits [OF g] 5 by simp
    then have t: "lb_sender s = WTakes" using w(1) 5(1) by (cases "lb_sender s") simp_all
    then show ?thesis using p 5 m
      by (intro nearer [OF g, of "s\<lparr>lb_sender := WWrites, lb_req := TSelect\<rparr>"])
        (simp_all add: lobby_moves_def req_moves_def sends_message_open lobby_distance_def)
  next
    case 6
    have m: "lb_main s = MWaits" using still_waits [OF g] 6 by simp
    then have t: "lb_pinger s = WTakes" using w(2) 6(1) by (cases "lb_pinger s") simp_all
    then show ?thesis using p 6 m
      by (intro nearer [OF g, of "s\<lparr>lb_pinger := WWrites, lb_ping := TSelect\<rparr>"])
        (simp_all add: lobby_moves_def ping_moves_def sends_ping_open lobby_distance_def)
  qed
qed

lemma calls_go_on:
  assumes g: "lobby_good s" and q: "quiet s" and j: "j < length (lb_calls s)" "lb_calls s ! j = JSelect \<or> lb_calls s ! j = JDropped"
  shows "\<exists>s'. lobby_run_step s s' \<and> lobby_good s' \<and> lobby_distance s' < lobby_distance s"
proof -
  have p: "lb_panic s = None" using g by (simp add: lobby_good_def)
  have in_joins: "t \<in> set (join_moves j s) \<Longrightarrow> t \<in> set (lobby_moves s)" for t
    using j(1) by (auto simp: lobby_moves_def)
  consider "lb_calls s ! j = JSelect" "lb_cmd s = DSelect" | "lb_calls s ! j = JSelect" "lb_cmd s = DOver" | "lb_calls s ! j = JDropped"
    using j(2) q by (auto simp: quiet_def)
  then show ?thesis
  proof cases
    case 1
    then show ?thesis using p j(1) joins_update [OF j(1), of JOver]
      by (intro nearer [OF g, of "s\<lparr>lb_cmd := DProcess, lb_calls := (lb_calls s)[j := JOver]\<rparr>"])
        (simp_all add: lobby_moves_def cmd_moves_def lobby_distance_def)
  next
    case 2
    then have "lobby_done s" using g by (simp add: lobby_good_def order_ok_def lobby_done_def)
    then show ?thesis using p 2 joins_update [OF j(1), of JDropped]
      by (intro nearer [OF g, of "s\<lparr>lb_calls := (lb_calls s)[j := JDropped]\<rparr>"])
        (simp_all add: in_joins join_moves_def lobby_distance_def)
  next
    case 3
    have "call_pending (lb_calls s ! j) \<le> pending_calls (lb_calls s)"
      using elem_le_sum_list [of j "map call_pending (lb_calls s)"] j(1) by (simp add: pending_calls_def)
    then have "lb_count s \<noteq> 0" using g 3 by (simp add: lobby_good_def count_ok_def)
    then show ?thesis using p 3 joins_update [OF j(1), of JOver]
      by (intro nearer [OF g, of "group_Done (s\<lparr>lb_calls := (lb_calls s)[j := JOver]\<rparr>)"])
        (simp_all add: in_joins join_moves_def group_Done_def lobby_distance_def)
  qed
qed

lemma no_calls_pending: "list_all (\<lambda>q. q = JNew \<or> q = JOver) qs \<Longrightarrow> pending_calls qs = 0"
  by (induction qs) (auto simp: pending_calls_def)

lemma end_goes_on:
  assumes g: "lobby_good s" and q: "quiet s" and c: "list_all (\<lambda>q. q = JNew \<or> q = JOver) (lb_calls s)" and e: "lb_end s \<noteq> EOver"
  shows "\<exists>s'. lobby_run_step s s' \<and> lobby_good s' \<and> lobby_distance s' < lobby_distance s"
proof -
  have p: "lb_panic s = None" using g by (simp add: lobby_good_def)
  have n: "lb_count s = 0" using g q no_calls_pending [OF c] by (auto simp: lobby_good_def count_ok_def quiet_def)
  then have "lb_end s \<noteq> ESleeps" using g by (auto simp: lobby_good_def count_ok_def)
  then consider "lb_end s = EWaits" "\<not> lb_ctx s" | "lb_end s = EWaits" "lb_ctx s" | "lb_end s = EWaitGroup \<or> lb_end s = EWoken"
    | "lb_end s = ECancel" | "lb_end s = EClose" using e by (cases "lb_end s") auto
  then show ?thesis
  proof cases
    case 1
    then show ?thesis using p
      by (intro nearer [OF g, of "s\<lparr>lb_ctx := True\<rparr>"]) (simp_all add: lobby_moves_def outside_moves_def lobby_distance_def)
  next
    case 2
    then show ?thesis using p
      by (intro nearer [OF g, of "s\<lparr>lb_end := EWaitGroup\<rparr>"]) (simp_all add: lobby_moves_def end_moves_def lobby_distance_def)
  next
    case 3
    then show ?thesis using p n
      by (intro nearer [OF g, of "s\<lparr>lb_end := ECancel\<rparr>"]) (auto simp: lobby_moves_def end_moves_def lobby_distance_def)
  next
    case 4
    then show ?thesis using p
      by (intro nearer [OF g, of "s\<lparr>lb_end := EClose\<rparr>"]) (simp_all add: lobby_moves_def end_moves_def lobby_distance_def)
  next
    case 5
    then show ?thesis using p
      by (intro nearer [OF g, of "s\<lparr>lb_end := EOver\<rparr>"]) (simp_all add: lobby_moves_def end_moves_def lobby_distance_def)
  qed
qed

lemma rest_goes_on:
  assumes g: "lobby_good s" and q: "quiet s" and c: "list_all (\<lambda>q. q = JNew \<or> q = JOver) (lb_calls s)" and e: "lb_end s = EOver"
    and n: "\<not> lobby_over s"
  shows "\<exists>s'. lobby_run_step s s' \<and> lobby_good s' \<and> lobby_distance s' < lobby_distance s"
proof -
  have p: "lb_panic s = None" "lobby_done s" "internal_done s" using g e by (simp_all add: lobby_good_def lobby_done_def internal_done_def)
  have w: "lb_sender s \<in> {WTakes, WOver}" "lb_pinger s \<in> {WTakes, WOver}"
    using q by (cases "lb_sender s"; cases "lb_pinger s"; simp add: quiet_def)+
  consider "lb_cmd s = DSelect" | "lb_req s = TSelect" | "lb_ping s = TSelect"
    | "lb_cmd s = DOver" "lb_req s = TOver" "lb_ping s = TOver" "lb_main s = MWaits" | "lb_main s = MClosing"
    | "lb_main s = MReturns" "lb_sender s = WTakes" | "lb_main s = MReturns" "lb_pinger s = WTakes"
    using n q c e w by (cases "lb_cmd s"; cases "lb_req s"; cases "lb_ping s"; cases "lb_main s") (auto simp: quiet_def lobby_over_def)
  then show ?thesis
  proof cases
    case 1
    then show ?thesis using p
      by (intro nearer [OF g, of "s\<lparr>lb_cmd := DOver\<rparr>"]) (simp_all add: lobby_moves_def cmd_moves_def lobby_distance_def)
  next
    case 2
    then show ?thesis using p
      by (intro nearer [OF g, of "s\<lparr>lb_req := TOver\<rparr>"]) (simp_all add: lobby_moves_def req_moves_def lobby_distance_def)
  next
    case 3
    then show ?thesis using p
      by (intro nearer [OF g, of "s\<lparr>lb_ping := TOver\<rparr>"]) (simp_all add: lobby_moves_def ping_moves_def lobby_distance_def)
  next
    case 4
    then show ?thesis using p
      by (intro nearer [OF g, of "s\<lparr>lb_main := MClosing\<rparr>"]) (simp_all add: lobby_moves_def main_moves_def lobby_distance_def)
  next
    case 5
    then show ?thesis using p
      by (intro nearer [OF g, of "s\<lparr>lb_main := MReturns\<rparr>"]) (simp_all add: lobby_moves_def main_moves_def lobby_distance_def)
  next
    case 6
    then show ?thesis using p
      by (intro nearer [OF g, of "s\<lparr>lb_sender := WOver\<rparr>"]) (simp_all add: lobby_moves_def sender_moves_def lobby_distance_def)
  next
    case 7
    then show ?thesis using p
      by (intro nearer [OF g, of "s\<lparr>lb_pinger := WOver\<rparr>"]) (simp_all add: lobby_moves_def pinger_moves_def lobby_distance_def)
  qed
qed

interpretation lobby_end: draining lobby_run_step lobby_good lobby_over lobby_distance
proof unfold_locales
  fix s
  assume g: "lobby_good s" and n: "\<not> lobby_over s"
  have "(\<exists>j < length (lb_calls s). lb_calls s ! j = JSelect \<or> lb_calls s ! j = JDropped) \<or> list_all (\<lambda>q. q = JNew \<or> q = JOver) (lb_calls s)"
    unfolding list_all_length by (metis join_phase.exhaust)
  then show "\<exists>s'. lobby_run_step s s' \<and> lobby_good s' \<and> lobby_distance s' < lobby_distance s"
    using busy_goes_on [OF g] calls_go_on [OF g] end_goes_on [OF g] rest_goes_on [OF g _ _ _ n] by blast
qed

section \<open>Properties\<close>


text \<open>A context that ends while a command is on its way, and a second call that comes just after it.\<close>

definition late_run :: "lobby_run list" where
  "late_run = (let s0 = new_lobby_run 2;
     s1 = group_Add (s0\<lparr>lb_calls := [JSelect, JNew]\<rparr>);
     s2 = s1\<lparr>lb_cmd := DProcess, lb_calls := [JOver, JNew]\<rparr>;
     s3 = s2\<lparr>lb_ctx := True\<rparr>;
     s4 = s3\<lparr>lb_end := EWaitGroup\<rparr>;
     s5 = s4\<lparr>lb_end := ESleeps\<rparr>;
     s6 = s5\<lparr>lb_sender := WWrites, lb_cmd := DDone\<rparr>;
     s7 = group_Done (s6\<lparr>lb_cmd := DSelect\<rparr>)
   in [s0, s1, s2, s3, s4, s5, s6, s7])"

definition is_run :: "lobby_run list \<Rightarrow> bool" where
  "is_run ss \<longleftrightarrow> list_all (\<lambda>i. lb_panic (ss ! i) = None \<and> list_ex (\<lambda>t. t = ss ! Suc i) (lobby_moves (ss ! i))) [0..<length ss - 1]"

lemma is_run_steps:
  assumes "is_run ss" and "i < length ss"
  shows "lobby_run_step\<^sup>*\<^sup>* (ss ! 0) (ss ! i)"
  using assms(2)
proof (induction i)
  case (Suc i)
  then have "lobby_run_step (ss ! i) (ss ! Suc i)"
    using assms(1) by (intro lobby_run_step.move) (auto simp: is_run_def list_all_iff list_ex_iff)
  then show ?case using Suc by (meson Suc_lessD rtranclp.rtrancl_into_rtrancl)
qed simp

lemma late_run_is_run: "is_run late_run" "length late_run = 8" "late_run ! 0 = new_lobby_run 2"
  "lb_panic (late_run ! 7) = None" "lb_end (late_run ! 7) = EWoken" "lb_calls (late_run ! 7) = [JOver, JNew]"
  by code_simp+


text \<open>
  A Join or Leave at the end of a client's lobby can crash the program: when the last command in the
  wait group was done and the goroutine that waits for it has been woken but not yet got back, a call
  that begins then makes the wait group panic.
\<close>

theorem late_join_panics:
  assumes "lb_panic s = None" and "lb_end s = EWoken" and "j < length (lb_calls s)" and "lb_calls s ! j = JNew"
  shows "\<exists>s'. lobby_run_step\<^sup>*\<^sup>* s s' \<and> lb_panic s' = Some group_reused"
proof -
  define t where "t = group_Add (s\<lparr>lb_calls := (lb_calls s)[j := JSelect]\<rparr>)"
  have "t \<in> set (join_moves j s)" using assms(4) by (simp add: join_moves_def t_def)
  then have "t \<in> set (lobby_moves s)" using assms(3) by (auto simp: lobby_moves_def)
  then have a: "lobby_run_step s t" by (rule lobby_run_step.move [OF assms(1)])
  have "t\<lparr>lb_panic := Some group_reused\<rparr> \<in> set (lobby_moves t)"
    using assms(2) by (simp add: lobby_moves_def end_moves_def t_def group_Add_def)
  then have "lobby_run_step t (t\<lparr>lb_panic := Some group_reused\<rparr>)"
    using assms(1) by (intro lobby_run_step.move) (simp_all add: t_def group_Add_def)
  then show ?thesis using a by (intro exI [of _ "t\<lparr>lb_panic := Some group_reused\<rparr>"]) (simp add: converse_rtranclp_into_rtranclp)
qed

theorem late_join_panics_witness:
  "\<exists>s'. lobby_run_step\<^sup>*\<^sup>* (new_lobby_run 2) s' \<and> lb_panic s' = Some group_reused"
proof -
  have r: "lobby_run_step\<^sup>*\<^sup>* (new_lobby_run 2) (late_run ! 7)"
    using is_run_steps [OF late_run_is_run(1), of 7] by (simp add: late_run_is_run(2,3))
  obtain s' where "lobby_run_step\<^sup>*\<^sup>* (late_run ! 7) s'" "lb_panic s' = Some group_reused"
    using late_join_panics [OF late_run_is_run(4,5), of 1] by (auto simp: late_run_is_run(6))
  then show ?thesis using r by (meson rtranclp_trans)
qed

end
