(* ===== verification/ServerEnds.thy ===== *)
theory ServerEnds
  imports LobbyEnds Wire "HOL-Library.AList"
begin

text \<open>
  How a server stops: \<open>Start\<close> of \<open>udpstar/server/server.go\<close>, the goroutines of the sessions and lobbies that it
  waits for, and the calls that are with a lobby meanwhile (the queueing methods of
  \<open>udpstar/server/service_lobby.go\<close>), as one step relation. What commands do to a lobby is the subject of
  \<open>Lobbies\<close>, what the maps are for that of \<open>Servers\<close>; here a service is where its goroutine stands.
\<close>

section \<open>Goroutines\<close>

text \<open>
  The goroutine of a session or lobby: in its loop; a lobby's loop sending the response to the call of the given
  number; a session's loop that hangs (see \<open>SessionEnds\<close>); back from the service's \<open>Start\<close>, so that \<open>doneCh\<close> is
  closed; with its entry deleted; over.
\<close>

datatype host_phase = HRuns | HReplies nat | HHangs | HReturned | HDeleted | HEnded

record hosted =
  ho_Token :: token
  ho_lobby :: bool
  ho_cancelled :: bool
  ho_phase :: host_phase

text \<open>
  A call that has found its lobby: offering a command that has no response; offering \<open>lobbyGetReq\<close>, for
  \<open>FinishLobby\<close> or not; in the countdown of \<open>FinishLobby\<close>, with the number of states to go: offering
  \<open>lobbyFinishReq\<close>, waiting for its response, waiting for the timer; before it cancels the lobby; over.
\<close>

datatype guest_phase = GPosts | GGets bool | GAsks nat | GWaits nat | GSleeps nat | GCommits | GEnded

record guest =
  gs_host :: nat
  gs_phase :: guest_phase

text \<open>\<open>Start\<close>: waiting for its context, before \<open>servicesWG.Wait\<close>, asleep in it, woken, back.\<close>

datatype start_phase = SCtx | SWaitGroup | SSleeps | SWoken | SReturned

record server_run =
  sx_done :: bool
  sx_main :: start_phase
  sx_sessions :: "(token \<times> nat) list"
  sx_lobbies :: "(token \<times> nat) list"
  sx_hosts :: "hosted list"
  sx_count :: nat
  sx_guests :: "guest list"
  sx_panic :: "string option"

definition new_server_run :: server_run where
  "new_server_run = \<lparr>sx_done = False, sx_main = SCtx, sx_sessions = [], sx_lobbies = [], sx_hosts = [], sx_count = 0,
     sx_guests = [], sx_panic = None\<rparr>"

section \<open>Steps\<close>

abbreviation host_at :: "server_run \<Rightarrow> nat \<Rightarrow> host_phase" where
  "host_at s i \<equiv> ho_phase (sx_hosts s ! i)"

abbreviation guest_at :: "server_run \<Rightarrow> nat \<Rightarrow> guest_phase" where
  "guest_at s j \<equiv> gs_phase (sx_guests s ! j)"

definition set_host :: "nat \<Rightarrow> host_phase \<Rightarrow> server_run \<Rightarrow> server_run" where
  "set_host i p s = s\<lparr>sx_hosts := (sx_hosts s)[i := (sx_hosts s ! i)\<lparr>ho_phase := p\<rparr>]\<rparr>"

definition set_guest :: "nat \<Rightarrow> guest_phase \<Rightarrow> server_run \<Rightarrow> server_run" where
  "set_guest j p s = s\<lparr>sx_guests := (sx_guests s)[j := (sx_guests s ! j)\<lparr>gs_phase := p\<rparr>]\<rparr>"

text \<open>The \<open>cancelFn\<close> of a service.\<close>

definition cancel_host :: "nat \<Rightarrow> server_run \<Rightarrow> server_run" where
  "cancel_host i s = s\<lparr>sx_hosts := (sx_hosts s)[i := (sx_hosts s ! i)\<lparr>ho_cancelled := True\<rparr>]\<rparr>"

text \<open>What \<open>Start\<close> does when its context has ended: it cancels every session and lobby of the maps.\<close>

definition cancel_all :: "server_run \<Rightarrow> server_run" where
  "cancel_all s = (fold (\<lambda>e. cancel_host (snd e)) (sx_sessions s @ sx_lobbies s) s)\<lparr>sx_main := SWaitGroup\<rparr>"

text \<open>The end of a goroutine of a service, under the mutex, and after it.\<close>

definition delete_host :: "nat \<Rightarrow> server_run \<Rightarrow> server_run" where
  "delete_host i s =
     (let h = sx_hosts s ! i
      in set_host i HDeleted
          (if ho_lobby h then s\<lparr>sx_lobbies := AList.delete (ho_Token h) (sx_lobbies s)\<rparr>
           else s\<lparr>sx_sessions := AList.delete (ho_Token h) (sx_sessions s)\<rparr>))"

definition services_Done :: "server_run \<Rightarrow> server_run" where
  "services_Done s =
     (if sx_count s = 0 then s\<lparr>sx_panic := Some negative_counter\<rparr>
      else s\<lparr>sx_count := sx_count s - 1, sx_main := if sx_count s = 1 \<and> sx_main s = SSleeps then SWoken else sx_main s\<rparr>)"

text \<open>The end of \<open>FinishLobby\<close>.\<close>

definition commit_finish :: "nat \<Rightarrow> server_run \<Rightarrow> server_run" where
  "commit_finish j s =
     (let i = gs_host (sx_guests s ! j)
      in set_guest j GEnded
          (cancel_host i (s\<lparr>sx_lobbies := AList.delete (ho_Token (sx_hosts s ! i)) (sx_lobbies s)\<rparr>)))"

text \<open>Where a call goes when the loop of its lobby takes its command, and when it gets the response of \<open>Finish\<close>.\<close>

fun command_taken :: "guest_phase \<Rightarrow> guest_phase \<Rightarrow> bool" where
  "command_taken GPosts p = (p = GEnded)"
| "command_taken (GGets b) p = (p = GEnded \<or> b \<and> p = GAsks 3)"
| "command_taken _ p = False"

definition answered :: "nat \<Rightarrow> guest_phase" where
  "answered n = (if n = 0 then GCommits else GSleeps n)"

definition host_done :: "host_phase \<Rightarrow> bool" where
  "host_done p \<longleftrightarrow> p \<in> {HReturned, HDeleted, HEnded}"

inductive server_move :: "server_run \<Rightarrow> server_run \<Rightarrow> bool" where
  stop: "server_move s (s\<lparr>sx_done := True\<rparr>)"
| cancels: "sx_main s = SCtx \<Longrightarrow> sx_done s \<Longrightarrow> server_move s (cancel_all s)"
| waits: "sx_main s = SWaitGroup \<Longrightarrow> server_move s (s\<lparr>sx_main := if sx_count s = 0 then SReturned else SSleeps\<rparr>)"
| wakes: "sx_main s = SWoken \<Longrightarrow>
    server_move s (if sx_count s = 0 then s\<lparr>sx_main := SReturned\<rparr> else s\<lparr>sx_panic := Some group_reused\<rparr>)"
| returns: "i < length (sx_hosts s) \<Longrightarrow> host_at s i = HRuns \<Longrightarrow> ho_cancelled (sx_hosts s ! i) \<Longrightarrow> server_move s (set_host i HReturned s)"
| hangs: "i < length (sx_hosts s) \<Longrightarrow> host_at s i = HRuns \<Longrightarrow> \<not> ho_lobby (sx_hosts s ! i) \<Longrightarrow> server_move s (set_host i HHangs s)"
| deletes: "i < length (sx_hosts s) \<Longrightarrow> host_at s i = HReturned \<Longrightarrow> server_move s (delete_host i s)"
| ends: "i < length (sx_hosts s) \<Longrightarrow> host_at s i = HDeleted \<Longrightarrow> server_move s (services_Done (set_host i HEnded s))"
| takes: "j < length (sx_guests s) \<Longrightarrow> host_at s (gs_host (sx_guests s ! j)) = HRuns \<Longrightarrow> command_taken (guest_at s j) p \<Longrightarrow>
    server_move s (set_guest j p s)"
| asks: "j < length (sx_guests s) \<Longrightarrow> gs_host (sx_guests s ! j) = i \<Longrightarrow> host_at s i = HRuns \<Longrightarrow> guest_at s j = GAsks n \<Longrightarrow>
    server_move s (set_guest j (GWaits n) (set_host i (HReplies j) s))"
| answers: "j < length (sx_guests s) \<Longrightarrow> gs_host (sx_guests s ! j) = i \<Longrightarrow> host_at s i = HReplies j \<Longrightarrow> guest_at s j = GWaits n \<Longrightarrow>
    p = GEnded \<or> p = answered n \<Longrightarrow> server_move s (set_guest j p (set_host i HRuns s))"
| gone: "j < length (sx_guests s) \<Longrightarrow> host_done (host_at s (gs_host (sx_guests s ! j))) \<Longrightarrow>
    guest_at s j \<in> {GPosts, GGets b, GAsks n, GSleeps n} \<Longrightarrow> server_move s (set_guest j GEnded s)"
| gives_up: "j < length (sx_guests s) \<Longrightarrow> guest_at s j = GSleeps n \<Longrightarrow> server_move s (set_guest j GEnded s)"
| timer: "j < length (sx_guests s) \<Longrightarrow> guest_at s j = GSleeps (Suc n) \<Longrightarrow> server_move s (set_guest j (GAsks n) s)"
| commits: "j < length (sx_guests s) \<Longrightarrow> guest_at s j = GCommits \<Longrightarrow> server_move s (commit_finish j s)"

text \<open>A panic ends the program.\<close>

definition serving_step :: "server_run \<Rightarrow> server_run \<Rightarrow> bool" where
  "serving_step s s' \<longleftrightarrow> sx_panic s = None \<and> server_move s s'"

text \<open>
  What the game can do at any time: start sessions and lobbies whose token is in neither map, end the context it
  has given to one, and call methods of a lobby that is in the map.
\<close>

definition add_host :: "token \<Rightarrow> bool \<Rightarrow> server_run \<Rightarrow> server_run" where
  "add_host t lobby s =
     (let n = length (sx_hosts s);
          s = (if lobby then s\<lparr>sx_lobbies := AList.update t n (sx_lobbies s)\<rparr>
               else s\<lparr>sx_sessions := AList.update t n (sx_sessions s)\<rparr>)
      in s\<lparr>sx_count := sx_count s + 1,
           sx_hosts := sx_hosts s @ [\<lparr>ho_Token = t, ho_lobby = lobby, ho_cancelled = False, ho_phase = HRuns\<rparr>]\<rparr>)"

inductive server_event :: "server_run \<Rightarrow> server_run \<Rightarrow> bool" where
  serving: "serving_step s s' \<Longrightarrow> server_event s s'"
| starts: "sx_panic s = None \<Longrightarrow> map_of (sx_sessions s) t = None \<Longrightarrow> map_of (sx_lobbies s) t = None \<Longrightarrow>
    server_event s (add_host t lobby s)"
| cancelled: "sx_panic s = None \<Longrightarrow> i < length (sx_hosts s) \<Longrightarrow> server_event s (cancel_host i s)"
| calls: "sx_panic s = None \<Longrightarrow> map_of (sx_lobbies s) t = Some i \<Longrightarrow> p \<in> {GPosts, GGets b} \<Longrightarrow>
    server_event s (s\<lparr>sx_guests := sx_guests s @ [\<lparr>gs_host = i, gs_phase = p\<rparr>]\<rparr>)"

section \<open>Invariant\<close>

definition open_weight :: "hosted \<Rightarrow> nat" where
  "open_weight h = (if ho_phase h = HEnded then 0 else 1)"

definition open_hosts :: "hosted list \<Rightarrow> nat" where
  "open_hosts hs = sum_list (map open_weight hs)"

lemma open_hosts_update:
  "i < length hs \<Longrightarrow> open_hosts (hs[i := h]) + open_weight (hs ! i) = open_hosts hs + open_weight h"
  unfolding open_hosts_def by (rule sum_update)

definition leads :: "(token \<times> nat) list \<Rightarrow> bool \<Rightarrow> hosted list \<Rightarrow> bool" where
  "leads m lobby hs \<longleftrightarrow> (\<forall>(t, i) \<in> set m. i < length hs \<and> ho_lobby (hs ! i) = lobby \<and> ho_Token (hs ! i) = t)"

text \<open>
  The counter of the wait group is the number of goroutines; the entries of the maps and the calls lead to
  services; a lobby answers the call that waits for it.
\<close>

definition guest_ok :: "hosted list \<Rightarrow> nat \<Rightarrow> guest \<Rightarrow> bool" where
  "guest_ok hs j q \<longleftrightarrow> gs_host q < length hs \<and> ho_lobby (hs ! gs_host q) \<and> gs_phase q \<noteq> GSleeps 0 \<and>
     (\<forall>n. gs_phase q = GWaits n \<longrightarrow> ho_phase (hs ! gs_host q) = HReplies j)"

definition host_ok :: "guest list \<Rightarrow> nat \<Rightarrow> hosted \<Rightarrow> bool" where
  "host_ok gs i h \<longleftrightarrow> (ho_lobby h \<longrightarrow> ho_phase h \<noteq> HHangs) \<and>
     (\<forall>j. ho_phase h = HReplies j \<longrightarrow> j < length gs \<and> gs_host (gs ! j) = i \<and> (\<exists>n. gs_phase (gs ! j) = GWaits n))"

definition serving_inv :: "server_run \<Rightarrow> bool" where
  "serving_inv s \<longleftrightarrow>
     open_hosts (sx_hosts s) = sx_count s \<and> (sx_main s = SSleeps \<longrightarrow> sx_count s > 0) \<and>
     leads (sx_sessions s) False (sx_hosts s) \<and> leads (sx_lobbies s) True (sx_hosts s) \<and>
     (\<forall>j < length (sx_guests s). guest_ok (sx_hosts s) j (sx_guests s ! j)) \<and>
     (\<forall>i < length (sx_hosts s). host_ok (sx_guests s) i (sx_hosts s ! i))"

lemma new_serving_inv: "serving_inv new_server_run"
  by (simp add: serving_inv_def new_server_run_def leads_def open_hosts_def)

lemma leads_update:
  assumes "leads m lobby hs" and "ho_lobby h = ho_lobby (hs ! i)" and "ho_Token h = ho_Token (hs ! i)"
  shows "leads m lobby (hs[i := h])"
proof -
  have "k < length hs \<and> ho_lobby (hs[i := h] ! k) = lobby \<and> ho_Token (hs[i := h] ! k) = t" if "(t, k) \<in> set m" for t k
  proof -
    have "k < length hs" "ho_lobby (hs ! k) = lobby" "ho_Token (hs ! k) = t" using assms(1) that by (auto simp: leads_def)
    then show ?thesis using assms(2,3) by (cases "k = i") simp_all
  qed
  then show ?thesis by (auto simp: leads_def)
qed

lemma leads_delete: "leads m lobby hs \<Longrightarrow> leads (AList.delete t m) lobby hs"
  by (auto simp: leads_def AList.delete_eq)

lemma update_new: "map_of m t = None \<Longrightarrow> AList.update t v m = m @ [(t, v)]"
  by (induction m) (simp_all split: if_splits)

lemma set_update_new: "map_of m t = None \<Longrightarrow> set (AList.update t v m) = insert (t, v) (set m)"
  by (simp add: update_new)

lemma leads_add:
  assumes "leads m lobby hs"
  shows "leads m lobby (hs @ [h])"
  using assms by (auto simp: leads_def nth_append)

lemma cancel_weight: "open_weight (h\<lparr>ho_cancelled := c\<rparr>) = open_weight h"
  by (simp add: open_weight_def)

text \<open>Changes of one service, of one call, and of both.\<close>

lemma host_inv:
  assumes i: "serving_inv s" and l: "i < length (sx_hosts s)"
    and h: "ho_lobby h = ho_lobby (sx_hosts s ! i)" "ho_Token h = ho_Token (sx_hosts s ! i)"
    and w: "open_weight h = open_weight (sx_hosts s ! i)"
    and p: "host_ok (sx_guests s) i h" "\<forall>j. host_at s i = HReplies j \<longrightarrow> ho_phase h = HReplies j"
  shows "serving_inv (s\<lparr>sx_hosts := (sx_hosts s)[i := h]\<rparr>)"
proof -
  let ?hs = "(sx_hosts s)[i := h]"
  have "open_hosts ?hs = open_hosts (sx_hosts s)"
    using open_hosts_update [OF l, of h] w by simp
  moreover have "guest_ok ?hs j (sx_guests s ! j)" if "j < length (sx_guests s)" for j
    using i that h(1) p(2) l by (cases "gs_host (sx_guests s ! j) = i") (auto simp: serving_inv_def guest_ok_def)
  moreover have "host_ok (sx_guests s) k (?hs ! k)" if "k < length (sx_hosts s)" for k
    using i that p(1) by (cases "k = i") (auto simp: serving_inv_def)
  moreover have "leads (sx_sessions s) False ?hs" "leads (sx_lobbies s) True ?hs"
    using i h by (auto simp: serving_inv_def intro: leads_update)
  ultimately show ?thesis using i by (auto simp: serving_inv_def)
qed

lemma guest_inv:
  assumes i: "serving_inv s" and l: "j < length (sx_guests s)"
    and p: "p \<noteq> GSleeps 0" "\<forall>n. guest_at s j \<noteq> GWaits n" "\<forall>n. p \<noteq> GWaits n"
  shows "serving_inv (set_guest j p s)"
proof -
  let ?gs = "(sx_guests s)[j := (sx_guests s ! j)\<lparr>gs_phase := p\<rparr>]"
  have "guest_ok (sx_hosts s) k (?gs ! k)" if "k < length (sx_guests s)" for k
    using i that p by (cases "k = j") (auto simp: serving_inv_def guest_ok_def)
  moreover have "host_ok ?gs k (sx_hosts s ! k)" if "k < length (sx_hosts s)" for k
  proof -
    have o: "host_ok (sx_guests s) k (sx_hosts s ! k)" using i that by (simp add: serving_inv_def)
    moreover have "m \<noteq> j" if "host_at s k = HReplies m" for m using o that p(2) by (auto simp: host_ok_def)
    ultimately show ?thesis by (auto simp: host_ok_def)
  qed
  ultimately show ?thesis using i by (auto simp: serving_inv_def set_guest_def)
qed

lemma both_inv:
  assumes i: "serving_inv s" and l: "j < length (sx_guests s)" "gs_host (sx_guests s ! j) = i"
    and p: "host_at s i \<in> {HRuns, HReplies j}" "h = HRuns \<and> (\<forall>n. p \<noteq> GWaits n) \<or> h = HReplies j \<and> (\<exists>n. p = GWaits n)"
      "p \<noteq> GSleeps 0"
  shows "serving_inv (set_guest j p (set_host i h s))"
proof -
  let ?hs = "(sx_hosts s)[i := (sx_hosts s ! i)\<lparr>ho_phase := h\<rparr>]"
  let ?gs = "(sx_guests s)[j := (sx_guests s ! j)\<lparr>gs_phase := p\<rparr>]"
  have g: "guest_ok (sx_hosts s) k (sx_guests s ! k)" if "k < length (sx_guests s)" for k
    using i that by (simp add: serving_inv_def)
  have il: "i < length (sx_hosts s)" using g [OF l(1)] l(2) by (simp add: guest_ok_def)
  have w: "open_weight ((sx_hosts s ! i)\<lparr>ho_phase := h\<rparr>) = open_weight (sx_hosts s ! i)"
    using p by (auto simp: open_weight_def)
  have "open_hosts ?hs = open_hosts (sx_hosts s)"
    using open_hosts_update [OF il] w by (metis add_right_cancel)
  moreover have "guest_ok ?hs k (?gs ! k)" if "k < length (sx_guests s)" for k
  proof (cases "k = j")
    case True
    then show ?thesis using g [OF l(1)] l il p by (auto simp: guest_ok_def)
  next
    case False
    then show ?thesis using g [OF that] p(1) il
      by (cases "gs_host (sx_guests s ! k) = i") (auto simp: guest_ok_def)
  qed
  moreover have "host_ok ?gs k (?hs ! k)" if k: "k < length (sx_hosts s)" for k
  proof (cases "k = i")
    case True
    then show ?thesis using p g [OF l(1)] l il by (auto simp: host_ok_def guest_ok_def)
  next
    case False
    have o: "host_ok (sx_guests s) k (sx_hosts s ! k)" using i k by (simp add: serving_inv_def)
    then have "m \<noteq> j" if "host_at s k = HReplies m" for m using that False l by (auto simp: host_ok_def)
    then show ?thesis using o False by (auto simp: host_ok_def)
  qed
  moreover have "leads (sx_sessions s) False ?hs" "leads (sx_lobbies s) True ?hs"
    using i by (auto simp: serving_inv_def intro: leads_update)
  ultimately show ?thesis using i by (auto simp: serving_inv_def set_guest_def set_host_def)
qed

lemma cancelled_inv:
  assumes "serving_inv s"
  shows "serving_inv (cancel_host i s)"
proof (cases "i < length (sx_hosts s)")
  case True
  moreover have "host_ok (sx_guests s) i ((sx_hosts s ! i)\<lparr>ho_cancelled := True\<rparr>)"
    using assms True by (simp add: serving_inv_def host_ok_def)
  ultimately show ?thesis using assms unfolding cancel_host_def by (intro host_inv) (simp_all add: cancel_weight)
next
  case False
  then have "cancel_host i s = s" by (cases s) (simp add: cancel_host_def list_update_beyond)
  then show ?thesis using assms by simp
qed

lemma maps_inv:
  "serving_inv s \<Longrightarrow> serving_inv (s\<lparr>sx_lobbies := AList.delete t (sx_lobbies s)\<rparr>)"
  "serving_inv s \<Longrightarrow> serving_inv (s\<lparr>sx_sessions := AList.delete t (sx_sessions s)\<rparr>)"
  by (simp_all add: serving_inv_def leads_delete)

lemma main_inv: "serving_inv s \<Longrightarrow> m \<noteq> SSleeps \<Longrightarrow> serving_inv (s\<lparr>sx_main := m\<rparr>)"
  by (simp add: serving_inv_def)

lemma cancels_inv: "serving_inv s \<Longrightarrow> serving_inv (fold (\<lambda>e. cancel_host (snd e)) m s)"
  by (induction m arbitrary: s) (simp_all add: cancelled_inv)

lemma ends_inv:
  assumes i: "serving_inv s" and l: "i < length (sx_hosts s)" and p: "host_at s i = HDeleted"
  shows "serving_inv (services_Done (set_host i HEnded s))" and "sx_count s > 0"
proof -
  let ?h = "(sx_hosts s ! i)\<lparr>ho_phase := HEnded\<rparr>"
  let ?hs = "(sx_hosts s)[i := ?h]"
  have c: "open_hosts ?hs + 1 = sx_count s"
    using open_hosts_update [OF l, of ?h] i p by (simp add: open_weight_def serving_inv_def)
  then show "sx_count s > 0" by simp
  have "guest_ok ?hs j (sx_guests s ! j)" if "j < length (sx_guests s)" for j
  proof -
    have o: "guest_ok (sx_hosts s) j (sx_guests s ! j)" using i that by (simp add: serving_inv_def)
    then show ?thesis using p by (cases "gs_host (sx_guests s ! j) = i") (auto simp: guest_ok_def)
  qed
  moreover have "host_ok (sx_guests s) k (?hs ! k)" if "k < length (sx_hosts s)" for k
    using i that by (cases "k = i") (auto simp: serving_inv_def host_ok_def)
  moreover have "leads (sx_sessions s) False ?hs" "leads (sx_lobbies s) True ?hs"
    using i by (auto simp: serving_inv_def intro: leads_update)
  ultimately show "serving_inv (services_Done (set_host i HEnded s))"
    using i c by (auto simp: services_Done_def set_host_def serving_inv_def)
qed

lemma move_inv:
  assumes "server_move s s'" and i: "serving_inv s"
  shows "serving_inv s'"
  using assms(1)
proof cases
  case stop
  then show ?thesis using i by (simp add: serving_inv_def)
next
  case cancels
  then show ?thesis using i by (simp add: cancel_all_def main_inv cancels_inv)
next
  case waits
  then show ?thesis using i by (simp add: serving_inv_def)
next
  case wakes
  then show ?thesis using i by (simp add: serving_inv_def)
next
  case (returns i)
  then show ?thesis using i unfolding set_host_def by (auto intro!: host_inv simp: open_weight_def host_ok_def)
next
  case (hangs i)
  then show ?thesis using i unfolding set_host_def by (auto intro!: host_inv simp: open_weight_def host_ok_def)
next
  case (deletes k)
  define t where "t = (if ho_lobby (sx_hosts s ! k) then s\<lparr>sx_lobbies := AList.delete (ho_Token (sx_hosts s ! k)) (sx_lobbies s)\<rparr>
    else s\<lparr>sx_sessions := AList.delete (ho_Token (sx_hosts s ! k)) (sx_sessions s)\<rparr>)"
  have f: "sx_hosts t = sx_hosts s" "sx_guests t = sx_guests s" by (simp_all add: t_def)
  have "serving_inv t" using maps_inv [OF i] by (simp add: t_def)
  moreover have "s' = set_host k HDeleted t" using deletes(1) by (simp add: delete_host_def Let_def t_def)
  ultimately show ?thesis
    using deletes f host_inv [of t k "(sx_hosts t ! k)\<lparr>ho_phase := HDeleted\<rparr>"]
    by (simp add: set_host_def open_weight_def host_ok_def)
next
  case (ends i)
  then show ?thesis using ends_inv(1) i by simp
next
  case (takes j p)
  then show ?thesis using i by (cases "guest_at s j") (auto intro!: guest_inv)
next
  case (asks j i n)
  then show ?thesis using both_inv [of s j i "HReplies j" "GWaits n"] i by auto
next
  case (answers j i n p)
  then show ?thesis using both_inv [of s j i HRuns p] i by (auto simp: answered_def)
next
  case (gone j b n)
  then show ?thesis using i by (auto intro!: guest_inv)
next
  case (gives_up j n)
  then show ?thesis using i by (auto intro!: guest_inv)
next
  case (timer j n)
  then show ?thesis using i by (auto intro!: guest_inv)
next
  case (commits j)
  define t where "t = s\<lparr>sx_lobbies := AList.delete (ho_Token (sx_hosts s ! gs_host (sx_guests s ! j))) (sx_lobbies s)\<rparr>"
  have "serving_inv (cancel_host (gs_host (sx_guests s ! j)) t)" using maps_inv(1) [OF i] by (simp add: t_def cancelled_inv)
  moreover have "s' = set_guest j GEnded (cancel_host (gs_host (sx_guests s ! j)) t)"
    using commits(1) by (simp add: commit_finish_def Let_def t_def)
  ultimately show ?thesis using commits by (auto intro!: guest_inv simp: cancel_host_def t_def)
qed

lemma add_inv:
  assumes i: "serving_inv s" and n: "map_of (sx_sessions s) t = None" "map_of (sx_lobbies s) t = None"
  shows "serving_inv (add_host t lobby s)"
proof -
  let ?h = "\<lparr>ho_Token = t, ho_lobby = lobby, ho_cancelled = False, ho_phase = HRuns\<rparr>"
  let ?hs = "sx_hosts s @ [?h]"
  have "leads (AList.update t (length (sx_hosts s)) m) lobby ?hs" if "leads m lobby (sx_hosts s)" "map_of m t = None" for m
    using leads_add [OF that(1), of ?h] that(2) by (auto simp: leads_def set_update_new)
  moreover have "guest_ok ?hs j (sx_guests s ! j)" if "j < length (sx_guests s)" for j
    using i that by (auto simp: serving_inv_def guest_ok_def nth_append)
  moreover have "host_ok (sx_guests s) k (?hs ! k)" if "k < Suc (length (sx_hosts s))" for k
  proof (cases "k = length (sx_hosts s)")
    case False
    then have "k < length (sx_hosts s)" using that by simp
    then show ?thesis using i by (simp add: serving_inv_def nth_append)
  qed (simp add: host_ok_def)
  ultimately show ?thesis using i n
    by (cases lobby) (auto simp: add_host_def Let_def serving_inv_def open_hosts_def open_weight_def intro: leads_add)
qed

lemma event_inv:
  assumes "server_event s s'" and i: "serving_inv s"
  shows "serving_inv s'"
  using assms(1)
proof cases
  case serving
  then show ?thesis using i by (auto simp: serving_step_def intro: move_inv)
next
  case (starts t lobby)
  then show ?thesis using add_inv [OF i] by simp
next
  case (cancelled i)
  then show ?thesis using cancelled_inv [OF i] by simp
next
  case (calls t k p b)
  let ?gs = "sx_guests s @ [\<lparr>gs_host = k, gs_phase = p\<rparr>]"
  have k: "k < length (sx_hosts s)" "ho_lobby (sx_hosts s ! k)"
    using calls(3) i by (auto simp: serving_inv_def leads_def dest!: map_of_SomeD)
  have "guest_ok (sx_hosts s) j (?gs ! j)" if "j < Suc (length (sx_guests s))" for j
  proof (cases "j = length (sx_guests s)")
    case False
    then have "j < length (sx_guests s)" using that by simp
    then show ?thesis using i by (simp add: serving_inv_def nth_append)
  qed (use k calls(4) in \<open>auto simp: guest_ok_def\<close>)
  moreover have "host_ok ?gs m (sx_hosts s ! m)" if "m < length (sx_hosts s)" for m
    using that i by (auto simp: serving_inv_def host_ok_def nth_append)
  ultimately show ?thesis using i calls(1) by (auto simp: serving_inv_def)
qed

section \<open>Services that are forsaken\<close>

definition mapped :: "server_run \<Rightarrow> nat \<Rightarrow> bool" where
  "mapped s i \<longleftrightarrow> i \<in> snd ` set (sx_sessions s) \<or> i \<in> snd ` set (sx_lobbies s)"

fun finishing :: "guest_phase \<Rightarrow> bool" where
  "finishing GPosts = False" | "finishing (GGets b) = b" | "finishing GEnded = False" | "finishing _ = True"

definition finished_by_call :: "server_run \<Rightarrow> nat \<Rightarrow> bool" where
  "finished_by_call s i \<longleftrightarrow> (\<exists>j < length (sx_guests s). gs_host (sx_guests s ! j) = i \<and> finishing (guest_at s j))"

definition in_loop :: "host_phase \<Rightarrow> bool" where
  "in_loop p \<longleftrightarrow> p = HRuns \<or> (\<exists>j. p = HReplies j)"

text \<open>
  A service that nobody is going to cancel: its context has not ended, no call of \<open>FinishLobby\<close> is with it, and
  \<open>Start\<close> has been through the maps or does not find it there.
\<close>

definition forsaken :: "server_run \<Rightarrow> nat \<Rightarrow> bool" where
  "forsaken s i \<longleftrightarrow> in_loop (host_at s i) \<and> \<not> ho_cancelled (sx_hosts s ! i) \<and> \<not> finished_by_call s i \<and>
     (sx_main s \<noteq> SCtx \<or> \<not> mapped s i)"

definition stays :: "server_run \<Rightarrow> bool" where
  "stays s \<longleftrightarrow> (\<exists>i < length (sx_hosts s). host_at s i = HHangs \<or> forsaken s i)"

lemma fold_cancel:
  "\<exists>hs. fold (\<lambda>e. cancel_host (snd e)) m s = s\<lparr>sx_hosts := hs\<rparr> \<and> length hs = length (sx_hosts s) \<and>
     (\<forall>i < length hs. hs ! i = (if i \<in> snd ` set m then (sx_hosts s ! i)\<lparr>ho_cancelled := True\<rparr> else sx_hosts s ! i))"
proof (induction m arbitrary: s)
  case Nil
  show ?case by (rule exI [of _ "sx_hosts s"]) simp
next
  case (Cons e m)
  let ?s = "cancel_host (snd e) s"
  obtain hs where h: "fold (\<lambda>e. cancel_host (snd e)) m ?s = ?s\<lparr>sx_hosts := hs\<rparr>" "length hs = length (sx_hosts ?s)"
    "\<forall>i < length hs. hs ! i = (if i \<in> snd ` set m then (sx_hosts ?s ! i)\<lparr>ho_cancelled := True\<rparr> else sx_hosts ?s ! i)"
    using Cons.IH [of ?s] by blast
  have "hs ! i = (if i \<in> snd ` set (e # m) then (sx_hosts s ! i)\<lparr>ho_cancelled := True\<rparr> else sx_hosts s ! i)"
    if "i < length hs" for i
    using h(2,3) that by (cases "i = snd e") (auto simp: cancel_host_def)
  moreover have "fold (\<lambda>e. cancel_host (snd e)) (e # m) s = s\<lparr>sx_hosts := hs\<rparr>"
    unfolding fold_simps h(1) by (simp add: cancel_host_def)
  moreover have "length hs = length (sx_hosts s)" using h(2) by (simp add: cancel_host_def)
  ultimately show ?case by blast
qed

lemma cancel_all_cases:
  obtains hs where "cancel_all s = s\<lparr>sx_hosts := hs, sx_main := SWaitGroup\<rparr>" "length hs = length (sx_hosts s)"
    "\<forall>i < length hs. hs ! i = (if mapped s i then (sx_hosts s ! i)\<lparr>ho_cancelled := True\<rparr> else sx_hosts s ! i)"
proof -
  obtain hs where h: "fold (\<lambda>e. cancel_host (snd e)) (sx_sessions s @ sx_lobbies s) s = s\<lparr>sx_hosts := hs\<rparr>"
    "length hs = length (sx_hosts s)"
    "\<forall>i < length hs. hs ! i = (if i \<in> snd ` set (sx_sessions s @ sx_lobbies s) then (sx_hosts s ! i)\<lparr>ho_cancelled := True\<rparr> else sx_hosts s ! i)"
    using fold_cancel by blast
  have "cancel_all s = s\<lparr>sx_hosts := hs, sx_main := SWaitGroup\<rparr>" unfolding cancel_all_def h(1) by simp
  moreover have "i \<in> snd ` set (sx_sessions s @ sx_lobbies s) \<longleftrightarrow> mapped s i" for i
    by (simp only: mapped_def set_append image_Un Un_iff)
  ultimately show ?thesis using that h(2,3) by presburger
qed

lemma finished_guest:
  assumes "finishing p \<Longrightarrow> finishing (guest_at s j)" and "finished_by_call (set_guest j p s) i"
  shows "finished_by_call s i"
proof -
  obtain k where k: "k < length (sx_guests s)" "gs_host (sx_guests (set_guest j p s) ! k) = i" "finishing (guest_at (set_guest j p s) k)"
    using assms(2) by (auto simp: finished_by_call_def set_guest_def)
  then have "gs_host (sx_guests s ! k) = i \<and> finishing (guest_at s k)"
    using assms(1) by (cases "k = j") (auto simp: set_guest_def)
  then show ?thesis using k(1) by (auto simp: finished_by_call_def)
qed

lemma finished_frame [simp]:
  "finished_by_call (s\<lparr>sx_hosts := hs\<rparr>) i = finished_by_call s i" "finished_by_call (s\<lparr>sx_main := m\<rparr>) i = finished_by_call s i"
  "finished_by_call (s\<lparr>sx_lobbies := l\<rparr>) i = finished_by_call s i" "finished_by_call (s\<lparr>sx_sessions := l\<rparr>) i = finished_by_call s i"
  "finished_by_call (s\<lparr>sx_count := c\<rparr>) i = finished_by_call s i" "finished_by_call (s\<lparr>sx_panic := q\<rparr>) i = finished_by_call s i"
  "finished_by_call (s\<lparr>sx_done := d\<rparr>) i = finished_by_call s i"
  by (simp_all add: finished_by_call_def)

lemma mapped_frame [simp]:
  "mapped (s\<lparr>sx_hosts := hs\<rparr>) i = mapped s i" "mapped (s\<lparr>sx_main := m\<rparr>) i = mapped s i" "mapped (s\<lparr>sx_guests := gs\<rparr>) i = mapped s i"
  "mapped (s\<lparr>sx_count := c\<rparr>) i = mapped s i" "mapped (s\<lparr>sx_panic := q\<rparr>) i = mapped s i" "mapped (s\<lparr>sx_done := d\<rparr>) i = mapped s i"
  by (simp_all add: mapped_def)

lemma mapped_delete:
  "mapped (s\<lparr>sx_lobbies := AList.delete t (sx_lobbies s)\<rparr>) i \<Longrightarrow> mapped s i"
  "mapped (s\<lparr>sx_sessions := AList.delete t (sx_sessions s)\<rparr>) i \<Longrightarrow> mapped s i"
  by (auto simp: mapped_def AList.delete_eq)

text \<open>What a step leaves to a service whose loop it does not touch.\<close>

definition untouched :: "nat \<Rightarrow> server_run \<Rightarrow> server_run \<Rightarrow> bool" where
  "untouched i s s' \<longleftrightarrow> length (sx_hosts s') = length (sx_hosts s) \<and> in_loop (host_at s' i) \<and>
     (ho_cancelled (sx_hosts s' ! i) \<longrightarrow> ho_cancelled (sx_hosts s ! i)) \<and>
     (finished_by_call s' i \<longrightarrow> finished_by_call s i) \<and> (sx_main s' = SCtx \<longrightarrow> sx_main s = SCtx) \<and> (mapped s' i \<longrightarrow> mapped s i)"

lemma untouched_forsaken: "untouched i s s' \<Longrightarrow> forsaken s i \<Longrightarrow> forsaken s' i"
  by (auto simp: untouched_def forsaken_def)

lemma move_untouched:
  assumes "server_move s s'" and f: "forsaken s i" and l: "i < length (sx_hosts s)"
  shows "untouched i s s' \<or> host_at s' i = HHangs"
  using assms(1)
proof cases
  case cancels
  then show ?thesis using f l by (cases rule: cancel_all_cases [of s]) (auto simp: untouched_def forsaken_def)
next
  case (takes j p)
  have "finishing p \<Longrightarrow> finishing (guest_at s j)" using takes(4) by (cases "guest_at s j") auto
  then show ?thesis using f takes(1) finished_guest [of p s j i] by (auto simp: untouched_def forsaken_def set_guest_def)
next
  case (asks j k n)
  let ?t = "set_host k (HReplies j) s"
  have "finished_by_call ?t i" if "finished_by_call s' i"
    using finished_guest [of "GWaits n" ?t j i] that asks by (simp add: set_host_def)
  then show ?thesis using f l asks(1) by (cases "i = k") (auto simp: untouched_def forsaken_def set_guest_def set_host_def in_loop_def)
next
  case (answers j k n p)
  let ?t = "set_host k HRuns s"
  have "finished_by_call ?t i" if "finished_by_call s' i"
    using finished_guest [of p ?t j i] that answers by (simp add: set_host_def)
  then show ?thesis using f l answers(1) by (cases "i = k") (auto simp: untouched_def forsaken_def set_guest_def set_host_def in_loop_def)
next
  case (gone j b n)
  then show ?thesis using f finished_guest [of GEnded s j i] by (auto simp: untouched_def forsaken_def set_guest_def)
next
  case (gives_up j n)
  then show ?thesis using f finished_guest [of GEnded s j i] by (auto simp: untouched_def forsaken_def set_guest_def)
next
  case (timer j n)
  then show ?thesis using f finished_guest [of "GAsks n" s j i] by (auto simp: untouched_def forsaken_def set_guest_def)
next
  case (commits j)
  have n: "gs_host (sx_guests s ! j) \<noteq> i" using f commits by (auto simp: forsaken_def finished_by_call_def)
  let ?k = "gs_host (sx_guests s ! j)"
  let ?t = "cancel_host ?k (s\<lparr>sx_lobbies := AList.delete (ho_Token (sx_hosts s ! ?k)) (sx_lobbies s)\<rparr>)"
  have "finished_by_call ?t i" if "finished_by_call s' i"
    using finished_guest [of GEnded ?t j i] that commits by (simp add: commit_finish_def Let_def)
  moreover have "finished_by_call ?t i = finished_by_call s i" by (simp add: cancel_host_def)
  moreover have "mapped s' i \<Longrightarrow> mapped s i"
    using commits(1) by (auto simp: commit_finish_def Let_def set_guest_def cancel_host_def mapped_def AList.delete_eq)
  moreover have "sx_hosts s' ! i = sx_hosts s ! i" "length (sx_hosts s') = length (sx_hosts s)" "sx_main s' = sx_main s"
    using n commits(1) by (simp_all add: commit_finish_def Let_def set_guest_def cancel_host_def)
  ultimately show ?thesis using f by (auto simp: untouched_def forsaken_def)
next
  case (returns k)
  then show ?thesis using f by (cases "i = k") (auto simp: untouched_def forsaken_def set_host_def)
next
  case (hangs k)
  then show ?thesis using f l by (cases "i = k") (auto simp: untouched_def forsaken_def set_host_def)
next
  case (deletes k)
  then have "i \<noteq> k" using f by (auto simp: forsaken_def in_loop_def)
  moreover have "mapped s' i \<Longrightarrow> mapped s i"
    using deletes(1) by (auto simp: delete_host_def Let_def set_host_def mapped_def AList.delete_eq split: if_splits)
  ultimately show ?thesis using f deletes(1) by (auto simp: untouched_def forsaken_def set_host_def delete_host_def Let_def)
next
  case (ends k)
  then show ?thesis using f l
    by (cases "i = k") (auto simp: untouched_def forsaken_def set_host_def services_Done_def in_loop_def)
qed (use f in \<open>auto simp: untouched_def forsaken_def\<close>)

lemma move_hangs:
  assumes "server_move s s'" and h: "host_at s i = HHangs" and l: "i < length (sx_hosts s)"
  shows "length (sx_hosts s') = length (sx_hosts s) \<and> host_at s' i = HHangs"
  using assms(1)
proof cases
  case cancels
  then show ?thesis using h l by (cases rule: cancel_all_cases [of s]) auto
next
  case (returns k)
  then show ?thesis using h by (cases "k = i") (auto simp: set_host_def)
next
  case (hangs k)
  then show ?thesis using h by (cases "k = i") (auto simp: set_host_def)
next
  case (deletes k)
  then show ?thesis using h by (cases "k = i") (auto simp: delete_host_def Let_def set_host_def)
next
  case (ends k)
  then show ?thesis using h by (cases "k = i") (auto simp: services_Done_def set_host_def)
next
  case (asks j k n)
  then show ?thesis using h by (cases "k = i") (auto simp: set_guest_def set_host_def)
next
  case (answers j k n p)
  then show ?thesis using h by (cases "k = i") (auto simp: set_guest_def set_host_def)
next
  case (commits j)
  then show ?thesis using h l
    by (cases "gs_host (sx_guests s ! j) = i") (auto simp: commit_finish_def Let_def set_guest_def cancel_host_def)
qed (use h in \<open>auto simp: set_guest_def\<close>)

lemma stays_move:
  assumes m: "server_move s s'" and "stays s"
  shows "stays s'"
proof -
  obtain i where i: "i < length (sx_hosts s)" "host_at s i = HHangs \<or> forsaken s i" using assms(2) by (auto simp: stays_def)
  have l: "length (sx_hosts s') = length (sx_hosts s)"
    using m
  proof cases
    case cancels
    then show ?thesis by (cases rule: cancel_all_cases [of s]) auto
  qed (auto simp: set_host_def set_guest_def delete_host_def services_Done_def commit_finish_def cancel_host_def Let_def)
  have "host_at s' i = HHangs \<or> forsaken s' i"
    using i(2) move_hangs [OF m _ i(1)] move_untouched [OF m _ i(1)] untouched_forsaken [of i s s'] by blast
  then show ?thesis using i(1) l by (auto simp: stays_def)
qed

lemma stays_count:
  assumes "serving_inv s" and "stays s"
  shows "sx_count s > 0"
proof -
  obtain i where i: "i < length (sx_hosts s)" "host_at s i \<noteq> HEnded"
    using assms(2) by (auto simp: stays_def forsaken_def in_loop_def)
  have "open_weight (sx_hosts s ! i) \<le> open_hosts (sx_hosts s)"
    unfolding open_hosts_def using i(1) by (intro member_le_sum_list) auto
  then show ?thesis using i(2) assms(1) by (simp add: serving_inv_def open_weight_def)
qed

lemma never_returns:
  assumes "server_move s s'" and "serving_inv s" "stays s" "sx_main s \<noteq> SReturned"
  shows "sx_main s' \<noteq> SReturned"
  using assms(1)
proof cases
  case cancels
  then show ?thesis by (cases rule: cancel_all_cases [of s]) auto
qed (use assms(4) stays_count [OF assms(2,3)] in \<open>auto simp: set_host_def set_guest_def delete_host_def
  services_Done_def commit_finish_def cancel_host_def Let_def\<close>)

lemma serving_steps_inv: "serving_step\<^sup>*\<^sup>* s s' \<Longrightarrow> serving_inv s \<Longrightarrow> serving_inv s'"
  by (rule invariant_steps [of serving_step _ _ serving_inv]) (auto simp: serving_step_def intro: move_inv)

lemma stuck:
  assumes "serving_step\<^sup>*\<^sup>* s s'" and "serving_inv s" "stays s" "sx_main s \<noteq> SReturned"
  shows "sx_main s' \<noteq> SReturned"
proof -
  have "serving_inv s' \<and> stays s' \<and> sx_main s' \<noteq> SReturned"
    by (rule invariant_steps [where I = "\<lambda>s. serving_inv s \<and> stays s \<and> sx_main s \<noteq> SReturned", OF assms(1)])
      (use assms(2-4) in \<open>auto simp: serving_step_def intro: move_inv stays_move dest: never_returns\<close>)
  then show ?thesis by simp
qed

section \<open>Ending\<close>

definition all_ended :: "server_run \<Rightarrow> bool" where
  "all_ended s \<longleftrightarrow> sx_main s = SReturned \<and> list_all (\<lambda>h. ho_phase h = HEnded) (sx_hosts s) \<and>
     list_all (\<lambda>q. gs_phase q = GEnded) (sx_guests s)"

text \<open>How far a server is from its end.\<close>

fun host_weight :: "host_phase \<Rightarrow> nat" where
  "host_weight (HReplies j) = 4" | "host_weight HRuns = 3" | "host_weight HReturned = 2" | "host_weight HDeleted = 1"
| "host_weight _ = 0"

fun guest_weight :: "guest_phase \<Rightarrow> nat" where
  "guest_weight (GGets b) = 18" | "guest_weight (GAsks n) = 4 * n + 5" | "guest_weight (GWaits n) = 4 * n + 3"
| "guest_weight (GSleeps n) = 4 * n + 2" | "guest_weight GEnded = 0" | "guest_weight _ = 1"

fun start_weight :: "start_phase \<Rightarrow> nat" where
  "start_weight SCtx = 4" | "start_weight SWaitGroup = 3" | "start_weight SSleeps = 2" | "start_weight SWoken = 1"
| "start_weight SReturned = 0"

definition to_go :: "server_run \<Rightarrow> nat" where
  "to_go s = (if sx_done s then 0 else 1) + start_weight (sx_main s) + sum_list (map (host_weight \<circ> ho_phase) (sx_hosts s)) +
     sum_list (map (guest_weight \<circ> gs_phase) (sx_guests s))"

lemma host_to_go:
  "i < length (sx_hosts s) \<Longrightarrow> to_go (set_host i p s) + host_weight (host_at s i) = to_go s + host_weight p"
  using sum_update [of i "sx_hosts s" "host_weight \<circ> ho_phase" "(sx_hosts s ! i)\<lparr>ho_phase := p\<rparr>"]
  by (simp add: to_go_def set_host_def)

lemma guest_to_go:
  "j < length (sx_guests s) \<Longrightarrow> to_go (set_guest j p s) + guest_weight (guest_at s j) = to_go s + guest_weight p"
  using sum_update [of j "sx_guests s" "guest_weight \<circ> gs_phase" "(sx_guests s ! j)\<lparr>gs_phase := p\<rparr>"]
  by (simp add: to_go_def set_guest_def)

lemma cancel_to_go: "to_go (cancel_host i s) = to_go s"
proof (cases "i < length (sx_hosts s)")
  case True
  then show ?thesis
    using sum_update [of i "sx_hosts s" "host_weight \<circ> ho_phase" "(sx_hosts s ! i)\<lparr>ho_cancelled := True\<rparr>"]
    by (simp add: to_go_def cancel_host_def)
qed (simp add: to_go_def cancel_host_def list_update_beyond)

lemma maps_to_go [simp]:
  "to_go (s\<lparr>sx_lobbies := l\<rparr>) = to_go s" "to_go (s\<lparr>sx_sessions := l\<rparr>) = to_go s" "to_go (s\<lparr>sx_count := c\<rparr>) = to_go s"
  by (simp_all add: to_go_def)

lemma delete_to_go: "to_go (delete_host i s) = to_go (set_host i HDeleted s)"
  by (simp add: to_go_def delete_host_def set_host_def Let_def)

lemma Done_to_go: "sx_count s > 0 \<Longrightarrow> to_go (services_Done s) \<le> to_go s"
  by (simp add: to_go_def services_Done_def)

lemma main_to_go: "to_go (s\<lparr>sx_main := m\<rparr>) + start_weight (sx_main s) = to_go s + start_weight m"
  by (simp add: to_go_def)

lemma cancel_all_to_go:
  assumes "sx_main s = SCtx"
  shows "to_go (cancel_all s) < to_go s"
proof -
  have "to_go (fold (\<lambda>e. cancel_host (snd e)) m s) = to_go s" for m :: "(token \<times> nat) list" and s
    by (induction m arbitrary: s) (simp_all add: cancel_to_go)
  moreover have "sx_main (fold (\<lambda>e. cancel_host (snd e)) m s) = sx_main s" for m :: "(token \<times> nat) list" and s
    by (induction m arbitrary: s) (simp_all add: cancel_host_def)
  ultimately show ?thesis
    using main_to_go [where s = "fold (\<lambda>e. cancel_host (snd e)) (sx_sessions s @ sx_lobbies s) s" and m = SWaitGroup] assms
    unfolding cancel_all_def by simp
qed

text \<open>Steps after which no more services stay than before.\<close>

lemma host_leaves:
  assumes "\<not> stays s" and "i < length (sx_hosts s)" "p \<noteq> HHangs" "in_loop p \<Longrightarrow> in_loop (host_at s i)"
  shows "\<not> stays (set_host i p s)"
proof
  assume "stays (set_host i p s)"
  then obtain k where k: "k < length (sx_hosts s)" "host_at (set_host i p s) k = HHangs \<or> forsaken (set_host i p s) k"
    by (auto simp: stays_def set_host_def)
  then have "host_at s k = HHangs \<or> forsaken s k"
    using assms(2-4) by (cases "k = i") (auto simp: forsaken_def set_host_def)
  then show False using assms(1) k(1) by (auto simp: stays_def)
qed

lemma guest_leaves:
  assumes "\<not> stays s" and "j < length (sx_guests s)"
    and f: "finishing (guest_at s j) \<Longrightarrow> finishing p \<or> \<not> in_loop (host_at s (gs_host (sx_guests s ! j))) \<or>
      ho_cancelled (sx_hosts s ! gs_host (sx_guests s ! j))"
  shows "\<not> stays (set_guest j p s)"
proof
  assume "stays (set_guest j p s)"
  then obtain k where k: "k < length (sx_hosts s)" "host_at s k = HHangs \<or> forsaken (set_guest j p s) k"
    by (auto simp: stays_def set_guest_def)
  then have o: "forsaken (set_guest j p s) k" using assms(1) by (auto simp: stays_def)
  have "\<not> forsaken s k" using assms(1) k(1) by (auto simp: stays_def)
  then have "finished_by_call s k" using o by (auto simp: forsaken_def set_guest_def)
  then obtain m where m: "m < length (sx_guests s)" "gs_host (sx_guests s ! m) = k" "finishing (guest_at s m)"
    by (auto simp: finished_by_call_def)
  have n: "\<not> finished_by_call (set_guest j p s) k" using o by (simp add: forsaken_def)
  show False
  proof (cases "m = j")
    case True
    then have "finishing p" using m f o by (auto simp: forsaken_def set_guest_def)
    then have "finished_by_call (set_guest j p s) k"
      unfolding finished_by_call_def using True m by (intro exI [of _ j]) (simp add: set_guest_def)
    then show False using n by simp
  next
    case False
    then have "finished_by_call (set_guest j p s) k"
      unfolding finished_by_call_def using m by (intro exI [of _ m]) (simp add: set_guest_def)
    then show False using n by simp
  qed
qed

lemma cancel_leaves:
  assumes "\<not> stays s"
  shows "\<not> stays (cancel_host i s)"
proof
  assume "stays (cancel_host i s)"
  then obtain k where k: "k < length (sx_hosts s)" "host_at (cancel_host i s) k = HHangs \<or> forsaken (cancel_host i s) k"
    by (auto simp: stays_def cancel_host_def)
  then have "host_at s k = HHangs \<or> forsaken s k" by (cases "k = i") (auto simp: forsaken_def cancel_host_def)
  then show False using assms k(1) by (auto simp: stays_def)
qed

lemma main_leaves: "\<not> stays s \<Longrightarrow> sx_main s \<noteq> SCtx \<Longrightarrow> \<not> stays (s\<lparr>sx_main := m\<rparr>)"
  by (auto simp: stays_def forsaken_def)

lemma map_leaves:
  "\<not> stays s \<Longrightarrow> sx_main s \<noteq> SCtx \<Longrightarrow> \<not> stays (s\<lparr>sx_lobbies := l\<rparr>)"
  "\<not> stays s \<Longrightarrow> sx_main s \<noteq> SCtx \<Longrightarrow> \<not> stays (s\<lparr>sx_sessions := l\<rparr>)"
  by (auto simp: stays_def forsaken_def)

lemma Done_leaves: "\<not> stays s \<Longrightarrow> sx_main s \<noteq> SCtx \<Longrightarrow> \<not> stays (services_Done s)"
  by (auto simp: stays_def forsaken_def services_Done_def)

lemma cancel_all_leaves:
  assumes "\<not> stays s" and "sx_main s = SCtx"
  shows "\<not> stays (cancel_all s)"
proof
  assume a: "stays (cancel_all s)"
  obtain hs where h: "cancel_all s = s\<lparr>sx_hosts := hs, sx_main := SWaitGroup\<rparr>" "length hs = length (sx_hosts s)"
    "\<forall>i < length hs. hs ! i = (if mapped s i then (sx_hosts s ! i)\<lparr>ho_cancelled := True\<rparr> else sx_hosts s ! i)"
    by (rule cancel_all_cases)
  obtain k where "k < length (sx_hosts s)" "ho_phase (hs ! k) = HHangs \<or> forsaken (cancel_all s) k"
    using a h(1,2) by (auto simp: stays_def)
  then have "host_at s k = HHangs \<or> forsaken s k" using h by (auto simp: forsaken_def split: if_splits)
  then show False using assms(1) \<open>k < length (sx_hosts s)\<close> by (auto simp: stays_def)
qed

text \<open>Each kind of goroutine that is not at its end brings a server, once \<open>Start\<close> has been through the maps, nearer to its end.\<close>

definition gets_nearer :: "server_run \<Rightarrow> bool" where
  "gets_nearer s \<longleftrightarrow> (\<exists>s'. server_move s s' \<and> sx_panic s' = sx_panic s \<and> \<not> stays s' \<and> to_go s' < to_go s)"

lemma gets_nearerI: "server_move s s' \<Longrightarrow> sx_panic s' = sx_panic s \<Longrightarrow> \<not> stays s' \<Longrightarrow> to_go s' < to_go s \<Longrightarrow> gets_nearer s"
  by (auto simp: gets_nearer_def)

lemma frame_simps [simp]:
  "sx_panic (set_host i p s) = sx_panic s" "sx_panic (set_guest j q s) = sx_panic s"
  "sx_guests (set_host i p s) = sx_guests s" "sx_hosts (set_guest j q s) = sx_hosts s"
  "sx_main (set_host i p s) = sx_main s" "sx_main (set_guest j q s) = sx_main s" "sx_main (cancel_host i s) = sx_main s"
  "sx_guests (cancel_host i s) = sx_guests s" "sx_panic (cancel_host i s) = sx_panic s"
  by (simp_all add: set_host_def set_guest_def cancel_host_def)

lemma reply_nearer:
  assumes i: "serving_inv s" and s: "\<not> stays s" and l: "i < length (sx_hosts s)" "host_at s i = HReplies j"
  shows "gets_nearer s"
proof -
  have "host_ok (sx_guests s) i (sx_hosts s ! i)" using i l(1) by (simp add: serving_inv_def)
  then obtain n where n: "j < length (sx_guests s)" "gs_host (sx_guests s ! j) = i" "guest_at s j = GWaits n"
    using l(2) by (auto simp: host_ok_def)
  let ?t = "set_host i HRuns s"
  let ?s = "set_guest j (answered n) ?t"
  have "server_move s ?s" using n l(2) by (intro server_move.answers) auto
  moreover have "\<not> stays ?t" using s l by (intro host_leaves) (auto simp: in_loop_def)
  then have "\<not> stays ?s" using n by (intro guest_leaves) (auto simp: answered_def)
  moreover have "to_go ?t + 4 = to_go s + 3" using host_to_go [OF l(1), of HRuns] l(2) by simp
  then have "to_go ?s < to_go s" using guest_to_go [of j ?t "answered n"] n by (simp add: answered_def split: if_splits)
  ultimately show ?thesis by (intro gets_nearerI [of s ?s]) simp_all
qed

lemma guest_nearer:
  assumes i: "serving_inv s" and s: "\<not> stays s" and m: "sx_main s \<noteq> SCtx" and l: "j < length (sx_guests s)"
    and e: "guest_at s j \<noteq> GEnded" and r: "\<forall>i j. i < length (sx_hosts s) \<longrightarrow> host_at s i \<noteq> HReplies j"
  shows "gets_nearer s"
proof -
  define k where "k = gs_host (sx_guests s ! j)"
  have k: "k < length (sx_hosts s)" "ho_lobby (sx_hosts s ! k)" "\<forall>n. guest_at s j \<noteq> GWaits n" "guest_at s j \<noteq> GSleeps 0"
    using i l r by (auto simp: serving_inv_def guest_ok_def k_def)
  have one: "gets_nearer s" if "server_move s (set_guest j p s)" "guest_weight p < guest_weight (guest_at s j)"
    "finishing (guest_at s j) \<Longrightarrow> finishing p \<or> \<not> in_loop (host_at s k)" for p
  proof (rule gets_nearerI [OF that(1)])
    show "\<not> stays (set_guest j p s)" using that(3) s l by (intro guest_leaves) (auto simp: k_def)
    show "to_go (set_guest j p s) < to_go s" using guest_to_go [OF l, of p] that(2) by simp
  qed simp
  show ?thesis
  proof (cases "guest_at s j")
    case GCommits
    let ?t = "s\<lparr>sx_lobbies := AList.delete (ho_Token (sx_hosts s ! k)) (sx_lobbies s)\<rparr>"
    have c: "commit_finish j s = set_guest j GEnded (cancel_host k ?t)" by (simp add: commit_finish_def Let_def k_def)
    have "server_move s (commit_finish j s)" by (rule server_move.commits [OF l GCommits])
    moreover have "\<not> stays (cancel_host k ?t)" using map_leaves(1) [OF s m] by (rule cancel_leaves)
    then have "\<not> stays (commit_finish j s)" unfolding c using l k(1)
      by (intro guest_leaves) (auto simp: k_def cancel_host_def)
    moreover have "to_go (commit_finish j s) < to_go s"
      using guest_to_go [of j "cancel_host k ?t" GEnded] l GCommits by (simp add: c cancel_to_go)
    ultimately show ?thesis by (intro gets_nearerI [of s "commit_finish j s"]) (simp_all add: c)
  next
    case (GSleeps n)
    then obtain m where n: "n = Suc m" using k(4) by (cases n) auto
    show ?thesis using GSleeps by (intro one [of "GAsks m"] server_move.timer [OF l]) (auto simp: n)
  next
    case (GAsks n)
    show ?thesis
    proof (cases "host_at s k = HRuns")
      case True
      let ?t = "set_host k (HReplies j) s"
      let ?s = "set_guest j (GWaits n) ?t"
      have "server_move s ?s" using GAsks True by (intro server_move.asks [OF l]) (auto simp: k_def)
      moreover have "\<not> stays ?t" using s k(1) True by (intro host_leaves) (auto simp: in_loop_def)
      then have "\<not> stays ?s" using l by (intro guest_leaves) auto
      moreover have "to_go ?t + 3 = to_go s + 4" using host_to_go [OF k(1), of "HReplies j"] True by simp
      then have "to_go ?s < to_go s" using guest_to_go [of j ?t "GWaits n"] l GAsks by simp
      ultimately show ?thesis by (intro gets_nearerI [of s ?s]) simp_all
    next
      case False
      then have "host_done (host_at s k)" "\<not> in_loop (host_at s k)"
        using r k s by (cases "host_at s k"; auto simp: host_done_def in_loop_def stays_def)+
      then show ?thesis using GAsks server_move.gone [OF l, of _ n] by (intro one [of GEnded]) (auto simp: k_def)
    qed
  next
    case GPosts
    show ?thesis
    proof (cases "host_at s k = HRuns")
      case True
      then show ?thesis using GPosts server_move.takes [OF l, of GEnded] by (intro one [of GEnded]) (auto simp: k_def)
    next
      case False
      then have "host_done (host_at s k)"
        using r k s by (cases "host_at s k") (auto simp: host_done_def stays_def)
      then show ?thesis using GPosts server_move.gone [OF l] by (intro one [of GEnded]) (auto simp: k_def)
    qed
  next
    case (GGets b)
    show ?thesis
    proof (cases "host_at s k = HRuns")
      case True
      define p where "p = (if b then GAsks 3 else GEnded)"
      show ?thesis using True GGets server_move.takes [OF l, of p] by (intro one [of p]) (auto simp: k_def p_def)
    next
      case False
      then have "host_done (host_at s k)" "\<not> in_loop (host_at s k)"
        using r k s by (cases "host_at s k"; auto simp: host_done_def in_loop_def stays_def)+
      then show ?thesis using GGets server_move.gone [OF l, of b] by (intro one [of GEnded]) (auto simp: k_def)
    qed
  qed (use e k in auto)
qed

lemma host_nearer:
  assumes i: "serving_inv s" and s: "\<not> stays s" and m: "sx_main s \<noteq> SCtx" and l: "k < length (sx_hosts s)"
    and e: "host_at s k \<noteq> HEnded" "\<forall>j. host_at s k \<noteq> HReplies j" and g: "\<forall>j < length (sx_guests s). guest_at s j = GEnded"
  shows "gets_nearer s"
proof (cases "host_at s k")
  case HRuns
  have "\<not> finished_by_call s k" using g by (auto simp: finished_by_call_def)
  then have "ho_cancelled (sx_hosts s ! k)" using s l HRuns m by (auto simp: stays_def forsaken_def in_loop_def)
  then have "server_move s (set_host k HReturned s)" by (rule server_move.returns [OF l HRuns])
  moreover have "\<not> stays (set_host k HReturned s)" using s l by (rule host_leaves) (simp_all add: in_loop_def)
  moreover have "to_go (set_host k HReturned s) < to_go s" using host_to_go [OF l, of HReturned] HRuns by simp
  ultimately show ?thesis by (intro gets_nearerI) simp_all
next
  case HReturned
  define t where "t = (if ho_lobby (sx_hosts s ! k) then s\<lparr>sx_lobbies := AList.delete (ho_Token (sx_hosts s ! k)) (sx_lobbies s)\<rparr>
    else s\<lparr>sx_sessions := AList.delete (ho_Token (sx_hosts s ! k)) (sx_sessions s)\<rparr>)"
  have d: "delete_host k s = set_host k HDeleted t" by (simp add: delete_host_def Let_def t_def)
  have f: "sx_hosts t = sx_hosts s" "sx_panic t = sx_panic s" by (simp_all add: t_def)
  have "\<not> stays t" using map_leaves [OF s m] by (simp add: t_def)
  then have "\<not> stays (delete_host k s)" unfolding d using l f by (intro host_leaves) (simp_all add: in_loop_def)
  moreover have "to_go (delete_host k s) < to_go s" using host_to_go [OF l, of HDeleted] HReturned by (simp add: delete_to_go)
  ultimately show ?thesis using server_move.deletes [OF l HReturned] f by (intro gets_nearerI) (simp_all add: d)
next
  case HDeleted
  let ?t = "set_host k HEnded s"
  have c: "sx_count s > 0" by (rule ends_inv(2) [OF i l HDeleted])
  then have c': "sx_count ?t > 0" by (simp add: set_host_def)
  have "\<not> stays ?t" using s l by (rule host_leaves) (simp_all add: in_loop_def)
  then have "\<not> stays (services_Done ?t)" using m by (intro Done_leaves) simp_all
  moreover have "to_go (services_Done ?t) < to_go s" using Done_to_go [OF c'] host_to_go [OF l, of HEnded] HDeleted by simp
  ultimately show ?thesis using server_move.ends [OF l HDeleted] c' by (intro gets_nearerI) (simp_all add: services_Done_def)
next
  case HHangs
  then show ?thesis using s l by (auto simp: stays_def)
qed (use e in auto)

lemma start_nearer:
  assumes i: "serving_inv s" and s: "\<not> stays s" and m: "sx_main s \<noteq> SCtx" "sx_main s \<noteq> SReturned"
    and h: "\<forall>k < length (sx_hosts s). host_at s k = HEnded"
  shows "gets_nearer s"
proof -
  have "open_hosts (sx_hosts s) = 0"
    using h by (auto simp: open_hosts_def open_weight_def in_set_conv_nth)
  then have c: "sx_count s = 0" using i by (simp add: serving_inv_def)
  then consider "sx_main s = SWaitGroup" | "sx_main s = SWoken" using m i by (cases "sx_main s") (auto simp: serving_inv_def)
  then have "server_move s (s\<lparr>sx_main := SReturned\<rparr>)"
    using server_move.waits [of s] server_move.wakes [of s] c by cases simp_all
  moreover have "to_go (s\<lparr>sx_main := SReturned\<rparr>) < to_go s" using main_to_go [where s = s and m = SReturned] m by (cases "sx_main s") simp_all
  ultimately show ?thesis using main_leaves [OF s m(1)] by (intro gets_nearerI) simp_all
qed

lemma server_nearer:
  assumes i: "serving_inv s" and s: "\<not> stays s" and n: "\<not> all_ended s"
  shows "gets_nearer s"
proof -
  consider (stop) "\<not> sx_done s" | (cancels) "sx_done s" "sx_main s = SCtx"
    | (reply) k j where "k < length (sx_hosts s)" "host_at s k = HReplies j"
    | (guest) j where "sx_main s \<noteq> SCtx" "\<forall>k j. k < length (sx_hosts s) \<longrightarrow> host_at s k \<noteq> HReplies j"
      "j < length (sx_guests s)" "guest_at s j \<noteq> GEnded"
    | (host) k where "sx_main s \<noteq> SCtx" "k < length (sx_hosts s)" "host_at s k \<noteq> HEnded" "\<forall>j. host_at s k \<noteq> HReplies j"
      "\<forall>j < length (sx_guests s). guest_at s j = GEnded"
    | (start) "sx_main s \<noteq> SCtx" "sx_main s \<noteq> SReturned" "\<forall>k < length (sx_hosts s). host_at s k = HEnded"
    using n unfolding all_ended_def list_all_length by blast
  then show ?thesis
  proof cases
    case stop
    have "\<not> stays (s\<lparr>sx_done := True\<rparr>)" using s by (auto simp: stays_def forsaken_def)
    moreover have "to_go (s\<lparr>sx_done := True\<rparr>) < to_go s" using stop by (simp add: to_go_def)
    ultimately show ?thesis using server_move.stop by (intro gets_nearerI) simp_all
  next
    case cancels
    have "sx_panic (cancel_all s) = sx_panic s" by (cases rule: cancel_all_cases [of s]) simp
    then show ?thesis
      using server_move.cancels [OF cancels(2,1)] cancel_all_leaves [OF s cancels(2)] cancel_all_to_go [OF cancels(2)]
      by (intro gets_nearerI) simp_all
  next
    case reply
    then show ?thesis by (rule reply_nearer [OF i s])
  next
    case guest
    then show ?thesis by (intro guest_nearer [OF i s])
  next
    case host
    then show ?thesis by (intro host_nearer [OF i s])
  next
    case start
    then show ?thesis by (rule start_nearer [OF i s])
  qed
qed

interpretation server_end: draining serving_step "\<lambda>s. serving_inv s \<and> \<not> stays s \<and> sx_panic s = None" all_ended to_go
proof unfold_locales
  fix s
  assume a: "serving_inv s \<and> \<not> stays s \<and> sx_panic s = None" and n: "\<not> all_ended s"
  then obtain t where "server_move s t" "sx_panic t = None" "\<not> stays t" "to_go t < to_go s"
    using server_nearer [of s] by (auto simp: gets_nearer_def)
  then show "\<exists>s'. serving_step s s' \<and> (serving_inv s' \<and> \<not> stays s' \<and> sx_panic s' = None) \<and> to_go s' < to_go s"
    using move_inv a by (auto simp: serving_step_def)
qed

section \<open>Properties\<close>

text \<open>
  C7. However the goroutines of a server's sessions and lobbies, the calls of its methods and what the game starts
  and cancels have been interleaved, a server that has not panicked can still be stopped, without a panic and
  with every goroutine and call at its end, unless a session hangs or a service is left that nobody is going to
  cancel: its context has not ended, no call of \<open>FinishLobby\<close> is with it, and \<open>Start\<close> has already been
  through the maps or the service is in none of them. In that case \<open>Start\<close> never returns.
\<close>

theorem server_stops_unless_forsaken:
  assumes "server_event\<^sup>*\<^sup>* new_server_run s" and "sx_panic s = None" and "sx_main s \<noteq> SReturned"
  shows "((\<exists>s'. serving_step\<^sup>*\<^sup>* s s' \<and> sx_panic s' = None \<and> all_ended s') \<longleftrightarrow>
      \<not> (\<exists>i < length (sx_hosts s). host_at s i = HHangs \<or> forsaken s i)) \<and>
    ((\<exists>i < length (sx_hosts s). host_at s i = HHangs \<or> forsaken s i) \<longrightarrow>
      (\<forall>s'. serving_step\<^sup>*\<^sup>* s s' \<longrightarrow> sx_main s' \<noteq> SReturned))"
proof -
  have i: "serving_inv s"
    by (rule invariant_steps [where I = serving_inv, OF assms(1) new_serving_inv]) (rule event_inv)
  show ?thesis
    using server_end.can_end [of s] stuck [OF _ i _ assms(3)] i assms(2) unfolding stays_def [symmetric]
    by (auto simp: all_ended_def)
qed

text \<open>
  A lobby with token 1 is finished and, before its goroutine has deleted the entry of that token, another lobby
  is started with the token: its entry is the one that goes. \<open>Start\<close> does not find the second lobby.
\<close>

definition lobby_state :: "host_phase \<Rightarrow> guest_phase \<Rightarrow> server_run" where
  "lobby_state h q = \<lparr>sx_done = False, sx_main = SCtx, sx_sessions = [], sx_lobbies = [(1, 0)],
     sx_hosts = [\<lparr>ho_Token = 1, ho_lobby = True, ho_cancelled = False, ho_phase = h\<rparr>], sx_count = 1,
     sx_guests = [\<lparr>gs_host = 0, gs_phase = q\<rparr>], sx_panic = None\<rparr>"

definition orphan_state :: "start_phase \<Rightarrow> host_phase \<Rightarrow> (token \<times> nat) list \<Rightarrow> nat \<Rightarrow> server_run" where
  "orphan_state m h lobbies n = \<lparr>sx_done = (m \<noteq> SCtx), sx_main = m, sx_sessions = [], sx_lobbies = lobbies,
     sx_hosts = [\<lparr>ho_Token = 1, ho_lobby = True, ho_cancelled = True, ho_phase = h\<rparr>,
       \<lparr>ho_Token = 1, ho_lobby = True, ho_cancelled = False, ho_phase = HRuns\<rparr>], sx_count = n,
     sx_guests = [\<lparr>gs_host = 0, gs_phase = GEnded\<rparr>], sx_panic = None\<rparr>"

lemma moves: "server_move s s' \<Longrightarrow> sx_panic s = None \<Longrightarrow> server_event\<^sup>*\<^sup>* s s'"
  by (auto intro!: server_event.serving simp: serving_step_def)

lemma countdown:
  assumes "server_event\<^sup>*\<^sup>* s (lobby_state HRuns (GAsks n))"
  shows "server_event\<^sup>*\<^sup>* s (lobby_state HRuns GCommits)"
  using assms
proof (induction n)
  case 0
  have "server_move (lobby_state HRuns (GAsks 0)) (lobby_state (HReplies 0) (GWaits 0))"
    using server_move.asks [of 0 "lobby_state HRuns (GAsks 0)" 0 0] by (simp add: lobby_state_def set_host_def set_guest_def)
  moreover have "server_move (lobby_state (HReplies 0) (GWaits 0)) (lobby_state HRuns GCommits)"
    using server_move.answers [of 0 "lobby_state (HReplies 0) (GWaits 0)" 0 0 GCommits]
    by (simp add: lobby_state_def set_host_def set_guest_def answered_def)
  ultimately show ?case using 0 moves by (metis (no_types, lifting) lobby_state_def rtranclp_trans server_run.select_convs(8))
next
  case (Suc n)
  let ?n = "Suc n"
  have "server_move (lobby_state HRuns (GAsks ?n)) (lobby_state (HReplies 0) (GWaits ?n))"
    using server_move.asks [of 0 "lobby_state HRuns (GAsks ?n)" 0 ?n] by (simp add: lobby_state_def set_host_def set_guest_def)
  moreover have "server_move (lobby_state (HReplies 0) (GWaits ?n)) (lobby_state HRuns (GSleeps ?n))"
    using server_move.answers [of 0 "lobby_state (HReplies 0) (GWaits ?n)" 0 ?n "GSleeps ?n"]
    by (simp add: lobby_state_def set_host_def set_guest_def answered_def)
  moreover have "server_move (lobby_state HRuns (GSleeps ?n)) (lobby_state HRuns (GAsks n))"
    using server_move.timer [of 0 "lobby_state HRuns (GSleeps ?n)" n] by (simp add: lobby_state_def set_host_def set_guest_def)
  ultimately have "server_event\<^sup>*\<^sup>* s (lobby_state HRuns (GAsks n))" using Suc.prems moves
    by (metis (no_types, lifting) lobby_state_def rtranclp_trans server_run.select_convs(8))
  then show ?case by (rule Suc.IH)
qed

lemma orphan_reached: "server_event\<^sup>*\<^sup>* new_server_run (orphan_state SSleeps HEnded [] 1)"
proof -
  have "server_event new_server_run (add_host 1 True new_server_run)"
    by (rule server_event.starts) (simp_all add: new_server_run_def)
  moreover have "server_event (add_host 1 True new_server_run) (lobby_state HRuns (GGets True))"
    using server_event.calls [of "add_host 1 True new_server_run" 1 0 "GGets True" True]
    by (simp add: new_server_run_def add_host_def lobby_state_def)
  moreover have "server_event\<^sup>*\<^sup>* (lobby_state HRuns (GGets True)) (lobby_state HRuns (GAsks 3))"
    using moves [OF server_move.takes [of 0 "lobby_state HRuns (GGets True)" "GAsks 3"]] by (simp add: lobby_state_def set_guest_def)
  ultimately have "server_event\<^sup>*\<^sup>* new_server_run (lobby_state HRuns (GAsks 3))"
    by (meson converse_rtranclp_into_rtranclp)
  then have c: "server_event\<^sup>*\<^sup>* new_server_run (lobby_state HRuns GCommits)" by (rule countdown)
  define s where "s = commit_finish 0 (lobby_state HRuns GCommits)"
  have "server_event\<^sup>*\<^sup>* (lobby_state HRuns GCommits) s"
    unfolding s_def by (rule moves, rule server_move.commits) (simp_all add: lobby_state_def)
  moreover have "server_event s (orphan_state SCtx HRuns [(1, 1)] 2)"
    using server_event.starts [of s 1 True]
    by (simp add: s_def lobby_state_def commit_finish_def cancel_host_def set_guest_def add_host_def orphan_state_def numeral_2_eq_2)
  moreover have "server_event\<^sup>*\<^sup>* (orphan_state SCtx HRuns [(1, 1)] 2) (orphan_state SCtx HReturned [(1, 1)] 2)"
    using moves [OF server_move.returns [of 0 "orphan_state SCtx HRuns [(1, 1)] 2"]] by (simp add: orphan_state_def set_host_def)
  moreover have "server_event\<^sup>*\<^sup>* (orphan_state SCtx HReturned [(1, 1)] 2) (orphan_state SCtx HDeleted [] 2)"
    using moves [OF server_move.deletes [of 0 "orphan_state SCtx HReturned [(1, 1)] 2"]]
    by (simp add: orphan_state_def set_host_def delete_host_def)
  moreover have "server_event\<^sup>*\<^sup>* (orphan_state SCtx HDeleted [] 2) (orphan_state SCtx HEnded [] 1)"
    using moves [OF server_move.ends [of 0 "orphan_state SCtx HDeleted [] 2"]]
    by (simp add: orphan_state_def set_host_def services_Done_def)
  moreover have "server_event\<^sup>*\<^sup>* (orphan_state SCtx HEnded [] 1) ((orphan_state SCtx HEnded [] 1)\<lparr>sx_done := True\<rparr>)"
    by (rule moves, rule server_move.stop) (simp add: orphan_state_def)
  moreover have "server_event\<^sup>*\<^sup>* ((orphan_state SCtx HEnded [] 1)\<lparr>sx_done := True\<rparr>) (orphan_state SWaitGroup HEnded [] 1)"
    using moves [OF server_move.cancels [of "(orphan_state SCtx HEnded [] 1)\<lparr>sx_done := True\<rparr>"]]
    by (simp add: orphan_state_def cancel_all_def)
  moreover have "server_event\<^sup>*\<^sup>* (orphan_state SWaitGroup HEnded [] 1) (orphan_state SSleeps HEnded [] 1)"
    using moves [OF server_move.waits [of "orphan_state SWaitGroup HEnded [] 1"]] by (simp add: orphan_state_def)
  ultimately show ?thesis using c by (meson rtranclp_trans r_into_rtranclp)
qed

theorem server_stops_unless_forsaken_witness:
  "server_event\<^sup>*\<^sup>* new_server_run (orphan_state SSleeps HEnded [] 1) \<and>
   (\<nexists>s'. serving_step\<^sup>*\<^sup>* (orphan_state SSleeps HEnded [] 1) s' \<and> sx_main s' = SReturned)"
proof -
  have "forsaken (orphan_state SSleeps HEnded [] 1) 1"
    by (simp add: orphan_state_def forsaken_def in_loop_def finished_by_call_def)
  moreover have "1 < length (sx_hosts (orphan_state SSleeps HEnded [] 1))" by (simp add: orphan_state_def)
  ultimately show ?thesis using server_stops_unless_forsaken [OF orphan_reached] orphan_reached
    by (auto simp: orphan_state_def)
qed

end
