(* ===== verification/CarefulServers.thy ===== *)
theory CarefulServers
  imports ServerEnds
begin

text \<open>
  How a game has to use a server so that the server can always be stopped: the conditions under which no service
  of \<open>ServerEnds\<close> is ever forsaken and its wait group never panics.
\<close>

section \<open>Careful games\<close>

text \<open>
  A game that uses a token again only when the goroutine of its former service and all calls that are about to
  cancel it are over, starts nothing once \<open>Start\<close> has been through the maps, and has no session that hangs.
\<close>

definition gone_for_good :: "server_run \<Rightarrow> nat \<Rightarrow> bool" where
  "gone_for_good s i \<longleftrightarrow> host_at s i = HEnded \<and>
     (\<forall>j < length (sx_guests s). gs_host (sx_guests s ! j) = i \<longrightarrow> guest_at s j \<noteq> GCommits)"

definition careful_event :: "server_run \<Rightarrow> server_run \<Rightarrow> bool" where
  "careful_event s s' \<longleftrightarrow> server_event s s' \<and>
     (\<forall>h. sx_hosts s' = sx_hosts s @ [h] \<longrightarrow> sx_main s = SCtx \<and>
        (\<forall>i < length (sx_hosts s). ho_Token (sx_hosts s ! i) = ho_Token h \<longrightarrow> gone_for_good s i)) \<and>
     (\<forall>i < length (sx_hosts s'). host_at s' i \<noteq> HHangs)"

definition at_work :: "server_run \<Rightarrow> nat \<Rightarrow> bool" where
  "at_work s i \<longleftrightarrow> in_loop (host_at s i) \<and> \<not> ho_cancelled (sx_hosts s ! i)"

definition careful_inv :: "server_run \<Rightarrow> bool" where
  "careful_inv s \<longleftrightarrow> sx_panic s = None \<and> (sx_main s \<in> {SWoken, SReturned} \<longrightarrow> sx_count s = 0) \<and>
     (\<forall>i < length (sx_hosts s). host_at s i \<noteq> HHangs \<and> (at_work s i \<longrightarrow> sx_main s = SCtx \<and> mapped s i)) \<and>
     (\<forall>i < length (sx_hosts s). \<forall>k < length (sx_hosts s).
        i \<noteq> k \<longrightarrow> ho_Token (sx_hosts s ! i) = ho_Token (sx_hosts s ! k) \<longrightarrow> gone_for_good s i \<or> gone_for_good s k)"

lemma careful_stays: "careful_inv s \<Longrightarrow> \<not> stays s"
  by (auto simp: careful_inv_def stays_def forsaken_def at_work_def)

lemma token_update [simp]:
  "ho_Token (hs[k := (hs ! k)\<lparr>ho_phase := p\<rparr>] ! i) = ho_Token (hs ! i)"
  "ho_Token (hs[k := (hs ! k)\<lparr>ho_cancelled := c\<rparr>] ! i) = ho_Token (hs ! i)"
  by (cases "k = i"; cases "k < length hs"; simp add: list_update_beyond)+

lemma move_hosts:
  assumes "server_move s s'"
  shows "length (sx_hosts s') = length (sx_hosts s)"
    and "i < length (sx_hosts s) \<Longrightarrow> ho_Token (sx_hosts s' ! i) = ho_Token (sx_hosts s ! i)"
proof -
  have "length (sx_hosts s') = length (sx_hosts s) \<and>
    (i < length (sx_hosts s) \<longrightarrow> ho_Token (sx_hosts s' ! i) = ho_Token (sx_hosts s ! i))"
    using assms
  proof cases
    case cancels
    then show ?thesis by (cases rule: cancel_all_cases [of s]) auto
  qed (auto simp: set_host_def set_guest_def delete_host_def services_Done_def commit_finish_def cancel_host_def Let_def)
  then show "length (sx_hosts s') = length (sx_hosts s)"
    and "i < length (sx_hosts s) \<Longrightarrow> ho_Token (sx_hosts s' ! i) = ho_Token (sx_hosts s ! i)" by auto
qed

lemma gone_guest:
  assumes "gone_for_good s i" and "p \<noteq> GCommits \<or> gs_host (sx_guests s ! j) \<noteq> i"
  shows "gone_for_good (set_guest j p s) i"
proof -
  have "guest_at (set_guest j p s) k \<noteq> GCommits"
    if "k < length (sx_guests s)" "gs_host (sx_guests (set_guest j p s) ! k) = i" for k
    using that assms by (cases "k = j") (auto simp: gone_for_good_def set_guest_def)
  then show ?thesis using assms(1) by (auto simp: gone_for_good_def set_guest_def)
qed

lemma gone_move:
  assumes "server_move s s'" and g: "gone_for_good s i" and l: "i < length (sx_hosts s)"
  shows "gone_for_good s' i"
  using assms(1)
proof cases
  case cancels
  then show ?thesis using g l by (cases rule: cancel_all_cases [of s]) (auto simp: gone_for_good_def)
next
  case (returns k)
  then show ?thesis using g by (cases "k = i") (auto simp: gone_for_good_def set_host_def)
next
  case (hangs k)
  then show ?thesis using g by (cases "k = i") (auto simp: gone_for_good_def set_host_def)
next
  case (deletes k)
  then show ?thesis using g by (cases "k = i") (auto simp: gone_for_good_def set_host_def delete_host_def Let_def)
next
  case (ends k)
  then show ?thesis using g by (cases "k = i") (auto simp: gone_for_good_def set_host_def services_Done_def)
next
  case (takes j p)
  then show ?thesis using g by (cases "guest_at s j") (auto intro!: gone_guest)
next
  case (asks j k n)
  then have "gone_for_good (set_host k (HReplies j) s) i" using g by (cases "k = i") (auto simp: gone_for_good_def set_host_def)
  then show ?thesis using asks by (auto intro: gone_guest)
next
  case (answers j k n p)
  then have "k \<noteq> i" using g by (auto simp: gone_for_good_def)
  moreover from this have "gone_for_good (set_host k HRuns s) i" using g by (auto simp: gone_for_good_def set_host_def)
  ultimately show ?thesis using answers by (auto intro: gone_guest)
next
  case (commits j)
  let ?k = "gs_host (sx_guests s ! j)"
  have "gone_for_good (cancel_host ?k (s\<lparr>sx_lobbies := AList.delete (ho_Token (sx_hosts s ! ?k)) (sx_lobbies s)\<rparr>)) i"
    using g l by (cases "?k = i") (auto simp: gone_for_good_def cancel_host_def)
  then show ?thesis using commits(1) by (auto simp: commit_finish_def Let_def intro: gone_guest)
next
  case stop
  then show ?thesis using g by (simp add: gone_for_good_def)
next
  case waits
  then show ?thesis using g by (simp add: gone_for_good_def)
next
  case wakes
  then show ?thesis using g by (simp add: gone_for_good_def)
qed (use g in \<open>auto intro: gone_guest\<close>)

lemma at_work_move:
  assumes "server_move s s'" and l: "i < length (sx_hosts s)" and r: "at_work s' i"
  shows "at_work s i"
  using assms(1)
proof cases
  case cancels
  then show ?thesis using r l by (cases rule: cancel_all_cases [of s]) (auto simp: at_work_def split: if_splits)
next
  case (returns k)
  then show ?thesis using r l by (cases "k = i") (auto simp: at_work_def in_loop_def set_host_def)
next
  case (hangs k)
  then show ?thesis using r l by (cases "k = i") (auto simp: at_work_def in_loop_def set_host_def)
next
  case (deletes k)
  then show ?thesis using r l by (cases "k = i") (auto simp: at_work_def in_loop_def set_host_def delete_host_def Let_def split: if_splits)
next
  case (ends k)
  then show ?thesis using r l by (cases "k = i") (auto simp: at_work_def in_loop_def set_host_def services_Done_def split: if_splits)
next
  case (asks j k n)
  then show ?thesis using r l by (cases "k = i") (auto simp: at_work_def in_loop_def set_host_def set_guest_def)
next
  case (answers j k n p)
  then show ?thesis using r l by (cases "k = i") (auto simp: at_work_def in_loop_def set_host_def set_guest_def)
next
  case (commits j)
  then show ?thesis using r l
    by (cases "gs_host (sx_guests s ! j) = i") (auto simp: at_work_def commit_finish_def Let_def set_guest_def cancel_host_def)
qed (use r in \<open>auto simp: at_work_def set_guest_def split: if_splits\<close>)

text \<open>An entry is deleted by the goroutine of a service with its token, or by a call that finishes one.\<close>

lemma leads_entry: "leads m lobby hs \<Longrightarrow> i \<in> snd ` set m \<Longrightarrow> t \<noteq> ho_Token (hs ! i) \<Longrightarrow> i \<in> snd ` set (AList.delete t m)"
  by (force simp: leads_def AList.delete_eq)

lemma mapped_move:
  assumes "server_move s s'" and i: "serving_inv s" and l: "i < length (sx_hosts s)" and m: "mapped s i" "\<not> mapped s' i"
  obtains k where "k < length (sx_hosts s)" "ho_Token (sx_hosts s ! k) = ho_Token (sx_hosts s ! i)" "\<not> gone_for_good s k"
    "k = i \<Longrightarrow> \<not> at_work s' i"
proof -
  have ld: "leads (sx_sessions s) False (sx_hosts s)" "leads (sx_lobbies s) True (sx_hosts s)" using i by (simp_all add: serving_inv_def)
  from assms(1) show ?thesis
  proof cases
    case cancels
    then show ?thesis using m by (cases rule: cancel_all_cases [of s]) auto
  next
    case (deletes k)
    have "ho_Token (sx_hosts s ! k) = ho_Token (sx_hosts s ! i)"
    proof (rule ccontr)
      assume "ho_Token (sx_hosts s ! k) \<noteq> ho_Token (sx_hosts s ! i)"
      note e = leads_entry [OF ld(1) _ this] leads_entry [OF ld(2) _ this]
      have "mapped s' i"
        using deletes(1) m(1) e unfolding mapped_def
        by (cases "ho_lobby (sx_hosts s ! k)"; simp add: delete_host_def Let_def set_host_def; blast)
      then show False using m(2) by simp
    qed
    moreover have "\<not> at_work s' k" using deletes by (simp add: at_work_def in_loop_def delete_host_def Let_def set_host_def)
    ultimately show ?thesis using that [of k] deletes by (auto simp: gone_for_good_def)
  next
    case (commits j)
    let ?k = "gs_host (sx_guests s ! j)"
    have k: "?k < length (sx_hosts s)" using i commits(2) by (auto simp: serving_inv_def guest_ok_def)
    have "ho_Token (sx_hosts s ! ?k) = ho_Token (sx_hosts s ! i)"
    proof (rule ccontr)
      assume "ho_Token (sx_hosts s ! ?k) \<noteq> ho_Token (sx_hosts s ! i)"
      then have "mapped s' i" using commits(1) m(1) leads_entry [OF ld(2)]
        by (auto simp: commit_finish_def Let_def set_guest_def cancel_host_def mapped_def)
      then show False using m(2) by simp
    qed
    moreover have "\<not> at_work s' ?k" using commits k by (simp add: at_work_def commit_finish_def Let_def set_guest_def cancel_host_def)
    moreover have "\<not> gone_for_good s ?k" using commits by (auto simp: gone_for_good_def)
    ultimately show ?thesis using that [of ?k] k by metis
  qed (use m in \<open>auto simp: mapped_def set_host_def set_guest_def services_Done_def split: if_splits\<close>)
qed

lemma quiet_move:
  assumes "server_move s s'" and i: "serving_inv s" and c: "sx_main s \<in> {SWoken, SReturned} \<longrightarrow> sx_count s = 0"
    and p: "sx_panic s = None"
  shows "(sx_main s' \<in> {SWoken, SReturned} \<longrightarrow> sx_count s' = 0) \<and> sx_panic s' = None"
  using assms(1)
proof cases
  case cancels
  then show ?thesis using p by (cases rule: cancel_all_cases [of s]) auto
next
  case (ends k)
  then show ?thesis using ends_inv(2) [OF i ends(2,3)] c p by (auto simp: services_Done_def set_host_def)
qed (use c p in \<open>auto simp: set_host_def set_guest_def delete_host_def commit_finish_def cancel_host_def Let_def\<close>)

lemma main_move: "server_move s s' \<Longrightarrow> sx_main s' \<noteq> SCtx \<Longrightarrow> sx_main s = SCtx \<Longrightarrow> s' = cancel_all s"
  by (erule server_move.cases)
    (auto simp: set_host_def set_guest_def delete_host_def services_Done_def commit_finish_def cancel_host_def Let_def split: if_splits)

lemma careful_move:
  assumes m: "server_move s s'" and i: "serving_inv s" and c: "careful_inv s"
    and h: "\<forall>i < length (sx_hosts s'). host_at s' i \<noteq> HHangs"
  shows "careful_inv s'"
proof -
  note l = move_hosts [OF m]
  have r: "sx_main s' = SCtx \<and> mapped s' k" if k: "k < length (sx_hosts s)" "at_work s' k" for k
  proof -
    have o: "sx_main s = SCtx" "mapped s k" using at_work_move [OF m k] c k(1) by (auto simp: careful_inv_def)
    have "sx_main s' = SCtx"
    proof (rule ccontr)
      assume "sx_main s' \<noteq> SCtx"
      then have "s' = cancel_all s" using main_move [OF m] o(1) by blast
      then show False using k o(2) by (cases rule: cancel_all_cases [of s]) (auto simp: at_work_def)
    qed
    moreover have "mapped s' k"
    proof (rule ccontr)
      assume "\<not> mapped s' k"
      from mapped_move [OF m i k(1) o(2) this] obtain j where
        j: "j < length (sx_hosts s)" "ho_Token (sx_hosts s ! j) = ho_Token (sx_hosts s ! k)" "\<not> gone_for_good s j"
          "j \<noteq> k" using k(2) by blast
      then have "gone_for_good s k" using c k(1) by (auto simp: careful_inv_def)
      then show False using at_work_move [OF m k] by (auto simp: at_work_def gone_for_good_def in_loop_def)
    qed
    ultimately show ?thesis by simp
  qed
  have "gone_for_good s' j \<or> gone_for_good s' k"
    if "j < length (sx_hosts s)" "k < length (sx_hosts s)" "j \<noteq> k" "ho_Token (sx_hosts s' ! j) = ho_Token (sx_hosts s' ! k)" for j k
  proof -
    have "gone_for_good s j \<or> gone_for_good s k" using c that l(2) unfolding careful_inv_def by metis
    then show ?thesis using gone_move [OF m] that(1,2) by blast
  qed
  then show ?thesis using quiet_move [OF m i] c h r l(1) unfolding careful_inv_def by simp
qed

lemma careful_step_inv:
  assumes e: "careful_event s s'" and i: "serving_inv s" and c: "careful_inv s"
  shows "careful_inv s'"
proof -
  have "server_event s s'" using e by (simp add: careful_event_def)
  then show ?thesis
  proof cases
    case serving
    then show ?thesis using careful_move [OF _ i c] e by (simp add: serving_step_def careful_event_def)
  next
    case (starts t lobby)
    let ?n = "length (sx_hosts s)"
    have hs: "sx_hosts s' = sx_hosts s @ [\<lparr>ho_Token = t, ho_lobby = lobby, ho_cancelled = False, ho_phase = HRuns\<rparr>]"
      and f: "sx_guests s' = sx_guests s" "sx_main s' = sx_main s" "sx_panic s' = sx_panic s"
      using starts(1) by (simp_all add: add_host_def Let_def)
    have mp: "mapped s' k \<longleftrightarrow> mapped s k \<or> k = ?n" for k
      using starts by (auto simp: add_host_def Let_def mapped_def update_new)
    have o: "sx_main s = SCtx" "\<forall>i < ?n. ho_Token (sx_hosts s ! i) = t \<longrightarrow> gone_for_good s i"
      using e hs by (auto simp: careful_event_def)
    have g: "gone_for_good s' k \<longleftrightarrow> gone_for_good s k" "at_work s' k \<longleftrightarrow> at_work s k" "host_at s' k = host_at s k"
      "ho_Token (sx_hosts s' ! k) = ho_Token (sx_hosts s ! k)" if "k < ?n" for k
      using that by (simp_all add: gone_for_good_def at_work_def hs f nth_append)
    have n: "ho_Token (sx_hosts s' ! ?n) = t" "host_at s' ?n = HRuns" "length (sx_hosts s') = Suc ?n" by (simp_all add: hs)
    have "host_at s' k \<noteq> HHangs \<and> (at_work s' k \<longrightarrow> sx_main s' = SCtx \<and> mapped s' k)" if "k < Suc ?n" for k
      using that c g n mp o(1) f by (cases "k = ?n") (auto simp: careful_inv_def)
    moreover have "gone_for_good s' j \<or> gone_for_good s' k"
      if jk: "j < Suc ?n" "k < Suc ?n" "j \<noteq> k" "ho_Token (sx_hosts s' ! j) = ho_Token (sx_hosts s' ! k)" for j k
    proof -
      consider "j < ?n" "k < ?n" | "j = ?n" "k < ?n" | "j < ?n" "k = ?n" using jk(1-3) by linarith
      then show ?thesis
      proof cases
        case 1
        then show ?thesis using c jk(3,4) g unfolding careful_inv_def by metis
      next
        case 2
        then show ?thesis using o(2) g jk(4) n by metis
      next
        case 3
        then show ?thesis using o(2) g jk(4) n by metis
      qed
    qed
    ultimately show ?thesis using c o(1) f unfolding careful_inv_def n(3) by simp
  next
    case (cancelled k)
    have "at_work s' j \<Longrightarrow> at_work s j" "host_at s' j = host_at s j" for j
      using cancelled by (cases "j = k"; auto simp: at_work_def cancel_host_def)+
    moreover have "gone_for_good s' j \<longleftrightarrow> gone_for_good s j" for j
      using cancelled by (cases "j = k") (auto simp: gone_for_good_def cancel_host_def)
    moreover have "mapped s' j \<longleftrightarrow> mapped s j" "ho_Token (sx_hosts s' ! j) = ho_Token (sx_hosts s ! j)" for j
      using cancelled by (simp_all add: cancel_host_def)
    ultimately show ?thesis using c cancelled(1) by (simp add: careful_inv_def cancel_host_def)
  next
    case (calls t k p b)
    have "gone_for_good s' j \<longleftrightarrow> gone_for_good s j" for j
      using calls(1,4) by (auto simp: gone_for_good_def nth_append less_Suc_eq)
    moreover have "at_work s' j = at_work s j" "mapped s' j = mapped s j" for j
      using calls(1) by (simp_all add: at_work_def)
    ultimately show ?thesis using c calls(1) by (simp add: careful_inv_def)
  qed
qed

lemma new_careful_inv: "careful_inv new_server_run"
  by (simp add: careful_inv_def new_server_run_def)

lemma careful_run: "careful_event\<^sup>*\<^sup>* s s' \<Longrightarrow> serving_inv s \<and> careful_inv s \<Longrightarrow> serving_inv s' \<and> careful_inv s'"
  by (rule invariant_steps [of careful_event _ _ "\<lambda>s. serving_inv s \<and> careful_inv s"])
    (auto intro: careful_step_inv event_inv simp: careful_event_def)

section \<open>Properties\<close>




end
