(* ===== verification/ClientEnds.thy ===== *)
theory ClientEnds
  imports LobbyEnds ClientSetup
begin

text \<open>
  How the client of a session ends: the goroutines of \<open>Start\<close> in \<open>udpstar/client/client.go\<close>, the \<open>Start\<close> loops of
  its three services and the packets that are handed to them meanwhile, as one step relation. What the
  services do with packets and inputs is the subject of \<open>Pings\<close>, \<open>Actions\<close>, \<open>Stories\<close> and \<open>Clients\<close>.
\<close>

section \<open>Goroutines\<close>

datatype service = SPing | SAction | SStory

text \<open>
  The loop of a service: at its select; delivering events on a story's channel, with the number of events to
  go; sending messages to the server, with their number; closing the channels of the stories, with the number
  of those that are closed; before the closing of \<open>doneCh\<close>; over.
\<close>

datatype service_phase = VSelect | VDelivers nat | VSends nat | VCloses nat | VDone | VOver

text \<open>A call of \<open>HandlePong\<close>, \<open>ConfirmActions\<close> or \<open>HandlePack\<close>: not made yet, at its select, over.\<close>

datatype handler_phase = HNew | HWaits | HOver

record closing_run =
  kr_ctx :: bool
  kr_service :: "service \<Rightarrow> service_phase"
  kr_sender :: writer_phase
  kr_pinger :: writer_phase
  kr_main :: main_phase
  kr_handlers :: "(service \<times> handler_phase) list"
  kr_closed :: "channel list"
  kr_panic :: "string option"

definition new_closing_run :: "service list \<Rightarrow> closing_run" where
  "new_closing_run vs = \<lparr>kr_ctx = False, kr_service = (\<lambda>v. VSelect), kr_sender = WTakes, kr_pinger = WTakes,
     kr_main = MWaits, kr_handlers = map (\<lambda>v. (v, HNew)) vs, kr_closed = [], kr_panic = None\<rparr>"

definition closed_twice :: string where
  "closed_twice = ''close of closed channel''"

abbreviation at_phase :: "service \<Rightarrow> service_phase \<Rightarrow> closing_run \<Rightarrow> closing_run" where
  "at_phase v p s \<equiv> s\<lparr>kr_service := (kr_service s)(v := p)\<rparr>"

text \<open>The messages that one turn of a service sends: a ping, at most one pack of actions, the requests of a story.\<close>

fun turn_sends :: "service \<Rightarrow> nat \<Rightarrow> bool" where
  "turn_sends SPing n = (n = 1)" | "turn_sends SAction n = (n \<le> 1)" | "turn_sends SStory n = (1 \<le> n)"

text \<open>What a service does with a packet; the action service can get one that it has no answer to.\<close>

fun turn_takes :: "service \<Rightarrow> service_phase \<Rightarrow> bool" where
  "turn_takes SPing p = (p = VSelect)"
| "turn_takes SAction p = (\<exists>n \<le> 1. p = VSends n)"
| "turn_takes SStory p = (p = VSelect \<or> (\<exists>k. p = VDelivers k))"

inductive closing_step :: "channel list \<Rightarrow> closing_run \<Rightarrow> closing_run \<Rightarrow> bool" for cs :: "channel list" where
  cancel: "kr_panic s = None \<Longrightarrow> closing_step cs s (s\<lparr>kr_ctx := True\<rparr>)"
| stops: "kr_panic s = None \<Longrightarrow> kr_ctx s \<Longrightarrow> kr_service s v = VSelect \<Longrightarrow>
    closing_step cs s (at_phase v (if v = SStory then VCloses 0 else VDone) s)"
| works: "kr_panic s = None \<Longrightarrow> kr_service s v = VSelect \<Longrightarrow> turn_sends v n \<Longrightarrow> closing_step cs s (at_phase v (VSends n) s)"
| takes: "kr_panic s = None \<Longrightarrow> j < length (kr_handlers s) \<Longrightarrow> kr_handlers s ! j = (v, HWaits) \<Longrightarrow> kr_service s v = VSelect \<Longrightarrow>
    turn_takes v p \<Longrightarrow> closing_step cs s (at_phase v p (s\<lparr>kr_handlers := (kr_handlers s)[j := (v, HOver)]\<rparr>))"
| delivers: "kr_panic s = None \<Longrightarrow> kr_service s SStory = VDelivers (Suc k) \<Longrightarrow> closing_step cs s (at_phase SStory (VDelivers k) s)"
| aborts: "kr_panic s = None \<Longrightarrow> kr_ctx s \<Longrightarrow> kr_service s SStory = VDelivers (Suc k) \<Longrightarrow>
    closing_step cs s (at_phase SStory (VCloses 0) s)"
| delivered: "kr_panic s = None \<Longrightarrow> kr_service s SStory = VDelivers 0 \<Longrightarrow> turn_sends SStory n \<Longrightarrow>
    closing_step cs s (at_phase SStory (VSends n) s)"
| sends_ping: "kr_panic s = None \<Longrightarrow> kr_service s SPing = VSends (Suc n) \<Longrightarrow> kr_main s = MWaits \<Longrightarrow> kr_pinger s = WTakes \<Longrightarrow>
    closing_step cs s (at_phase SPing (VSends n) (s\<lparr>kr_pinger := WWrites\<rparr>))"
| ping_closed: "kr_panic s = None \<Longrightarrow> kr_service s SPing = VSends (Suc n) \<Longrightarrow> kr_main s \<noteq> MWaits \<Longrightarrow>
    closing_step cs s (s\<lparr>kr_panic := Some closed_channel\<rparr>)"
| sends_message: "kr_panic s = None \<Longrightarrow> v \<noteq> SPing \<Longrightarrow> kr_service s v = VSends (Suc n) \<Longrightarrow> kr_main s \<noteq> MReturns \<Longrightarrow> kr_sender s = WTakes \<Longrightarrow>
    closing_step cs s (at_phase v (VSends n) (s\<lparr>kr_sender := WWrites\<rparr>))"
| message_closed: "kr_panic s = None \<Longrightarrow> v \<noteq> SPing \<Longrightarrow> kr_service s v = VSends (Suc n) \<Longrightarrow> kr_main s = MReturns \<Longrightarrow>
    closing_step cs s (s\<lparr>kr_panic := Some closed_channel\<rparr>)"
| sent: "kr_panic s = None \<Longrightarrow> kr_service s v = VSends 0 \<Longrightarrow> closing_step cs s (at_phase v VSelect s)"
| closes: "kr_panic s = None \<Longrightarrow> kr_service s SStory = VCloses i \<Longrightarrow> i < length cs \<Longrightarrow> cs ! i \<notin> set (kr_closed s) \<Longrightarrow>
    closing_step cs s (at_phase SStory (VCloses (Suc i)) (s\<lparr>kr_closed := kr_closed s @ [cs ! i]\<rparr>))"
| closes_again: "kr_panic s = None \<Longrightarrow> kr_service s SStory = VCloses i \<Longrightarrow> i < length cs \<Longrightarrow> cs ! i \<in> set (kr_closed s) \<Longrightarrow>
    closing_step cs s (s\<lparr>kr_panic := Some closed_twice\<rparr>)"
| all_closed: "kr_panic s = None \<Longrightarrow> kr_service s SStory = VCloses (length cs) \<Longrightarrow> closing_step cs s (at_phase SStory VDone s)"
| ends: "kr_panic s = None \<Longrightarrow> kr_service s v = VDone \<Longrightarrow> closing_step cs s (at_phase v VOver s)"
| handles: "kr_panic s = None \<Longrightarrow> j < length (kr_handlers s) \<Longrightarrow> kr_handlers s ! j = (v, HNew) \<Longrightarrow>
    closing_step cs s (s\<lparr>kr_handlers := (kr_handlers s)[j := (v, HWaits)]\<rparr>)"
| dropped: "kr_panic s = None \<Longrightarrow> j < length (kr_handlers s) \<Longrightarrow> kr_handlers s ! j = (v, HWaits) \<Longrightarrow> kr_service s v = VOver \<Longrightarrow>
    closing_step cs s (s\<lparr>kr_handlers := (kr_handlers s)[j := (v, HOver)]\<rparr>)"
| pinger: "kr_panic s = None \<Longrightarrow> kr_pinger s = WWrites \<Longrightarrow> closing_step cs s (s\<lparr>kr_pinger := WTakes\<rparr>)"
| pinger_over: "kr_panic s = None \<Longrightarrow> kr_pinger s = WTakes \<Longrightarrow> kr_main s \<noteq> MWaits \<Longrightarrow> closing_step cs s (s\<lparr>kr_pinger := WOver\<rparr>)"
| sender: "kr_panic s = None \<Longrightarrow> kr_sender s = WWrites \<Longrightarrow> closing_step cs s (s\<lparr>kr_sender := WTakes\<rparr>)"
| sender_over: "kr_panic s = None \<Longrightarrow> kr_sender s = WTakes \<Longrightarrow> kr_main s = MReturns \<Longrightarrow> closing_step cs s (s\<lparr>kr_sender := WOver\<rparr>)"
| waited: "kr_panic s = None \<Longrightarrow> kr_main s = MWaits \<Longrightarrow> \<forall>v. kr_service s v = VOver \<Longrightarrow> closing_step cs s (s\<lparr>kr_main := MClosing\<rparr>)"
| returns: "kr_panic s = None \<Longrightarrow> kr_main s = MClosing \<Longrightarrow> closing_step cs s (s\<lparr>kr_main := MReturns\<rparr>)"

section \<open>Invariant\<close>

text \<open>How far the story service has got with the closing of its channels.\<close>

fun closing_ok :: "channel list \<Rightarrow> service_phase \<Rightarrow> channel list \<Rightarrow> bool" where
  "closing_ok cs (VCloses i) closed = (i \<le> length cs \<and> closed = take i cs \<and> distinct closed)"
| "closing_ok cs VDone closed = distinct cs"
| "closing_ok cs VOver closed = distinct cs"
| "closing_ok cs _ closed = (closed = [])"

definition closing_inv :: "channel list \<Rightarrow> closing_run \<Rightarrow> bool" where
  "closing_inv cs s \<longleftrightarrow> closing_ok cs (kr_service s SStory) (kr_closed s) \<and>
     (\<forall>v. v \<noteq> SStory \<longrightarrow> (\<forall>k. kr_service s v \<noteq> VDelivers k \<and> kr_service s v \<noteq> VCloses k)) \<and>
     (kr_main s \<noteq> MWaits \<longrightarrow> (\<forall>v. kr_service s v = VOver)) \<and>
     (kr_sender s = WOver \<longrightarrow> kr_main s = MReturns) \<and> (kr_pinger s = WOver \<longrightarrow> kr_main s \<noteq> MWaits) \<and>
     (kr_panic s \<noteq> None \<longrightarrow> kr_panic s = Some closed_twice \<and> \<not> distinct cs)"

lemma new_closing_inv: "closing_inv cs (new_closing_run vs)"
  by (simp add: closing_inv_def new_closing_run_def)

lemma take_again:
  assumes "i < length cs" and "cs ! i \<in> set (take i cs)"
  shows "\<not> distinct cs"
proof
  assume d: "distinct cs"
  obtain k where "k < i" "cs ! k = cs ! i" using assms by (auto simp: in_set_conv_nth)
  then show False using nth_eq_iff_index_eq [OF d, of k i] assms(1) by simp
qed

lemma closing_step_inv:
  assumes "closing_step cs s s'" and i: "closing_inv cs s"
  shows "closing_inv cs s'"
  using assms(1)
proof cases
  case (closes i)
  then show ?thesis using i by (auto simp: closing_inv_def take_Suc_conv_app_nth)
next
  case (closes_again i)
  then show ?thesis using i take_again [of i cs] by (auto simp: closing_inv_def)
next
  case (takes j v p)
  then show ?thesis using i by (cases v) (auto simp: closing_inv_def)
next
  case (stops v)
  then show ?thesis using i by (cases v) (auto simp: closing_inv_def)
next
  case (works v n)
  then show ?thesis using i by (cases v) (auto simp: closing_inv_def)
next
  case (sent v)
  then show ?thesis using i by (cases v) (auto simp: closing_inv_def)
next
  case (ends v)
  then show ?thesis using i by (cases v) (auto simp: closing_inv_def)
next
  case (sends_message v n)
  then show ?thesis using i by (cases v) (auto simp: closing_inv_def)
qed (use i in \<open>auto simp: closing_inv_def\<close>)

section \<open>Ending\<close>

fun phase_weight :: "nat \<Rightarrow> service_phase \<Rightarrow> nat" where
  "phase_weight n VOver = 0" | "phase_weight n VDone = 1" | "phase_weight n (VCloses i) = 2 + (n - i)"
| "phase_weight n VSelect = 3 + n" | "phase_weight n (VSends k) = 4 + n + 2 * k" | "phase_weight n (VDelivers k) = 7 + n + k"

fun handler_weight :: "service \<times> handler_phase \<Rightarrow> nat" where
  "handler_weight (v, HWaits) = 1" | "handler_weight _ = 0"

definition handlers_weight :: "(service \<times> handler_phase) list \<Rightarrow> nat" where
  "handlers_weight hs = sum_list (map handler_weight hs)"

definition closing_distance :: "nat \<Rightarrow> closing_run \<Rightarrow> nat" where
  "closing_distance n s = (if kr_ctx s then 0 else 1) + phase_weight n (kr_service s SPing) + phase_weight n (kr_service s SAction) +
     phase_weight n (kr_service s SStory) + writer_weight (kr_sender s) + writer_weight (kr_pinger s) + main_weight (kr_main s) +
     handlers_weight (kr_handlers s)"

text \<open>\<open>Start\<close> has returned, its goroutines are over and no packet waits for a service.\<close>

definition closing_over :: "closing_run \<Rightarrow> bool" where
  "closing_over s \<longleftrightarrow> (\<forall>v. kr_service s v = VOver) \<and> kr_main s = MReturns \<and> kr_sender s = WOver \<and> kr_pinger s = WOver \<and>
     list_all (\<lambda>h. snd h \<noteq> HWaits) (kr_handlers s)"

lemma phase_distance:
  "closing_distance n (at_phase v p s) + phase_weight n (kr_service s v) = closing_distance n s + phase_weight n p"
  by (cases v) (simp_all add: closing_distance_def)

lemma writers_distance [simp]:
  "closing_distance n (s\<lparr>kr_sender := w\<rparr>) + writer_weight (kr_sender s) = closing_distance n s + writer_weight w"
  "closing_distance n (s\<lparr>kr_pinger := w\<rparr>) + writer_weight (kr_pinger s) = closing_distance n s + writer_weight w"
  by (simp_all add: closing_distance_def)

lemma handlers_update:
  assumes "j < length hs"
  shows "handlers_weight (hs[j := h]) + handler_weight (hs ! j) = handlers_weight hs + handler_weight h"
  using sum_update [OF assms, of handler_weight h] by (simp add: handlers_weight_def)

definition closing_good :: "channel list \<Rightarrow> closing_run \<Rightarrow> bool" where
  "closing_good cs s \<longleftrightarrow> closing_inv cs s \<and> kr_panic s = None"

lemma closing_nearer:
  assumes "closing_good cs s" and "closing_step cs s s'" and "kr_panic s' = None" and "closing_distance n s' < closing_distance n s"
  shows "\<exists>s'. closing_step cs s s' \<and> closing_good cs s' \<and> closing_distance n s' < closing_distance n s"
  using assms closing_step_inv [OF assms(2)] by (auto simp: closing_good_def)

lemma service_goes_on:
  assumes g: "closing_good cs s" and d: "distinct cs" and c: "kr_ctx s" and w: "kr_sender s \<noteq> WWrites" "kr_pinger s \<noteq> WWrites"
    and v: "kr_service s v \<noteq> VOver"
  shows "\<exists>s'. closing_step cs s s' \<and> closing_good cs s' \<and> closing_distance (length cs) s' < closing_distance (length cs) s"
proof -
  let ?n = "length cs"
  have i: "closing_inv cs s" and p: "kr_panic s = None" using g by (simp_all add: closing_good_def)
  have m: "kr_main s = MWaits" using i v by (auto simp: closing_inv_def)
  then have t: "kr_sender s = WTakes" "kr_pinger s = WTakes"
    using i w by (cases "kr_sender s"; cases "kr_pinger s"; simp add: closing_inv_def)+
  have story: "v = SStory" if "kr_service s v = VDelivers k \<or> kr_service s v = VCloses k" for k
    using i that by (auto simp: closing_inv_def)
  show ?thesis
  proof (cases "kr_service s v")
    case VSelect
    show ?thesis using phase_distance [where n = ?n and v = v and p = "if v = SStory then VCloses 0 else VDone" and s = s] VSelect p
      by (intro closing_nearer [OF g closing_step.stops [OF p c VSelect]]) (auto split: if_splits)
  next
    case (VDelivers k)
    have v: "v = SStory" using story VDelivers by blast
    show ?thesis
    proof (cases k)
      case 0
      then show ?thesis using phase_distance [where n = ?n and v = SStory and p = "VSends 1" and s = s] VDelivers p v
        by (intro closing_nearer [OF g closing_step.delivered [OF p, of 1]]) simp_all
    next
      case (Suc j)
      then show ?thesis using phase_distance [where n = ?n and v = SStory and p = "VCloses 0" and s = s] VDelivers p v c
        by (intro closing_nearer [OF g closing_step.aborts [OF p c]]) simp_all
    qed
  next
    case (VSends k)
    show ?thesis
    proof (cases k)
      case 0
      then show ?thesis using phase_distance [where n = ?n and v = v and p = VSelect and s = s] VSends p
        by (intro closing_nearer [OF g closing_step.sent [OF p, of v]]) simp_all
    next
      case (Suc j)
      show ?thesis
      proof (cases "v = SPing")
        case True
        have st: "closing_step cs s (at_phase SPing (VSends j) (s\<lparr>kr_pinger := WWrites\<rparr>))"
          using closing_step.sends_ping [OF p _ m t(2)] VSends Suc True by simp
        then show ?thesis using phase_distance [where n = ?n and v = SPing and p = "VSends j" and s = "s\<lparr>kr_pinger := WWrites\<rparr>"] writers_distance(2) [where n = ?n and s = s and w = WWrites] VSends Suc True p t(2)
          by (intro closing_nearer [OF g st]) simp_all
      next
        case False
        have st: "closing_step cs s (at_phase v (VSends j) (s\<lparr>kr_sender := WWrites\<rparr>))"
          using closing_step.sends_message [OF p False _ _ t(1)] VSends Suc m by simp
        then show ?thesis using phase_distance [where n = ?n and v = v and p = "VSends j" and s = "s\<lparr>kr_sender := WWrites\<rparr>"] writers_distance(1) [where n = ?n and s = s and w = WWrites] VSends Suc p t(1)
          by (intro closing_nearer [OF g st]) simp_all
      qed
    qed
  next
    case (VCloses k)
    have v: "v = SStory" using story VCloses by blast
    then have k: "k \<le> length cs" "kr_closed s = take k cs" using i VCloses by (simp_all add: closing_inv_def)
    show ?thesis
    proof (cases "k < length cs")
      case True
      have "cs ! k \<notin> set (kr_closed s)" using take_again [OF True] d k(2) by auto
      then have st: "closing_step cs s (at_phase SStory (VCloses (Suc k)) (s\<lparr>kr_closed := kr_closed s @ [cs ! k]\<rparr>))"
        using closing_step.closes [OF p _ True] VCloses v by simp
      have "closing_distance ?n (s\<lparr>kr_closed := kr_closed s @ [cs ! k]\<rparr>) = closing_distance ?n s" by (simp add: closing_distance_def)
      then show ?thesis using phase_distance [where n = ?n and v = SStory and p = "VCloses (Suc k)" and s = "s\<lparr>kr_closed := kr_closed s @ [cs ! k]\<rparr>"] VCloses v p True
        by (intro closing_nearer [OF g st]) simp_all
    next
      case False
      then have "k = length cs" using k(1) by simp
      then show ?thesis using phase_distance [where n = ?n and v = SStory and p = VDone and s = s] VCloses p v
        by (intro closing_nearer [OF g closing_step.all_closed [OF p]]) simp_all
    qed
  next
    case VDone
    then show ?thesis using phase_distance [where n = ?n and v = v and p = VOver and s = s] p
      by (intro closing_nearer [OF g closing_step.ends [OF p, of v]]) simp_all
  qed (use v in simp)
qed

lemma closing_goes_on:
  assumes g: "closing_good cs s" and d: "distinct cs" and n: "\<not> closing_over s"
  shows "\<exists>s'. closing_step cs s s' \<and> closing_good cs s' \<and> closing_distance (length cs) s' < closing_distance (length cs) s"
proof -
  have i: "closing_inv cs s" and p: "kr_panic s = None" using g by (simp_all add: closing_good_def)
  let ?n = "length cs"
  have h: "(\<exists>j < length (kr_handlers s). \<exists>v. kr_handlers s ! j = (v, HWaits)) \<or> (\<forall>j < length (kr_handlers s). snd (kr_handlers s ! j) \<noteq> HWaits)"
    by (metis prod.collapse)
  consider (cancel) "\<not> kr_ctx s" | (sender) "kr_sender s = WWrites" | (pinger) "kr_pinger s = WWrites"
    | (service) v where "kr_ctx s" "kr_sender s \<noteq> WWrites" "kr_pinger s \<noteq> WWrites" "kr_service s v \<noteq> VOver"
    | (handler) j v where "\<forall>v. kr_service s v = VOver" "j < length (kr_handlers s)" "kr_handlers s ! j = (v, HWaits)"
    | (main) "\<forall>v. kr_service s v = VOver" "kr_main s = MWaits" | (main2) "kr_main s = MClosing"
    | (sender2) "kr_main s = MReturns" "kr_sender s = WTakes" | (pinger2) "kr_main s = MReturns" "kr_pinger s = WTakes"
    | (over) "\<forall>v. kr_service s v = VOver" "kr_main s = MReturns" "kr_sender s = WOver" "kr_pinger s = WOver"
      "\<forall>j < length (kr_handlers s). snd (kr_handlers s ! j) \<noteq> HWaits"
    using h by (cases "kr_main s"; cases "kr_sender s"; cases "kr_pinger s"; simp only: simp_thms service_phase.simps writer_phase.simps main_phase.simps) blast+
  then show ?thesis
  proof cases
    case cancel
    then show ?thesis using p
      by (intro closing_nearer [OF g closing_step.cancel [OF p]]) (simp_all add: closing_distance_def)
  next
    case sender
    then show ?thesis using p
      by (intro closing_nearer [OF g closing_step.sender [OF p]]) (simp_all add: closing_distance_def)
  next
    case pinger
    then show ?thesis using p
      by (intro closing_nearer [OF g closing_step.pinger [OF p]]) (simp_all add: closing_distance_def)
  next
    case service
    then show ?thesis using service_goes_on [OF g d] by blast
  next
    case handler
    then show ?thesis using p handlers_update [OF handler(2), of "(v, HOver)"]
      by (intro closing_nearer [OF g closing_step.dropped [OF p handler(2,3)]]) (simp_all add: closing_distance_def)
  next
    case main
    then show ?thesis using p
      by (intro closing_nearer [OF g closing_step.waited [OF p]]) (simp_all add: closing_distance_def)
  next
    case main2
    then show ?thesis using p
      by (intro closing_nearer [OF g closing_step.returns [OF p]]) (simp_all add: closing_distance_def)
  next
    case sender2
    then show ?thesis using p
      by (intro closing_nearer [OF g closing_step.sender_over [OF p]]) (simp_all add: closing_distance_def)
  next
    case pinger2
    then show ?thesis using p
      by (intro closing_nearer [OF g closing_step.pinger_over [OF p]]) (simp_all add: closing_distance_def)
  next
    case over
    then show ?thesis using n by (simp add: closing_over_def list_all_length)
  qed
qed

interpretation client_end: draining "closing_step cs" "\<lambda>s. closing_good cs s \<and> distinct cs" closing_over "closing_distance (length cs)" for cs
proof unfold_locales
  fix s
  assume "closing_good cs s \<and> distinct cs" and "\<not> closing_over s"
  then show "\<exists>s'. closing_step cs s s' \<and> (closing_good cs s' \<and> distinct cs) \<and> closing_distance (length cs) s' < closing_distance (length cs) s"
    using closing_goes_on [of cs s] by blast
qed

section \<open>Property\<close>

definition story_channels :: "CSession \<Rightarrow> channel list" where
  "story_channels sn = map py_Channel (pn_Stories sn)"

text \<open>
  C11. The client of a session can come to its end exactly if the stories of the session have different
  channels: then, however its services, timers and packets are interleaved, nothing panics, nothing is sent
  on a closed channel, and all goroutines and waiting packets can end. With two stories on one channel,
  which the validation of the session accepts, the client cannot end without the panic of a channel that
  is closed twice; there is no other panic.
\<close>

theorem client_ends_iff_channels_differ:
  assumes "(closing_step (story_channels sn))\<^sup>*\<^sup>* (new_closing_run vs) s"
  shows "(kr_panic s = None \<or> kr_panic s = Some closed_twice \<and> \<not> distinct (story_channels sn)) \<and>
    ((\<exists>s'. (closing_step (story_channels sn))\<^sup>*\<^sup>* s s' \<and> closing_over s' \<and> kr_panic s' = None) \<longleftrightarrow> distinct (story_channels sn))"
proof -
  let ?cs = "story_channels sn"
  have inv: "closing_inv ?cs t" if "(closing_step ?cs)\<^sup>*\<^sup>* (new_closing_run vs) t" for t
    by (rule invariant_steps [where I = "closing_inv ?cs", OF that new_closing_inv]) (rule closing_step_inv)
  have i: "closing_inv ?cs s" by (rule inv [OF assms])
  show ?thesis
  proof (intro conjI iffI)
    show "kr_panic s = None \<or> kr_panic s = Some closed_twice \<and> \<not> distinct ?cs" using i by (auto simp: closing_inv_def)
  next
    assume "\<exists>s'. (closing_step ?cs)\<^sup>*\<^sup>* s s' \<and> closing_over s' \<and> kr_panic s' = None"
    then obtain t where t: "(closing_step ?cs)\<^sup>*\<^sup>* s t" "closing_over t" by blast
    have "closing_inv ?cs t" using inv assms t(1) by (meson rtranclp_trans)
    then show "distinct ?cs" using t(2) by (simp add: closing_inv_def closing_over_def)
  next
    assume d: "distinct ?cs"
    then have "closing_good ?cs s" using i by (auto simp: closing_inv_def closing_good_def)
    then show "\<exists>s'. (closing_step ?cs)\<^sup>*\<^sup>* s s' \<and> closing_over s' \<and> kr_panic s' = None"
      using client_end.can_end [of ?cs s] d by (auto simp: closing_good_def)
  qed
qed

text \<open>A session with two stories on one channel.\<close>

definition shared_channel :: CSession where
  "shared_channel = \<lparr>pn_Token = 1, pn_Name = [83], pn_Def = [], pn_ClientToken = 9,
     pn_Actors = [\<lparr>pa_Token = 7, pa_Story = 5, pa_Name = [65], pa_Index = 0, pa_InputCh = Some 2\<rparr>,
       \<lparr>pa_Token = 0, pa_Story = 6, pa_Name = [66], pa_Index = 0, pa_InputCh = None\<rparr>],
     pn_Stories = [\<lparr>py_Token = 5, py_Channel = Some 3\<rparr>, \<lparr>py_Token = 6, py_Channel = Some 3\<rparr>]\<rparr>"

theorem client_ends_iff_channels_differ_witness:
  "CSession_Validate shared_channel = None \<and>
     (\<nexists>s. (closing_step (story_channels shared_channel))\<^sup>*\<^sup>* (new_closing_run [SStory]) s \<and> closing_over s \<and> kr_panic s = None)"
proof
  show "CSession_Validate shared_channel = None" by code_simp
  have "\<not> distinct (story_channels shared_channel)" by (simp add: story_channels_def shared_channel_def)
  then show "\<nexists>s. (closing_step (story_channels shared_channel))\<^sup>*\<^sup>* (new_closing_run [SStory]) s \<and> closing_over s \<and> kr_panic s = None"
    using client_ends_iff_channels_differ [of shared_channel "[SStory]"] by blast
qed

end
