(* ===== verification/Texts.thy ===== *)
theory Texts
  imports Listeners StoryMsg
begin

text \<open>
  The texts of the values that appear in log lines and user interfaces, and tokens: \<open>String\<close> of the enumerations
  in \<open>udpstar/message\<close>, \<open>udpstar\<close> and \<open>udp\<close>, of \<open>Token\<close> (\<open>udpstar/message/token.go\<close>) and of \<open>Range\<close>
  (\<open>sequence/range.go\<close>).
\<close>

section \<open>Enumerations\<close>

definition SlotAvailability_String :: "SlotAvailability \<Rightarrow> string" where
  "SlotAvailability_String s =
     (if s = SlotAvailable then ''available'' else if s = SlotLocal0 then ''local0'' else if s = SlotLocal1 then ''local1''
      else if s = SlotLocal2 then ''local2'' else if s = SlotLocal3 then ''local3'' else if s = SlotRemote then ''remote''
      else ''?'')"

definition LobbyState_String :: "LobbyState \<Rightarrow> string" where
  "LobbyState_String s =
     (if s = StateActive then ''active'' else if s = StateReady then ''ready'' else if s = StateStarting then ''starting''
      else if s = StateStarting1 then ''starting1'' else if s = StateStarting2 then ''starting2''
      else if s = StateStarting3 then ''starting3'' else ''?'')"

definition ClientState_String :: "ClientState \<Rightarrow> string" where
  "ClientState_String s =
     (if s = ClientStateNew then ''new'' else if s = ClientStateLocal then ''local'' else if s = ClientStateGood then ''good''
      else if s = ClientStateLagging then ''lagging'' else if s = ClientStateLost then ''lost'' else ''invalid'')"

definition Type_String :: "byte \<Rightarrow> string" where
  "Type_String t =
     (if t = TypeTest then ''test'' else if t = TypeAction then ''action'' else if t = TypeStory then ''story''
      else if t = TypeLatencyReport then ''latency'' else ''unknown'')"

definition Command_String :: "byte \<Rightarrow> string" where
  "Command_String t =
     (if t = CommandJoin then ''join'' else if t = CommandLeave then ''leave'' else if t = CommandRequest then ''request''
      else ''unknown'')"

definition LobbyListenerState_String :: "LobbyListenerState \<Rightarrow> string" where
  "LobbyListenerState_String s =
     (if s = ListenerFresh then ''Fresh'' else if s = ListenerRecent then ''Recent'' else if s = ListenerOld then ''Old''
      else if s = ListenerStale then ''Stale'' else ''?'')"

definition ServerState_String :: "byte \<Rightarrow> string" where
  "ServerState_String s = (if s = 0 then ''started'' else if s = 1 then ''stopped'' else if s = 2 then ''failed'' else ''unknown'')"

section \<open>Tokens\<close>

text \<open>\<open>Put\<close> writes into the first bytes of a slice, which must be there.\<close>

definition Token_Put :: "token \<Rightarrow> byte list \<Rightarrow> (byte list \<times> int) go" where
  "Token_Put t bs =
     (if int (length bs) < SizeOfToken then Inl ''slice bounds out of range''
      else Inr (AppendUint32 [] t @ drop (nat SizeOfToken) bs, SizeOfToken))"

definition Token_Get :: "byte list \<Rightarrow> (token \<times> int) go" where
  "Token_Get bs =
     (if int (length bs) < SizeOfToken then Inl ''slice bounds out of range'' else Inr (Uint32 bs, SizeOfToken))"

definition hex_digit :: "nat \<Rightarrow> char" where
  "hex_digit n = ''0123456789abcdef'' ! n"

definition hex_text :: "byte list \<Rightarrow> string" where
  "hex_text bs = concat (map (\<lambda>b. [hex_digit (unat b div 16), hex_digit (unat b mod 16)]) bs)"

definition Token_String :: "token \<Rightarrow> string" where
  "Token_String t = hex_text [ucast (drop_bit 24 t), ucast (drop_bit 16 t), ucast (drop_bit 8 t), ucast t]"

text \<open>The argument is what \<open>crypto/rand\<close> has put into the buffer.\<close>

definition RandomToken :: "byte list \<Rightarrow> token" where
  "RandomToken buffer = Uint32 buffer"

section \<open>Ranges\<close>

fun decimal :: "nat \<Rightarrow> string" where
  "decimal n = (if n < 10 then [char_of (48 + n)] else decimal (n div 10) @ [char_of (48 + n mod 10)])"

declare decimal.simps [simp del]

definition Range_String :: "Range \<Rightarrow> string" where
  "Range_String r =
     (let d = (\<lambda>x. decimal (nat x)) in
      if rng_len r \<le> 0 then ''[seq='' @ d (rng_seq r) @ '':invalid]''
      else if rng_len r = 1 then ''['' @ d (rng_seq r) @ '']''
      else if rng_len r = 2 then ''['' @ d (rng_seq r) @ '','' @ d (u64 (rng_seq r + 1)) @ '']''
      else if rng_len r = 3 then
        ''['' @ d (rng_seq r) @ '','' @ d (u64 (rng_seq r + 1)) @ '','' @ d (u64 (rng_seq r + 2)) @ '']''
      else ''['' @ d (From r) @ ''..'' @ d (To r) @ '']'')"

section \<open>Reading texts back\<close>

definition is_digit :: "char \<Rightarrow> bool" where
  "is_digit c \<longleftrightarrow> 48 \<le> (of_char c :: nat) \<and> (of_char c :: nat) < 58"

text \<open>The numbers in a text.\<close>

fun numbers :: "nat option \<Rightarrow> string \<Rightarrow> nat list" where
  "numbers None [] = []"
| "numbers (Some v) [] = [v]"
| "numbers acc (c # cs) =
     (if is_digit c then numbers (Some (10 * (case acc of None \<Rightarrow> 0 | Some v \<Rightarrow> v) + (of_char c - 48))) cs
      else case acc of None \<Rightarrow> numbers None cs | Some v \<Rightarrow> v # numbers None cs)"

lemma digit_char:
  assumes "(n :: nat) < 10"
  shows "is_digit (char_of (48 + n))" and "(of_char (char_of (48 + n)) :: nat) = 48 + n"
  using assms by (simp_all add: is_digit_def)

lemma numbers_goes_on:
  "is_digit c \<Longrightarrow> numbers acc (c # cs) = numbers (Some (10 * (case acc of None \<Rightarrow> 0 | Some v \<Rightarrow> v) + (of_char c - 48))) cs"
  by (cases acc) simp_all

lemma numbers_digit:
  "n < 10 \<Longrightarrow> numbers acc (char_of (48 + n) # cs) = numbers (Some (10 * (case acc of None \<Rightarrow> 0 | Some v \<Rightarrow> v) + n)) cs"
  using numbers_goes_on [OF digit_char(1), of n] by (simp only: digit_char(2) diff_add_inverse)

lemma numbers_decimal: "numbers None (decimal n @ cs) = numbers (Some n) cs"
proof (induction n arbitrary: cs rule: decimal.induct)
  case (1 n)
  show ?case
  proof (cases "n < 10")
    case True
    then show ?thesis by (subst decimal.simps) (simp add: numbers_digit del: numbers.simps)
  next
    case False
    have "numbers None (decimal n @ cs) = numbers None (decimal (n div 10) @ char_of (48 + n mod 10) # cs)"
      by (subst decimal.simps) (simp add: False)
    also have "\<dots> = numbers (Some n) cs" using 1 [OF False] by (simp add: numbers_digit del: numbers.simps)
    finally show ?thesis .
  qed
qed

lemma numbers_stop: "\<not> is_digit c \<Longrightarrow> numbers (Some n) (c # cs) = n # numbers None cs"
  "\<not> is_digit c \<Longrightarrow> numbers None (c # cs) = numbers None cs"
  by simp_all

lemma separators: "\<not> is_digit (CHR ''['')" "\<not> is_digit (CHR '']'')" "\<not> is_digit (CHR '','')" "\<not> is_digit (CHR ''.'')"
  by (simp_all add: is_digit_def)

text \<open>
  The text of a range says what the range is: its numbers are the first and the last one of the range, and
  at most one in between.
\<close>

theorem range_text_tells:
  assumes "range_ok r"
  shows "hd (numbers None (Range_String r)) = nat (From r) \<and> last (numbers None (Range_String r)) = nat (To r)"
proof -
  have r: "1 \<le> rng_seq r" "1 \<le> rng_len r" "rng_seq r + rng_len r \<le> int_lim" using assms by (simp_all add: range_ok_def)
  have w: "u64 (rng_seq r + k) = rng_seq r + k" if "0 \<le> k" "k < rng_len r" for k using r that by (simp add: u64_id)
  have "To r = rng_seq r + rng_len r - 1" using r by (simp add: To_def u64_id)
  then show ?thesis using r w [of 1] w [of 2]
    by (auto simp: Range_String_def Let_def numbers_decimal numbers_stop separators From_def)
qed

text \<open>A token is read from where it was put, and its text tells which one it is.\<close>

definition digit_value :: "char \<Rightarrow> nat" where
  "digit_value c = (if (of_char c :: nat) < 58 then of_char c - 48 else of_char c - 87)"

fun hex_value :: "nat \<Rightarrow> string \<Rightarrow> nat" where
  "hex_value v [] = v"
| "hex_value v (c # cs) = hex_value (16 * v + digit_value c) cs"

lemma hex_digit_value: "n < 16 \<Longrightarrow> digit_value (hex_digit n) = n"
proof -
  have "\<forall>n \<in> set [0..<16]. digit_value (hex_digit n) = n" by code_simp
  then show "n < 16 \<Longrightarrow> digit_value (hex_digit n) = n" by simp
qed

lemma hex_value_byte: "hex_value v (hex_digit (unat b div 16) # hex_digit (unat b mod 16) # cs) = hex_value (256 * v + unat (b :: byte)) cs"
proof -
  have "unat b < 256" using unsigned_less [of b] by simp
  then have "unat b div 16 < 16" by simp
  then show ?thesis by (simp add: hex_digit_value add.commute)
qed

lemma unat_bytes:
  "unat (ucast (drop_bit 24 t) :: byte) * 16777216 + unat (ucast (drop_bit 16 t) :: byte) * 65536 +
     unat (ucast (drop_bit 8 t) :: byte) * 256 + unat (ucast t :: byte) = unat (t :: token)"
proof -
  have b: "unat (ucast (drop_bit k t) :: byte) = unat t div 2 ^ k mod 256" for k
    by (simp add: unsigned_ucast_eq unsigned_drop_bit_eq take_bit_eq_mod mod_less [OF unsigned_less [of t, simplified]] flip: drop_bit_eq_div)
  define u where "u = unat t"
  have "u < 4294967296" using unsigned_less [of t] by (simp add: u_def)
  moreover have "u div 65536 = u div 256 div 256" "u div 16777216 = u div 256 div 256 div 256" by (simp_all flip: div_mult2_eq)
  moreover have "v = v div 256 * 256 + v mod 256" for v :: nat by simp
  from this [of u] this [of "u div 256"] this [of "u div 256 div 256"]
  have "u = u div 256 div 256 div 256 * 16777216 + u div 256 div 256 mod 256 * 65536 + u div 256 mod 256 * 256 + u mod 256" by linarith
  ultimately have "u div 16777216 mod 256 * 16777216 + u div 65536 mod 256 * 65536 + u div 256 mod 256 * 256 + u mod 256 = u" by simp
  then show ?thesis using b [of 24] b [of 16] b [of 8] b [of 0] by (simp add: u_def)
qed

theorem token_roundtrip:
  assumes "4 \<le> length bs"
  shows "\<exists>bs'. Token_Put t bs = Inr (bs', 4) \<and> length bs' = length bs \<and> drop 4 bs' = drop 4 bs \<and> Token_Get bs' = Inr (t, 4) \<and>
    hex_value 0 (Token_String t) = unat t"
proof -
  have h: "hex_value 0 (Token_String t) = unat t"
    using unat_bytes [of t] by (simp only: Token_String_def hex_text_def list.map concat.simps append_Cons append_Nil hex_value_byte hex_value.simps(1)) simp
  define bs' where "bs' = AppendUint32 [] t @ drop 4 bs"
  have l: "length bs' = length bs" "drop 4 bs' = drop 4 bs" using assms by (simp_all add: bs'_def AppendUint32_def)
  then show ?thesis using assms h
    by (intro exI [of _ bs']) (simp add: Token_Put_def Token_Get_def SizeOfToken_def, simp add: bs'_def Uint32_Append)
qed

end
