(* ===== verification/Spec2Isabelle.thy ===== *)
theory Spec2Isabelle
  imports Handover StoryAnswers Sockets UdpServices SessionEnds CarefulServers ClientEnds Texts
begin

text \<open>
  udpstar is a Go library for games over UDP: one machine serves, the others are clients. Players meet
  in a lobby; a full lobby becomes a session; in a session the clients send their players' actions to the
  server, and the server sends every story, a numbered log of game events, to all clients. UDP loses,
  repeats and reorders packets, so both directions number what they send and ask again for what is missing.
  This development models the library's own logic function by function and proves what makes it correct.

  \<^bold>\<open>Conventions.\<close> A Go integer is an \<^typ>\<open>int\<close> whose arithmetic is wrapped to the width of its type (\<open>u64\<close>,
  \<open>i64\<close>) or, in the byte layer, tokens, masks and small enumerations, a word. A duration is a number of
  nanoseconds, a time the nanoseconds since Go's zero time; the clock is an argument. A panic is the left
  side of the type \<open>go\<close>, an error result a value. Linked lists and slices are lists; where a slice's array is
  reused (the ring buffer of \<open>sequence/recent.go\<close>) the array and its indices are kept. A pointer that can be
  nil is an option. A function that updates its receiver returns the new one. Every goroutine that owns a
  state is a set of operations, one for each case of its \<open>select\<close>; a channel send is a result of the
  operation. Mutexes and contexts are left out where a goroutine or a mutex makes the operations
  atomic. Where the interleaving is the point, in \<open>UdpServices\<close>, \<open>SessionEnds\<close>, \<open>ServerEnds\<close>, \<open>LobbyEnds\<close> and
  \<open>ClientEnds\<close>, the model is a step relation with a step for each access to a channel, a context or a wait
  group; a \<open>select\<close> with several ready cases is several steps.

  \<^bold>\<open>Package sequence\<close> (\<open>sequence/*.go\<close>)
  \<^item> \<open>Ranges\<close>: ranges and sets of ranges (\<open>range.go\<close>), the locale \<open>range_store\<close> for what clients of the set rely
    on. Union, subtraction, membership and iteration do on lists of disjoint, separated ranges what they
    should on sets of numbers, for all ranges that do not wrap.
  \<^item> \<open>Streams\<close>: reassembly (\<open>stream.go\<close>, \<open>stream_create.go\<close>). The two loops of \<open>push\<close> keep the stream's invariant
    and deliver strictly increasing numbers; without a maximal wait, exactly 1 to \<open>lastSeq\<close>.
  \<^item> \<open>Engines\<close>: a step of a receiver (\<open>engine.go\<close>); its set of missing numbers is the set of gaps.
  \<^item> \<open>RecentBuf\<close>: the ring buffer with holes and two limits (\<open>recent.go\<close>).
  \<^item> \<open>Histories\<close>: the log of a story (\<open>history.go\<close>), the enumerator and \<open>PushAll\<close> (\<open>story.go\<close>), whose two
    implementations interpret the locale \<open>story_log\<close>. The loops of \<open>Push\<close> end only because the totals are the
    sums over the entries: they are \<open>partial_function (option)\<close>, and \<open>History_Push_keeps_newest\<close> is their
    termination.

  \<^bold>\<open>Packages message\<close> (\<open>udpstar/message/**\<close>)
  \<^item> \<open>Wire\<close>: the serializer, with the locale \<open>codec\<close> for a writer and a reader that fit.
  \<^item> \<open>LobbyMsg\<close>, \<open>StoryMsg\<close>: the messages, sizes, writers, readers and parsers, all interpretations of the locale
    \<open>message_format\<close>: what is written has the announced size and is read as it was.

  \<^bold>\<open>Package server\<close> (\<open>udpstar/server/*.go\<close>)
  \<^item> \<open>Lobbies\<close>: the lobby service, one definition per command; every command interprets the locale
    \<open>lobby_command\<close>, so that the invariant holds in all reachable lobbies (\<open>lobby_step\<close>).
  \<^item> \<open>Sessions\<close>: sessions, their validation, \<open>lobbyToSession\<close> and \<open>FinishLobby\<close> with its countdown.
  \<^item> \<open>Validity\<close>: the validation accepts exactly the sessions of a stated condition; lobbies give such sessions.
  \<^item> \<open>Services\<close>, \<open>SessionRuns\<close>: the session and client services of a running session, and its invariant
    over all events.
  \<^item> \<open>Servers\<close>, \<open>Packets\<close>: the maps of the server, and what one packet of any bytes can do to it.
  \<^item> \<open>Handover\<close>: a ready lobby is finished and its session starts.
  \<^item> \<open>StoryAnswers\<close>: the answer loop of \<open>service_session.go\<close> with the arrays behind its slices: the packs are
    right when each is sent before the next is collected, and overwritten otherwise.
  \<^item> \<open>SessionEnds\<close>: the goroutines of a session, when they can all end and when the loop hangs.
  \<^item> \<open>ServerEnds\<close>, \<open>CarefulServers\<close>: \<open>Start\<close> of the server with its wait group, the goroutines of sessions and
    lobbies and the calls that are with a lobby: when \<open>Start\<close> can return, and how a game has to use the server so
    that it always can.

  \<^bold>\<open>Package client\<close> (\<open>udpstar/client/*.go\<close>)
  \<^item> \<open>Pings\<close>, \<open>ClientSetup\<close>, \<open>Actions\<close>, \<open>Stories\<close>: the services of a client and its validation. The buffer of an
    actor refines a queue of 32 entries; a story delivers exactly what its packs hold without a gap.
  \<^item> \<open>Clients\<close>: the client that puts them together, from the bytes of a packet to the stories' channels.
  \<^item> \<open>LobbyClients\<close>, \<open>Listeners\<close>: the client's view of one lobby and of all lobbies on the network.
  \<^item> \<open>LobbyEnds\<close>, \<open>ClientEnds\<close>: the goroutines of a client's lobby and of a session's client; no send on a closed
    channel, and the conditions under which all of them end. The four developments of ends interpret the locale
    \<open>draining\<close> of \<open>Draining\<close>: a measure that some step decreases.

  \<^bold>\<open>Both sides\<close>
  \<^item> \<open>Recovery\<close>: a client's request and the server's answers, in any order, close all gaps it knows of.
  \<^item> \<open>ActionPaths\<close>: what the game gets of a player's inputs is a subsequence of them.
  \<^item> \<open>StoryPaths\<close>: what a player gets of a story, through any network, is a prefix of what the game emitted.

  \<^bold>\<open>Package udp\<close> (\<open>udp/*.go\<close>)
  \<^item> \<open>UdpServices\<close>: the goroutines of the UDP service and of its server as one step relation. The properties
    are over all interleavings; sockets are events of the network.
  \<^item> \<open>Sockets\<close>: the client, the sender and the multicast listener (\<open>client.go\<close>, \<open>sender.go\<close>, \<open>multicast.go\<close>) over the
    results of the calls of the network packages: which packets reach the handler, which errors come back, and
    that every socket and membership is given up again.

  \<^bold>\<open>Texts\<close>: the \<open>String\<close> methods of enumerations, tokens and ranges, and what can be read back from them.

  \<^bold>\<open>Bounds.\<close> Sequence numbers are below \<open>int_lim\<close> (the largest int) inside a process and below the width of
  the wire (32 bits) where packets are involved; a run is bounded by the number of its pushes, which is part
  of the statements. Payloads are at most 255 bytes, 254 where they must survive the wire, since 255 is where
  \<open>PutBytes\<close> and \<open>GetBytes\<close> disagree. No definition has fuel: loops are structural, have a measure, or are the
  partial functions above.

  \<^bold>\<open>Not modelled.\<close> The packages \<open>net\<close> and \<open>golang.org/x/net\<close>, whose results are arguments. \<open>LatencyReport.String\<close>, which
  formats floating-point numbers; logging and the options that only set a logger or an address; interface
  assertions. In the step relations a write to a socket and a call of the game's controller are taken to
  return. Of the wait groups the panics of a negative counter and of a reuse are modelled, not those of
  \<open>Add\<close> and \<open>Wait\<close> at the same instant. Data races on memory that is shared without a mutex are outside a model
  whose steps are atomic; those that were found while modelling are in the manifest.
\<close>

end
